(* ===== verification/Prelude.thy ===== *)
theory Prelude
  imports Main "HOL-Library.Word" "HOL-Library.Char_ord"
begin

unbundle bit_operations_syntax

text \<open>
  Shared vocabulary of the development: the C string helpers every program of the
  repository uses (\<^verbatim>\<open>memset\<close>, \<^verbatim>\<open>strlen\<close>, \<^verbatim>\<open>toupper\<close>, \<^verbatim>\<open>isxdigit\<close>, decimal
  and hexadecimal printing, \<^verbatim>\<open>htons\<close>), lemma collections, and the reachability notion the
  concurrent components are stated over.

  Memory is modelled by value: a \<^verbatim>\<open>char buf[n]\<close> is a \<^typ>\<open>string\<close> of length \<open>n\<close>, a
  C string inside it is the part before the first NUL. Reading or writing outside the
  array is a fault of the program (theory Posix), never an unspecified value.
\<close>

named_theorems exec "unfolding rules that run a program on a script"
named_theorems wp_simps "weakest preconditions of the program combinators and of the calls"
named_theorems str_simps "facts about C strings and buffers"

section \<open>Characters\<close>

abbreviation NUL :: char where "NUL \<equiv> CHR 0x00"
abbreviation CR :: char where "CR \<equiv> CHR 0x0D"
abbreviation LF :: char where "LF \<equiv> CHR 0x0A"

definition code :: "char \<Rightarrow> nat" where
  "code c = of_char c"

definition isupper_c :: "char \<Rightarrow> bool" where
  "isupper_c c \<longleftrightarrow> 65 \<le> code c \<and> code c \<le> 90"

definition islower_c :: "char \<Rightarrow> bool" where
  "islower_c c \<longleftrightarrow> 97 \<le> code c \<and> code c \<le> 122"

definition isdigit_c :: "char \<Rightarrow> bool" where
  "isdigit_c c \<longleftrightarrow> 48 \<le> code c \<and> code c \<le> 57"

definition isalnum_c :: "char \<Rightarrow> bool" where
  "isalnum_c c \<longleftrightarrow> isupper_c c \<or> islower_c c \<or> isdigit_c c"

definition isxdigit_c :: "char \<Rightarrow> bool" where
  "isxdigit_c c \<longleftrightarrow> isdigit_c c \<or> (65 \<le> code c \<and> code c \<le> 70) \<or> (97 \<le> code c \<and> code c \<le> 102)"

text \<open>\<^verbatim>\<open>toupper\<close> in the C locale: bytes outside a-z, the negative ones included, are kept.\<close>

definition toupper_c :: "char \<Rightarrow> char" where
  "toupper_c c = (if islower_c c then char_of (code c - 32) else c)"

lemma code_less [simp]: "code c < 256"
  using of_char_mod_256 [of c, where ?'a = nat] mod_less_divisor [of 256 "of_char c :: nat"]
  by (simp add: code_def)

lemma char_of_code [simp]: "char_of (code c) = c"
  by (simp add: code_def)

lemma code_char_of [simp]: "code (char_of (n :: nat)) = n mod 256"
  by (simp add: code_def)

lemma code_inj [simp]: "code c = code d \<longleftrightarrow> c = d"
  by (metis char_of_code)

lemma toupper_c_idem: "toupper_c (toupper_c c) = toupper_c c"
  by (auto simp: toupper_c_def islower_c_def)

lemma toupper_c_NUL [simp]: "toupper_c NUL = NUL"
  by (simp add: toupper_c_def islower_c_def code_def)

lemma toupper_c_eq_NUL [simp]: "toupper_c c = NUL \<longleftrightarrow> c = NUL"
proof -
  have "code (toupper_c c) = 0 \<longleftrightarrow> code c = 0"
    by (auto simp: toupper_c_def islower_c_def)
  moreover have "code NUL = 0" by (simp add: code_def)
  ultimately show ?thesis by (metis code_inj)
qed

lemma toupper_c_not_lower: "\<not> islower_c (toupper_c c)"
  by (auto simp: toupper_c_def islower_c_def)

section \<open>Buffers and C strings\<close>

definition zbuf :: "nat \<Rightarrow> string" where
  \<comment> \<open>\<^verbatim>\<open>memset(buf, 0x00, sizeof(buf))\<close>\<close>
  "zbuf n = replicate n NUL"

definition fill_buf :: "string \<Rightarrow> string \<Rightarrow> string" where
  \<comment> \<open>the buffer after \<open>bs\<close> was stored at its start\<close>
  "fill_buf buf bs = bs @ drop (length bs) buf"

definition cstring :: "string \<Rightarrow> string option" where
  \<comment> \<open>the C string at the start of a buffer; \<open>None\<close> when no terminator lies inside it\<close>
  "cstring b = (if NUL \<in> set b then Some (takeWhile (\<lambda>c. c \<noteq> NUL) b) else None)"

fun upper_prefix :: "nat \<Rightarrow> string \<Rightarrow> string" where
  \<comment> \<open>\<^verbatim>\<open>for(i=0;i<n;i++) buf[i] = toupper(buf[i]);\<close>\<close>
  "upper_prefix 0 buf = buf"
| "upper_prefix (Suc n) [] = []"
| "upper_prefix (Suc n) (c # cs) = toupper_c c # upper_prefix n cs"

lemma length_zbuf [simp]: "length (zbuf n) = n"
  by (simp add: zbuf_def)

lemma zbuf_0 [simp]: "zbuf 0 = []"
  by (simp add: zbuf_def)

lemma drop_zbuf [simp]: "drop k (zbuf n) = zbuf (n - k)"
  by (simp add: zbuf_def)

lemma set_zbuf: "set (zbuf n) = (if n = 0 then {} else {NUL})"
  by (simp add: zbuf_def)

lemma length_fill_buf [simp]: "length bs \<le> length buf \<Longrightarrow> length (fill_buf buf bs) = length buf"
  by (simp add: fill_buf_def)

lemma fill_buf_zbuf: "fill_buf (zbuf n) bs = bs @ zbuf (n - length bs)"
  by (simp add: fill_buf_def)

lemma fill_buf_Nil [simp]: "fill_buf buf [] = buf"
  by (simp add: fill_buf_def)

lemma cstring_zbuf [simp]: "0 < n \<Longrightarrow> cstring (zbuf n) = Some []"
  by (cases n) (simp_all add: cstring_def zbuf_def)

lemma takeWhile_zbuf [simp]: "takeWhile (\<lambda>c. c \<noteq> NUL) (zbuf n) = []"
  by (cases n) (simp_all add: zbuf_def)

lemma takeWhile_append_zbuf:
  "takeWhile (\<lambda>c. c \<noteq> NUL) (bs @ zbuf n) = takeWhile (\<lambda>c. c \<noteq> NUL) bs"
  by (induction bs) auto

lemma cstring_fill [str_simps]:
  "length bs \<le> n \<Longrightarrow>
     cstring (fill_buf (zbuf n) bs)
       = (if NUL \<in> set bs \<or> length bs < n then Some (takeWhile (\<lambda>c. c \<noteq> NUL) bs) else None)"
  by (auto simp: cstring_def fill_buf_zbuf set_zbuf takeWhile_append_zbuf)

lemma upper_prefix_eq: "upper_prefix n buf = map toupper_c (take n buf) @ drop n buf"
  by (induction n buf rule: upper_prefix.induct) auto

lemma length_upper_prefix [simp]: "length (upper_prefix n buf) = length buf"
  by (simp add: upper_prefix_eq)

lemma upper_prefix_append:
  "n = length bs \<Longrightarrow> upper_prefix n (bs @ cs) = map toupper_c bs @ cs"
  by (simp add: upper_prefix_eq)

section \<open>Number formatting: \<^verbatim>\<open>%d\<close>, \<^verbatim>\<open>%02x\<close>\<close>

definition digit_c :: "nat \<Rightarrow> char" where
  "digit_c d = char_of (48 + d)"

fun dec_nat :: "nat \<Rightarrow> string" where
  "dec_nat n = (if n < 10 then [digit_c n] else dec_nat (n div 10) @ [digit_c (n mod 10)])"

declare dec_nat.simps [simp del]

definition dec_int :: "int \<Rightarrow> string" where
  "dec_int i = (if i < 0 then CHR ''-'' # dec_nat (nat (- i)) else dec_nat (nat i))"

definition hexdigit :: "nat \<Rightarrow> char" where
  "hexdigit d = (if d < 10 then char_of (48 + d) else char_of (87 + d))"

definition hex02 :: "nat \<Rightarrow> string" where
  "hex02 n = [hexdigit (n div 16), hexdigit (n mod 16)]"

fun undec_acc :: "nat \<Rightarrow> string \<Rightarrow> nat" where
  "undec_acc a [] = a"
| "undec_acc a (c # cs) = undec_acc (10 * a + (code c - 48)) cs"

lemma undec_acc_append: "undec_acc a (s @ t) = undec_acc (undec_acc a s) t"
  by (induction s arbitrary: a) auto

lemma dec_nat_nonempty [simp]: "dec_nat n \<noteq> []"
  by (subst dec_nat.simps) simp

lemma undec_dec_nat: "undec_acc 0 (dec_nat n) = n"
proof (induction n rule: dec_nat.induct)
  case (1 n)
  show ?case
  proof (cases "n < 10")
    case True
    then show ?thesis by (simp add: dec_nat.simps [of n] digit_c_def)
  next
    case False
    with "1.IH" show ?thesis
      by (simp add: dec_nat.simps [of n] digit_c_def undec_acc_append)
  qed
qed

lemma dec_nat_digits: "c \<in> set (dec_nat n) \<Longrightarrow> isdigit_c c"
proof (induction n rule: dec_nat.induct)
  case (1 n)
  then show ?case
    by (subst (asm) (2) dec_nat.simps)
      (auto simp: digit_c_def isdigit_c_def split: if_splits)
qed

lemma length_dec_nat_less: "n < 10 ^ k \<Longrightarrow> 0 < k \<Longrightarrow> length (dec_nat n) \<le> k"
proof (induction n arbitrary: k rule: dec_nat.induct)
  case (1 n k)
  show ?case
  proof (cases "n < 10")
    case True
    then show ?thesis using 1 by (subst dec_nat.simps) simp
  next
    case False
    with "1.prems" obtain k' where k: "k = Suc k'" by (cases k) auto
    with False "1.prems" have "0 < k'" by (cases k') auto
    moreover have "n div 10 < 10 ^ k'" using "1.prems" k by auto
    ultimately have "length (dec_nat (n div 10)) \<le> k'" using "1.IH" False by blast
    then show ?thesis using False k by (subst dec_nat.simps) simp
  qed
qed

section \<open>Network byte order\<close>

text \<open>The programs run on a little-endian host; \<^verbatim>\<open>htons\<close> and \<^verbatim>\<open>htonl\<close> swap the bytes.\<close>

definition htons :: "16 word \<Rightarrow> 16 word" where
  "htons x = push_bit 8 x OR drop_bit 8 x"

definition ntohs :: "16 word \<Rightarrow> 16 word" where
  "ntohs x = push_bit 8 x OR drop_bit 8 x"

lemma ntohs_htons [simp]: "ntohs (htons x) = x"
  by (rule bit_word_eqI) (auto simp: htons_def ntohs_def bit_simps)
 
section \<open>Reachable states\<close>

inductive reach :: "('s \<Rightarrow> bool) \<Rightarrow> ('s \<Rightarrow> 's \<Rightarrow> bool) \<Rightarrow> 's \<Rightarrow> bool" for init step where
  reach_init: "init s \<Longrightarrow> reach init step s"
| reach_step: "reach init step s \<Longrightarrow> step s t \<Longrightarrow> reach init step t"

text \<open>
  The interface between a concurrent program and its safety argument: an invariant that the
  initial states have and every step keeps. Its one consequence is used by every
  interpretation: the invariant holds in each reachable state.
\<close>

locale invariant_system =
  fixes init :: "'s \<Rightarrow> bool" and step :: "'s \<Rightarrow> 's \<Rightarrow> bool" and inv :: "'s \<Rightarrow> bool"
  assumes inv_init: "init s \<Longrightarrow> inv s"
    and inv_step: "inv s \<Longrightarrow> step s t \<Longrightarrow> inv t"
begin

lemma reach_inv: "reach init step s \<Longrightarrow> inv s"
  by (induction rule: reach.induct) (auto intro: inv_init inv_step)

lemma reach_inv_step: "reach init step s \<Longrightarrow> step s t \<Longrightarrow> inv t"
  by (blast intro: reach_inv reach_step)

end

text \<open>
  A transition system given by an executable step function: \<open>exec a s\<close> is the state after action
  \<open>a\<close>, \<open>None\<close> when \<open>a\<close> is not enabled.
\<close>

definition exec_step :: "('a \<Rightarrow> 's \<Rightarrow> 's option) \<Rightarrow> 's \<Rightarrow> 's \<Rightarrow> bool" where
  "exec_step ex s t \<longleftrightarrow> (\<exists>a. ex a s = Some t)"

primrec runs :: "('a \<Rightarrow> 's \<Rightarrow> 's option) \<Rightarrow> 'a list \<Rightarrow> 's \<Rightarrow> 's option" where
  "runs ex [] s = Some s"
| "runs ex (a # as) s = (case ex a s of None \<Rightarrow> None | Some t \<Rightarrow> runs ex as t)"

lemma runs_reach:
  "reach init (exec_step ex) s \<Longrightarrow> runs ex as s = Some t \<Longrightarrow> reach init (exec_step ex) t"
proof (induction as arbitrary: s)
  case (Cons a as)
  then obtain u where u: "ex a s = Some u" "runs ex as u = Some t" by (auto split: option.splits)
  then have "exec_step ex s u" by (auto simp: exec_step_def)
  with Cons u show ?case by (blast intro: reach_step)
qed simp

section \<open>Conversions\<close>

definition to_int :: "nat \<Rightarrow> int" where
  \<comment> \<open>an unsigned number converted to an \<^verbatim>\<open>int\<close> of 32 bits\<close>
  "to_int k = (int k + 2 ^ 31) mod 2 ^ 32 - 2 ^ 31"

lemma to_int_small [simp]: "k < 2 ^ 31 \<Longrightarrow> to_int k = int k"
  by (simp add: to_int_def)

end
