(* ===== verification/Posix.thy ===== *)
theory Posix
  imports Prelude
begin

text \<open>
  The programs of the repository are straight C over system calls. The kernel is not part of
  the repository, so its behaviour is a parameter: the \<open>script\<close> of a \<open>world\<close> lists, in
  order, the replies the kernel gives to the calls the program makes. A call that finds no
  reply, or a reply no kernel gives to that call (more bytes than were asked for, a directory
  listing for an \<^verbatim>\<open>accept\<close>), does not return: the execution ends there as
  \<open>SBlocked\<close>. Every execution of a program is therefore its run on some script, and a theorem
  for all scripts is a theorem for all kernels and peers. The \<open>trace\<close> records every call with
  its reply and everything printed.

  A program of result type \<open>'a\<close> is a function from worlds to an outcome and a world. An outcome
  is a value, a process exit, a blocked call, a fault (the C program has left what the language
  defines: an access outside an array, a string without terminator, an uninitialised read) or
  divergence (a loop that goes round without making a call).
\<close>

section \<open>Calls and replies\<close>

datatype errno = EINTR | EAGAIN | ECONNABORTED | EBADF | EPIPE | EOTHER int

datatype af = AF_INET | AF_UNIX
datatype socktype = SOCK_STREAM | SOCK_DGRAM

datatype saddr =
    Inet "32 word" "16 word"      \<comment> \<open>\<^verbatim>\<open>sin_addr.s_addr\<close> and \<^verbatim>\<open>sin_port\<close>, as stored\<close>
  | UnixPath string

datatype ctlop = CTL_ADD | CTL_MOD | CTL_DEL

datatype edata = DFd int | DPtr nat   \<comment> \<open>the union \<^verbatim>\<open>epoll_data\<close>: a descriptor or an object\<close>

type_synonym epoll_ev = "32 word \<times> edata"

definition EPOLLIN :: "32 word" where "EPOLLIN = 1"
definition EPOLLOUT :: "32 word" where "EPOLLOUT = 4"
definition EPOLLET :: "32 word" where "EPOLLET = push_bit 31 1"
definition O_NONBLOCK :: "32 word" where "O_NONBLOCK = 2048"
definition INADDR_ANY :: "32 word" where "INADDR_ANY = 0"

datatype ftype = FReg | FDir | FLnk | FOther

datatype arg = AS string | AI int | AErr errno  \<comment> \<open>\<open>AErr\<close>: the text of \<^verbatim>\<open>strerror(errno)\<close>\<close>

datatype syscall =
    KSocket af socktype
  | KSetsockopt int int
  | KBind int saddr
  | KListen int int
  | KConnect int saddr
  | KAccept int
  | KFcntlGet int
  | KFcntlSet int "32 word"
  | KClose int
  | KRead int nat
  | KWrite int string
  | KSend int string
  | KRecv int nat
  | KSendto int string saddr
  | KRecvfrom int nat
  | KEpollCreate int
  | KEpollCtl int ctlop int "epoll_ev option"
  | KEpollWait int nat int
  | KSelect int "int set"
  | KPoll "(int \<times> 32 word) list" int
  | KOpen string
  | KStat string
  | KScandir string
  | KUnlink string
  | KAccess string
  | KTime
  | KSleep nat
  | KFork
  | KWaitpid int
  | KSigIgn int
  | KApi string "arg list"   \<comment> \<open>a function of a library, by name, with its arguments\<close>

datatype occurrence =   \<comment> \<open>what an event loop of a library finds to do\<close>
    OAccept int           \<comment> \<open>a connection on the listener, already accepted\<close>
  | ORead nat             \<comment> \<open>data in this \<^verbatim>\<open>bufferevent\<close>\<close>
  | OWrite nat            \<comment> \<open>its output was drained\<close>
  | OEvent nat "16 word"
  | OInput                \<comment> \<open>the standard input is readable\<close>
  | OSignal
  | OReturn int           \<comment> \<open>nothing more: the loop returns\<close>

datatype reply =
    RInt int
  | RFail errno
  | RData string
  | RFrom string saddr
  | RConn int saddr
  | REvents "epoll_ev list"
  | RReady int "int set"
  | RPoll int "32 word list"
  | RStat ftype int
  | RDir "(string \<times> ftype) list"
  | ROccurs occurrence
  | RWait int "32 word"             \<comment> \<open>a process and its status\<close>
  | RMode "32 word" int int int     \<comment> \<open>\<^verbatim>\<open>st_mode\<close>, \<^verbatim>\<open>st_size\<close>, \<^verbatim>\<open>st_uid\<close>, \<^verbatim>\<open>st_gid\<close>\<close>

datatype event =
    Ev syscall reply
  | Print string "arg list"
  | Perror string

section \<open>Worlds, outcomes, programs\<close>

record world =
  script :: "reply list"
  trace :: "event list"
  errno :: errno

datatype fault = OutOfBounds | Unterminated | Uninitialised | NullPointer | ForeignPointer

datatype stop = SExit int | SBlocked | SFault fault | SDiverge

datatype 'a outcome = Val 'a | Stop stop

type_synonym 'a prog = "world \<Rightarrow> 'a outcome \<times> world"

definition ret :: "'a \<Rightarrow> 'a prog" where
  "ret x w = (Val x, w)"

definition halt :: "stop \<Rightarrow> 'a prog" where
  "halt s w = (Stop s, w)"

definition bnd :: "'a prog \<Rightarrow> ('a \<Rightarrow> 'b prog) \<Rightarrow> 'b prog" where
  "bnd m f w = (case m w of (Val x, w') \<Rightarrow> f x w' | (Stop s, w') \<Rightarrow> (Stop s, w'))"

definition thn :: "'a prog \<Rightarrow> 'b prog \<Rightarrow> 'b prog" where
  "thn m k = bnd m (\<lambda>_. k)"

abbreviation exit_p :: "int \<Rightarrow> 'a prog" where
  "exit_p n \<equiv> halt (SExit n)"

abbreviation fault_p :: "fault \<Rightarrow> 'a prog" where
  "fault_p f \<equiv> halt (SFault f)"

definition emit :: "event \<Rightarrow> unit prog" where
  "emit e w = (Val (), w\<lparr>trace := trace w @ [e]\<rparr>)"

definition printf :: "string \<Rightarrow> arg list \<Rightarrow> unit prog" where
  "printf f xs = emit (Print f xs)"

definition perror :: "string \<Rightarrow> unit prog" where
  "perror s = emit (Perror s)"

definition get_errno :: "errno prog" where
  "get_errno w = (Val (errno w), w)"

definition set_errno :: "errno \<Rightarrow> unit prog" where
  "set_errno e w = (Val (), w\<lparr>errno := e\<rparr>)"

definition c_str :: "string \<Rightarrow> string prog" where
  \<comment> \<open>the C string in a buffer, as \<^verbatim>\<open>%s\<close>, \<^verbatim>\<open>strlen\<close>, \<^verbatim>\<open>strcat\<close> read it\<close>
  "c_str b = (case cstring b of None \<Rightarrow> fault_p Unterminated | Some s \<Rightarrow> ret s)"

definition step_world :: "syscall \<Rightarrow> reply \<Rightarrow> errno option \<Rightarrow> world \<Rightarrow> world" where
  "step_world c r eo w =
     w\<lparr>script := tl (script w), trace := trace w @ [Ev c r],
       errno := (case eo of None \<Rightarrow> errno w | Some e \<Rightarrow> e)\<rparr>"

definition call :: "syscall \<Rightarrow> (reply \<Rightarrow> (errno option \<times> 'a) option) \<Rightarrow> 'a prog" where
  "call c dec w =
     (case script w of
        [] \<Rightarrow> (Stop SBlocked, w)
      | r # _ \<Rightarrow>
          (case dec r of
             None \<Rightarrow> (Stop SBlocked, w)
           | Some (eo, x) \<Rightarrow> (Val x, step_world c r eo w)))"

definition start :: "reply list \<Rightarrow> world" where
  \<comment> \<open>the world in which a program begins to run on a script\<close>
  "start s = \<lparr>script = s, trace = [], errno = EOTHER 0\<rparr>"

lemma start_simps [simp]: "script (start s) = s" "trace (start s) = []"
  by (simp_all add: start_def)

section \<open>Replies as the C results\<close>

fun dec_int_r :: "reply \<Rightarrow> (errno option \<times> int) option" where
  "dec_int_r (RInt n) = (if 0 \<le> n then Some (None, n) else None)"
| "dec_int_r (RFail e) = Some (Some e, -1)"
| "dec_int_r _ = None"

fun dec_data :: "nat \<Rightarrow> reply \<Rightarrow> (errno option \<times> string option) option" where
  \<comment> \<open>\<open>None\<close> is the return value -1; at most the bytes asked for are delivered\<close>
  "dec_data n (RData bs) = (if length bs \<le> n then Some (None, Some bs) else None)"
| "dec_data n (RFail e) = Some (Some e, None)"
| "dec_data n _ = None"

fun dec_count :: "nat \<Rightarrow> reply \<Rightarrow> (errno option \<times> int) option" where
  \<comment> \<open>a \<^verbatim>\<open>write\<close> of \<open>n\<close> bytes reports between 0 and \<open>n\<close> of them, or -1\<close>
  "dec_count n (RInt k) = (if 0 \<le> k \<and> k \<le> int n then Some (None, k) else None)"
| "dec_count n (RFail e) = Some (Some e, -1)"
| "dec_count n _ = None"

fun dec_conn :: "reply \<Rightarrow> (errno option \<times> int \<times> saddr option) option" where
  "dec_conn (RConn fd a) = (if 0 \<le> fd then Some (None, fd, Some a) else None)"
| "dec_conn (RFail e) = Some (Some e, -1, None)"
| "dec_conn _ = None"

fun dec_from :: "nat \<Rightarrow> reply \<Rightarrow> (errno option \<times> (string \<times> saddr) option) option" where
  "dec_from n (RFrom bs a) = (if length bs \<le> n then Some (None, Some (bs, a)) else None)"
| "dec_from n (RFail e) = Some (Some e, None)"
| "dec_from n _ = None"

fun dec_events :: "nat \<Rightarrow> reply \<Rightarrow> (errno option \<times> epoll_ev list option) option" where
  "dec_events n (REvents es) = (if length es \<le> n then Some (None, Some es) else None)"
| "dec_events n (RFail e) = Some (Some e, None)"
| "dec_events n _ = None"

fun rlen :: "string option \<Rightarrow> int" where
  \<comment> \<open>the \<^verbatim>\<open>int\<close> a \<^verbatim>\<open>read\<close> returns\<close>
  "rlen None = -1"
| "rlen (Some bs) = int (length bs)"

fun rbuf :: "string \<Rightarrow> string option \<Rightarrow> string" where
  \<comment> \<open>the buffer after the \<^verbatim>\<open>read\<close>: a failed one leaves it alone\<close>
  "rbuf buf None = buf"
| "rbuf buf (Some bs) = fill_buf buf bs"

definition sys_int :: "syscall \<Rightarrow> int prog" where
  "sys_int c = call c dec_int_r"

definition sys_read :: "int \<Rightarrow> nat \<Rightarrow> string option prog" where
  "sys_read fd n = call (KRead fd n) (dec_data n)"

definition sys_recv :: "int \<Rightarrow> nat \<Rightarrow> string option prog" where
  "sys_recv fd n = call (KRecv fd n) (dec_data n)"

definition sys_write :: "int \<Rightarrow> string \<Rightarrow> int prog" where
  "sys_write fd bs = call (KWrite fd bs) (dec_count (length bs))"

definition sys_send :: "int \<Rightarrow> string \<Rightarrow> int prog" where
  "sys_send fd bs = call (KSend fd bs) (dec_count (length bs))"

definition sys_sendto :: "int \<Rightarrow> string \<Rightarrow> saddr \<Rightarrow> int prog" where
  "sys_sendto fd bs a = call (KSendto fd bs a) (dec_count (length bs))"

definition sys_recvfrom :: "int \<Rightarrow> nat \<Rightarrow> (string \<times> saddr) option prog" where
  "sys_recvfrom fd n = call (KRecvfrom fd n) (dec_from n)"

definition sys_accept :: "int \<Rightarrow> (int \<times> saddr option) prog" where
  "sys_accept fd = call (KAccept fd) dec_conn"

definition sys_epoll_wait :: "int \<Rightarrow> nat \<Rightarrow> int \<Rightarrow> epoll_ev list option prog" where
  "sys_epoll_wait ep n t = call (KEpollWait ep n t) (dec_events n)"

section \<open>Loops\<close>

text \<open>
  A \<^verbatim>\<open>while(1)\<close> body returns \<open>Inl\<close> the loop variables to go round again and \<open>Inr\<close> to leave
  the loop. Every round of nearly every loop of the programs makes a call, so the replies left
  bound the rounds: \<open>forever\<close> gives the loop one round more than there are replies. A loop whose
  rounds may run on buffered input is given another measure (\<open>forever_by\<close>). Theory Logic shows
  that a measure each round decreases never runs out, and that the loop is then its own
  unfolding, the unbounded loop of the source.
\<close>

primrec iter :: "nat \<Rightarrow> ('s \<Rightarrow> ('s + 'r) prog) \<Rightarrow> 's \<Rightarrow> 'r prog" where
  "iter 0 b s = halt SDiverge"
| "iter (Suc n) b s = bnd (b s) (\<lambda>x. case x of Inl s' \<Rightarrow> iter n b s' | Inr r \<Rightarrow> ret r)"

definition forever_by ::
    "('s \<Rightarrow> world \<Rightarrow> nat) \<Rightarrow> ('s \<Rightarrow> ('s + 'r) prog) \<Rightarrow> 's \<Rightarrow> 'r prog" where
  "forever_by m b s w = iter (Suc (m s w)) b s w"

definition forever :: "('s \<Rightarrow> ('s + 'r) prog) \<Rightarrow> 's \<Rightarrow> 'r prog" where
  "forever = forever_by (\<lambda>_ w. length (script w))"

primrec for_each :: "'a list \<Rightarrow> ('a \<Rightarrow> 's \<Rightarrow> ('s + 'r) prog) \<Rightarrow> 's \<Rightarrow> ('s + 'r) prog" where
  "for_each [] b s = ret (Inl s)"
| "for_each (x # xs) b s =
     bnd (b x s) (\<lambda>y. case y of Inl s' \<Rightarrow> for_each xs b s' | Inr r \<Rightarrow> ret (Inr r))"

end
