(* ===== verification/Logic.thy ===== *)
theory Logic
  imports Posix
begin

text \<open>
  Reasoning about programs over scripts: monad laws, a weakest-precondition calculus (one
  equation per combinator, an invariant rule per loop), and the accounting of replies that
  shows a loop never diverges. Component proofs use the collections \<open>exec\<close> (run a program on a
  concrete script), \<open>wp_simps\<close> and the introduction rules for \<open>tame\<close> and \<open>eats\<close>.
\<close>

named_theorems wp_intros "the verification-condition rules: one per combinator and per call"
named_theorems tame_intros "a program gives back no replies and does not diverge"
named_theorems emits_intros "the events a program may add to the trace"

section \<open>Monad laws and execution\<close>

lemma bnd_ret [simp]: "bnd (ret x) f = f x"
  by (rule ext) (simp add: bnd_def ret_def)

lemma bnd_halt [simp]: "bnd (halt s) f = halt s"
  by (rule ext) (simp add: bnd_def halt_def)

lemma thn_ret [simp]: "thn (ret x) k = k"
  by (simp add: thn_def)

lemma thn_halt [simp]: "thn (halt s) k = halt s"
  by (simp add: thn_def)

lemma bnd_assoc: "bnd (bnd m f) g = bnd m (\<lambda>x. bnd (f x) g)"
  by (rule ext) (auto simp: bnd_def split: prod.splits outcome.splits)

lemma thn_assoc: "thn (thn m k) k' = thn m (thn k k')"
  by (simp add: thn_def bnd_assoc)

lemma bnd_thn: "bnd (thn m k) f = thn m (bnd k f)"
  by (simp add: thn_def bnd_assoc)

lemma bnd_cong: "m = m' \<Longrightarrow> (\<And>x. f x = g x) \<Longrightarrow> bnd m f = bnd m' g"
  by (metis ext)

lemma exec_ret [exec]: "ret x w = (Val x, w)"
  by (simp add: ret_def)

lemma exec_halt [exec]: "halt s w = (Stop s, w)"
  by (simp add: halt_def)

lemma exec_bnd [exec]:
  "bnd m f w = (case m w of (Val x, w') \<Rightarrow> f x w' | (Stop s, w') \<Rightarrow> (Stop s, w'))"
  by (simp add: bnd_def)

lemma exec_thn [exec]:
  "thn m k w = (case m w of (Val x, w') \<Rightarrow> k w' | (Stop s, w') \<Rightarrow> (Stop s, w'))"
  by (simp add: thn_def bnd_def)

lemma exec_emit [exec]: "emit e w = (Val (), w\<lparr>trace := trace w @ [e]\<rparr>)"
  by (simp add: emit_def)

lemma exec_printf [exec]: "printf f xs w = (Val (), w\<lparr>trace := trace w @ [Print f xs]\<rparr>)"
  by (simp add: printf_def emit_def)

lemma exec_perror [exec]: "perror s w = (Val (), w\<lparr>trace := trace w @ [Perror s]\<rparr>)"
  by (simp add: perror_def emit_def)

lemma exec_c_str [exec]:
  "c_str b w = (case cstring b of None \<Rightarrow> (Stop (SFault Unterminated), w) | Some s \<Rightarrow> (Val s, w))"
  by (simp add: c_str_def halt_def ret_def split: option.splits)

lemmas exec_calls [exec] =
  call_def step_world_def get_errno_def set_errno_def sys_int_def sys_read_def sys_recv_def
  sys_write_def sys_send_def sys_sendto_def sys_recvfrom_def sys_accept_def sys_epoll_wait_def

lemma step_world_simps [simp]:
  "errno (step_world c r None w) = errno w"
  "errno (step_world c r (Some e) w) = e"
  "script (step_world c r eo w) = tl (script w)"
  "trace (step_world c r eo w) = trace w @ [Ev c r]"
  by (simp_all add: step_world_def)

section \<open>Weakest preconditions\<close>

definition wp :: "'a prog \<Rightarrow> ('a \<Rightarrow> world \<Rightarrow> bool) \<Rightarrow> (stop \<Rightarrow> world \<Rightarrow> bool) \<Rightarrow> world \<Rightarrow> bool" where
  "wp m Q E w = (case m w of (Val x, w') \<Rightarrow> Q x w' | (Stop s, w') \<Rightarrow> E s w')"

lemma wp_ret [wp_simps]: "wp (ret x) Q E w = Q x w"
  by (simp add: wp_def ret_def)

lemma wp_halt [wp_simps]: "wp (halt s) Q E w = E s w"
  by (simp add: wp_def halt_def)

lemma wp_bnd [wp_simps]: "wp (bnd m f) Q E w = wp m (\<lambda>x. wp (f x) Q E) E w"
  by (auto simp: wp_def bnd_def split: prod.splits outcome.splits)

lemma wp_thn [wp_simps]: "wp (thn m k) Q E w = wp m (\<lambda>_. wp k Q E) E w"
  by (simp add: thn_def wp_bnd)

lemma wp_emit [wp_simps]: "wp (emit e) Q E w = Q () (w\<lparr>trace := trace w @ [e]\<rparr>)"
  by (simp add: wp_def emit_def)

lemma wp_printf [wp_simps]: "wp (printf f xs) Q E w = Q () (w\<lparr>trace := trace w @ [Print f xs]\<rparr>)"
  by (simp add: printf_def wp_emit)

lemma wp_perror [wp_simps]: "wp (perror s) Q E w = Q () (w\<lparr>trace := trace w @ [Perror s]\<rparr>)"
  by (simp add: perror_def wp_emit)

lemma wp_get_errno [wp_simps]: "wp get_errno Q E w = Q (errno w) w"
  by (simp add: wp_def get_errno_def)

lemma wp_set_errno [wp_simps]: "wp (set_errno e) Q E w = Q () (w\<lparr>errno := e\<rparr>)"
  by (simp add: wp_def set_errno_def)

lemma wp_c_str [wp_simps]:
  "wp (c_str b) Q E w
     = (case cstring b of None \<Rightarrow> E (SFault Unterminated) w | Some s \<Rightarrow> Q s w)"
  by (simp add: wp_def c_str_def halt_def ret_def split: option.splits)

lemma wp_call [wp_simps]:
  "wp (call c dec) Q E w =
     (case script w of
        [] \<Rightarrow> E SBlocked w
      | r # _ \<Rightarrow> (case dec r of
           None \<Rightarrow> E SBlocked w
         | Some y \<Rightarrow> Q (snd y) (step_world c r (fst y) w)))"
  by (auto simp: wp_def call_def split: list.splits option.splits)

lemma wp_if [wp_simps]: "wp (if b then m else k) Q E w = (if b then wp m Q E w else wp k Q E w)"
  by simp

lemma wp_case_option [wp_simps]:
  "wp (case x of None \<Rightarrow> m | Some y \<Rightarrow> f y) Q E w
     = (case x of None \<Rightarrow> wp m Q E w | Some y \<Rightarrow> wp (f y) Q E w)"
  by (cases x) simp_all

lemma wp_case_prod [wp_simps]:
  "wp (case x of (a, b) \<Rightarrow> f a b) Q E w = (case x of (a, b) \<Rightarrow> wp (f a b) Q E w)"
  by (cases x) simp

lemma wp_bnd_run: "m w = (Val x, w1) \<Longrightarrow> wp (bnd m f) Q E w = wp (f x) Q E w1"
  by (simp add: wp_def bnd_def)

lemma bnd_c_str: "cstring b = Some s \<Longrightarrow> bnd (c_str b) f = f s"
  by (simp add: c_str_def)

lemma wp_conseq:
  assumes "wp m Q E w" and "\<And>x w'. Q x w' \<Longrightarrow> Q' x w'" and "\<And>s w'. E s w' \<Longrightarrow> E' s w'"
  shows "wp m Q' E' w"
  using assms by (auto simp: wp_def split: prod.splits outcome.splits)

lemma wp_conj:
  "wp m Q E w \<Longrightarrow> wp m Q' E' w \<Longrightarrow> wp m (\<lambda>x w'. Q x w' \<and> Q' x w') (\<lambda>s w'. E s w' \<and> E' s w') w"
  by (auto simp: wp_def split: prod.splits outcome.splits)

lemma wpD:
  assumes "wp m Q E w" and "m w = (x, w')"
  shows "case x of Val v \<Rightarrow> Q v w' | Stop s \<Rightarrow> E s w'"
  using assms by (simp add: wp_def split: outcome.splits)

text \<open>The rule for a call against an unknown kernel: any reply the decoder accepts.\<close>

lemma wp_callI:
  assumes "E SBlocked w"
    and "\<And>r eo x s. script w = r # s \<Longrightarrow> dec r = Some (eo, x) \<Longrightarrow> Q x (step_world c r eo w)"
  shows "wp (call c dec) Q E w"
  using assms by (auto simp: wp_call split: list.splits option.splits)

section \<open>Every reply is used up: no divergence\<close>

definition tame :: "'a prog \<Rightarrow> bool" where
  "tame m \<longleftrightarrow> (\<forall>w. length (script (snd (m w))) \<le> length (script w) \<and> fst (m w) \<noteq> Stop SDiverge)"

definition eats :: "'a prog \<Rightarrow> bool" where
  "eats m \<longleftrightarrow> tame m \<and>
     (\<forall>w x w'. m w = (Val x, w') \<longrightarrow> length (script w') < length (script w))"

definition eats_round :: "('s + 'r) prog \<Rightarrow> bool" where
  \<comment> \<open>a loop body: each round that goes on uses a reply\<close>
  "eats_round m \<longleftrightarrow> tame m \<and>
     (\<forall>w x w'. m w = (Val (Inl x), w') \<longrightarrow> length (script w') < length (script w))"

lemma tame_ret [tame_intros]: "tame (ret x)"
  by (simp add: tame_def ret_def)

lemma tame_halt [tame_intros]: "s \<noteq> SDiverge \<Longrightarrow> tame (halt s)"
  by (simp add: tame_def halt_def)

lemma tame_emit [tame_intros]: "tame (emit e)" "tame (printf f xs)" "tame (perror m)"
  by (simp_all add: tame_def emit_def printf_def perror_def)

lemma tame_errno [tame_intros]: "tame get_errno" "tame (set_errno e)"
  by (simp_all add: tame_def get_errno_def set_errno_def)

lemma tame_c_str [tame_intros]: "tame (c_str b)"
  by (simp add: c_str_def tame_def halt_def ret_def split: option.splits)

lemma eats_call: "eats (call c dec)"
  by (auto simp: eats_def tame_def call_def split: list.splits option.splits)

lemma eats_imp_tame: "eats m \<Longrightarrow> tame m"
  by (simp add: eats_def)

lemma tame_call [tame_intros]: "tame (call c dec)"
  by (rule eats_imp_tame [OF eats_call])

lemma tame_bnd [tame_intros]:
  assumes "tame m" and "\<And>x. tame (f x)"
  shows "tame (bnd m f)"
proof -
  have "length (script (snd (bnd m f w))) \<le> length (script w) \<and> fst (bnd m f w) \<noteq> Stop SDiverge"
    for w
  proof (cases "m w")
    case (Pair x w')
    moreover have "length (script w') \<le> length (script w) \<and> x \<noteq> Stop SDiverge"
      using assms(1) Pair by (metis fst_conv snd_conv tame_def)
    moreover have "length (script (snd (f y w'))) \<le> length (script w')
        \<and> fst (f y w') \<noteq> Stop SDiverge" for y
      using assms(2) by (simp add: tame_def)
    ultimately show ?thesis
      by (auto simp: bnd_def intro: le_trans split: outcome.splits)
  qed
  then show ?thesis by (simp add: tame_def)
qed

lemma tame_thn [tame_intros]: "tame m \<Longrightarrow> tame k \<Longrightarrow> tame (thn m k)"
  by (simp add: thn_def tame_bnd)

lemma tame_if [tame_intros]: "(b \<Longrightarrow> tame m) \<Longrightarrow> (\<not> b \<Longrightarrow> tame k) \<Longrightarrow> tame (if b then m else k)"
  by simp

lemma tame_case_option [tame_intros]:
  "tame m \<Longrightarrow> (\<And>y. tame (f y)) \<Longrightarrow> tame (case x of None \<Rightarrow> m | Some y \<Rightarrow> f y)"
  by (cases x) simp_all

lemma tame_case_prod [tame_intros]:
  "(\<And>a b. tame (f a b)) \<Longrightarrow> tame (case x of (a, b) \<Rightarrow> f a b)"
  by (cases x) simp

lemma tame_case_sum [tame_intros]:
  "(\<And>a. tame (f a)) \<Longrightarrow> (\<And>b. tame (g b)) \<Longrightarrow> tame (case x of Inl a \<Rightarrow> f a | Inr b \<Rightarrow> g b)"
  by (cases x) simp_all

lemma tame_for_each [tame_intros]:
  "(\<And>x s. tame (b x s)) \<Longrightarrow> tame (for_each xs b s)"
  by (induction xs arbitrary: s) (auto intro!: tame_intros)

lemma tameD: "tame m \<Longrightarrow> m w = (x, w') \<Longrightarrow> length (script w') \<le> length (script w)"
  by (metis tame_def snd_conv)

lemma tame_no_diverge: "tame m \<Longrightarrow> m w \<noteq> (Stop SDiverge, w')"
  by (metis tame_def fst_conv)

lemma bnd_ValE:
  assumes "bnd m f w = (Val x, w')"
  obtains y w1 where "m w = (Val y, w1)" and "f y w1 = (Val x, w')"
  using assms by (auto simp: bnd_def split: prod.splits outcome.splits)

lemma eats_bnd1:
  assumes "eats m" and "\<And>x. tame (f x)"
  shows "eats (bnd m f)"
  unfolding eats_def
proof (intro conjI allI impI)
  show "tame (bnd m f)" using assms by (blast intro: tame_bnd eats_imp_tame)
next
  fix w x w'
  assume "bnd m f w = (Val x, w')"
  then obtain y w1 where "m w = (Val y, w1)" and "f y w1 = (Val x, w')" by (rule bnd_ValE)
  with assms show "length (script w') < length (script w)"
    using tameD [of "f y" w1 "Val x" w'] by (auto simp: eats_def intro: le_less_trans)
qed

lemma eats_round_bnd2:
  assumes "tame m" and "\<And>x. eats_round (f x)"
  shows "eats_round (bnd m f)"
  unfolding eats_round_def
proof (intro conjI allI impI)
  show "tame (bnd m f)" using assms by (auto intro: tame_bnd simp: eats_round_def)
next
  fix w x w'
  assume "bnd m f w = (Val (Inl x), w')"
  then obtain y w1 where "m w = (Val y, w1)" and "f y w1 = (Val (Inl x), w')" by (rule bnd_ValE)
  moreover have "length (script w1) \<le> length (script w)"
    using assms(1) \<open>m w = (Val y, w1)\<close> by (rule tameD)
  moreover have "length (script w') < length (script w1)"
    using assms(2) [of y] \<open>f y w1 = (Val (Inl x), w')\<close> unfolding eats_round_def by blast
  ultimately show "length (script w') < length (script w)" by simp
qed

lemma eats_round_Inr: "eats_round (ret (Inr r))"
  by (simp add: eats_round_def tame_ret) (simp add: ret_def)

lemma eats_round_halt: "s \<noteq> SDiverge \<Longrightarrow> eats_round (halt s)"
  by (simp add: eats_round_def tame_halt) (simp add: halt_def)

lemma eats_round_if: "(b \<Longrightarrow> eats_round m) \<Longrightarrow> (\<not> b \<Longrightarrow> eats_round k) \<Longrightarrow> eats_round (if b then m else k)"
  by simp

lemma eats_thn1: "eats m \<Longrightarrow> tame k \<Longrightarrow> eats (thn m k)"
  by (simp add: thn_def eats_bnd1)

lemma eats_round_eats: "eats m \<Longrightarrow> eats_round m"
  by (simp add: eats_def eats_round_def)

section \<open>The loop rules\<close>

lemma tame_iter:
  assumes "\<And>s. tame (b s)"
    and "\<And>s w s' w'. b s w = (Val (Inl s'), w') \<Longrightarrow> m s' w' < m s w" and "m s w < n"
  shows "length (script (snd (iter n b s w))) \<le> length (script w)
       \<and> fst (iter n b s w) \<noteq> Stop SDiverge"
  using assms(3)
proof (induction n arbitrary: s w)
  case 0
  then show ?case by simp
next
  case (Suc n)
  obtain x w1 where m: "b s w = (x, w1)" by fastforce
  have le: "length (script w1) \<le> length (script w)" and nd: "x \<noteq> Stop SDiverge"
    using assms(1) [of s] m by (auto dest: tameD tame_no_diverge)
  have lt: "m s' w1 < n" if "x = Val (Inl s')" for s'
    using assms(2) [of s w s' w1] m that Suc.prems by simp
  show ?case
  proof (cases x)
    case (Val y)
    then show ?thesis
    proof (cases y)
      case (Inl s')
      with Suc.IH [OF lt, of s'] le m Val show ?thesis by (auto simp: bnd_def)
    next
      case (Inr r)
      with m Val le show ?thesis by (simp add: bnd_def ret_def)
    qed
  next
    case (Stop s')
    with m le nd show ?thesis by (simp add: bnd_def)
  qed
qed

lemma tame_forever_by:
  assumes "\<And>s. tame (b s)"
    and "\<And>s w s' w'. b s w = (Val (Inl s'), w') \<Longrightarrow> m s' w' < m s w"
  shows "tame (forever_by m b s)"
  unfolding tame_def forever_by_def
  by (rule allI, rule tame_iter [where m = m, OF assms(1) assms(2) lessI])

lemma tame_forever [tame_intros]:
  assumes "\<And>s. eats_round (b s)"
  shows "tame (forever b s)"
  unfolding forever_def using assms
  by (intro tame_forever_by) (auto simp: eats_round_def)

text \<open>More rounds than the measure allows change nothing, so the loop is its own unfolding.\<close>

lemma iter_enough:
  assumes "\<And>s w s' w'. b s w = (Val (Inl s'), w') \<Longrightarrow> m s' w' < m s w"
    and "m s w < n" and "m s w < k"
  shows "iter n b s w = iter k b s w"
  using assms(2,3)
proof (induction n arbitrary: k s w)
  case 0
  then show ?case by simp
next
  case (Suc n)
  from Suc.prems obtain k' where k: "k = Suc k'" by (cases k) auto
  obtain x w1 where m: "b s w = (x, w1)" by fastforce
  show ?case
  proof (cases "\<exists>s'. x = Val (Inl s')")
    case True
    then obtain s' where x: "x = Val (Inl s')" by blast
    with assms(1) [of s w s' w1] m have "m s' w1 < m s w" by simp
    with Suc.prems k have "m s' w1 < n" and "m s' w1 < k'" by auto
    then have "iter n b s' w1 = iter k' b s' w1" by (rule Suc.IH)
    with x m k show ?thesis by (simp add: bnd_def)
  next
    case False
    with m k show ?thesis by (auto simp: bnd_def split: outcome.splits sum.splits)
  qed
qed

lemma forever_by_unfold:
  assumes "\<And>s w s' w'. b s w = (Val (Inl s'), w') \<Longrightarrow> m s' w' < m s w"
  shows "forever_by m b s
       = bnd (b s) (\<lambda>x. case x of Inl s' \<Rightarrow> forever_by m b s' | Inr r \<Rightarrow> ret r)"
proof
  fix w
  obtain x w1 where m: "b s w = (x, w1)" by fastforce
  have eq: "iter (m s w) b s' w1 = forever_by m b s' w1" if "x = Val (Inl s')" for s'
    using assms [of s w s' w1] m that unfolding forever_by_def
    by (intro iter_enough [where m = m] assms) auto
  show "forever_by m b s w
      = bnd (b s) (\<lambda>x. case x of Inl s' \<Rightarrow> forever_by m b s' | Inr r \<Rightarrow> ret r) w"
    using m eq by (auto simp: forever_by_def [of m b s] bnd_def split: outcome.splits sum.splits)
qed

lemma forever_unfold:
  assumes "\<And>s. eats_round (b s)"
  shows "forever b s = bnd (b s) (\<lambda>x. case x of Inl s' \<Rightarrow> forever b s' | Inr r \<Rightarrow> ret r)"
  unfolding forever_def using assms by (intro forever_by_unfold) (simp add: eats_round_def)

lemma wp_iter:
  assumes "I s w"
    and "\<And>s w. I s w \<Longrightarrow>
      wp (b s) (\<lambda>x w'. case x of Inl s' \<Rightarrow> I s' w' | Inr r \<Rightarrow> Q r w') E w"
  shows "wp (iter n b s) Q (\<lambda>st w'. st = SDiverge \<or> E st w') w"
  using assms(1)
proof (induction n arbitrary: s w)
  case 0
  then show ?case by (simp add: wp_halt)
next
  case (Suc n)
  have "wp (b s) (\<lambda>x w'. case x of Inl s' \<Rightarrow> I s' w' | Inr r \<Rightarrow> Q r w') E w"
    using Suc.prems by (rule assms(2))
  then show ?case
    by (simp add: wp_bnd) (erule wp_conseq; auto simp: wp_ret dest: Suc.IH split: sum.splits)
qed

text \<open>
  The invariant rule: \<open>I\<close> holds before the loop, each round keeps it or leaves the loop with
  \<open>Q\<close>; the loop does not diverge since its rounds use replies.
\<close>

lemma wp_forever:
  assumes "\<And>s. eats_round (b s)" and "I s w"
    and "\<And>s w. I s w \<Longrightarrow>
      wp (b s) (\<lambda>x w'. case x of Inl s' \<Rightarrow> I s' w' | Inr r \<Rightarrow> Q r w') E w"
  shows "wp (forever b s) Q E w"
proof -
  have "wp (iter (Suc (length (script w))) b s) Q (\<lambda>st w'. st = SDiverge \<or> E st w') w"
    using assms(2,3) by (rule wp_iter)
  moreover have "fst (forever b s w) \<noteq> Stop SDiverge"
    using tame_forever [OF assms(1)] by (simp add: tame_def)
  ultimately show ?thesis
    by (auto simp: wp_def forever_def forever_by_def split: prod.splits outcome.splits)
qed

text \<open>The same rule with an explicit measure, which the round must decrease.\<close>

lemma wp_forever_by:
  assumes "I s w"
    and "\<And>s w. I s w \<Longrightarrow>
      wp (b s) (\<lambda>x w'. case x of Inl s' \<Rightarrow> I s' w' \<and> m s' w' < m s w | Inr r \<Rightarrow> Q r w') E w"
  shows "wp (forever_by m b s) Q E w"
proof -
  have "wp (iter n b s) Q E w" if "I s w" "m s w < n" for n s w
    using that
  proof (induction n arbitrary: s w)
    case (Suc n)
    have "wp (b s) (\<lambda>x w'. case x of Inl s' \<Rightarrow> I s' w' \<and> m s' w' < m s w | Inr r \<Rightarrow> Q r w') E w"
      using Suc.prems(1) by (rule assms(2))
    then show ?case using Suc.prems(2)
      by (simp add: wp_bnd) (erule wp_conseq; auto simp: wp_ret dest: Suc.IH split: sum.splits)
  qed simp
  from this [OF assms(1) lessI] show ?thesis
    by (simp add: forever_by_def wp_def del: iter.simps)
qed

lemma wp_for_each:
  assumes "I s w"
    and "\<And>x s w. x \<in> set xs \<Longrightarrow> I s w \<Longrightarrow>
      wp (b x s) (\<lambda>y w'. case y of Inl s' \<Rightarrow> I s' w' | Inr r \<Rightarrow> Q (Inr r) w') E w"
    and "\<And>s w. I s w \<Longrightarrow> Q (Inl s) w"
  shows "wp (for_each xs b s) Q E w"
  using assms(1,2)
proof (induction xs arbitrary: s w)
  case Nil
  then show ?case by (simp add: wp_ret assms(3))
next
  case (Cons x xs)
  have "wp (b x s) (\<lambda>y w'. case y of Inl s' \<Rightarrow> I s' w' | Inr r \<Rightarrow> Q (Inr r) w') E w"
    using Cons.prems by simp
  then show ?case
    by (auto simp: wp_bnd wp_ret elim!: wp_conseq intro!: Cons.IH Cons.prems(2) split: sum.splits)
qed

lemma wp_for_each_keep:
  assumes "I s w"
    and "\<And>x s w. x \<in> set xs \<Longrightarrow> I s w \<Longrightarrow>
      wp (b x s) (\<lambda>y w'. case y of Inl s' \<Rightarrow> I s' w' | Inr r \<Rightarrow> R r w') E w"
  shows "wp (for_each xs b s) (\<lambda>y w'. case y of Inl s' \<Rightarrow> I s' w' | Inr r \<Rightarrow> R r w') E w"
  by (rule wp_for_each [where I = I, OF assms(1)])
    (auto elim!: wp_conseq [OF assms(2)] split: sum.splits)

section \<open>Trace properties\<close>

text \<open>
  A trace predicate that only looks at some events is kept by a program that emits none of
  them; \<open>keeps\<close> says that a predicate on worlds survives every outcome.
\<close>

definition keeps :: "(world \<Rightarrow> bool) \<Rightarrow> 'a prog \<Rightarrow> bool" where
  "keeps J m \<longleftrightarrow> (\<forall>w. J w \<longrightarrow> wp m (\<lambda>_. J) (\<lambda>_. J) w)"

lemma keepsD: "keeps J m \<Longrightarrow> J w \<Longrightarrow> wp m (\<lambda>_. J) (\<lambda>_. J) w"
  by (simp add: keeps_def)

lemma keeps_final: "keeps J m \<Longrightarrow> J w \<Longrightarrow> J (snd (m w))"
  using keepsD [of J m w] by (cases "m w"; cases "fst (m w)") (auto simp: wp_def)

text \<open>The trace grew, by events that satisfy \<open>P\<close>.\<close>

definition extends :: "(event \<Rightarrow> bool) \<Rightarrow> world \<Rightarrow> world \<Rightarrow> bool" where
  "extends P w w' \<longleftrightarrow> (\<exists>tr. trace w' = trace w @ tr \<and> list_all P tr)"

text \<open>
  A trace property with memory: an automaton reads the events, \<open>upd\<close> is its step and \<open>chk\<close> what it
  demands of each event in its current state.
\<close>

primrec safe_trace :: "('q \<Rightarrow> event \<Rightarrow> bool) \<Rightarrow> ('q \<Rightarrow> event \<Rightarrow> 'q) \<Rightarrow> 'q \<Rightarrow> event list \<Rightarrow> bool" where
  "safe_trace chk upd q [] = True"
| "safe_trace chk upd q (e # tr) = (chk q e \<and> safe_trace chk upd (upd q e) tr)"

lemma safe_trace_append:
  "safe_trace chk upd q (tr @ tr')
     \<longleftrightarrow> safe_trace chk upd q tr \<and> safe_trace chk upd (foldl upd q tr) tr'"
  by (induction tr arbitrary: q) auto

text \<open>\<open>tracked chk upd q0 q w\<close>: the trace of \<open>w\<close> is safe from \<open>q0\<close> and brings the automaton to \<open>q\<close>.\<close>

definition tracked :: "('q \<Rightarrow> event \<Rightarrow> bool) \<Rightarrow> ('q \<Rightarrow> event \<Rightarrow> 'q) \<Rightarrow> 'q \<Rightarrow> 'q \<Rightarrow> world \<Rightarrow> bool" where
  "tracked chk upd q0 q w \<longleftrightarrow> safe_trace chk upd q0 (trace w) \<and> foldl upd q0 (trace w) = q"

lemma tracked_start: "trace w = [] \<Longrightarrow> tracked chk upd q0 q0 w"
  by (simp add: tracked_def)

lemma tracked_safe: "tracked chk upd q0 q w \<Longrightarrow> safe_trace chk upd q0 (trace w)"
  by (simp add: tracked_def)

lemma tracked_event:
  "tracked chk upd q0 q w \<Longrightarrow> chk q e \<Longrightarrow> tracked chk upd q0 (upd q e) (w\<lparr>trace := trace w @ [e]\<rparr>)"
  by (simp add: tracked_def safe_trace_append)

lemma tracked_call:
  "tracked chk upd q0 q w \<Longrightarrow> chk q (Ev c r) \<Longrightarrow>
     tracked chk upd q0 (upd q (Ev c r)) (step_world c r eo w)"
  by (simp add: tracked_def safe_trace_append)

lemma tracked_quiet:
  assumes "tracked chk upd q0 q w" and "extends P w w'"
    and "\<And>e. P e \<Longrightarrow> chk q e \<and> upd q e = q"
  shows "tracked chk upd q0 q w'"
proof -
  have "list_all P tr \<Longrightarrow> safe_trace chk upd q tr \<and> foldl upd q tr = q" for tr
    using assms(3) by (induction tr) auto
  with assms(1,2) show ?thesis by (auto simp: tracked_def extends_def safe_trace_append)
qed

text \<open>
  \<open>emits P m\<close>: whatever the kernel answers, every event \<open>m\<close> adds to the trace satisfies \<open>P\<close>.
\<close>

definition emits :: "(event \<Rightarrow> bool) \<Rightarrow> 'a prog \<Rightarrow> bool" where
  "emits P m \<longleftrightarrow> (\<forall>w. \<exists>tr. trace (snd (m w)) = trace w @ tr \<and> list_all P tr)"

lemma emitsE:
  assumes "emits P m" and "m w = (x, w')"
  obtains tr where "trace w' = trace w @ tr" and "list_all P tr"
  using assms unfolding emits_def by (metis snd_conv)

lemma emits_mono: "emits P m \<Longrightarrow> (\<And>e. P e \<Longrightarrow> Q e) \<Longrightarrow> emits Q m"
  unfolding emits_def by (metis list.pred_mono_strong)

lemma emits_atom [emits_intros]:
  "emits P (ret x)" "emits P (halt s)" "emits P get_errno" "emits P (set_errno e)"
  "emits P (c_str b)"
  by (simp_all add: emits_def ret_def halt_def get_errno_def set_errno_def c_str_def
      split: option.splits)

lemma emits_event [emits_intros]:
  "P e \<Longrightarrow> emits P (emit e)" "P (Print f xs) \<Longrightarrow> emits P (printf f xs)"
  "P (Perror m) \<Longrightarrow> emits P (perror m)"
  by (simp_all add: emits_def emit_def printf_def perror_def)

lemma emits_call [emits_intros]: "(\<And>r. P (Ev c r)) \<Longrightarrow> emits P (call c dec)"
  by (auto simp: emits_def call_def split: list.splits option.splits)

lemma emits_bnd [emits_intros]:
  assumes "emits P m" and "\<And>x. emits P (f x)"
  shows "emits P (bnd m f)"
  unfolding emits_def
proof
  fix w
  obtain x w1 where m: "m w = (x, w1)" by fastforce
  from assms(1) m obtain tr where tr: "trace w1 = trace w @ tr" "list_all P tr" by (rule emitsE)
  show "\<exists>tr. trace (snd (bnd m f w)) = trace w @ tr \<and> list_all P tr"
  proof (cases x)
    case (Val y)
    obtain z w2 where f: "f y w1 = (z, w2)" by fastforce
    from assms(2) f obtain tr' where "trace w2 = trace w1 @ tr'" "list_all P tr'" by (rule emitsE)
    with m f tr Val show ?thesis by (auto simp: bnd_def)
  next
    case (Stop s)
    with m tr show ?thesis by (auto simp: bnd_def)
  qed
qed

lemma emits_thn [emits_intros]: "emits P m \<Longrightarrow> emits P k \<Longrightarrow> emits P (thn m k)"
  by (simp add: thn_def emits_bnd)

lemma emits_if [emits_intros]:
  "(b \<Longrightarrow> emits P m) \<Longrightarrow> (\<not> b \<Longrightarrow> emits P k) \<Longrightarrow> emits P (if b then m else k)"
  by simp

lemma emits_case [emits_intros]:
  "emits P m \<Longrightarrow> (\<And>y. emits P (f y)) \<Longrightarrow> emits P (case x of None \<Rightarrow> m | Some y \<Rightarrow> f y)"
  "(\<And>a b. emits P (g a b)) \<Longrightarrow> emits P (case y of (a, b) \<Rightarrow> g a b)"
  "(\<And>a. emits P (h a)) \<Longrightarrow> (\<And>b. emits P (h' b)) \<Longrightarrow>
     emits P (case z of Inl a \<Rightarrow> h a | Inr b \<Rightarrow> h' b)"
  by (cases x, simp_all) (cases y, simp, cases z, simp_all)

lemma emits_iter: "(\<And>s. emits P (b s)) \<Longrightarrow> emits P (iter n b s)"
  by (induction n arbitrary: s) (auto intro!: emits_intros)

lemma emits_forever_by [emits_intros]: "(\<And>s. emits P (b s)) \<Longrightarrow> emits P (forever_by m b s)"
  using emits_iter [of P b] by (simp add: emits_def forever_by_def del: iter.simps)

lemma emits_forever [emits_intros]: "(\<And>s. emits P (b s)) \<Longrightarrow> emits P (forever b s)"
  by (simp add: forever_def emits_forever_by)

lemma emits_for_each [emits_intros]:
  "(\<And>x s. emits P (b x s)) \<Longrightarrow> emits P (for_each xs b s)"
  by (induction xs arbitrary: s) (auto intro!: emits_intros)

lemma emits_sys [emits_intros]:
  "(\<And>r. P (Ev c r)) \<Longrightarrow> emits P (sys_int c)"
  "(\<And>r. P (Ev (KRead fd n) r)) \<Longrightarrow> emits P (sys_read fd n)"
  "(\<And>r. P (Ev (KRecv fd n) r)) \<Longrightarrow> emits P (sys_recv fd n)"
  "(\<And>r. P (Ev (KWrite fd bs) r)) \<Longrightarrow> emits P (sys_write fd bs)"
  "(\<And>r. P (Ev (KSend fd bs) r)) \<Longrightarrow> emits P (sys_send fd bs)"
  "(\<And>r. P (Ev (KSendto fd bs a) r)) \<Longrightarrow> emits P (sys_sendto fd bs a)"
  "(\<And>r. P (Ev (KRecvfrom fd n) r)) \<Longrightarrow> emits P (sys_recvfrom fd n)"
  "(\<And>r. P (Ev (KAccept fd) r)) \<Longrightarrow> emits P (sys_accept fd)"
  "(\<And>r. P (Ev (KEpollWait ep n t) r)) \<Longrightarrow> emits P (sys_epoll_wait ep n t)"
  by (simp_all add: emits_call sys_int_def sys_read_def sys_recv_def sys_write_def sys_send_def
      sys_sendto_def sys_recvfrom_def sys_accept_def sys_epoll_wait_def)

lemma wp_emits:
  assumes "emits P m"
    and "\<And>x w' tr. trace w' = trace w @ tr \<Longrightarrow> list_all P tr \<Longrightarrow> Q x w'"
    and "\<And>s w' tr. trace w' = trace w @ tr \<Longrightarrow> list_all P tr \<Longrightarrow> E s w'"
  shows "wp m Q E w"
proof (cases "m w")
  case (Pair x w')
  with assms show ?thesis by (auto simp: wp_def elim: emitsE split: outcome.splits)
qed

text \<open>The same with a result: \<open>m\<close> only adds \<open>P\<close> events and what it returns satisfies \<open>R\<close>.\<close>

definition yields :: "(event \<Rightarrow> bool) \<Rightarrow> ('a \<Rightarrow> bool) \<Rightarrow> 'a prog \<Rightarrow> bool" where
  "yields P R m \<longleftrightarrow> (\<forall>w. wp m (\<lambda>x w'. extends P w w' \<and> R x) (\<lambda>_ w'. extends P w w') w)"

lemma extends_refl: "extends P w w"
  by (simp add: extends_def)

lemma extends_trans: "extends P w w1 \<Longrightarrow> extends P w1 w2 \<Longrightarrow> extends P w w2"
  by (fastforce simp: extends_def)

lemma yieldsD: "yields P R m \<Longrightarrow> wp m (\<lambda>x w'. extends P w w' \<and> R x) (\<lambda>_ w'. extends P w w') w"
  by (simp add: yields_def)

lemma yields_emits: "emits P m \<Longrightarrow> (\<And>x. R x) \<Longrightarrow> yields P R m"
  unfolding yields_def extends_def by (auto intro: wp_emits)

lemma yields_conseq: "yields P R m \<Longrightarrow> (\<And>x. R x \<Longrightarrow> R' x) \<Longrightarrow> yields P R' m"
  unfolding yields_def by (auto intro: wp_conseq)

lemma yields_ret: "R x \<Longrightarrow> yields P R (ret x)"
  by (simp add: yields_def wp_ret extends_refl)

lemma yields_halt: "yields P R (halt s)"
  by (simp add: yields_def wp_halt extends_refl)

lemma yields_bnd:
  assumes "yields P S m" and "\<And>x. S x \<Longrightarrow> yields P R (f x)"
  shows "yields P R (bnd m f)"
  unfolding yields_def wp_bnd
proof
  fix w
  show "wp m (\<lambda>x. wp (f x) (\<lambda>x w'. extends P w w' \<and> R x) (\<lambda>_ w'. extends P w w'))
      (\<lambda>_ w'. extends P w w') w"
    by (rule wp_conseq [OF yieldsD [OF assms(1)]])
      (auto intro: wp_conseq [OF yieldsD [OF assms(2)]] extends_trans)
qed

lemma yields_thn: "yields P (\<lambda>_. True) m \<Longrightarrow> yields P R k \<Longrightarrow> yields P R (thn m k)"
  unfolding thn_def by (rule yields_bnd)

lemma yields_if: "(b \<Longrightarrow> yields P R m) \<Longrightarrow> (\<not> b \<Longrightarrow> yields P R k) \<Longrightarrow> yields P R (if b then m else k)"
  by simp

lemma yields_iter:
  assumes "\<And>s. I s \<Longrightarrow> yields P (\<lambda>x. case x of Inl s' \<Rightarrow> I s' | Inr r \<Rightarrow> R r) (b s)"
  shows "I s \<Longrightarrow> yields P R (iter n b s)"
  by (induction n arbitrary: s)
    (auto intro!: yields_halt yields_bnd [OF assms] yields_ret split: sum.splits)

lemma yields_forever_by:
  assumes "\<And>s. I s \<Longrightarrow> yields P (\<lambda>x. case x of Inl s' \<Rightarrow> I s' | Inr r \<Rightarrow> R r) (b s)" and "I s"
  shows "yields P R (forever_by m b s)"
  using yields_iter [of I P R b, OF assms]
  by (simp add: yields_def wp_def forever_by_def del: iter.simps)

section \<open>Reasoning about single calls\<close>

lemma wp_sys_int [wp_simps]:
  "wp (sys_int c) Q E w =
     (case script w of
        RInt n # _ \<Rightarrow> if 0 \<le> n then Q n (step_world c (RInt n) None w) else E SBlocked w
      | RFail e # _ \<Rightarrow> Q (-1) (step_world c (RFail e) (Some e) w)
      | _ \<Rightarrow> E SBlocked w)"
  by (auto simp: sys_int_def wp_call split: list.splits reply.splits)

lemma wp_sys_write [wp_simps]:
  "wp (sys_write fd bs) Q E w =
     (case script w of
        RInt n # _ \<Rightarrow>
          if 0 \<le> n \<and> n \<le> int (length bs)
          then Q n (step_world (KWrite fd bs) (RInt n) None w) else E SBlocked w
      | RFail e # _ \<Rightarrow> Q (-1) (step_world (KWrite fd bs) (RFail e) (Some e) w)
      | _ \<Rightarrow> E SBlocked w)"
  by (auto simp: sys_write_def wp_call split: list.splits reply.splits)

lemma wp_sys_read [wp_simps]:
  "wp (sys_read fd n) Q E w =
     (case script w of
        RData bs # _ \<Rightarrow>
          if length bs \<le> n
          then Q (Some bs) (step_world (KRead fd n) (RData bs) None w) else E SBlocked w
      | RFail e # _ \<Rightarrow> Q None (step_world (KRead fd n) (RFail e) (Some e) w)
      | _ \<Rightarrow> E SBlocked w)"
  by (auto simp: sys_read_def wp_call split: list.splits reply.splits)

lemma wp_sys_accept [wp_simps]:
  "wp (sys_accept fd) Q E w =
     (case script w of
        RConn n a # _ \<Rightarrow>
          if 0 \<le> n then Q (n, Some a) (step_world (KAccept fd) (RConn n a) None w)
          else E SBlocked w
      | RFail e # _ \<Rightarrow> Q (-1, None) (step_world (KAccept fd) (RFail e) (Some e) w)
      | _ \<Rightarrow> E SBlocked w)"
  by (auto simp: sys_accept_def wp_call split: list.splits reply.splits)


lemma wp_sys_send [wp_simps]:
  "wp (sys_send fd bs) Q E w =
     (case script w of
        RInt n # _ \<Rightarrow>
          if 0 \<le> n \<and> n \<le> int (length bs)
          then Q n (step_world (KSend fd bs) (RInt n) None w) else E SBlocked w
      | RFail e # _ \<Rightarrow> Q (-1) (step_world (KSend fd bs) (RFail e) (Some e) w)
      | _ \<Rightarrow> E SBlocked w)"
  by (auto simp: sys_send_def wp_call split: list.splits reply.splits)

lemma wp_sys_recv [wp_simps]:
  "wp (sys_recv fd n) Q E w =
     (case script w of
        RData bs # _ \<Rightarrow>
          if length bs \<le> n
          then Q (Some bs) (step_world (KRecv fd n) (RData bs) None w) else E SBlocked w
      | RFail e # _ \<Rightarrow> Q None (step_world (KRecv fd n) (RFail e) (Some e) w)
      | _ \<Rightarrow> E SBlocked w)"
  by (auto simp: sys_recv_def wp_call split: list.splits reply.splits)

lemma wp_sys_sendto [wp_simps]:
  "wp (sys_sendto fd bs a) Q E w =
     (case script w of
        RInt n # _ \<Rightarrow>
          if 0 \<le> n \<and> n \<le> int (length bs)
          then Q n (step_world (KSendto fd bs a) (RInt n) None w) else E SBlocked w
      | RFail e # _ \<Rightarrow> Q (-1) (step_world (KSendto fd bs a) (RFail e) (Some e) w)
      | _ \<Rightarrow> E SBlocked w)"
  by (auto simp: sys_sendto_def wp_call split: list.splits reply.splits)

lemma wp_sys_recvfrom [wp_simps]:
  "wp (sys_recvfrom fd n) Q E w =
     (case script w of
        RFrom bs a # _ \<Rightarrow>
          if length bs \<le> n
          then Q (Some (bs, a)) (step_world (KRecvfrom fd n) (RFrom bs a) None w) else E SBlocked w
      | RFail e # _ \<Rightarrow> Q None (step_world (KRecvfrom fd n) (RFail e) (Some e) w)
      | _ \<Rightarrow> E SBlocked w)"
  by (auto simp: sys_recvfrom_def wp_call split: list.splits reply.splits)

lemma wp_sys_epoll_wait [wp_simps]:
  "wp (sys_epoll_wait ep n t) Q E w =
     (case script w of
        REvents es # _ \<Rightarrow>
          if length es \<le> n
          then Q (Some es) (step_world (KEpollWait ep n t) (REvents es) None w) else E SBlocked w
      | RFail e # _ \<Rightarrow> Q None (step_world (KEpollWait ep n t) (RFail e) (Some e) w)
      | _ \<Rightarrow> E SBlocked w)"
  by (auto simp: sys_epoll_wait_def wp_call split: list.splits reply.splits)

section \<open>Verification conditions\<close>

text \<open>
  The same calculus as introduction rules, for runs against an unknown kernel: a call has one
  premise for every result the C code can see, and one for not returning.
\<close>

lemmas wp_intros_eq [wp_intros] =
  wp_ret [THEN iffD2] wp_halt [THEN iffD2] wp_bnd [THEN iffD2] wp_thn [THEN iffD2]
  wp_emit [THEN iffD2] wp_printf [THEN iffD2] wp_perror [THEN iffD2]
  wp_get_errno [THEN iffD2] wp_set_errno [THEN iffD2]

lemma wp_ifI [wp_intros]:
  "(b \<Longrightarrow> wp m Q E w) \<Longrightarrow> (\<not> b \<Longrightarrow> wp k Q E w) \<Longrightarrow> wp (if b then m else k) Q E w"
  by simp

lemma wp_case_optionI [wp_intros]:
  "(x = None \<Longrightarrow> wp m Q E w) \<Longrightarrow> (\<And>y. x = Some y \<Longrightarrow> wp (f y) Q E w) \<Longrightarrow>
   wp (case x of None \<Rightarrow> m | Some y \<Rightarrow> f y) Q E w"
  by (cases x) simp_all

lemma wp_case_prodI [wp_intros]:
  "(\<And>a b. x = (a, b) \<Longrightarrow> wp (f a b) Q E w) \<Longrightarrow> wp (case x of (a, b) \<Rightarrow> f a b) Q E w"
  by (cases x) simp

lemma wp_case_sumI [wp_intros]:
  "(\<And>a. x = Inl a \<Longrightarrow> wp (f a) Q E w) \<Longrightarrow> (\<And>b. x = Inr b \<Longrightarrow> wp (g b) Q E w) \<Longrightarrow>
   wp (case x of Inl a \<Rightarrow> f a | Inr b \<Rightarrow> g b) Q E w"
  by (cases x) simp_all

lemma wp_LetI [wp_intros]: "(\<And>x. x = t \<Longrightarrow> wp (f x) Q E w) \<Longrightarrow> wp (let x = t in f x) Q E w"
  by simp

lemma wp_c_strI [wp_intros]:
  "(cstring b = None \<Longrightarrow> E (SFault Unterminated) w) \<Longrightarrow> (\<And>s. cstring b = Some s \<Longrightarrow> Q s w) \<Longrightarrow>
   wp (c_str b) Q E w"
  by (simp add: wp_c_str split: option.splits)

lemma wp_sys_intI [wp_intros]:
  assumes "E SBlocked w"
    and "\<And>n. 0 \<le> n \<Longrightarrow> Q n (step_world c (RInt n) None w)"
    and "\<And>e. Q (-1) (step_world c (RFail e) (Some e) w)"
  shows "wp (sys_int c) Q E w"
  using assms by (auto simp: wp_sys_int split: list.splits reply.splits)

text \<open>For postconditions that do not look at the result or the trace.\<close>

lemma wp_any: "(\<And>x w'. Q x w') \<Longrightarrow> (\<And>w'. E SBlocked w') \<Longrightarrow> wp (sys_int c) Q E w"
  by (simp add: wp_sys_int split: list.splits reply.splits)

lemmas wp_steps =
  wp_ret [THEN iffD2] wp_halt [THEN iffD2] wp_bnd [THEN iffD2] wp_thn [THEN iffD2]
  wp_printf [THEN iffD2] wp_perror [THEN iffD2] wp_get_errno [THEN iffD2] wp_ifI wp_any

lemma wp_sys_writeI [wp_intros]:
  assumes "E SBlocked w"
    and "\<And>n. 0 \<le> n \<Longrightarrow> n \<le> int (length bs) \<Longrightarrow> Q n (step_world (KWrite fd bs) (RInt n) None w)"
    and "\<And>e. Q (-1) (step_world (KWrite fd bs) (RFail e) (Some e) w)"
  shows "wp (sys_write fd bs) Q E w"
  using assms by (auto simp: wp_sys_write split: list.splits reply.splits)

lemma wp_sys_sendI [wp_intros]:
  assumes "E SBlocked w"
    and "\<And>n. 0 \<le> n \<Longrightarrow> n \<le> int (length bs) \<Longrightarrow> Q n (step_world (KSend fd bs) (RInt n) None w)"
    and "\<And>e. Q (-1) (step_world (KSend fd bs) (RFail e) (Some e) w)"
  shows "wp (sys_send fd bs) Q E w"
  using assms by (auto simp: wp_sys_send split: list.splits reply.splits)

lemma wp_sys_sendtoI [wp_intros]:
  assumes "E SBlocked w"
    and "\<And>n. 0 \<le> n \<Longrightarrow> n \<le> int (length bs) \<Longrightarrow>
           Q n (step_world (KSendto fd bs a) (RInt n) None w)"
    and "\<And>e. Q (-1) (step_world (KSendto fd bs a) (RFail e) (Some e) w)"
  shows "wp (sys_sendto fd bs a) Q E w"
  using assms by (auto simp: wp_sys_sendto split: list.splits reply.splits)

lemma wp_sys_readI [wp_intros]:
  assumes "E SBlocked w"
    and "\<And>bs. length bs \<le> n \<Longrightarrow> Q (Some bs) (step_world (KRead fd n) (RData bs) None w)"
    and "\<And>e. Q None (step_world (KRead fd n) (RFail e) (Some e) w)"
  shows "wp (sys_read fd n) Q E w"
  using assms by (auto simp: wp_sys_read split: list.splits reply.splits)

lemma wp_sys_recvI [wp_intros]:
  assumes "E SBlocked w"
    and "\<And>bs. length bs \<le> n \<Longrightarrow> Q (Some bs) (step_world (KRecv fd n) (RData bs) None w)"
    and "\<And>e. Q None (step_world (KRecv fd n) (RFail e) (Some e) w)"
  shows "wp (sys_recv fd n) Q E w"
  using assms by (auto simp: wp_sys_recv split: list.splits reply.splits)

lemma wp_sys_recvfromI [wp_intros]:
  assumes "E SBlocked w"
    and "\<And>bs a. length bs \<le> n \<Longrightarrow>
           Q (Some (bs, a)) (step_world (KRecvfrom fd n) (RFrom bs a) None w)"
    and "\<And>e. Q None (step_world (KRecvfrom fd n) (RFail e) (Some e) w)"
  shows "wp (sys_recvfrom fd n) Q E w"
  using assms by (auto simp: wp_sys_recvfrom split: list.splits reply.splits)

lemma wp_sys_acceptI [wp_intros]:
  assumes "E SBlocked w"
    and "\<And>n a. 0 \<le> n \<Longrightarrow> Q (n, Some a) (step_world (KAccept fd) (RConn n a) None w)"
    and "\<And>e. Q (-1, None) (step_world (KAccept fd) (RFail e) (Some e) w)"
  shows "wp (sys_accept fd) Q E w"
  using assms by (auto simp: wp_sys_accept split: list.splits reply.splits)

lemma wp_sys_epoll_waitI [wp_intros]:
  assumes "E SBlocked w"
    and "\<And>es. length es \<le> n \<Longrightarrow> Q (Some es) (step_world (KEpollWait ep n t) (REvents es) None w)"
    and "\<And>e. Q None (step_world (KEpollWait ep n t) (RFail e) (Some e) w)"
  shows "wp (sys_epoll_wait ep n t) Q E w"
  using assms by (auto simp: wp_sys_epoll_wait split: list.splits reply.splits)

section \<open>Calls use a reply\<close>

lemma eats_sys [tame_intros]:
  "eats (sys_int c)" "eats (sys_read fd n)" "eats (sys_recv fd n)" "eats (sys_write fd bs)"
  "eats (sys_send fd bs)" "eats (sys_sendto fd bs a)" "eats (sys_recvfrom fd n)"
  "eats (sys_accept fd)" "eats (sys_epoll_wait ep n t)"
  by (simp_all add: sys_int_def sys_read_def sys_recv_def sys_write_def sys_send_def
      sys_sendto_def sys_recvfrom_def sys_accept_def sys_epoll_wait_def eats_call)

lemmas tame_sys [tame_intros] = eats_sys [THEN eats_imp_tame]

lemmas eats_sys_round = eats_sys [THEN eats_bnd1, THEN eats_round_eats]

end
