(* ===== verification/UrlCodec.thy ===== *)
theory UrlCodec
  imports Logic
begin

text \<open>
  The string helpers of \<^verbatim>\<open>httpService/http_service.c\<close>: \<^verbatim>\<open>hexit\<close>, \<^verbatim>\<open>strdecode\<close> (URL decoding,
  called in place), \<^verbatim>\<open>strencode\<close> (URL encoding into a sized buffer) and \<^verbatim>\<open>get_mime_type\<close>.

  \<open>strdecode_mem\<close> is the loop of the source over one array with the two cursors \<open>to\<close> and
  \<open>from\<close>; \<open>decoded\<close> is the string function it computes, which the in-place theorem states.
\<close>

section \<open>Hexadecimal digits\<close>

definition hexit :: "char \<Rightarrow> nat" where
  "hexit c =
     (if 48 \<le> code c \<and> code c \<le> 57 then code c - 48
      else if 97 \<le> code c \<and> code c \<le> 102 then code c - 97 + 10
      else if 65 \<le> code c \<and> code c \<le> 70 then code c - 65 + 10
      else 0)"

lemma hexit_less: "hexit c < 16"
  by (auto simp: hexit_def)

lemma code_hexdigit: "d < 16 \<Longrightarrow> code (hexdigit d) = (if d < 10 then 48 + d else 87 + d)"
  by (auto simp: hexdigit_def)

lemma isxdigit_hexdigit: "d < 16 \<Longrightarrow> isxdigit_c (hexdigit d)"
  by (auto simp: isxdigit_c_def isdigit_c_def code_hexdigit)

lemma hexit_hexdigit: "d < 16 \<Longrightarrow> hexit (hexdigit d) = d"
  by (auto simp: hexit_def code_hexdigit)

lemma isxdigit_NUL [simp]: "\<not> isxdigit_c NUL"
  by (simp add: isxdigit_c_def isdigit_c_def code_def)

lemma isxdigit_not_NUL: "isxdigit_c c \<Longrightarrow> c \<noteq> NUL"
  by auto

section \<open>Decoding\<close>

definition is_escape :: "char \<Rightarrow> char \<Rightarrow> char \<Rightarrow> bool" where
  "is_escape c a b \<longleftrightarrow> c = CHR ''%'' \<and> isxdigit_c a \<and> isxdigit_c b"

definition unhex :: "char \<Rightarrow> char \<Rightarrow> char" where
  "unhex a b = char_of (hexit a * 16 + hexit b)"

fun decoded :: "string \<Rightarrow> string" where
  "decoded (c # a # b # s) =
     (if is_escape c a b then unhex a b # decoded s else c # decoded (a # b # s))"
| "decoded (c # s) = c # decoded s"
| "decoded [] = []"

text \<open>
  \<^verbatim>\<open>strdecode(to, from)\<close> with both pointers in the array \<open>buf\<close>; \<open>None\<close> is an access outside
  the array. \<^verbatim>\<open>isxdigit(from[2])\<close> is only evaluated after \<^verbatim>\<open>isxdigit(from[1])\<close>.
\<close>

definition hex_at :: "string \<Rightarrow> nat \<Rightarrow> bool option" where
  "hex_at buf k = (if k < length buf then Some (isxdigit_c (buf ! k)) else None)"

definition escape_at :: "string \<Rightarrow> nat \<Rightarrow> bool option" where
  "escape_at buf f =
     (if buf ! f \<noteq> CHR ''%'' then Some False
      else case hex_at buf (Suc f) of
             None \<Rightarrow> None
           | Some False \<Rightarrow> Some False
           | Some True \<Rightarrow> hex_at buf (f + 2))"

function strdecode_mem :: "string \<Rightarrow> nat \<Rightarrow> nat \<Rightarrow> string option" where
  "strdecode_mem buf t f =
     (if length buf \<le> f \<or> length buf \<le> t then None
      else if buf ! f = NUL then Some (buf[t := NUL])
      else case escape_at buf f of
             None \<Rightarrow> None
           | Some True \<Rightarrow>
               strdecode_mem (buf[t := unhex (buf ! Suc f) (buf ! (f + 2))])
                 (Suc t) (f + 3)
           | Some False \<Rightarrow> strdecode_mem (buf[t := buf ! f]) (Suc t) (Suc f))"
  by pat_completeness auto
termination
  by (relation "measure (\<lambda>(buf, t, f). length buf - f)") auto

declare strdecode_mem.simps [simp del]

text \<open>\<^verbatim>\<open>strdecode(p, p)\<close> on the C string that starts at offset \<open>k\<close> of \<open>buf\<close>.\<close>

definition strdecode_inplace :: "string \<Rightarrow> nat \<Rightarrow> string option" where
  "strdecode_inplace buf k = strdecode_mem buf k k"

lemma length_decoded: "length (decoded s) \<le> length s"
  by (induction s rule: decoded.induct) auto

lemma escape_at_append:
  assumes "NUL \<notin> set s"
  shows "escape_at (g @ c # s @ NUL # r) (length g)
       = Some (case s of a # b # s' \<Rightarrow> is_escape c a b | _ \<Rightarrow> False)"
  using isxdigit_not_NUL [of NUL] assms
  by (auto simp: escape_at_def hex_at_def is_escape_def nth_append split: list.splits bool.splits)

text \<open>
  The writing cursor never overtakes the reading one, so what is still to be read is intact:
  with \<open>s\<close> the unread string, the rest of the run writes \<open>decoded s\<close> and a terminator at the
  writing cursor and changes nothing else.
\<close>

lemma strdecode_mem_copy:
  assumes "buf = g @ c # s @ NUL # r" and "t \<le> length g" and "NUL \<notin> set (c # s)"
    and "\<not> (case s of a # b # s' \<Rightarrow> is_escape c a b | _ \<Rightarrow> False)"
  shows "strdecode_mem buf t (length g) = strdecode_mem (buf[t := c]) (Suc t) (length (g @ [c]))"
proof -
  have "escape_at buf (length g) = Some False"
    using assms(1,3,4) by (simp add: escape_at_append)
  moreover have "buf ! length g = c" and "c \<noteq> NUL" and "length g < length buf"
    using assms(1,3) by auto
  ultimately show ?thesis using assms(2) by (subst strdecode_mem.simps) simp
qed

lemma strdecode_mem_escape:
  assumes "buf = g @ c # a # b # s @ NUL # r" and "t \<le> length g" and "NUL \<notin> set s"
    and "is_escape c a b"
  shows "strdecode_mem buf t (length g)
       = strdecode_mem (buf[t := unhex a b]) (Suc t) (length (g @ [c, a, b]))"
proof -
  have nn: "NUL \<notin> set (c # a # b # s)"
    using assms(3,4) isxdigit_not_NUL by (auto simp: is_escape_def)
  have "escape_at buf (length g) = Some True"
    using escape_at_append [of "a # b # s" g c r] nn assms(1,4) by simp
  moreover have "buf ! length g = c" "buf ! Suc (length g) = a" "buf ! (length g + 2) = b"
    using assms(1) by (simp_all add: nth_append)
  moreover have "c \<noteq> NUL" and "length g < length buf"
    using nn assms(1) by auto
  ultimately show ?thesis using assms(2)
    by (subst strdecode_mem.simps) (simp add: eval_nat_numeral)
qed

lemma update_append_past:
  "t \<le> length g \<Longrightarrow> p \<noteq> [] \<Longrightarrow> (g @ p @ s)[t := x] = (g @ p)[t := x] @ s"
  using list_update_append1 [of t "g @ p" s x] by (cases p) auto

lemma take_Suc_update: "t < length buf \<Longrightarrow> take (Suc t) (buf[t := x]) = take t buf @ [x]"
  by (simp add: take_Suc_conv_app_nth)

lemma strdecode_mem_next:
  \<comment> \<open>one round of the loop wrote \<open>x\<close>; the rest of the run is given by its own equation\<close>
  assumes "strdecode_mem buf t f = strdecode_mem (buf[t := x]) (Suc t) f'"
    and "strdecode_mem (buf[t := x]) (Suc t) f'
       = Some (take (Suc t) (buf[t := x]) @ d @ NUL # drop (Suc (Suc t + length d)) (buf[t := x]))"
    and "t < length buf"
  shows "strdecode_mem buf t f
       = Some (take t buf @ (x # d) @ NUL # drop (Suc (t + length (x # d))) buf)"
  using assms by (simp add: take_Suc_update)

lemmas decoded_induct = decoded.induct [case_names more one two none]

lemma strdecode_mem_correct:
  assumes "buf = g @ s @ NUL # r" and "NUL \<notin> set s" and "t \<le> length g"
  shows "strdecode_mem buf t (length g)
       = Some (take t buf @ decoded s @ NUL # drop (Suc (t + length (decoded s))) buf)"
  using assms
proof (induction s arbitrary: buf g t rule: decoded_induct)
  case (more c a b s)
  note buf = more.prems(1) and nn = more.prems(2) and t = more.prems(3)
  have lt: "t < length buf" using buf t by simp
  show ?case
  proof (cases "is_escape c a b")
    case True
    have upd: "buf[t := unhex a b] = (g @ [c, a, b])[t := unhex a b] @ s @ NUL # r"
      using update_append_past [OF t, of "[c, a, b]" "s @ NUL # r" "unhex a b"]
      by (simp add: buf)
    have "NUL \<notin> set s" and "Suc t \<le> length ((g @ [c, a, b])[t := unhex a b])"
      using nn t by auto
    note ih = more.IH(1) [OF True upd this, unfolded length_list_update]
    have "strdecode_mem buf t (length g)
        = strdecode_mem (buf[t := unhex a b]) (Suc t) (length (g @ [c, a, b]))"
      using nn by (intro strdecode_mem_escape [OF _ t _ True]) (auto simp: buf)
    from strdecode_mem_next [OF this ih lt] show ?thesis using True by simp
  next
    case False
    have upd: "buf[t := c] = (g @ [c])[t := c] @ (a # b # s) @ NUL # r"
      using update_append_past [OF t, of "[c]" "(a # b # s) @ NUL # r" c] by (simp add: buf)
    have "NUL \<notin> set (a # b # s)" and "Suc t \<le> length ((g @ [c])[t := c])"
      using nn t by auto
    note ih = more.IH(2) [OF False upd this, unfolded length_list_update]
    have "strdecode_mem buf t (length g)
        = strdecode_mem (buf[t := c]) (Suc t) (length (g @ [c]))"
      using nn False by (intro strdecode_mem_copy [OF _ t, where s = "a # b # s" and r = r])
        (auto simp: buf)
    from strdecode_mem_next [OF this ih lt] show ?thesis using False by simp
  qed
next
  case (one c)
  have upd: "buf[t := c] = (g @ [c])[t := c] @ [] @ NUL # r"
    using update_append_past [OF one.prems(3), of "[c]" "NUL # r" c]
    by (simp add: one.prems(1))
  have "NUL \<notin> set []" and "Suc t \<le> length ((g @ [c])[t := c])" and lt: "t < length buf"
    using one.prems by auto
  note ih = one.IH [OF upd this(1,2), unfolded length_list_update]
  have "strdecode_mem buf t (length g)
      = strdecode_mem (buf[t := c]) (Suc t) (length (g @ [c]))"
    using one.prems by (intro strdecode_mem_copy [where s = "[]" and r = r]) auto
  from strdecode_mem_next [OF this ih lt] show ?case by simp
next
  case (two c v)
  have upd: "buf[t := c] = (g @ [c])[t := c] @ [v] @ NUL # r"
    using update_append_past [OF two.prems(3), of "[c]" "v # NUL # r" c]
    by (simp add: two.prems(1))
  have "NUL \<notin> set [v]" and "Suc t \<le> length ((g @ [c])[t := c])" and lt: "t < length buf"
    using two.prems by auto
  note ih = two.IH [OF upd this(1,2), unfolded length_list_update]
  have "strdecode_mem buf t (length g)
      = strdecode_mem (buf[t := c]) (Suc t) (length (g @ [c]))"
    using two.prems by (intro strdecode_mem_copy [where s = "[v]" and r = r]) auto
  from strdecode_mem_next [OF this ih lt] show ?case by simp
next
  case none
  then have "buf ! length g = NUL" and "length g < length buf" by auto
  with none.prems(3) show ?case
    by (subst strdecode_mem.simps) (simp add: upd_conv_take_nth_drop)
qed

text \<open>The call of the server: decode the C string that starts at \<open>k\<close> in place.\<close>

lemma strdecode_inplace_correct:
  assumes "buf = g @ s @ NUL # r" and "NUL \<notin> set s"
  shows "strdecode_inplace buf (length g)
       = Some (g @ decoded s @ NUL # drop (Suc (length g + length (decoded s))) buf)"
  unfolding strdecode_inplace_def
  by (subst strdecode_mem_correct [OF assms]) (simp_all add: assms(1))

lemma length_strdecode_mem: "strdecode_mem buf t f = Some b \<Longrightarrow> length b = length buf"
proof (induction buf t f rule: strdecode_mem.induct)
  case (1 buf t f)
  then show ?case
    by (subst (asm) (3) strdecode_mem.simps) (auto split: if_splits option.splits bool.splits)
qed

section \<open>Encoding\<close>

definition url_plain :: "char \<Rightarrow> bool" where
  "url_plain c \<longleftrightarrow> isalnum_c c \<or> c \<in> set ''/_.-~''"

text \<open>
  \<^verbatim>\<open>strencode(to, tosize, from)\<close>: the bytes stored at \<open>to\<close> before the final terminator. The
  loop counts what it stored in \<open>tolen\<close> and stops when an escape might no longer fit.
\<close>

fun strencode_loop :: "nat \<Rightarrow> nat \<Rightarrow> string \<Rightarrow> string" where
  "strencode_loop tosize tolen [] = []"
| "strencode_loop tosize tolen (c # from) =
     (if tolen + 4 < tosize then
        (if url_plain c then c # strencode_loop tosize (Suc tolen) from
         else CHR ''%'' # hex02 (code c) @ strencode_loop tosize (tolen + 3) from)
      else [])"

definition strencode :: "nat \<Rightarrow> string \<Rightarrow> string" where
  "strencode tosize from = strencode_loop tosize 0 from @ [NUL]"

lemma length_strencode_loop:
  "tolen < tosize \<Longrightarrow> tolen + length (strencode_loop tosize tolen s) < tosize"
proof (induction tosize tolen s rule: strencode_loop.induct)
  case (2 tosize tolen c s)
  then show ?case by (auto simp: hex02_def)
qed simp

text \<open>The bytes stored, the terminator included, fit the buffer the caller declared.\<close>

lemma length_strencode: "0 < tosize \<Longrightarrow> length (strencode tosize s) \<le> tosize"
  using length_strencode_loop [of 0 tosize s] by (simp add: strencode_def)

lemma is_escape_encoded:
  "is_escape (CHR ''%'') (hexdigit (code c div 16)) (hexdigit (code c mod 16))"
proof -
  have "code c div 16 < 16" and "code c mod 16 < 16"
    using code_less [of c] by (auto simp: less_mult_imp_div_less)
  then show ?thesis by (simp add: is_escape_def isxdigit_hexdigit)
qed

lemma unhex_encoded: "unhex (hexdigit (code c div 16)) (hexdigit (code c mod 16)) = c"
proof -
  have "code c div 16 < 16" and "code c mod 16 < 16"
    using code_less [of c] by (auto simp: less_mult_imp_div_less)
  then show ?thesis by (simp add: unhex_def hexit_hexdigit)
qed

lemma url_plain_not_percent: "url_plain c \<Longrightarrow> c \<noteq> CHR ''%''"
  by (auto simp: url_plain_def isalnum_c_def isupper_c_def islower_c_def isdigit_c_def code_def)

lemma decoded_plain: "c \<noteq> CHR ''%'' \<Longrightarrow> decoded (c # s) = c # decoded s"
  by (cases s rule: decoded.cases) (auto simp: is_escape_def)

lemma decoded_escape: "decoded (CHR ''%'' # hex02 (code c) @ s) = c # decoded s"
  by (simp add: hex02_def is_escape_encoded unhex_encoded)

text \<open>Decoding what was encoded gives back a prefix, the part that fitted the buffer.\<close>

lemma decoded_strencode_loop:
  "\<exists>k \<le> length s. decoded (strencode_loop n i s) = take k s"
proof (induction n i s rule: strencode_loop.induct)
  case (2 n i c s)
  show ?case
  proof (cases "i + 4 < n")
    case True
    show ?thesis
    proof (cases "url_plain c")
      case plain: True
      with "2.IH"(1) True obtain k where "k \<le> length s"
        and "decoded (strencode_loop n (Suc i) s) = take k s" by blast
      with True plain show ?thesis
        by (intro exI [of _ "Suc k"]) (simp add: decoded_plain url_plain_not_percent)
    next
      case esc: False
      with "2.IH"(2) True obtain k where "k \<le> length s"
        and "decoded (strencode_loop n (i + 3) s) = take k s" by blast
      with True esc show ?thesis
        by (intro exI [of _ "Suc k"]) (simp add: decoded_escape)
    qed
  next
    case False
    then show ?thesis by (intro exI [of _ 0]) simp
  qed
qed simp

lemma decoded_strencode_full:
  "i + 3 * length s + 1 < n \<Longrightarrow> decoded (strencode_loop n i s) = s"
  by (induction n i s rule: strencode_loop.induct)
    (auto simp: decoded_plain url_plain_not_percent decoded_escape)

lemma strencode_loop_no_NUL: "NUL \<notin> set (strencode_loop n i s)"
proof (induction n i s rule: strencode_loop.induct)
  case (2 n i c s)
  have "\<not> url_plain NUL"
    by (simp add: url_plain_def isalnum_c_def isupper_c_def islower_c_def isdigit_c_def code_def)
  moreover have "NUL \<notin> set (hex02 (code c))"
    using is_escape_encoded [of c] isxdigit_NUL by (auto simp: hex02_def is_escape_def simp del: isxdigit_NUL)
  ultimately show ?case using "2.IH" by auto
qed simp

section \<open>Content types\<close>

definition strrchr :: "string \<Rightarrow> char \<Rightarrow> string option" where
  \<comment> \<open>the suffix that starts at the last occurrence\<close>
  "strrchr s c =
     (if c \<in> set s then Some (c # rev (takeWhile (\<lambda>d. d \<noteq> c) (rev s))) else None)"

text \<open>
  The chain of \<^verbatim>\<open>strcmp\<close> tests on the suffix, in the order of the source: the first key that
  equals the suffix decides.
\<close>

definition mime_table :: "(string \<times> string) list" where
  "mime_table =
    [(''.html'', ''text/html; charset=utf-8''),
     (''.htm'', ''text/html; charset=utf-8''),
     (''.jpg'', ''image/jpeg''),
     (''.jpeg'', ''image/jpeg''),
     (''.gif'', ''image/gif''),
     (''.png'', ''image/png''),
     (''.css'', ''text/css''),
     (''.au'', ''audio/basic''),
     (''.wav'', ''audio/wav''),
     (''.avi'', ''video/x-msvideo''),
     (''.mov'', ''video/quicktime''),
     (''.qt'', ''video/quicktime''),
     (''.mpeg'', ''video/mpeg''),
     (''.mpe'', ''video/mpeg''),
     (''.vrml'', ''model/vrml''),
     (''.wrl'', ''model/vrml''),
     (''.midi'', ''audio/midi''),
     (''.mid'', ''audio/midi''),
     (''.mp3'', ''audio/mpeg''),
     (''.ogg'', ''application/ogg''),
     (''.pac'', ''application/x-ns-proxy-autoconfig'')]"

definition get_mime_type :: "string \<Rightarrow> string" where
  "get_mime_type name =
     (case strrchr name (CHR ''.'') of
        None \<Rightarrow> ''text/plain; charset=utf-8''
      | Some dot \<Rightarrow>
          (case map_of mime_table dot of
             None \<Rightarrow> ''text/plain; charset=utf-8''
           | Some t \<Rightarrow> t))"

lemma mime_table_keys: "\<forall>(k, t) \<in> set mime_table. CHR ''/'' \<notin> set k"
  by (simp add: mime_table_def)

lemma mime_table_values: "\<forall>(k, t) \<in> set mime_table. length t \<le> 33 \<and> list_all (\<lambda>c. 32 \<le> code c) t"
  by (simp add: mime_table_def code_def)

lemma strrchr_append: "c \<in> set f \<Longrightarrow> strrchr (d @ f) c = strrchr f c"
  by (auto simp: strrchr_def takeWhile_append1)

lemma strrchr_keeps_slash:
  assumes "CHR ''.'' \<notin> set f" and "strrchr (d @ CHR ''/'' # f) (CHR ''.'') = Some dot"
  shows "CHR ''/'' \<in> set dot"
proof -
  have "takeWhile (\<lambda>c. c \<noteq> CHR ''.'') (rev f @ CHR ''/'' # rev d)
      = rev f @ CHR ''/'' # takeWhile (\<lambda>c. c \<noteq> CHR ''.'') (rev d)"
    using assms(1) by (subst takeWhile_append2) auto
  with assms(2) show ?thesis
    unfolding strrchr_def by (auto split: if_splits)
qed

lemma get_mime_type_default:
  assumes "\<And>dot. strrchr name (CHR ''.'') = Some dot \<Longrightarrow> CHR ''/'' \<in> set dot"
  shows "get_mime_type name = ''text/plain; charset=utf-8''"
proof (cases "strrchr name (CHR ''.'')")
  case (Some dot)
  with assms have "CHR ''/'' \<in> set dot" by simp
  then have "map_of mime_table dot = None"
    using mime_table_keys by (auto simp: map_of_eq_None_iff)
  then show ?thesis using Some by (simp add: get_mime_type_def)
qed (simp add: get_mime_type_def)

lemma get_mime_type_text:
  "length (get_mime_type name) \<le> 33 \<and> list_all (\<lambda>c. 32 \<le> code c) (get_mime_type name)"
  using mime_table_values
  by (fastforce simp: get_mime_type_def code_def split: option.splits dest!: map_of_SomeD)

lemma get_mime_type_no_NUL: "NUL \<notin> set (get_mime_type name)"
  using get_mime_type_text [of name] by (auto simp: list_all_iff code_def)

section \<open>Properties\<close>

text \<open>C15: \<^verbatim>\<open>strdecode\<close> run in place, as the server runs it, leaves the decoded string with its
  terminator where the encoded one stood and changes no byte before it nor behind the encoded
  string, although it overwrites the bytes it is still reading.\<close>

theorem strdecode_in_place:
  assumes "NUL \<notin> set s"
  shows "strdecode_inplace (g @ s @ NUL # r) (length g)
       = Some (g @ decoded s @ NUL # drop (Suc (length (decoded s))) (s @ NUL # r))"
  by (subst strdecode_inplace_correct [OF refl assms]) simp

theorem strdecode_in_place_witness:
  "strdecode_inplace (''/a%20b%4'' @ [NUL, CHR ''z'']) 1
     = Some (''/a b%4'' @ [NUL] @ ''4'' @ [NUL, CHR ''z''])"
proof -
  have "NUL \<notin> set ''a%20b%4''" by simp
  moreover have "decoded ''a%20b%4'' = ''a b%4''"
    by code_simp
  ultimately show ?thesis
    using strdecode_in_place [of "''a%20b%4''" "''/''" "[CHR ''z'']"] by simp
qed

text \<open>C20: \<^verbatim>\<open>strencode\<close> never writes past the \<open>tosize\<close> bytes of its target, its terminator included, when there is
  at least one (it writes the terminator even when there is none),
  and what it wrote decodes to a prefix of its argument: an escape is never cut.\<close>

theorem strencode_bounded:
  "length (strencode (Suc n) s) \<le> Suc n
     \<and> (\<exists>k. decoded (butlast (strencode (Suc n) s)) = take k s)"
  using length_strencode [of "Suc n" s] decoded_strencode_loop [of s "Suc n" 0]
  by (auto simp: strencode_def)

text \<open>C19: encoding a name into a target with room for it and decoding the target in place gives
  the name back, whatever its bytes: \<^verbatim>\<open>%\<close>, spaces and bytes above 127 included.\<close>

theorem encode_decode_in_place:
  assumes "3 * length s + 1 < n" and "NUL \<notin> set s"
  shows "map_option (takeWhile (\<lambda>c. c \<noteq> NUL)) (strdecode_inplace (strencode n s @ rest) 0) = Some s"
proof -
  have "strdecode_inplace (strencode n s @ rest) 0
      = Some (s @ NUL # drop (Suc (length s)) (strencode n s @ rest))"
    using strdecode_inplace_correct [of _ "[]" "strencode_loop n 0 s" rest,
        OF refl strencode_loop_no_NUL] decoded_strencode_full [of 0 s n] assms(1)
    by (simp add: strencode_def)
  moreover have "takeWhile (\<lambda>c. c \<noteq> NUL) (s @ NUL # t) = s" for t
    using assms(2) by (induction s) auto
  ultimately show ?thesis by simp
qed

theorem encode_decode_in_place_witness:
  "map_option (takeWhile (\<lambda>c. c \<noteq> NUL)) (strdecode_inplace (strencode 35 ''50% off.txt'') 0)
     = Some ''50% off.txt''"
  using encode_decode_in_place [of "''50% off.txt''" 35 "[]"] by simp

text \<open>The content type of a path is that of its last component: dots in directory names do not
  matter.\<close>

theorem mime_last_component:
  assumes "CHR ''/'' \<notin> set f"
  shows "get_mime_type (d @ ''/'' @ f) = get_mime_type f"
proof (cases "CHR ''.'' \<in> set f")
  case True
  then have "strrchr (d @ ''/'' @ f) (CHR ''.'') = strrchr f (CHR ''.'')"
    using strrchr_append [of "CHR ''.''" f "d @ ''/''"] by simp
  then show ?thesis by (simp add: get_mime_type_def)
next
  case False
  then have "get_mime_type (d @ CHR ''/'' # f) = ''text/plain; charset=utf-8''"
    by (intro get_mime_type_default) (rule strrchr_keeps_slash)
  moreover have "get_mime_type f = ''text/plain; charset=utf-8''"
    using False by (simp add: get_mime_type_def strrchr_def)
  ultimately show ?thesis by simp
qed

theorem mime_last_component_witness:
  "get_mime_type ''www.d/v1.0/README'' = ''text/plain; charset=utf-8''"
  using mime_last_component [of "''README''" "''www.d/v1.0''"]
  by (simp add: get_mime_type_def strrchr_def)

end
