(* ===== verification/LineReader.thy ===== *)
theory LineReader
  imports Logic
begin

text \<open>
  Buffered character input and line input: \<^verbatim>\<open>my_read\<close> and \<^verbatim>\<open>Readline\<close> of
  \<^verbatim>\<open>linux-network/wrap.c\<close>, \<^verbatim>\<open>char_read\<close> and \<^verbatim>\<open>readLine\<close> of \<^verbatim>\<open>httpService/http_service.c\<close>.

  Both character readers keep a static buffer of 100 bytes, a count of unread bytes and a read
  pointer, shared by all descriptors. The line readers only rely on a contract about the bytes
  still to come (locale \<open>char_source\<close>), which the buffered readers are shown to provide for
  every way the kernel may cut the input into \<^verbatim>\<open>read\<close> results.
\<close>

section \<open>The buffered character readers\<close>

record rdbuf =
  read_cnt :: int
  read_buf :: string
  read_ptr :: nat      \<comment> \<open>offset in \<open>read_buf\<close>\<close>

definition rdbuf_init :: rdbuf where
  "rdbuf_init = \<lparr>read_cnt = 0, read_buf = zbuf 100, read_ptr = 0\<rparr>"

text \<open>The \<^verbatim>\<open>again:\<close> loop: \<^verbatim>\<open>read\<close> until the result is not an interruption.\<close>

definition read_again :: "int \<Rightarrow> nat \<Rightarrow> string option prog" where
  "read_again fd n =
     forever (\<lambda>_. bnd (sys_read fd n) (\<lambda>r.
       case r of
         None \<Rightarrow> bnd get_errno (\<lambda>e. if e = EINTR then ret (Inl ()) else ret (Inr None))
       | Some bs \<Rightarrow> ret (Inr (Some bs)))) ()"

definition take_char :: "rdbuf \<Rightarrow> (int \<times> char option \<times> rdbuf) prog" where
  \<comment> \<open>\<^verbatim>\<open>read_cnt--; *c = *read_ptr++; return 1;\<close>\<close>
  "take_char st =
     (if read_ptr st < length (read_buf st)
      then ret (1, Some (read_buf st ! read_ptr st),
                st\<lparr>read_cnt := read_cnt st - 1, read_ptr := Suc (read_ptr st)\<rparr>)
      else fault_p OutOfBounds)"

definition char_read :: "int \<Rightarrow> rdbuf \<Rightarrow> (int \<times> char option \<times> rdbuf) prog" where
  "char_read fd st =
     (if read_cnt st \<le> 0 then
        bnd (read_again fd (length (read_buf st))) (\<lambda>r.
          case r of
            None \<Rightarrow> ret (-1, None, st\<lparr>read_cnt := -1\<rparr>)
          | Some bs \<Rightarrow>
              if bs = [] then ret (0, None, st\<lparr>read_cnt := 0\<rparr>)
              else take_char (st\<lparr>read_cnt := int (length bs),
                                read_buf := fill_buf (read_buf st) bs, read_ptr := 0\<rparr>))
      else take_char st)"

definition my_read :: "int \<Rightarrow> rdbuf \<Rightarrow> (int \<times> char option \<times> rdbuf) prog" where
  \<comment> \<open>\<^verbatim>\<open>wrap.c\<close> has the same body under another name\<close>
  "my_read fd st = char_read fd st"

section \<open>The line readers, over a character source\<close>

definition put_char :: "string \<Rightarrow> nat \<Rightarrow> char \<Rightarrow> string prog" where
  "put_char buf i c = (if i < length buf then ret (buf[i := c]) else fault_p OutOfBounds)"

text \<open>
  \<^verbatim>\<open>Readline\<close>: \<open>n\<close> runs from 1 below \<open>maxlen\<close>, \<open>k\<close> counts the rounds left, the byte of round
  \<open>n\<close> goes to index \<open>n - 1\<close>. The result is the return value, the buffer and the reader.
\<close>

fun Readline_loop ::
    "('st \<Rightarrow> (int \<times> char option \<times> 'st) prog) \<Rightarrow> nat \<Rightarrow> nat \<Rightarrow> string \<Rightarrow> 'st \<Rightarrow>
     (int \<times> string \<times> 'st) prog" where
  "Readline_loop getc n 0 buf st =
     bnd (put_char buf (n - 1) NUL) (\<lambda>buf. ret (int n, buf, st))"
| "Readline_loop getc n (Suc k) buf st =
     bnd (getc st) (\<lambda>(rc, c, st).
       if rc = 1 then
         (case c of
            None \<Rightarrow> fault_p Uninitialised
          | Some c \<Rightarrow>
              bnd (put_char buf (n - 1) c) (\<lambda>buf.
                if c = LF
                then bnd (put_char buf n NUL) (\<lambda>buf. ret (int n, buf, st))
                else Readline_loop getc (Suc n) k buf st))
       else if rc = 0 then
         bnd (put_char buf (n - 1) NUL) (\<lambda>buf. ret (int n - 1, buf, st))
       else ret (-1, buf, st))"

definition Readline :: "int \<Rightarrow> string \<Rightarrow> nat \<Rightarrow> rdbuf \<Rightarrow> (int \<times> string \<times> rdbuf) prog" where
  "Readline fd buf maxlen st = Readline_loop (my_read fd) 1 (maxlen - 1) buf st"

text \<open>\<^verbatim>\<open>readLine\<close>: \<open>i\<close> runs from 0 below \<open>maxlen\<close>.\<close>

fun readLine_loop ::
    "('st \<Rightarrow> (int \<times> char option \<times> 'st) prog) \<Rightarrow> nat \<Rightarrow> nat \<Rightarrow> string \<Rightarrow> 'st \<Rightarrow>
     (int \<times> string \<times> 'st) prog" where
  "readLine_loop getc i 0 buf st =
     bnd (put_char buf i NUL) (\<lambda>buf. ret (int i, buf, st))"
| "readLine_loop getc i (Suc k) buf st =
     bnd (getc st) (\<lambda>(rc, c, st).
       if rc = 1 then
         (case c of
            None \<Rightarrow> fault_p Uninitialised
          | Some c \<Rightarrow>
              bnd (put_char buf i c) (\<lambda>buf.
                if c = LF
                then bnd (put_char buf (Suc i) NUL) (\<lambda>buf. ret (int i, buf, st))
                else readLine_loop getc (Suc i) k buf st))
       else if rc = 0 then
         bnd (put_char buf i NUL) (\<lambda>buf. ret (int i - 1, buf, st))
       else ret (-1, buf, st))"

definition readLine :: "int \<Rightarrow> string \<Rightarrow> nat \<Rightarrow> rdbuf \<Rightarrow> (int \<times> string \<times> rdbuf) prog" where
  "readLine fd buf maxlen st = readLine_loop (char_read fd) 0 maxlen buf st"

section \<open>The bytes to come\<close>

text \<open>
  \<open>feed\<close> reads a script as a byte stream: data replies concatenated, interruptions skipped, up
  to the end of file, an error, or the point where the script stops answering \<^verbatim>\<open>read\<close>.
\<close>

datatype ending = Eof | Err errno | Hang

fun feed :: "nat \<Rightarrow> reply list \<Rightarrow> string \<times> ending" where
  "feed cap (RData bs # s) =
     (if bs = [] then ([], Eof)
      else if length bs \<le> cap then (bs @ fst (feed cap s), snd (feed cap s))
      else ([], Hang))"
| "feed cap (RFail e # s) = (if e = EINTR then feed cap s else ([], Err e))"
| "feed cap _ = ([], Hang)"

definition unread :: "rdbuf \<Rightarrow> string" where
  "unread st = take (nat (read_cnt st)) (drop (read_ptr st) (read_buf st))"

definition rdbuf_ok :: "rdbuf \<Rightarrow> bool" where
  "rdbuf_ok st \<longleftrightarrow> length (read_buf st) = 100
     \<and> (0 < read_cnt st \<longrightarrow> read_ptr st + nat (read_cnt st) \<le> 100)"

text \<open>What the descriptor delivers next: the unread bytes of the buffer, then the script.\<close>

definition stream :: "rdbuf \<Rightarrow> world \<Rightarrow> string \<times> ending" where
  "stream st w = (unread st @ fst (feed 100 (script w)), snd (feed 100 (script w)))"

lemma rdbuf_init_ok: "rdbuf_ok rdbuf_init"
  by (simp add: rdbuf_ok_def rdbuf_init_def)

lemma unread_init: "unread rdbuf_init = []"
  by (simp add: unread_def rdbuf_init_def)

lemma eats_round_read_again:
  "eats_round (bnd (sys_read fd n) (\<lambda>r. case r of
       None \<Rightarrow> bnd get_errno (\<lambda>e. if e = EINTR then ret (Inl ()) else ret (Inr None))
     | Some bs \<Rightarrow> ret (Inr (Some bs))))"
  unfolding sys_read_def
  by (intro eats_round_eats eats_bnd1 eats_call tame_intros)

lemma read_again_unfold:
  "read_again fd n = bnd (sys_read fd n) (\<lambda>r. case r of
       None \<Rightarrow> bnd get_errno (\<lambda>e. if e = EINTR then read_again fd n else ret None)
     | Some bs \<Rightarrow> ret (Some bs))"
proof -
  let ?b = "\<lambda>r. case r of
      None \<Rightarrow> bnd get_errno (\<lambda>e. if e = EINTR then ret (Inl ()) else ret (Inr None))
    | Some bs \<Rightarrow> ret (Inr (Some bs))"
  have "read_again fd n = bnd (sys_read fd n) (\<lambda>r. bnd (?b r)
      (\<lambda>x. case x of Inl _ \<Rightarrow> read_again fd n | Inr r \<Rightarrow> ret r))"
    unfolding read_again_def
    by (subst forever_unfold [OF eats_round_read_again]) (simp add: bnd_assoc)
  also have "\<dots> = bnd (sys_read fd n) (\<lambda>r. case r of
      None \<Rightarrow> bnd get_errno (\<lambda>e. if e = EINTR then read_again fd n else ret None)
    | Some bs \<Rightarrow> ret (Some bs))"
    by (intro bnd_cong) (auto simp: bnd_assoc intro!: bnd_cong split: option.splits)
  finally show ?thesis .
qed

lemmas read_again_at = fun_cong [OF read_again_unfold]

lemma tame_read_again [tame_intros]: "tame (read_again fd n)"
  unfolding read_again_def by (rule tame_forever, rule eats_round_read_again)

text \<open>What \<open>read_again\<close> does, by the shape of the stream.\<close>

lemma read_again_spec:
  "case feed n (script w) of
     (c # cs, en) \<Rightarrow> (\<exists>bs w'. read_again fd n w = (Val (Some bs), w') \<and> bs \<noteq> [] \<and> length bs \<le> n
        \<and> c # cs = bs @ fst (feed n (script w')) \<and> en = snd (feed n (script w')))
   | ([], Eof) \<Rightarrow> (\<exists>w'. read_again fd n w = (Val (Some []), w'))
   | ([], Err e) \<Rightarrow> (\<exists>w'. read_again fd n w = (Val None, w'))
   | ([], Hang) \<Rightarrow> (\<exists>w'. read_again fd n w = (Stop SBlocked, w'))"
proof (induction "script w" arbitrary: w)
  case Nil
  then show ?case by (simp add: read_again_at [of fd n w] exec)
next
  case (Cons r s)
  have s: "script w = r # s" using Cons.hyps(2) by simp
  show ?case
  proof (cases "r = RFail EINTR")
    case True
    let ?w = "step_world (KRead fd n) (RFail EINTR) (Some EINTR) w"
    have "read_again fd n w = read_again fd n ?w"
      using True by (simp add: read_again_at [of fd n w] exec s)
    moreover have "script ?w = s" by (simp add: s)
    ultimately show ?thesis using Cons.hyps(1) [of ?w] True
      by (auto simp: s split: prod.splits list.splits ending.splits)
  next
    case False
    then show ?thesis
      by (cases r) (auto simp: read_again_at [of fd n w] exec s split: list.splits)
  qed
qed

section \<open>The contract between character and line input\<close>

text \<open>
  \<open>input st w\<close> is what the source will deliver: the bytes, then how they end. \<open>getc\<close> returns
  the next byte with 1, 0 at the end of file, -1 on an error, and does not return when the
  kernel does not answer.
\<close>

locale char_source =
  fixes getc :: "'st \<Rightarrow> (int \<times> char option \<times> 'st) prog"
    and ok :: "'st \<Rightarrow> bool"
    and input :: "'st \<Rightarrow> world \<Rightarrow> string \<times> ending"
  assumes getc_next: "ok st \<Longrightarrow> input st w = (c # cs, en) \<Longrightarrow>
      \<exists>st' w'. getc st w = (Val (1, Some c, st'), w') \<and> ok st' \<and> input st' w' = (cs, en)"
    and getc_eof: "ok st \<Longrightarrow> input st w = ([], Eof) \<Longrightarrow>
      \<exists>st' w'. getc st w = (Val (0, None, st'), w') \<and> ok st'"
    and getc_err: "ok st \<Longrightarrow> input st w = ([], Err e) \<Longrightarrow>
      \<exists>st' w'. getc st w = (Val (-1, None, st'), w') \<and> ok st'"
    and getc_hang: "ok st \<Longrightarrow> input st w = ([], Hang) \<Longrightarrow>
      \<exists>w'. getc st w = (Stop SBlocked, w')"

text \<open>The first line of a stream, cut at \<open>k\<close> bytes; it keeps its newline.\<close>

fun line :: "nat \<Rightarrow> string \<Rightarrow> string" where
  "line (Suc k) (c # cs) = c # (if c = LF then [] else line k cs)"
| "line _ _ = []"

definition ends_nl :: "string \<Rightarrow> bool" where
  "ends_nl l \<longleftrightarrow> l \<noteq> [] \<and> last l = LF"

definition line_buf :: "string \<Rightarrow> nat \<Rightarrow> string \<Rightarrow> string" where
  \<comment> \<open>the array \<open>buf\<close> with \<open>l\<close> and a terminator stored from index \<open>i\<close>\<close>
  "line_buf buf i l = take i buf @ l @ NUL # drop (Suc (i + length l)) buf"

lemma ends_nl_simps [simp]:
  "\<not> ends_nl []"
  "ends_nl (c # l) \<longleftrightarrow> (if l = [] then c = LF else ends_nl l)"
  by (auto simp: ends_nl_def)

lemma length_line: "length (line k bs) \<le> k"
  by (induction k bs rule: line.induct) auto

lemma line_prefix: "line k bs = take (length (line k bs)) bs"
  by (induction k bs rule: line.induct) auto

lemma line_eq_Nil: "line k bs = [] \<longleftrightarrow> k = 0 \<or> bs = []"
  by (cases "(k, bs)" rule: line.cases) auto

lemma line_buf_Nil: "i < length buf \<Longrightarrow> line_buf buf i [] = buf[i := NUL]"
  by (simp add: line_buf_def upd_conv_take_nth_drop)

lemma line_buf_Cons: "i < length buf \<Longrightarrow> line_buf buf i (c # l) = line_buf (buf[i := c]) (Suc i) l"
  by (simp add: line_buf_def take_Suc_conv_app_nth)

lemma line_buf_Nil_Suc:
  "Suc i < length buf \<Longrightarrow> line_buf buf i [c] = buf[i := c, Suc i := NUL]"
  by (simp add: line_buf_Cons line_buf_Nil)

context char_source
begin

lemma Readline_loop_spec:
  assumes "ok st" and "input st w = (bs, en)" and "i + k < length buf"
  shows "let l = line k bs; run = Readline_loop getc (Suc i) k buf st w in
     if ends_nl l \<or> length l = k then
       \<exists>st' w'. run = (Val (int (i + length l + (if ends_nl l then 0 else 1)),
                            line_buf buf i l, st'), w')
             \<and> ok st' \<and> input st' w' = (drop (length l) bs, en)
     else case en of
       Eof \<Rightarrow> \<exists>st' w'. run = (Val (int (i + length l), line_buf buf i l, st'), w') \<and> ok st'
     | Err e \<Rightarrow> \<exists>buf' st' w'. run = (Val (-1, buf', st'), w') \<and> ok st'
     | Hang \<Rightarrow> \<exists>w'. run = (Stop SBlocked, w')"
  using assms
proof (induction k arbitrary: i buf st w bs)
  case 0
  then show ?case by (auto simp: Let_def bnd_def put_char_def ret_def line_buf_Nil)
next
  case (Suc k)
  show ?case
  proof (cases bs)
    case Nil
    show ?thesis
    proof (cases en)
      case Eof
      with getc_eof [of st w] Suc.prems Nil show ?thesis
        by (auto simp: Let_def bnd_def put_char_def ret_def line_buf_Nil)
    next
      case (Err e)
      with getc_err [of st w e] Suc.prems Nil show ?thesis
        by (auto simp: Let_def bnd_def put_char_def ret_def)
    next
      case Hang
      with getc_hang [of st w] Suc.prems Nil show ?thesis
        by (auto simp: Let_def bnd_def put_char_def ret_def)
    qed
  next
    case (Cons c cs)
    with getc_next [of st w c cs en] Suc.prems obtain st1 w1
      where g: "getc st w = (Val (1, Some c, st1), w1)" and ok1: "ok st1"
        and in1: "input st1 w1 = (cs, en)" by auto
    show ?thesis
    proof (cases "c = LF")
      case True
      with g ok1 in1 Cons Suc.prems(3) show ?thesis
        by (auto simp: Let_def bnd_def put_char_def ret_def line_buf_Nil_Suc)
    next
      case False
      have "Readline_loop getc (Suc i) (Suc k) buf st w
          = Readline_loop getc (Suc (Suc i)) k (buf[i := c]) st1 w1"
        using g False Suc.prems(3) by (simp add: bnd_def put_char_def ret_def)
      moreover have "Suc i + k < length (buf[i := c])" using Suc.prems(3) by simp
      note Suc.IH [OF ok1 in1 this]
      moreover have "line_buf buf i (c # l) = line_buf (buf[i := c]) (Suc i) l" for l
        using Suc.prems(3) by (simp add: line_buf_Cons)
      ultimately show ?thesis using Cons False
        by (auto simp: Let_def line_eq_Nil split: ending.splits)
    qed
  qed
qed

lemma readLine_loop_spec:
  assumes "ok st" and "input st w = (bs, en)" and "i + k = length buf"
  shows "let l = line k bs; run = readLine_loop getc i k buf st w in
     if length l = k then \<exists>w'. run = (Stop (SFault OutOfBounds), w')
     else if ends_nl l then
       \<exists>st' w'. run = (Val (int (i + length l) - 1, line_buf buf i l, st'), w')
             \<and> ok st' \<and> input st' w' = (drop (length l) bs, en)
     else case en of
       Eof \<Rightarrow> \<exists>st' w'. run = (Val (int (i + length l) - 1, line_buf buf i l, st'), w') \<and> ok st'
     | Err e \<Rightarrow> \<exists>buf' st' w'. run = (Val (-1, buf', st'), w') \<and> ok st'
     | Hang \<Rightarrow> \<exists>w'. run = (Stop SBlocked, w')"
  using assms
proof (induction k arbitrary: i buf st w bs)
  case 0
  then show ?case by (auto simp: Let_def bnd_def put_char_def halt_def)
next
  case (Suc k)
  show ?case
  proof (cases bs)
    case Nil
    show ?thesis
    proof (cases en)
      case Eof
      with getc_eof [of st w] Suc.prems Nil show ?thesis
        by (auto simp: Let_def bnd_def put_char_def ret_def line_buf_Nil)
    next
      case (Err e)
      with getc_err [of st w e] Suc.prems Nil show ?thesis
        by (auto simp: Let_def bnd_def put_char_def ret_def)
    next
      case Hang
      with getc_hang [of st w] Suc.prems Nil show ?thesis
        by (auto simp: Let_def bnd_def put_char_def ret_def)
    qed
  next
    case (Cons c cs)
    with getc_next [of st w c cs en] Suc.prems obtain st1 w1
      where g: "getc st w = (Val (1, Some c, st1), w1)" and ok1: "ok st1"
        and in1: "input st1 w1 = (cs, en)" by auto
    show ?thesis
    proof (cases "c = LF")
      case True
      with g ok1 in1 Cons Suc.prems(3) show ?thesis
        by (auto simp: Let_def bnd_def put_char_def ret_def halt_def line_buf_Nil_Suc)
    next
      case False
      have "readLine_loop getc i (Suc k) buf st w
          = readLine_loop getc (Suc i) k (buf[i := c]) st1 w1"
        using g False Suc.prems(3) by (simp add: bnd_def put_char_def ret_def)
      moreover have "Suc i + k = length (buf[i := c])" using Suc.prems(3) by simp
      note Suc.IH [OF ok1 in1 this]
      moreover have "line_buf buf i (c # l) = line_buf (buf[i := c]) (Suc i) l" for l
        using Suc.prems(3) by (simp add: line_buf_Cons)
      ultimately show ?thesis using Cons False
        by (auto simp: Let_def line_eq_Nil split: ending.splits)
    qed
  qed
qed

end

section \<open>The buffered readers keep the contract\<close>

lemma unread_Cons:
  assumes "rdbuf_ok st" and "unread st = c # cs"
  shows "0 < read_cnt st" and "read_ptr st < length (read_buf st)"
    and "read_buf st ! read_ptr st = c"
    and "unread (st\<lparr>read_cnt := read_cnt st - 1, read_ptr := Suc (read_ptr st)\<rparr>) = cs"
proof -
  from assms(2) have "take (nat (read_cnt st)) (drop (read_ptr st) (read_buf st)) \<noteq> []"
    by (simp add: unread_def)
  then have n: "0 < nat (read_cnt st)" and p: "read_ptr st < length (read_buf st)"
    by (auto simp: not_le)
  then show pos: "0 < read_cnt st" and "read_ptr st < length (read_buf st)" by auto
  from p have d: "drop (read_ptr st) (read_buf st)
      = read_buf st ! read_ptr st # drop (Suc (read_ptr st)) (read_buf st)"
    by (simp add: Cons_nth_drop_Suc)
  from pos have "nat (read_cnt st) = Suc (nat (read_cnt st - 1))" by simp
  with assms(2) d show "read_buf st ! read_ptr st = c"
    and "unread (st\<lparr>read_cnt := read_cnt st - 1, read_ptr := Suc (read_ptr st)\<rparr>) = cs"
    by (auto simp: unread_def)
qed

lemma unread_Nil: "rdbuf_ok st \<Longrightarrow> unread st = [] \<Longrightarrow> read_cnt st \<le> 0"
  by (auto simp: unread_def rdbuf_ok_def not_le)

lemma rdbuf_ok_next:
  "rdbuf_ok st \<Longrightarrow> rdbuf_ok (st\<lparr>read_cnt := read_cnt st - 1, read_ptr := Suc (read_ptr st)\<rparr>)"
  by (auto simp: rdbuf_ok_def)

lemma char_read_next:
  assumes ok: "rdbuf_ok st" and inp: "stream st w = (c # cs, en)"
  shows "\<exists>st' w'. char_read fd st w = (Val (1, Some c, st'), w') \<and> rdbuf_ok st'
      \<and> stream st' w' = (cs, en)"
proof (cases "unread st")
  case (Cons d ds)
  note u = unread_Cons [OF ok Cons]
  from inp Cons have "d = c" and "ds @ fst (feed 100 (script w)) = cs"
    and "snd (feed 100 (script w)) = en" by (auto simp: stream_def)
  with u ok show ?thesis
    by (auto simp: char_read_def take_char_def ret_def stream_def intro: rdbuf_ok_next)
next
  case Nil
  then have cnt: "read_cnt st \<le> 0" using ok by (rule unread_Nil [rotated])
  from inp Nil have "feed 100 (script w) = (c # cs, en)"
    by (cases "feed 100 (script w)") (simp add: stream_def)
  with read_again_spec [where n = 100 and w = w and fd = fd] obtain bs w1
    where r: "read_again fd 100 w = (Val (Some bs), w1)" and bs: "bs \<noteq> []" "length bs \<le> 100"
      and cs: "c # cs = bs @ fst (feed 100 (script w1))" and en: "en = snd (feed 100 (script w1))"
    by auto
  let ?st = "st\<lparr>read_cnt := int (length bs), read_buf := fill_buf (read_buf st) bs, read_ptr := 0\<rparr>"
  have ok1: "rdbuf_ok ?st" using ok bs by (auto simp: rdbuf_ok_def)
  obtain b bs' where "bs = b # bs'" using bs by (cases bs) auto
  moreover have "unread ?st = bs" by (simp add: unread_def fill_buf_def)
  ultimately have "unread ?st = b # bs'" by simp
  note u = unread_Cons [OF ok1 this]
  have "b = c" and "bs' @ fst (feed 100 (script w1)) = cs"
    using cs \<open>bs = b # bs'\<close> by auto
  moreover have "char_read fd st w = take_char ?st w1"
    using cnt r bs ok by (simp add: char_read_def bnd_def rdbuf_ok_def)
  ultimately show ?thesis using u ok1 en rdbuf_ok_next [OF ok1]
    by (auto simp: take_char_def ret_def stream_def)
qed

lemma char_read_end:
  assumes ok: "rdbuf_ok st" and inp: "stream st w = ([], en)"
  shows "case en of
      Eof \<Rightarrow> \<exists>st' w'. char_read fd st w = (Val (0, None, st'), w') \<and> rdbuf_ok st'
    | Err e \<Rightarrow> \<exists>st' w'. char_read fd st w = (Val (-1, None, st'), w') \<and> rdbuf_ok st'
    | Hang \<Rightarrow> \<exists>w'. char_read fd st w = (Stop SBlocked, w')"
proof -
  from inp have "unread st = []" and f: "feed 100 (script w) = ([], en)"
    by (cases "feed 100 (script w)"; simp add: stream_def)+
  then have cnt: "read_cnt st \<le> 0" using ok by (simp add: unread_Nil)
  have "rdbuf_ok (st\<lparr>read_cnt := 0\<rparr>)" and "rdbuf_ok (st\<lparr>read_cnt := -1\<rparr>)"
    using ok by (simp_all add: rdbuf_ok_def)
  with read_again_spec [where n = 100 and w = w and fd = fd] f cnt ok show ?thesis
    by (auto simp: char_read_def bnd_def ret_def rdbuf_ok_def split: ending.splits)
qed

interpretation http_source: char_source "char_read fd" rdbuf_ok stream for fd
proof unfold_locales
  fix st :: rdbuf and w c cs en
  assume "rdbuf_ok st" "stream st w = (c # cs, en)"
  then show "\<exists>st' w'. char_read fd st w = (Val (1, Some c, st'), w') \<and> rdbuf_ok st'
      \<and> stream st' w' = (cs, en)" by (rule char_read_next)
qed (use char_read_end [of _ _ _ fd] in fastforce)+

interpretation wrap_source: char_source "my_read fd" rdbuf_ok stream for fd
  unfolding my_read_def [abs_def] by unfold_locales

section \<open>Properties\<close>

text \<open>C8: \<^verbatim>\<open>Readline\<close> of \<^verbatim>\<open>wrap.c\<close> returns the next line of the descriptor's byte stream, however
  the kernel cut the stream into \<^verbatim>\<open>read\<close> results and interrupted the calls: the bytes up to and
  including the newline, cut at \<open>maxlen - 1\<close>, NUL terminated, and it leaves exactly the rest of
  the stream to be read. A line that was cut is reported one byte longer than it is. At the end
  of file it returns what there was, on an error -1; it never writes outside the buffer.\<close>

theorem Readline_returns_line:
  assumes "rdbuf_ok st" and "stream st w = (bs, en)" and "0 < maxlen" and "maxlen \<le> length buf"
  shows "let l = line (maxlen - 1) bs; run = Readline fd buf maxlen st w in
     if ends_nl l \<or> length l = maxlen - 1 then
       \<exists>st' w'. run = (Val (int (length l + (if ends_nl l then 0 else 1)),
                            line_buf buf 0 l, st'), w')
             \<and> rdbuf_ok st' \<and> stream st' w' = (drop (length l) bs, en)
     else case en of
       Eof \<Rightarrow> \<exists>st' w'. run = (Val (int (length l), line_buf buf 0 l, st'), w') \<and> rdbuf_ok st'
     | Err e \<Rightarrow> \<exists>buf' st' w'. run = (Val (-1, buf', st'), w') \<and> rdbuf_ok st'
     | Hang \<Rightarrow> \<exists>w'. run = (Stop SBlocked, w')"
proof -
  have "0 + (maxlen - 1) < length buf" using assms(3,4) by simp
  from wrap_source.Readline_loop_spec [OF assms(1,2) this, of fd] show ?thesis
    by (simp only: Readline_def One_nat_def add_0)
qed

theorem Readline_returns_line_witness:
  "\<exists>st' w'. Readline 5 (zbuf 16) 16 rdbuf_init
       (start [RData ''GE'', RFail EINTR, RData [CHR ''T'', LF, CHR ''x''], RData []])
     = (Val (4, ''GET'' @ LF # zbuf 12, st'), w')"
proof -
  let ?w = "start [RData ''GE'', RFail EINTR, RData [CHR ''T'', LF, CHR ''x''], RData []]"
  have "stream rdbuf_init ?w = (''GET'' @ [LF, CHR ''x''], Eof)"
    by (simp add: stream_def unread_init)
  from Readline_returns_line [OF rdbuf_init_ok this, of 16 "zbuf 16" 5] show ?thesis
    by (auto simp: Let_def eval_nat_numeral line_buf_def zbuf_def)
qed

text \<open>C27: \<^verbatim>\<open>readLine\<close> of the HTTP server, called with the size of its buffer, returns the next
  line too (its return value is the index of the newline, not the length), but a stream whose
  first \<open>maxlen\<close> bytes hold no newline before the last of them makes it store the terminator one
  byte past the array.\<close>

theorem readLine_line_or_overflow:
  assumes "rdbuf_ok st" and "stream st w = (bs, en)"
  shows "let l = line (length buf) bs; run = readLine fd buf (length buf) st w in
     if length l = length buf then \<exists>w'. run = (Stop (SFault OutOfBounds), w')
     else if ends_nl l then
       \<exists>st' w'. run = (Val (int (length l) - 1, line_buf buf 0 l, st'), w')
             \<and> rdbuf_ok st' \<and> stream st' w' = (drop (length l) bs, en)
     else case en of
       Eof \<Rightarrow> \<exists>st' w'. run = (Val (int (length l) - 1, line_buf buf 0 l, st'), w') \<and> rdbuf_ok st'
     | Err e \<Rightarrow> \<exists>buf' st' w'. run = (Val (-1, buf', st'), w') \<and> rdbuf_ok st'
     | Hang \<Rightarrow> \<exists>w'. run = (Stop SBlocked, w')"
  using http_source.readLine_loop_spec [OF assms, of 0 "length buf" buf fd]
  by (simp only: readLine_def add_0)

theorem readLine_line_or_overflow_witness:
  "\<exists>w'. readLine 5 (zbuf 4) 4 rdbuf_init (start [RData ''abc'', RData ''defg'']) = (Stop (SFault OutOfBounds), w')"
proof -
  let ?w = "start [RData ''abc'', RData ''defg'']"
  have "stream rdbuf_init ?w = (''abcdefg'', Hang)"
    by (simp add: stream_def unread_init)
  from readLine_line_or_overflow [OF rdbuf_init_ok this, of "zbuf 4" 5] show ?thesis
    by (auto simp: Let_def eval_nat_numeral)
qed

text \<open>The read-ahead buffer belongs to the process, not to a descriptor: bytes left over from
  one connection are delivered, without any \<^verbatim>\<open>read\<close>, to whichever connection is served next.\<close>

theorem char_read_crosses_descriptors:
  assumes "rdbuf_ok st" and "unread st = c # cs"
  shows "\<exists>st'. char_read fd st w = (Val (1, Some c, st'), w) \<and> unread st' = cs \<and> rdbuf_ok st'"
  using unread_Cons [OF assms] rdbuf_ok_next [OF assms(1)]
  by (auto simp: char_read_def take_char_def ret_def)

theorem char_read_crosses_descriptors_witness:
  "\<exists>st w' st'. char_read 5 rdbuf_init (start [RData ''ab'']) = (Val (1, Some CHR ''a'', st), w')
     \<and> char_read 6 st w' = (Val (1, Some CHR ''b'', st'), w')"
proof -
  have "stream rdbuf_init (start [RData ''ab'']) = (''ab'', Hang)"
    by (simp add: stream_def unread_init)
  from char_read_next [OF rdbuf_init_ok this, of 5] obtain st w'
    where r: "char_read 5 rdbuf_init (start [RData ''ab'']) = (Val (1, Some CHR ''a'', st), w')"
      and ok: "rdbuf_ok st" by blast
  have "unread st = ''b''"
    using r by (auto simp: char_read_def rdbuf_init_def read_again_at exec take_char_def
        unread_def fill_buf_def ret_def)
  from char_read_crosses_descriptors [OF ok this, of 6 w'] r show ?thesis by blast
qed

end
