(* ===== verification/Inet.thy ===== *)
theory Inet
  imports Logic
begin

text \<open>
  The address conversions of \<^verbatim>\<open><arpa/inet.h>\<close> the servers use: \<^verbatim>\<open>inet_ntop\<close> and \<^verbatim>\<open>inet_pton\<close> for
  \<^verbatim>\<open>AF_INET\<close>. An address is the 32-bit \<^verbatim>\<open>s_addr\<close> as a little-endian host reads it, so octet \<open>k\<close>
  is byte \<open>k\<close>, counted from the low end.
\<close>

definition octet :: "nat \<Rightarrow> 32 word \<Rightarrow> nat" where
  "octet k a = unat a div 256 ^ k mod 256"

definition addr_of_octets :: "nat \<Rightarrow> nat \<Rightarrow> nat \<Rightarrow> nat \<Rightarrow> 32 word" where
  "addr_of_octets a b c d = of_nat (a + 256 * b + 65536 * c + 16777216 * d)"

definition inet_ntop :: "32 word \<Rightarrow> string" where
  "inet_ntop a = dec_nat (octet 0 a) @ ''.'' @ dec_nat (octet 1 a) @ ''.''
     @ dec_nat (octet 2 a) @ ''.'' @ dec_nat (octet 3 a)"

text \<open>The scanner of \<^verbatim>\<open>inet_pton\<close>: finished octets, last first, and the one being read.\<close>

fun pton_scan :: "string \<Rightarrow> nat list \<Rightarrow> nat option \<Rightarrow> nat list option" where
  "pton_scan [] os cur =
     (case cur of
        Some v \<Rightarrow> if length os = 3 then Some (v # os) else None
      | None \<Rightarrow> None)"
| "pton_scan (c # s) os cur =
     (if isdigit_c c then
        (case cur of
           None \<Rightarrow> pton_scan s os (Some (code c - 48))
         | Some v \<Rightarrow>
             if v = 0 \<or> 255 < 10 * v + (code c - 48) then None
             else pton_scan s os (Some (10 * v + (code c - 48))))
      else if c = CHR ''.'' then
        (case cur of
           None \<Rightarrow> None
         | Some v \<Rightarrow> if length os = 3 then None else pton_scan s (v # os) None)
      else None)"

definition inet_pton :: "string \<Rightarrow> 32 word option" where
  "inet_pton s =
     (case pton_scan s [] None of
        Some [d, c, b, a] \<Rightarrow> Some (addr_of_octets a b c d)
      | _ \<Rightarrow> None)"

lemma octet_less: "octet k a < 256"
  by (simp add: octet_def)

lemma not_digit_dot [simp]: "\<not> isdigit_c CHR ''.''"
  by (simp add: isdigit_c_def code_def)

lemma four_bytes:
  fixes n :: nat
  assumes "n < 4294967296"
  shows "n mod 256 + 256 * (n div 256 mod 256) + 65536 * (n div 65536 mod 256)
     + 16777216 * (n div 16777216 mod 256) = n"
proof -
  define p q r where "p = n div 256" and "q = p div 256" and "r = q div 256"
  have "n = n mod 256 + 256 * p" "p = p mod 256 + 256 * q" "q = q mod 256 + 256 * r"
    by (simp_all add: p_def q_def r_def)
  moreover have "r mod 256 = r"
    using assms by (simp add: p_def q_def r_def div_mult2_eq [symmetric])
  moreover have "n div 65536 = q" "n div 16777216 = r"
    by (simp_all add: p_def q_def r_def div_mult2_eq [symmetric])
  ultimately show ?thesis by (simp flip: p_def)
qed

lemma addr_of_octets_octet: "addr_of_octets (octet 0 a) (octet 1 a) (octet 2 a) (octet 3 a) = a"
proof -
  have "unat a < 4294967296" using unsigned_less [of a] by simp
  note eq = four_bytes [OF this]
  have "octet 0 a = unat a mod 256" "octet 1 a = unat a div 256 mod 256"
    "octet 2 a = unat a div 65536 mod 256" "octet 3 a = unat a div 16777216 mod 256"
    by (simp_all add: octet_def)
  with eq have "octet 0 a + 256 * octet 1 a + 65536 * octet 2 a + 16777216 * octet 3 a = unat a"
    by (simp only:)
  then show ?thesis by (simp only: addr_of_octets_def) simp
qed

lemma pton_digit: "d < 10 \<Longrightarrow> isdigit_c (digit_c d) \<and> code (digit_c d) = 48 + d"
  by (simp add: digit_c_def isdigit_c_def)

lemma dec_nat_rec: "10 \<le> n \<Longrightarrow> dec_nat n = dec_nat (n div 10) @ [digit_c (n mod 10)]"
  by (subst dec_nat.simps) simp

text \<open>A printed octet is scanned back.\<close>

lemma pton_scan_dec:
  "n < 256 \<Longrightarrow> pton_scan (dec_nat n @ s) os None = pton_scan s os (Some n)"
proof (induction n arbitrary: s rule: dec_nat.induct)
  case (1 n)
  show ?case
  proof (cases "n < 10")
    case True
    then show ?thesis using pton_digit [of n] by (simp add: dec_nat.simps [of n])
  next
    case False
    then have "pton_scan (dec_nat n @ s) os None
        = pton_scan (dec_nat (n div 10) @ digit_c (n mod 10) # s) os None"
      by (simp add: dec_nat_rec)
    also have "\<dots> = pton_scan (digit_c (n mod 10) # s) os (Some (n div 10))"
      using "1" False by simp
    also have "\<dots> = pton_scan s os (Some n)"
    proof -
      have "n div 10 \<noteq> 0" using False by auto
      then show ?thesis using pton_digit [of "n mod 10"] False "1.prems" by simp
    qed
    finally show ?thesis .
  qed
qed

lemma inet_pton_ntop: "inet_pton (inet_ntop a) = Some a"
  using pton_scan_dec [OF octet_less, of 3 a "[]"]
  by (simp add: inet_pton_def inet_ntop_def pton_scan_dec octet_less
      addr_of_octets_octet [simplified])

lemma length_inet_ntop: "length (inet_ntop a) \<le> 15"
proof -
  have "length (dec_nat (octet k a)) \<le> 3" for k
    using octet_less [of k a] by (intro length_dec_nat_less) simp_all
  from this [of 0] this [of 1] this [of 2] this [of 3] show ?thesis
    by (simp add: inet_ntop_def)
qed

end
