(* ===== verification/Wrap.thy ===== *)
theory Wrap
  imports LineReader Inet
begin

text \<open>
  \<^verbatim>\<open>linux-network/wrap.c\<close>: the error-checking wrappers of the socket calls, the interruption-safe
  \<^verbatim>\<open>Read\<close> and \<^verbatim>\<open>Write\<close>, the exact-count transfers \<^verbatim>\<open>Readn\<close> and \<^verbatim>\<open>Writen\<close>, and \<^verbatim>\<open>tcp4bind\<close>.
  (\<^verbatim>\<open>my_read\<close> and \<^verbatim>\<open>Readline\<close> are in theory LineReader.) The wrappers keep the names of the source.
\<close>

definition perr_exit :: "string \<Rightarrow> 'a prog" where
  "perr_exit s = thn (perror s) (exit_p (-1))"

definition Accept :: "int \<Rightarrow> (int \<times> saddr option) prog" where
  "Accept fd =
     forever (\<lambda>_. bnd (sys_accept fd) (\<lambda>(n, sa).
       if n < 0 then
         bnd get_errno (\<lambda>e.
           if e = ECONNABORTED \<or> e = EINTR then ret (Inl ())
           else perr_exit ''accept error'')
       else ret (Inr (n, sa)))) ()"

definition check :: "syscall \<Rightarrow> string \<Rightarrow> int prog" where
  \<comment> \<open>the common body of \<^verbatim>\<open>Bind\<close>, \<^verbatim>\<open>Connect\<close>, \<^verbatim>\<open>Listen\<close>, \<^verbatim>\<open>Socket\<close>, \<^verbatim>\<open>Close\<close>\<close>
  "check c msg = bnd (sys_int c) (\<lambda>n. if n < 0 then perr_exit msg else ret n)"

definition Bind :: "int \<Rightarrow> saddr \<Rightarrow> int prog" where
  "Bind fd sa = check (KBind fd sa) ''bind error''"

definition Connect :: "int \<Rightarrow> saddr \<Rightarrow> int prog" where
  "Connect fd sa = check (KConnect fd sa) ''connect error''"

definition Listen :: "int \<Rightarrow> int \<Rightarrow> int prog" where
  "Listen fd backlog = check (KListen fd backlog) ''listen error''"

definition Socket :: "af \<Rightarrow> socktype \<Rightarrow> int prog" where
  "Socket family type = check (KSocket family type) ''socket error''"

definition Close :: "int \<Rightarrow> int prog" where
  "Close fd = check (KClose fd) ''close error''"

definition Read :: "int \<Rightarrow> nat \<Rightarrow> string option prog" where
  "Read fd nbytes =
     forever (\<lambda>_. bnd (sys_read fd nbytes) (\<lambda>r.
       if rlen r = -1 then
         bnd get_errno (\<lambda>e. if e = EINTR then ret (Inl ()) else ret (Inr None))
       else ret (Inr r))) ()"

definition Write :: "int \<Rightarrow> string \<Rightarrow> int prog" where
  "Write fd bs =
     forever (\<lambda>_. bnd (sys_write fd bs) (\<lambda>n.
       if n = -1 then
         bnd get_errno (\<lambda>e. if e = EINTR then ret (Inl ()) else ret (Inr (-1)))
       else ret (Inr n))) ()"

text \<open>
  \<^verbatim>\<open>Readn\<close>: the loop variables are \<open>nleft\<close> and the bytes stored so far (the pointer is behind
  them). The result is the return value and those bytes.
\<close>

definition Readn_body :: "int \<Rightarrow> nat \<Rightarrow> nat \<times> string \<Rightarrow> ((nat \<times> string) + (int \<times> string)) prog" where
  "Readn_body fd n = (\<lambda>(nleft, got).
     if 0 < nleft then
       bnd (sys_read fd nleft) (\<lambda>r.
         if rlen r < 0 then
           bnd get_errno (\<lambda>e.
             if e = EINTR then ret (Inl (nleft, got)) else ret (Inr (-1, got)))
         else if rlen r = 0 then ret (Inr (int (n - nleft), got))
         else ret (Inl (nleft - nat (rlen r), got @ rbuf [] r)))
     else ret (Inr (int (n - nleft), got)))"

definition Readn :: "int \<Rightarrow> nat \<Rightarrow> (int \<times> string) prog" where
  "Readn fd n = forever (Readn_body fd n) (n, [])"

text \<open>\<^verbatim>\<open>Writen\<close>: the loop variable is what is left to write, \<open>nleft\<close> bytes at \<open>ptr\<close>.\<close>

definition Writen_body :: "int \<Rightarrow> string \<Rightarrow> string \<Rightarrow> (string + int) prog" where
  "Writen_body fd bs = (\<lambda>rest.
     if 0 < length rest then
       bnd (sys_write fd rest) (\<lambda>nwritten.
         if nwritten \<le> 0 then
           bnd get_errno (\<lambda>e.
             if nwritten < 0 \<and> e = EINTR then ret (Inl rest) else ret (Inr (-1)))
         else ret (Inl (drop (nat nwritten) rest)))
     else ret (Inr (int (length bs))))"

definition Writen :: "int \<Rightarrow> string \<Rightarrow> int prog" where
  "Writen fd bs = forever (Writen_body fd bs) bs"

definition tcp4bind :: "16 word \<Rightarrow> string option \<Rightarrow> int prog" where
  "tcp4bind port IP =
     bnd (Socket AF_INET SOCK_STREAM) (\<lambda>lfd.
       case IP of
         None \<Rightarrow>
           bnd (Bind lfd (Inet INADDR_ANY (htons port))) (\<lambda>_. ret lfd)
       | Some ip \<Rightarrow>
           (case inet_pton ip of
              None \<Rightarrow> thn (perror ip) (exit_p 1)
            | Some a \<Rightarrow> bnd (Bind lfd (Inet a (htons port))) (\<lambda>_. ret lfd)))"

section \<open>Bytes moved, as the trace shows them\<close>

fun sent1 :: "int \<Rightarrow> event \<Rightarrow> string" where
  \<comment> \<open>the bytes the kernel took from one \<^verbatim>\<open>write\<close> on \<open>fd\<close>\<close>
  "sent1 fd (Ev (KWrite f bs) (RInt k)) = (if f = fd then take (nat k) bs else [])"
| "sent1 fd _ = []"

fun received1 :: "int \<Rightarrow> event \<Rightarrow> string" where
  "received1 fd (Ev (KRead f n) (RData bs)) = (if f = fd then bs else [])"
| "received1 fd _ = []"

definition sent :: "int \<Rightarrow> event list \<Rightarrow> string" where
  "sent fd tr = concat (map (sent1 fd) tr)"

definition received :: "int \<Rightarrow> event list \<Rightarrow> string" where
  "received fd tr = concat (map (received1 fd) tr)"

lemma sent_simps [simp]: "sent fd [] = []" "sent fd (e # tr) = sent1 fd e @ sent fd tr"
    "sent fd (tr @ tr') = sent fd tr @ sent fd tr'"
  by (simp_all add: sent_def)

lemma received_simps [simp]: "received fd [] = []"
    "received fd (e # tr) = received1 fd e @ received fd tr"
    "received fd (tr @ tr') = received fd tr @ received fd tr'"
  by (simp_all add: received_def)

section \<open>Properties\<close>

lemma eats_round_Accept:
  "eats_round (bnd (sys_accept fd) (\<lambda>(n, sa).
       if n < 0 then
         bnd get_errno (\<lambda>e.
           if e = ECONNABORTED \<or> e = EINTR then ret (Inl ())
           else perr_exit ''accept error'')
       else ret (Inr (n, sa))))"
  unfolding perr_exit_def by (rule eats_sys_round) (intro tame_intros; simp)

lemma eats_round_Read:
  "eats_round (bnd (sys_read fd nbytes) (\<lambda>r.
       if rlen r = -1 then
         bnd get_errno (\<lambda>e. if e = EINTR then ret (Inl ()) else ret (Inr None))
       else ret (Inr r)))"
  by (rule eats_sys_round) (intro tame_intros)

lemma eats_round_Write:
  "eats_round (bnd (sys_write fd bs) (\<lambda>n.
       if n = -1 then
         bnd get_errno (\<lambda>e. if e = EINTR then ret (Inl ()) else ret (Inr (-1)))
       else ret (Inr n)))"
  by (rule eats_sys_round) (intro tame_intros)

lemma eats_round_Readn: "eats_round (Readn_body fd n s)"
  by (cases s) (auto simp: Readn_body_def intro!: eats_round_if eats_sys_round eats_round_Inr tame_intros)

lemma eats_round_Writen: "eats_round (Writen_body fd bs rest)"
  by (auto simp: Writen_body_def intro!: eats_round_if eats_sys_round eats_round_Inr tame_intros)

lemma extends_stepI:
  "extends P w w1 \<Longrightarrow> P (Ev c r) \<Longrightarrow> extends P w (step_world c r eo w1)"
  by (auto simp: extends_def)

text \<open>The interruption-safe wrappers as single calls: \<open>again c\<close> are the events of the retries.\<close>

definition again :: "syscall \<Rightarrow> event \<Rightarrow> bool" where
  "again c e \<longleftrightarrow> (\<exists>r. e = Ev c r)"

lemma again_step: "again c (Ev c r)"
  by (simp add: again_def)

lemma wp_ReadI [wp_intros]:
  assumes "\<And>w'. extends (again (KRead fd n)) w w' \<Longrightarrow> E SBlocked w'"
    and "\<And>d w'. length d \<le> n \<Longrightarrow> extends (again (KRead fd n)) w w' \<Longrightarrow>
          Q (Some d) (step_world (KRead fd n) (RData d) None w')"
    and "\<And>w'. extends (again (KRead fd n)) w w' \<Longrightarrow> Q None w'"
  shows "wp (Read fd n) Q E w"
  unfolding Read_def
proof (rule wp_forever [where I = "\<lambda>_. extends (again (KRead fd n)) w", OF eats_round_Read extends_refl],
    goal_cases)
  case (1 s w1)
  then show ?case
    by (intro wp_intros) (auto intro: assms extends_stepI again_step)
qed

lemma wp_WriteI [wp_intros]:
  assumes "\<And>w'. extends (again (KWrite fd bs)) w w' \<Longrightarrow> E SBlocked w'"
    and "\<And>n w'. 0 \<le> n \<Longrightarrow> n \<le> int (length bs) \<Longrightarrow> extends (again (KWrite fd bs)) w w' \<Longrightarrow>
          Q n (step_world (KWrite fd bs) (RInt n) None w')"
    and "\<And>w'. extends (again (KWrite fd bs)) w w' \<Longrightarrow> Q (-1) w'"
  shows "wp (Write fd bs) Q E w"
  unfolding Write_def
proof (rule wp_forever [where I = "\<lambda>_. extends (again (KWrite fd bs)) w", OF eats_round_Write extends_refl],
    goal_cases)
  case (1 s w1)
  then show ?case
    by (intro wp_intros) (auto intro: assms extends_stepI again_step)
qed

lemma wp_AcceptI [wp_intros]:
  assumes "\<And>w'. extends (again (KAccept fd)) w w' \<Longrightarrow> E SBlocked w'"
    and "\<And>n a w'. 0 \<le> n \<Longrightarrow> extends (again (KAccept fd)) w w' \<Longrightarrow>
          Q (n, Some a) (step_world (KAccept fd) (RConn n a) None w')"
    and "\<And>w'. E (SExit (-1)) w'"
  shows "wp (Accept fd) Q E w"
  unfolding Accept_def perr_exit_def
proof (rule wp_forever [where I = "\<lambda>_. extends (again (KAccept fd)) w",
      OF eats_round_Accept [unfolded perr_exit_def] extends_refl], goal_cases)
  case (1 s w1)
  then show ?case
    by (intro wp_intros) (auto intro: assms extends_stepI again_step)
qed

lemma tame_wrappers [tame_intros]:
  "tame (Read fd n)" "tame (Write fd bs)" "tame (Accept fd)"
  unfolding Read_def Write_def Accept_def
  by (rule tame_forever, rule eats_round_Read eats_round_Write eats_round_Accept)+

lemma tame_checked [tame_intros]:
  "tame (Bind fd sa)" "tame (Connect fd sa)" "tame (Listen fd b)" "tame (Socket f ty)" "tame (Close fd)"
  unfolding Bind_def Connect_def Listen_def Socket_def Close_def check_def perr_exit_def
  by (intro tame_intros; simp)+

text \<open>C11: \<^verbatim>\<open>Writen\<close> delivers all of its buffer, in order and exactly once, whatever pieces the
  kernel takes and however often it is interrupted, and then returns the length; when it returns
  -1 or the kernel stops answering, a proper prefix was delivered. It never loops without
  progress.\<close>

theorem Writen_delivers:
  "wp (Writen fd bs)
     (\<lambda>r w'. (r = int (length bs) \<and> sent fd (trace w') = sent fd (trace w) @ bs)
           \<or> (r = -1 \<and> (\<exists>k. k < length bs \<and> sent fd (trace w') = sent fd (trace w) @ take k bs)))
     (\<lambda>s w'. s = SBlocked \<and>
            (\<exists>k. k < length bs \<and> sent fd (trace w') = sent fd (trace w) @ take k bs)) w"
  unfolding Writen_def
proof (rule wp_forever [where I = "\<lambda>rest w'. \<exists>k. k \<le> length bs \<and> rest = drop k bs
        \<and> sent fd (trace w') = sent fd (trace w) @ take k bs"])
  show "eats_round (Writen_body fd bs rest)" for rest by (rule eats_round_Writen)
  show "\<exists>k. k \<le> length bs \<and> bs = drop k bs \<and> sent fd (trace w) = sent fd (trace w) @ take k bs"
    by (rule exI [of _ 0]) simp
next
  fix rest and w1 :: world
  assume "\<exists>k. k \<le> length bs \<and> rest = drop k bs
        \<and> sent fd (trace w1) = sent fd (trace w) @ take k bs"
  then obtain k where k: "k \<le> length bs" "rest = drop k bs"
    and tr: "sent fd (trace w1) = sent fd (trace w) @ take k bs" by blast
  have more: "\<exists>k'. k' \<le> length bs \<and> drop (n + k) bs = drop k' bs
      \<and> take k bs @ take n (drop k bs) = take k' bs" if "n \<le> length bs - k" for n
    using that k(1) by (intro exI [of _ "k + n"]) (simp add: take_add add.commute)
  show "wp (Writen_body fd bs rest)
     (\<lambda>x w'. case x of
        Inl s' \<Rightarrow> \<exists>k. k \<le> length bs \<and> s' = drop k bs
            \<and> sent fd (trace w') = sent fd (trace w) @ take k bs
      | Inr r \<Rightarrow> r = int (length bs) \<and> sent fd (trace w') = sent fd (trace w) @ bs \<or>
          r = -1 \<and> (\<exists>k. k < length bs \<and> sent fd (trace w') = sent fd (trace w) @ take k bs))
     (\<lambda>s w'. s = SBlocked
        \<and> (\<exists>k. k < length bs \<and> sent fd (trace w') = sent fd (trace w) @ take k bs)) w1"
    using k tr
    unfolding Writen_body_def
    by (intro wp_intros) (auto simp: more intro: exI [of _ k])
qed

text \<open>\<^verbatim>\<open>Readn\<close> stores exactly the bytes the descriptor delivered, never more than asked for;
  it returns their number, which is less than \<open>n\<close> only because the last \<^verbatim>\<open>read\<close> met the end of
  file, or -1 on an error other than an interruption.\<close>

theorem Readn_collects:
  "wp (Readn fd n)
     (\<lambda>(r, got) w'. received fd (trace w') = received fd (trace w) @ got \<and> length got \<le> n
        \<and> (r = int (length got)
             \<and> (length got = n \<or> last (trace w') = Ev (KRead fd (n - length got)) (RData []))
           \<or> r = -1 \<and> errno w' \<noteq> EINTR))
     (\<lambda>s w'. s = SBlocked) w"
  unfolding Readn_def
proof (rule wp_forever [where I = "\<lambda>(nleft, got) w'. nleft + length got = n
        \<and> received fd (trace w') = received fd (trace w) @ got", OF eats_round_Readn], goal_cases)
  case (2 s w1)
  obtain nleft got where s: "s = (nleft, got)" by (cases s)
  show ?case
    using 2 unfolding Readn_body_def s prod.case
    by (intro wp_intros) (auto simp: fill_buf_def)
qed simp

text \<open>\<^verbatim>\<open>Accept\<close> retries interrupted and aborted connections and otherwise returns a descriptor
  with its peer, or ends the process with -1 after reporting; it never hands -1 to its caller.\<close>

theorem Accept_descriptor_or_exit:
  "wp (Accept fd)
     (\<lambda>(n, sa) w'. 0 \<le> n \<and> (\<exists>a. sa = Some a \<and> last (trace w') = Ev (KAccept fd) (RConn n a)))
     (\<lambda>s w'. s = SBlocked
        \<or> s = SExit (-1) \<and> last (trace w') = Perror ''accept error''
          \<and> errno w' \<notin> {ECONNABORTED, EINTR}) w"
  unfolding Accept_def
proof (rule wp_forever [where I = "\<lambda>_ _. True", OF eats_round_Accept TrueI], goal_cases)
  case (1 s w1)
  show ?case unfolding perr_exit_def by (intro wp_intros) auto
qed

lemma wp_check:
  "(\<And>n. 0 \<le> n \<Longrightarrow> Q n (step_world c (RInt n) None w)) \<Longrightarrow> E SBlocked w \<Longrightarrow>
   (\<And>e. E (SExit (-1)) ((step_world c (RFail e) (Some e) w)
           \<lparr>trace := trace w @ [Ev c (RFail e), Perror msg]\<rparr>)) \<Longrightarrow>
   wp (check c msg) Q E w"
  unfolding check_def perr_exit_def by (intro wp_intros) auto

lemmas wp_wrappers [wp_intros] =
  wp_check [of _ "KBind fd sa" w _ "''bind error''" for fd sa w, folded Bind_def]
  wp_check [of _ "KConnect fd sa" w _ "''connect error''" for fd sa w, folded Connect_def]
  wp_check [of _ "KListen fd b" w _ "''listen error''" for fd b w, folded Listen_def]
  wp_check [of _ "KSocket f t" w _ "''socket error''" for f t w, folded Socket_def]
  wp_check [of _ "KClose fd" w _ "''close error''" for fd w, folded Close_def]

text \<open>\<^verbatim>\<open>tcp4bind\<close>, given the dotted form of an address, opens one TCP socket, binds it to that
  address and the port in network byte order, and returns it; every failure ends the process,
  with -1 from the wrappers, and 1 when the address does not parse.\<close>

theorem tcp4bind_binds:
  "wp (tcp4bind port (Some (inet_ntop a)))
     (\<lambda>lfd w'. \<exists>r. trace w' = trace w @ [Ev (KSocket AF_INET SOCK_STREAM) (RInt lfd),
                                    Ev (KBind lfd (Inet a (htons port))) (RInt r)])
     (\<lambda>s w'. s = SBlocked \<or> s = SExit (-1)) w"
  unfolding tcp4bind_def by (intro wp_intros) (auto simp: inet_pton_ntop)

end
