(* ===== verification/Sockets.thy ===== *)
theory Sockets
  imports Wrap
begin

text \<open>
  The text the TCP servers of \<^verbatim>\<open>linux-network\<close> share, word for word in each \<^verbatim>\<open>main\<close>: the listening
  socket on port 8888 of every interface, and the line printed for a new client.
\<close>

definition client_args :: "saddr option \<Rightarrow> arg list" where
  \<comment> \<open>\<^verbatim>\<open>inet_ntop\<close> of the address and \<^verbatim>\<open>ntohs\<close> of the port of a \<^verbatim>\<open>sockaddr_in\<close> that was zeroed
    before the kernel filled it\<close>
  "client_args sa =
     (let (a, p) = (case sa of Some (Inet a p) \<Rightarrow> (a, p) | _ \<Rightarrow> (0, 0))
      in [AS (inet_ntop a), AI (uint (ntohs p))])"

definition print_client :: "saddr option \<Rightarrow> unit prog" where
  "print_client sa = printf (''client ip = [%s],port = [%d]'' @ [LF]) (client_args sa)"

text \<open>
  \<open>server_socket bind_msg backlog k\<close>: \<^verbatim>\<open>socket\<close>, \<^verbatim>\<open>setsockopt\<close>, \<^verbatim>\<open>bind\<close>, \<^verbatim>\<open>listen\<close>, each failure but
  that of \<^verbatim>\<open>setsockopt\<close> reported and returned as -1; the rest of \<^verbatim>\<open>main\<close> is \<open>k\<close>, applied to the
  listening descriptor.
\<close>

definition server_socket :: "string \<Rightarrow> int \<Rightarrow> (int \<Rightarrow> int prog) \<Rightarrow> int prog" where
  "server_socket bind_msg backlog k =
     bnd (sys_int (KSocket AF_INET SOCK_STREAM)) (\<lambda>ftd.
       if ftd < 0 then thn (perror (''socket error'' @ [LF])) (ret (-1))
       else
     bnd (sys_int (KSetsockopt ftd 1)) (\<lambda>_.
     bnd (sys_int (KBind ftd (Inet INADDR_ANY (htons 8888)))) (\<lambda>res.
       if res < 0 then thn (perror bind_msg) (ret (-1))
       else
     bnd (sys_int (KListen ftd backlog)) (\<lambda>res.
       if res < 0 then thn (perror (''listen error'' @ [LF])) (ret (-1))
       else k ftd))))"

declare safe_trace_append [simp]

text \<open>What the prologue adds to the trace: none of the calls the servers' properties speak of.\<close>

definition setup_event :: "event \<Rightarrow> bool" where
  "setup_event e = (case e of
      Ev c r \<Rightarrow> (case c of
          KSocket _ _ \<Rightarrow> True | KSetsockopt _ _ \<Rightarrow> True | KBind _ _ \<Rightarrow> True | KListen _ _ \<Rightarrow> True
        | _ \<Rightarrow> False)
    | Print _ _ \<Rightarrow> False
    | Perror _ \<Rightarrow> True)"

lemma tame_print_client [tame_intros]: "tame (print_client sa)"
  unfolding print_client_def by (intro tame_intros)

lemma emits_print_client [emits_intros]:
  assumes "\<And>fmt xs. P (Print fmt xs)" shows "emits P (print_client sa)"
  unfolding print_client_def by (intro emits_intros assms)

lemma wp_print_client [wp_intros]:
  assumes "\<And>fmt xs. Q () (w\<lparr>trace := trace w @ [Print fmt xs]\<rparr>)"
  shows "wp (print_client sa) Q E w"
  unfolding print_client_def by (intro wp_intros assms)

lemma tame_server_socket [tame_intros]:
  "(\<And>ftd. tame (k ftd)) \<Longrightarrow> tame (server_socket m b k)"
  unfolding server_socket_def by (intro tame_intros)

text \<open>The result of a call, when \<open>s\<close> begins with its reply: that of \<^verbatim>\<open>socket\<close>, the first call of the servers, is the
  listening descriptor.\<close>

definition result :: "reply list \<Rightarrow> int set" where
  "result s = (case s of RInt n # _ \<Rightarrow> {n} | _ \<Rightarrow> {})"

lemma wp_server_socket:
  assumes k: "\<And>ftd w'. 0 \<le> ftd \<Longrightarrow> extends setup_event w w' \<Longrightarrow> ftd \<in> result (script w) \<Longrightarrow> script w' = drop 4 (script w)
      \<Longrightarrow> wp (k ftd) Q E w'"
    and Q: "\<And>w'. extends setup_event w w' \<Longrightarrow> Q (-1) w'"
    and E: "\<And>w'. extends setup_event w w' \<Longrightarrow> E SBlocked w'"
  shows "wp (server_socket m b k) Q E w"
  unfolding server_socket_def
  by (simp only: wp_bnd wp_sys_int, auto simp: wp_simps result_def eval_nat_numeral drop_Suc extends_def setup_event_def
      split: list.splits reply.splits intro!: k Q E)

section \<open>What a run of an echo server may do\<close>

text \<open>
  The automaton remembers the last read of the run (\<open>None\<close>: it failed) and whether the last wait
  for events failed. A write must send, on the descriptor just read, \<open>out\<close> of what was read. The
  server's \<open>own\<close> descriptors may be closed when the wait has failed, and any one, for the servers that do close
  their clients (\<open>hangs\<close>), when the last read was on it and met the end of file.
\<close>

type_synonym echo_state = "(int \<times> string option) \<times> bool"

definition echo_upd :: "echo_state \<Rightarrow> event \<Rightarrow> echo_state" where
  "echo_upd q e = (case e of
      Ev c r \<Rightarrow> (case c of
          KRead f n \<Rightarrow> ((f, case r of RData d \<Rightarrow> Some d | _ \<Rightarrow> None), snd q)
        | KEpollWait _ _ _ \<Rightarrow> (fst q, case r of RFail _ \<Rightarrow> True | _ \<Rightarrow> False)
        | KSelect _ _ \<Rightarrow> (fst q, case r of RFail _ \<Rightarrow> True | _ \<Rightarrow> False)
        | KPoll _ _ \<Rightarrow> (fst q, case r of RFail _ \<Rightarrow> True | _ \<Rightarrow> False)
        | _ \<Rightarrow> q)
    | _ \<Rightarrow> q)"

definition echo_chk :: "(string option \<Rightarrow> string) \<Rightarrow> bool \<Rightarrow> int set \<Rightarrow> echo_state \<Rightarrow> event \<Rightarrow> bool" where
  "echo_chk out hangs own q e = (case e of
      Ev c r \<Rightarrow> (case c of
          KWrite f bs \<Rightarrow> fst (fst q) = f \<and> bs = out (snd (fst q))
        | KClose f \<Rightarrow> snd q \<and> f \<in> own \<or> hangs \<and> fst q = (f, Some [])
        | _ \<Rightarrow> True)
    | _ \<Rightarrow> True)"

definition echo_init :: echo_state where
  "echo_init = ((0, None), False)"

abbreviation echo_now :: "world \<Rightarrow> echo_state" where
  "echo_now w \<equiv> foldl echo_upd echo_init (trace w)"

abbreviation echo_ok :: "(string option \<Rightarrow> string) \<Rightarrow> bool \<Rightarrow> int set \<Rightarrow> world \<Rightarrow> bool" where
  "echo_ok out hangs own w \<equiv> safe_trace (echo_chk out hangs own) echo_upd echo_init (trace w)"

lemma echo_quiet [simp]:
  "echo_chk out h own q (Print f xs)" "echo_chk out h own q (Perror m)"
  "echo_chk out h own q (Ev (KRead fd k) r)" "echo_chk out h own q (Ev (KAccept fd) r)"
  "echo_chk out h own q (Ev (KFcntlGet fd) r)" "echo_chk out h own q (Ev (KFcntlSet fd fl) r)"
  "echo_chk out h own q (Ev (KEpollCtl ep op fd ev) r)" "echo_chk out h own q (Ev (KEpollWait ep k t) r)"
  "echo_chk out h own q (Ev (KEpollCreate sz) r)" "echo_chk out h own q (Ev (KSelect nf st) r)"
  "echo_chk out h own q (Ev (KPoll ps t) r)"
  "setup_event e \<Longrightarrow> echo_chk out h own q e \<and> echo_upd q e = q"
  by (auto simp: echo_chk_def echo_upd_def setup_event_def split: event.splits syscall.splits)

lemma echo_upd_simps [simp]:
  "echo_upd q (Print f xs) = q" "echo_upd q (Perror m) = q"
  "echo_upd q (Ev (KRead fd k) r) = ((fd, case r of RData d \<Rightarrow> Some d | _ \<Rightarrow> None), snd q)"
  "echo_upd q (Ev (KAccept fd) r) = q" "echo_upd q (Ev (KEpollCtl ep op fd ev) r) = q"
  "echo_upd q (Ev (KEpollCreate sz) r) = q" "echo_upd q (Ev (KClose fd) r) = q"
  "echo_upd q (Ev (KWrite fd bs) r) = q"
  by (simp_all add: echo_upd_def)

lemma echo_setup: "extends setup_event (start s) w \<Longrightarrow> echo_ok out h own w \<and> echo_now w = echo_init"
proof -
  assume e: "extends setup_event (start s) w"
  have "tracked (echo_chk out h own) echo_upd echo_init echo_init (start s)"
    by (rule tracked_start) simp
  from tracked_quiet [OF this e] show ?thesis by (simp add: tracked_def)
qed

text \<open>The last call read as many bytes as the buffer of \<open>n\<close> bytes holds, none of them NUL: as a string
  the buffer has no end.\<close>

definition overfull :: "nat \<Rightarrow> world \<Rightarrow> bool" where
  "overfull n w \<longleftrightarrow> (\<exists>fd d. last (trace w) = Ev (KRead fd n) (RData d) \<and> length d = n \<and> NUL \<notin> set d)"

end
