(* ===== verification/HttpServer.thy ===== *)
theory HttpServer
  imports UrlCodec Sockets "HOL-Library.List_Lexorder"
begin

text \<open>
  The web server \<^verbatim>\<open>httpService/http_service.c\<close> (its string helpers are in UrlCodec, its line
  input in LineReader): \<^verbatim>\<open>send_header\<close>, \<^verbatim>\<open>send_file\<close>, \<^verbatim>\<open>getDirstr\<close>, the request handler
  \<^verbatim>\<open>http_service\<close> and the epoll loop of \<^verbatim>\<open>main\<close>; and \<^verbatim>\<open>areyouok.c\<close>.

  The state of the process is the read-ahead buffer of \<^verbatim>\<open>char_read\<close> and the two \<^verbatim>\<open>CLIENT\<close>
  objects \<^verbatim>\<open>main\<close> hangs into epoll: \<open>soc\<close> for the listening socket and the single variable
  \<open>cli_con\<close>, overwritten by every accepted connection.
\<close>

section \<open>Sending\<close>

definition sprintf_at :: "nat \<Rightarrow> string \<Rightarrow> string \<Rightarrow> string prog" where
  \<comment> \<open>append \<open>s\<close> and a terminator to the C string \<open>acc\<close> held in an array of \<open>cap\<close> bytes\<close>
  "sprintf_at cap acc s =
     (if length acc + length s < cap then ret (acc @ s) else fault_p OutOfBounds)"

definition send_header :: "int \<Rightarrow> string \<Rightarrow> string \<Rightarrow> string \<Rightarrow> int \<Rightarrow> unit prog" where
  "send_header fd c msg fileType len =
     bnd (sprintf_at 1024 [] (''HTTP/1.1 '' @ c @ '' '' @ msg @ [CR, LF])) (\<lambda>buf.
     bnd (sprintf_at 1024 buf (''Content-Type:'' @ fileType @ [CR, LF])) (\<lambda>buf.
     bnd (if 0 < len
          then sprintf_at 1024 buf (''Content-Length:'' @ dec_int len @ [CR, LF])
          else ret buf) (\<lambda>buf.
     bnd (sprintf_at 1024 buf [CR, LF]) (\<lambda>buf.
     bnd (sys_write fd buf) (\<lambda>_. ret ())))))"

definition send_file_body :: "int \<Rightarrow> int \<Rightarrow> unit \<Rightarrow> (unit + unit) prog" where
  "send_file_body fd fileid _ =
     bnd (sys_read fileid 1024) (\<lambda>r.
       if rlen r \<le> 0 then ret (Inr ())
       else bnd (sys_write fd (take (nat (rlen r)) (rbuf (zbuf 1024) r))) (\<lambda>_. ret (Inl ())))"

definition send_file :: "int \<Rightarrow> string \<Rightarrow> unit prog" where
  "send_file fd fileName =
     bnd (sys_int (KOpen fileName)) (\<lambda>fileid.
       if fileid < 0 then perror (''open file error'' @ [LF])
       else thn (forever (send_file_body fd fileid) ())
              (bnd (sys_int (KClose fileid)) (\<lambda>_. ret ())))"

section \<open>Directory listings\<close>

definition dir_entry :: "string \<times> ftype \<Rightarrow> string" where
  "dir_entry e =
     (case snd e of
        FReg \<Rightarrow> ''<li><a href='' @ fst e @ ''>'' @ fst e @ ''</a></li>''
      | FDir \<Rightarrow> ''<li><a href='' @ fst e @ ''/>'' @ fst e @ ''</a></li>''
      | _ \<Rightarrow> [])"

fun dec_dir :: "reply \<Rightarrow> (errno option \<times> (string \<times> ftype) list option) option" where
  "dec_dir (RDir es) = (if list_all (\<lambda>e. NUL \<notin> set (fst e)) es then Some (None, Some es) else None)"
| "dec_dir (RFail e) = Some (Some e, None)"
| "dec_dir _ = None"

text \<open>\<^verbatim>\<open>scandir\<close> with \<^verbatim>\<open>alphasort\<close>: the entries by name, in the byte order of the C locale.\<close>

definition scandir :: "string \<Rightarrow> (string \<times> ftype) list option prog" where
  "scandir name = bnd (call (KScandir name) dec_dir) (\<lambda>r. ret (map_option (sort_key fst) r))"

text \<open>\<^verbatim>\<open>while(n--)\<close> walks the array from its end; \<open>buffer\<close> is the caller's array of 2048 bytes.\<close>

fun list_entries :: "(string \<times> ftype) list \<Rightarrow> string \<Rightarrow> string prog" where
  "list_entries [] buffer = ret buffer"
| "list_entries (e # es) buffer =
     thn (printf [CHR ''%'', CHR ''s'', LF] [AS (fst e)])
       (bnd (sprintf_at 1024 [] (dir_entry e)) (\<lambda>buf.
        bnd (sprintf_at 2048 buffer buf) (\<lambda>buffer. list_entries es buffer)))"

definition getDirstr :: "int \<Rightarrow> string \<Rightarrow> string \<Rightarrow> int \<Rightarrow> string prog" where
  "getDirstr fd fileName buffer epfd =
     bnd (scandir fileName) (\<lambda>r.
       case r of
         None \<Rightarrow>
           thn (perror (''scandir is error'' @ [LF]))
             (bnd (sys_int (KClose fd)) (\<lambda>_.
              bnd (sys_int (KEpollCtl epfd CTL_DEL fd None)) (\<lambda>_. ret buffer)))
       | Some es \<Rightarrow> list_entries (rev es) buffer)"

section \<open>The request line\<close>

definition isspace_c :: "char \<Rightarrow> bool" where
  "isspace_c c \<longleftrightarrow> code c = 32 \<or> (9 \<le> code c \<and> code c \<le> 13)"

text \<open>\<^verbatim>\<open>sscanf(buf, "%[^ ] %[^ ] %[^ \r\n]", ...)\<close>: a conversion that matches nothing ends the scan.\<close>

definition scan_request :: "string \<Rightarrow> string \<times> string \<times> string" where
  "scan_request s =
     (let r = takeWhile (\<lambda>c. c \<noteq> CHR '' '') s;
          s1 = dropWhile isspace_c (dropWhile (\<lambda>c. c \<noteq> CHR '' '') s);
          f = takeWhile (\<lambda>c. c \<noteq> CHR '' '') s1;
          s2 = dropWhile isspace_c (dropWhile (\<lambda>c. c \<noteq> CHR '' '') s1);
          p = takeWhile (\<lambda>c. c \<notin> {CHR '' '', CR, LF}) s2
      in if r = [] then ([], [], []) else if f = [] then (r, [], []) else (r, f, p))"

definition parse_request :: "string \<Rightarrow> (string \<times> string \<times> string) prog" where
  "parse_request buf =
     bnd (c_str buf) (\<lambda>s.
       let (r, f, p) = scan_request s in
       if 16 \<le> length r \<or> 255 \<le> length f \<or> 16 \<le> length p then fault_p OutOfBounds
       else ret (r, f, p))"

text \<open>The array \<open>fileName\<close> after the special case for the root and the in-place decoding.\<close>

definition resolve :: "string \<Rightarrow> string option" where
  "resolve f =
     strdecode_inplace
       (let arr = fill_buf (zbuf 255) f
        in if length f \<le> 1 then take 1 arr @ ''./'' @ [NUL] @ drop 4 arr else arr) 1"

definition pfile_of :: "string \<Rightarrow> string prog" where
  \<comment> \<open>the C string at \<open>pFile\<close> once the request line is parsed\<close>
  "pfile_of f =
     thn (if length f \<le> 1 then ret () else printf ([CHR ''['', CHR ''%'', CHR ''s'', CHR '']'', LF]) [AS (tl f)])
       (case resolve f of
          None \<Rightarrow> fault_p OutOfBounds
        | Some arr \<Rightarrow> c_str (drop 1 arr))"

section \<open>The handler\<close>

definition drain_measure :: "rdbuf \<Rightarrow> world \<Rightarrow> nat" where
  "drain_measure st w =
     (length (read_buf st) - read_ptr st) + length (script w) * Suc (length (read_buf st))"

definition drain_body :: "int \<Rightarrow> string \<times> rdbuf \<Rightarrow> (string \<times> rdbuf + string \<times> rdbuf) prog" where
  "drain_body fd = (\<lambda>(buf, st).
     bnd (readLine fd buf (length buf) st) (\<lambda>(readres, buf, st).
       ret (if 0 < readres then Inl (buf, st) else Inr (buf, st))))"

definition drain :: "int \<Rightarrow> string \<Rightarrow> rdbuf \<Rightarrow> (string \<times> rdbuf) prog" where
  \<comment> \<open>\<^verbatim>\<open>while((readres=readLine(c->ftd, buf, sizeof(buf)))>0);\<close>\<close>
  "drain fd buf st = forever_by (\<lambda>(buf, st). drain_measure st) (drain_body fd) (buf, st)"

fun dec_stat :: "reply \<Rightarrow> (errno option \<times> (ftype \<times> int) option) option" where
  "dec_stat (RStat k n) = (if 0 \<le> n then Some (None, Some (k, n)) else None)"
| "dec_stat (RFail e) = Some (Some e, None)"
| "dec_stat _ = None"

definition int_of_off :: "int \<Rightarrow> int" where
  \<comment> \<open>\<^verbatim>\<open>st.st_size\<close> passed for an \<^verbatim>\<open>int\<close> parameter\<close>
  "int_of_off n = sint (word_of_int n :: 32 word)"

definition respond :: "int \<Rightarrow> int \<Rightarrow> string \<Rightarrow> unit prog" where
  "respond fd epfd pFile =
     bnd (call (KStat pFile) dec_stat) (\<lambda>res.
       case res of
         None \<Rightarrow>
           thn (printf (''file is not exit'' @ [LF]) [])
           (thn (send_header fd ''404'' ''NOT FOUND'' (get_mime_type ''.html'') 0)
                (send_file fd ''error.html''))
       | Some (st_mode, st_size) \<Rightarrow>
           if st_mode = FReg then
             thn (printf (''type is file'' @ [LF]) [])
             (thn (send_header fd ''200'' ''OK'' (get_mime_type pFile) (int_of_off st_size))
                  (send_file fd pFile))
           else if st_mode = FDir then
             thn (printf (''type is dir'' @ [LF]) [])
             (thn (send_header fd ''200'' ''OK'' (get_mime_type ''.html'') 0)
             (thn (send_file fd ''http/dir_header.html'')
             (bnd (getDirstr fd pFile [] epfd) (\<lambda>buffer.
              thn (printf (''buffer == [%s]'' @ [LF]) [AS buffer])
             (bnd (sys_write fd buffer) (\<lambda>_.
              send_file fd ''http/dir_tail.html'')))))
             )
           else ret ())"

definition http_service :: "int \<Rightarrow> int \<Rightarrow> rdbuf \<Rightarrow> rdbuf prog" where
  "http_service fd epfd st =
     bnd (readLine fd (zbuf 1024) 1024 st) (\<lambda>(readres, buf, st).
       if readres \<le> 0 then
         bnd (sys_int (KClose fd)) (\<lambda>_.
         bnd (sys_int (KEpollCtl epfd CTL_DEL fd None)) (\<lambda>_. ret st))
       else
         bnd (c_str buf) (\<lambda>line.
         thn (printf [CHR ''%'', CHR ''s'', LF] [AS line])
         (bnd (parse_request buf) (\<lambda>(reqType, fileName, protocal).
          thn (printf (''reqType == %s'' @ [LF]) [AS reqType])
         (thn (printf (''fileName == %s'' @ [LF]) [AS fileName])
         (thn (printf (''protocal == %s'' @ [LF]) [AS protocal])
         (bnd (pfile_of fileName) (\<lambda>pFile.
          bnd (drain fd buf st) (\<lambda>(buf, st).
          thn (respond fd epfd pFile) (ret st))))))))))"

section \<open>The epoll loop of \<^verbatim>\<open>main\<close>\<close>

text \<open>
  \<open>data.ptr\<close> is 0 for \<open>&soc\<close> and 1 for \<open>&cli_con\<close>; \<open>cli\<close> is \<open>cli_con.ftd\<close>, \<open>None\<close> before the
  first connection. A pointer the program never registered is a wild one.
\<close>

definition client_fd :: "int \<Rightarrow> int option \<Rightarrow> edata \<Rightarrow> int option" where
  "client_fd sfd cli d = (if d = DPtr 0 then Some sfd else if d = DPtr 1 then cli else None)"

type_synonym http_state = "int option \<times> rdbuf"

definition http_event ::
    "int \<Rightarrow> int \<Rightarrow> epoll_ev \<Rightarrow> http_state \<Rightarrow> (http_state + int) prog" where
  "http_event sfd epfd ev = (\<lambda>(cli, st).
     case client_fd sfd cli (snd ev) of
       None \<Rightarrow> fault_p ForeignPointer
     | Some ftd \<Rightarrow>
         if ftd = sfd then
           bnd (sys_accept sfd) (\<lambda>(cfd, sa).
             if cfd < 0 then thn (perror (''accept error'' @ [LF])) (ret (Inr (-1)))
             else
               bnd (sys_int (KFcntlGet cfd)) (\<lambda>flag.
               bnd (sys_int (KFcntlSet cfd (word_of_int flag OR O_NONBLOCK))) (\<lambda>_.
               thn (print_client sa)
               (bnd (sys_int (KEpollCtl epfd CTL_ADD cfd (Some (EPOLLIN, DPtr 1)))) (\<lambda>_.
                ret (Inl (Some cfd, st)))))))
         else bnd (http_service ftd epfd st) (\<lambda>st. ret (Inl (cli, st))))"

definition http_round :: "int \<Rightarrow> int \<Rightarrow> http_state \<Rightarrow> (http_state + int) prog" where
  \<comment> \<open>one round of \<^verbatim>\<open>while(1)\<close>; the test \<^verbatim>\<open>if(errno = EINTR)\<close> assigns and is always true\<close>
  "http_round sfd epfd s =
     bnd (sys_epoll_wait epfd 1024 (-1)) (\<lambda>r.
       case r of
         None \<Rightarrow>
           thn (printf ''nread == %d'' [AI (-1)])
           (thn (set_errno EINTR)
             (if True then ret (Inl s) else ret (Inr 0)))
       | Some events \<Rightarrow> for_each events (http_event sfd epfd) s)"

definition http_main :: "int prog" where
  "http_main =
     bnd (sys_int (KSigIgn 13)) (\<lambda>_.
     bnd (sys_int (KSocket AF_INET SOCK_STREAM)) (\<lambda>sfd.
       if sfd < 0 then thn (perror (''socket error'' @ [LF])) (ret (-1))
       else
     bnd (sys_int (KSetsockopt sfd 1)) (\<lambda>res.
       if res < 0 then thn (perror (''setsockopt error'' @ [LF])) (ret (-1))
       else
     bnd (sys_int (KBind sfd (Inet INADDR_ANY (htons 8888)))) (\<lambda>res.
       if res < 0 then thn (perror (''bind error'' @ [LF])) (ret (-1))
       else
     bnd (sys_int (KListen sfd 256)) (\<lambda>res.
       if res < 0 then thn (perror (''listen error'' @ [LF])) (ret 0)
       else
     bnd (sys_int (KEpollCreate 1024)) (\<lambda>epfd.
       if epfd < 0 then thn (perror (''epoll_create error'' @ [LF])) (ret (-1))
       else
     bnd (sys_int (KEpollCtl epfd CTL_ADD sfd (Some (EPOLLIN, DPtr 0)))) (\<lambda>_.
       forever (http_round sfd epfd) (None, rdbuf_init))))))))"

definition areyouok_main :: "int prog" where
  "areyouok_main =
     thn (printf (''Are you ok?'' @ [LF]) []) (thn (printf (''Yes,I am!'' @ [LF]) []) (ret 0))"

section \<open>Termination: the server never spins\<close>

lemma read_again_eats:
  "wp (read_again fd n)
     (\<lambda>r w'. length (script w') < length (script w) \<and> length (case r of None \<Rightarrow> [] | Some bs \<Rightarrow> bs) \<le> n)
     (\<lambda>_ _. True) w"
  unfolding read_again_def
proof (rule wp_forever [where I = "\<lambda>_ w'. length (script w') \<le> length (script w)",
      OF eats_round_read_again], goal_cases)
  case (2 s w1)
  then show ?case by (auto simp: wp_simps split: list.splits reply.splits)
qed simp

definition measure_le :: "rdbuf \<Rightarrow> world \<Rightarrow> bool \<Rightarrow> rdbuf \<Rightarrow> world \<Rightarrow> bool" where
  "measure_le st w strict st' w' \<longleftrightarrow>
     length (read_buf st') = length (read_buf st) \<and> drain_measure st' w' \<le> drain_measure st w
     \<and> (strict \<longrightarrow> drain_measure st' w' < drain_measure st w)"

lemma measure_le_refl: "measure_le st w False st w"
  by (simp add: measure_le_def)

lemma measure_le_trans:
  "measure_le st w b st1 w1 \<Longrightarrow> measure_le st1 w1 c st2 w2 \<Longrightarrow> measure_le st w (b \<or> c) st2 w2"
  by (auto simp: measure_le_def)

lemma measure_read:
  assumes "length (script w') < length (script w)" and "length (read_buf st') = length (read_buf st)"
  shows "measure_le st w b st' w'"
proof -
  let ?L = "length (read_buf st)"
  have "Suc (length (script w')) * Suc ?L \<le> length (script w) * Suc ?L"
    using assms(1) by (intro mult_le_mono1) simp
  then have "length (script w') * Suc ?L + Suc ?L \<le> length (script w) * Suc ?L" by simp
  then have "drain_measure st' w' < drain_measure st w"
    unfolding drain_measure_def assms(2) by linarith
  then show ?thesis using assms(2) by (simp add: measure_le_def)
qed

lemma measure_take:
  assumes "read_ptr st < length (read_buf st)"
  shows "measure_le st w b (st\<lparr>read_cnt := n, read_ptr := Suc (read_ptr st)\<rparr>) w"
proof -
  let ?st = "st\<lparr>read_cnt := n, read_ptr := Suc (read_ptr st)\<rparr>"
  have "length (read_buf st) - read_ptr ?st < length (read_buf st) - read_ptr st"
    and "length (read_buf ?st) = length (read_buf st)"
    using assms by auto
  then have "drain_measure ?st w < drain_measure st w"
    unfolding drain_measure_def by (simp only: add_less_cancel_right)
  then show ?thesis by (simp add: measure_le_def)
qed

lemma char_read_measure:
  "wp (char_read fd st) (\<lambda>(rc, c, st') w'. measure_le st w (rc = 1) st' w' \<and> (rc = 1 \<longrightarrow> c \<noteq> None))
     (\<lambda>_ _. True) w"
proof (cases "read_cnt st \<le> 0")
  case True
  then show ?thesis
    unfolding char_read_def take_char_def
    by (auto simp: wp_simps intro!: wp_conseq [OF read_again_eats] measure_read split: option.splits)
next
  case False
  then show ?thesis
    unfolding char_read_def take_char_def
    by (auto simp: wp_simps intro: measure_take)
qed

lemma readLine_loop_measure:
  "wp (readLine_loop (char_read fd) i k buf st)
     (\<lambda>(r, buf', st') w'. measure_le st w (int i < r) st' w') (\<lambda>_ _. True) w"
proof (induction k arbitrary: i buf st w)
  case 0
  then show ?case by (auto simp: put_char_def wp_simps measure_le_refl)
next
  case (Suc k)
  have "wp (readLine_loop (char_read fd) (Suc i) k buf' st')
     (\<lambda>(r, buf', st') w'. measure_le st w (int i < r) st' w') (\<lambda>_ _. True) w1"
    if "measure_le st w True st' w1" for buf' st' w1
    by (rule wp_conseq [OF Suc.IH])
      (use that in \<open>auto simp: measure_le_def\<close>)
  then show ?case
    by (auto simp: put_char_def wp_simps intro!: wp_conseq [OF char_read_measure]
        simp: measure_le_def split: option.splits)
qed

lemma tame_take_char [tame_intros]: "tame (take_char st)"
  unfolding take_char_def by (intro tame_intros) simp

lemma tame_char_read [tame_intros]: "tame (char_read fd st)"
  unfolding char_read_def by (intro tame_intros)

lemma tame_put_char [tame_intros]: "tame (put_char buf i c)"
  unfolding put_char_def by (intro tame_intros) simp

lemma tame_readLine_loop [tame_intros]: "tame (readLine_loop (char_read fd) i k buf st)"
  by (induction k arbitrary: i buf st) (auto intro!: tame_intros)

lemma tame_readLine [tame_intros]: "tame (readLine fd buf n st)"
  unfolding readLine_def by (rule tame_readLine_loop)

lemma tame_drain [tame_intros]: "tame (drain fd buf st)"
  unfolding drain_def
proof (rule tame_forever_by, goal_cases)
  case (1 s)
  then show ?case unfolding drain_body_def by (intro tame_intros)
next
  case (2 s w s' w')
  obtain buf st buf' st' where s: "s = (buf, st)" "s' = (buf', st')" by (metis surj_pair)
  have "wp (drain_body fd s) (\<lambda>x w'. case x of
      Inl (b, st') \<Rightarrow> drain_measure st' w' < drain_measure st w | Inr _ \<Rightarrow> True) (\<lambda>_ _. True) w"
    unfolding drain_body_def readLine_def s
    by (auto simp: wp_simps measure_le_def intro!: wp_conseq [OF readLine_loop_measure])
  from wpD [OF this 2] show ?case by (simp add: s)
qed

lemma tame_sprintf_at [tame_intros]: "tame (sprintf_at n a b)"
  unfolding sprintf_at_def by (intro tame_intros) simp

lemma tame_send_header [tame_intros]: "tame (send_header fd c m t n)"
  unfolding send_header_def by (intro tame_intros)

lemma eats_round_send_file_body: "eats_round (send_file_body fd fileid s)"
  unfolding send_file_body_def by (intro eats_sys_round tame_intros)

lemma tame_send_file [tame_intros]: "tame (send_file fd name)"
  unfolding send_file_def by (intro tame_intros eats_round_send_file_body)

lemma tame_list_entries [tame_intros]: "tame (list_entries es buffer)"
  by (induction es arbitrary: buffer) (auto intro!: tame_intros)

lemma tame_getDirstr [tame_intros]: "tame (getDirstr fd name buffer epfd)"
  unfolding getDirstr_def scandir_def by (intro tame_intros)

lemma tame_parse_request [tame_intros]: "tame (parse_request buf)"
  unfolding parse_request_def Let_def by (intro tame_intros) simp

lemma tame_pfile_of [tame_intros]: "tame (pfile_of f)"
  unfolding pfile_of_def by (intro tame_intros) simp

lemma tame_respond [tame_intros]: "tame (respond fd epfd p)"
  unfolding respond_def by (intro tame_intros)

lemma tame_http_service [tame_intros]: "tame (http_service fd epfd st)"
  unfolding http_service_def by (intro tame_intros)

lemma tame_http_event [tame_intros]: "tame (http_event sfd epfd ev s)"
  unfolding http_event_def by (intro tame_intros) simp

lemma eats_round_http_round: "eats_round (http_round sfd epfd s)"
  unfolding http_round_def by (intro eats_sys_round tame_intros)

text \<open>C17: the web server never spins: between two calls to the kernel it does a bounded amount of
  work, for every input of every client; draining the rest of a request ends, because each line
  read moves the read pointer or uses an answer of the kernel.\<close>

theorem http_main_never_spins: "fst (http_main w) \<noteq> Stop SDiverge"
proof -
  have "tame http_main"
    unfolding http_main_def by (intro tame_intros eats_round_http_round)
  then show ?thesis by (simp add: tame_def)
qed

section \<open>Which connection is read\<close>

text \<open>
  The events of one handler call: connection reads (the 100-byte reads of \<^verbatim>\<open>char_read\<close>) only on
  \<open>fd\<close>, no \<^verbatim>\<open>accept\<close>.
\<close>

definition on_conn :: "int \<Rightarrow> event \<Rightarrow> bool" where
  "on_conn fd e = (case e of
      Ev c r \<Rightarrow> (case c of KRead f n \<Rightarrow> n \<noteq> 100 \<or> f = fd | KAccept f \<Rightarrow> False | _ \<Rightarrow> True)
    | _ \<Rightarrow> True)"

text \<open>Every connection read is on the connection accepted last; \<open>cur\<close> is the last one so far.\<close>

definition read_ok :: "int option \<Rightarrow> event \<Rightarrow> bool" where
  "read_ok cur e = (case e of
      Ev c r \<Rightarrow> (case c of KRead f n \<Rightarrow> n \<noteq> 100 \<or> cur = Some f | _ \<Rightarrow> True)
    | _ \<Rightarrow> True)"

definition next_conn :: "int option \<Rightarrow> event \<Rightarrow> int option" where
  "next_conn cur e = (case e of
      Ev c r \<Rightarrow> (case c of
          KAccept f \<Rightarrow> (case r of RConn n a \<Rightarrow> Some n | _ \<Rightarrow> cur)
        | _ \<Rightarrow> cur)
    | _ \<Rightarrow> cur)"

definition reads_latest :: "int option \<Rightarrow> event list \<Rightarrow> bool" where
  "reads_latest = safe_trace read_ok next_conn"

abbreviation served_ok :: "int option \<Rightarrow> world \<Rightarrow> bool" where
  "served_ok \<equiv> tracked read_ok next_conn None"

lemma on_conn_step: "on_conn fd e \<Longrightarrow> read_ok (Some fd) e \<and> next_conn cur e = cur"
  by (auto simp: on_conn_def read_ok_def next_conn_def split: event.splits syscall.splits)

lemma served_ok_extends: "extends (on_conn fd) w w' \<Longrightarrow> served_ok (Some fd) w \<Longrightarrow> served_ok (Some fd) w'"
  using on_conn_step by (rule tracked_quiet [where P = "on_conn fd", rotated 2])

lemma yields_read_again:
  "yields (on_conn fd) (\<lambda>r. length (case r of None \<Rightarrow> [] | Some bs \<Rightarrow> bs) \<le> 100) (read_again fd 100)"
proof -
  have "emits (on_conn fd) (read_again fd 100)"
    unfolding read_again_def by (intro emits_intros) (simp add: on_conn_def)
  then have "wp (read_again fd 100) (\<lambda>_ w'. extends (on_conn fd) w w')
      (\<lambda>_ w'. extends (on_conn fd) w w') w" for w
    by (rule wp_emits) (auto simp: extends_def)
  note both = wp_conj [OF read_again_eats this]
  show ?thesis unfolding yields_def
    by (rule allI, rule wp_conseq [OF both]) simp_all
qed

lemma yields_char_read:
  assumes "length (read_buf st) = 100"
  shows "yields (on_conn fd) (\<lambda>(rc, c, st'). length (read_buf st') = 100) (char_read fd st)"
  unfolding char_read_def take_char_def using assms
  by (auto intro!: yields_if yields_bnd [OF yields_read_again [of fd]] yields_ret yields_halt
      split: option.splits)

lemma emits_put_char [emits_intros]: "emits P (put_char buf i c)"
  unfolding put_char_def by (intro emits_intros)

lemma yields_readLine_loop:
  "length (read_buf st) = 100 \<Longrightarrow>
   yields (on_conn fd) (\<lambda>(r, buf', st'). length (read_buf st') = 100)
     (readLine_loop (char_read fd) i k buf st)"
proof (induction k arbitrary: i buf st)
  case 0
  then show ?case
    by (auto intro!: yields_bnd [OF yields_emits [OF emits_put_char]] yields_ret)
next
  case (Suc k)
  show ?case unfolding readLine_loop.simps
    by (rule yields_bnd [OF yields_char_read [OF Suc.prems]])
      (auto intro!: yields_if yields_bnd [OF yields_emits [OF emits_put_char]] yields_ret
        yields_halt Suc.IH split: option.splits)
qed

lemma yields_drain:
  assumes "length (read_buf st) = 100"
  shows "yields (on_conn fd) (\<lambda>(buf', st'). length (read_buf st') = 100) (drain fd buf st)"
  unfolding drain_def
proof (rule yields_forever_by [where I = "\<lambda>(buf, st). length (read_buf st) = 100"], goal_cases)
  case (1 s)
  then show ?case
    unfolding drain_body_def readLine_def
    by (auto intro!: yields_bnd [OF yields_readLine_loop] yields_ret)
qed (simp add: assms)

lemma emits_sprintf_at [emits_intros]: "emits P (sprintf_at n a b)"
  unfolding sprintf_at_def by (intro emits_intros)

lemma on_conn_simps [simp]:
  "on_conn fd (Print fmt xs)" "on_conn fd (Perror m)"
  "on_conn fd (Ev (KRead f n) r) \<longleftrightarrow> n \<noteq> 100 \<or> f = fd"
  "on_conn fd (Ev (KWrite f bs) r)" "on_conn fd (Ev (KOpen p) r)" "on_conn fd (Ev (KClose f) r)"
  "on_conn fd (Ev (KStat p) r)" "on_conn fd (Ev (KScandir p) r)"
  "on_conn fd (Ev (KEpollCtl ep op f e) r)"
  by (simp_all add: on_conn_def)

lemma emits_send_header [emits_intros]: "emits (on_conn fd) (send_header f c m t n)"
  unfolding send_header_def by (intro emits_intros) simp

lemma emits_send_file [emits_intros]: "emits (on_conn fd) (send_file f name)"
  unfolding send_file_def send_file_body_def by (intro emits_intros) simp_all

lemma emits_list_entries [emits_intros]: "emits (on_conn fd) (list_entries es buffer)"
  by (induction es arbitrary: buffer) (auto intro!: emits_intros)

lemma emits_respond [emits_intros]: "emits (on_conn fd) (respond f epfd p)"
  unfolding respond_def getDirstr_def scandir_def
  by (intro emits_intros) simp_all

lemma emits_parse [emits_intros]: "emits (on_conn fd) (parse_request buf)" "emits (on_conn fd) (pfile_of f)"
  unfolding parse_request_def pfile_of_def Let_def by (intro emits_intros; simp)+

lemma yields_http_service:
  assumes "length (read_buf st) = 100"
  shows "yields (on_conn fd) (\<lambda>st'. length (read_buf st') = 100) (http_service fd epfd st)"
proof -
  have e: "emits (on_conn fd) (sys_int (KClose fd))"
    "emits (on_conn fd) (sys_int (KEpollCtl epfd CTL_DEL fd None))"
    "emits (on_conn fd) (printf f xs)" for f xs
    by (intro emits_intros; simp)+
  show ?thesis
    unfolding http_service_def readLine_def
    by (rule yields_bnd [OF yields_readLine_loop [OF assms]])
      (auto intro!: yields_if yields_ret yields_thn
        yields_bnd [OF yields_emits [OF e(1) TrueI]] yields_bnd [OF yields_emits [OF e(2) TrueI]]
        yields_emits [OF e(3)] yields_bnd [OF yields_emits [OF emits_atom(5) TrueI]]
        yields_bnd [OF yields_emits [OF emits_parse(1) TrueI]]
        yields_bnd [OF yields_emits [OF emits_parse(2) TrueI]]
        yields_emits [OF emits_respond] yields_bnd [OF yields_drain])
qed

definition http_inv :: "http_state \<Rightarrow> world \<Rightarrow> bool" where
  "http_inv s w \<longleftrightarrow> served_ok (fst s) w \<and> length (read_buf (snd s)) = 100"

abbreviation some_served :: "world \<Rightarrow> bool" where
  "some_served w \<equiv> \<exists>cli. served_ok cli w"

lemma http_event_inv:
  assumes "http_inv s w"
  shows "wp (http_event sfd epfd ev s)
     (\<lambda>x w'. case x of Inl s' \<Rightarrow> http_inv s' w' | Inr _ \<Rightarrow> some_served w')
     (\<lambda>_ w'. some_served w') w"
proof -
  obtain cli st where s: "s = (cli, st)" by (cases s)
  have ok: "served_ok cli w" and len: "length (read_buf st) = 100"
    using assms by (auto simp: http_inv_def s)
  show ?thesis
  proof (cases "client_fd sfd cli (snd ev)")
    case None
    then show ?thesis using ok by (auto simp: http_event_def s wp_simps)
  next
    case (Some ftd)
    show ?thesis
    proof (cases "ftd = sfd")
      case True
      with Some ok len show ?thesis
        unfolding http_event_def s print_client_def
        by (simp, intro wp_intros)
          (auto simp: http_inv_def tracked_def safe_trace_append read_ok_def next_conn_def)
    next
      case False
      then have "cli = Some ftd" using Some by (auto simp: client_fd_def split: if_splits)
      then have ok': "served_ok (Some ftd) w'" if "extends (on_conn ftd) w w'" for w'
        using that ok served_ok_extends by blast
      show ?thesis
        using False Some \<open>cli = Some ftd\<close> ok'
        unfolding http_event_def s
        by (auto simp: wp_simps http_inv_def
            intro!: wp_conseq [OF yieldsD [OF yields_http_service [OF len]]])
    qed
  qed
qed

lemma http_round_inv:
  assumes "http_inv s w"
  shows "wp (http_round sfd epfd s)
     (\<lambda>x w'. case x of Inl s' \<Rightarrow> http_inv s' w' | Inr _ \<Rightarrow> some_served w')
     (\<lambda>_ w'. some_served w') w"
proof -
  have each: "wp (for_each events (http_event sfd epfd) s)
     (\<lambda>x w'. case x of Inl s' \<Rightarrow> http_inv s' w' | Inr _ \<Rightarrow> some_served w')
     (\<lambda>_ w'. some_served w') w1" if "http_inv s w1" for events w1
    using that by (rule wp_for_each_keep) (rule http_event_inv)
  show ?thesis
    using assms unfolding http_round_def
    by (intro wp_intros each)
      (auto simp: http_inv_def tracked_def safe_trace_append read_ok_def next_conn_def)
qed

text \<open>C6: once a connection is accepted, no earlier one is ever read again: every read of a
  connection, in every run of the server, is on the descriptor the last \<^verbatim>\<open>accept\<close> returned, since
  all connections hang into epoll with the address of the same \<^verbatim>\<open>cli_con\<close>. Requests an older
  client sends are looked for on the newest connection.\<close>

theorem http_reads_latest_connection: "reads_latest None (trace (snd (http_main (start s))))"
proof -
  have loop: "wp (forever (http_round sfd epfd) st) (\<lambda>_. some_served) (\<lambda>_. some_served) w"
    if "http_inv st w" for sfd epfd st w
    using that by (rule wp_forever [OF eats_round_http_round _ http_round_inv])
  have "wp http_main (\<lambda>_. some_served) (\<lambda>_. some_served) (start s)"
    unfolding http_main_def
    by (intro wp_intros loop)
      (auto simp: http_inv_def tracked_def safe_trace_append read_ok_def next_conn_def
        rdbuf_init_def)
  then show ?thesis
    by (auto simp: wp_def tracked_def reads_latest_def split: prod.splits outcome.splits)
qed

section \<open>What is sent\<close>

definition http_header :: "string \<Rightarrow> string \<Rightarrow> string \<Rightarrow> int \<Rightarrow> string" where
  "http_header c msg t n =
     ''HTTP/1.1 '' @ c @ '' '' @ msg @ [CR, LF] @ ''Content-Type:'' @ t @ [CR, LF]
     @ (if 0 < n then ''Content-Length:'' @ dec_int n @ [CR, LF] else []) @ [CR, LF]"

text \<open>The system calls of a piece of trace; \<open>did w w' cs\<close>: from one world to the other they were \<open>cs\<close>.\<close>

fun is_call :: "event \<Rightarrow> bool" where
  "is_call (Ev c r) \<longleftrightarrow> True"
| "is_call _ \<longleftrightarrow> False"

definition did :: "world \<Rightarrow> world \<Rightarrow> event list \<Rightarrow> bool" where
  "did w w' cs \<longleftrightarrow> (\<exists>tr. trace w' = trace w @ tr \<and> filter is_call tr = cs)"

lemma did_refl: "did w w []"
  by (simp add: did_def)

lemma did_trans: "did w w1 cs \<Longrightarrow> did w1 w2 cs' \<Longrightarrow> did w w2 (cs @ cs')"
  by (auto simp: did_def)

lemma did_call: "did w w1 cs \<Longrightarrow> did w (step_world c r eo w1) (cs @ [Ev c r])"
  by (auto simp: did_def)

lemma did_print: "did w w1 cs \<Longrightarrow> did w (w1\<lparr>trace := trace w1 @ [Print f xs]\<rparr>) cs"
  by (auto simp: did_def)

lemma did_perror: "did w w1 cs \<Longrightarrow> did w (w1\<lparr>trace := trace w1 @ [Perror m]\<rparr>) cs"
  by (auto simp: did_def)

lemmas did_simps = did_call did_print did_perror did_refl
  did_call [OF did_refl, simplified] did_print [OF did_refl] did_perror [OF did_refl]

text \<open>
  What copying a file to \<open>fd\<close> looks like: the file is opened, and when that succeeds, each piece read from it is at once
  handed to one \<^verbatim>\<open>write\<close> to \<open>fd\<close>, until a read delivers nothing or fails; then it is closed.
\<close>

fun pieces :: "int \<Rightarrow> int \<Rightarrow> event list \<Rightarrow> bool" where
  "pieces fd fileid [] \<longleftrightarrow> True"
| "pieces fd fileid [e] \<longleftrightarrow> False"
| "pieces fd fileid (e # e' # tr) \<longleftrightarrow>
     (\<exists>bs r. bs \<noteq> [] \<and> e = Ev (KRead fileid 1024) (RData bs) \<and> e' = Ev (KWrite fd bs) r) \<and> pieces fd fileid tr"

definition copies :: "int \<Rightarrow> string \<Rightarrow> event list \<Rightarrow> bool" where
  "copies fd name cs \<longleftrightarrow>
     (\<exists>e. cs = [Ev (KOpen name) (RFail e)])
     \<or> (\<exists>fileid ps fin r. cs = Ev (KOpen name) (RInt fileid) # ps @ [Ev (KRead fileid 1024) fin, Ev (KClose fileid) r]
          \<and> pieces fd fileid ps \<and> (fin = RData [] \<or> (\<exists>e. fin = RFail e)))"

lemma pieces_append: "pieces fd i ps \<Longrightarrow> pieces fd i qs \<Longrightarrow> pieces fd i (ps @ qs)"
  by (induction fd i ps rule: pieces.induct) auto

definition page :: "(string \<times> ftype) list \<Rightarrow> string" where
  \<comment> \<open>the items of a directory, in reverse alphabetical order\<close>
  "page es = concat (map dir_entry (rev (sort_key fst es)))"

definition page_fits :: "(string \<times> ftype) list \<Rightarrow> bool" where
  "page_fits es \<longleftrightarrow> length (page es) < 2048 \<and> (\<forall>e \<in> set es. length (dir_entry e) < 1024)"

lemma length_dec_int: "0 < n \<Longrightarrow> n < 2147483648 \<Longrightarrow> length (dec_int n) \<le> 10"
  using length_dec_nat_less [of "nat n" 10] by (simp add: dec_int_def)

lemma wp_did:
  assumes "wp m (\<lambda>x w'. \<exists>cs. did w1 w' cs \<and> P x cs) E w1" and "did w w1 cs0"
    and "\<And>x w' cs. did w w' (cs0 @ cs) \<Longrightarrow> P x cs \<Longrightarrow> Q x w'" and "\<And>s w'. E s w' \<Longrightarrow> E' s w'"
  shows "wp m Q E' w1"
  by (rule wp_conseq [OF assms(1)]) (use did_trans [OF assms(2)] assms(3,4) in blast)+

lemma wp_send_header:
  assumes "length c + length msg + length t \<le> 100" and "n < 2147483648"
  shows "wp (send_header fd c msg t n)
     (\<lambda>_ w'. \<exists>cs. did w w' cs \<and> (\<exists>r. cs = [Ev (KWrite fd (http_header c msg t n)) r])) (\<lambda>s w'. s = SBlocked) w"
proof -
  have "length (dec_int n) \<le> 10" if "0 < n" using that assms(2) by (rule length_dec_int)
  with assms(1) show ?thesis
    unfolding send_header_def sprintf_at_def
    by (auto simp: http_header_def wp_simps did_def split: list.splits reply.splits)
qed

lemma wp_file_body:
  assumes "did w w1 ps" and "pieces fd fileid ps"
  shows "wp (send_file_body fd fileid u)
     (\<lambda>x w'. case x of
        Inl _ \<Rightarrow> \<exists>ps. did w w' ps \<and> pieces fd fileid ps
      | Inr _ \<Rightarrow> \<exists>cs. did w w' cs \<and> (\<exists>ps fin. cs = ps @ [Ev (KRead fileid 1024) fin] \<and> pieces fd fileid ps
                   \<and> (fin = RData [] \<or> (\<exists>e. fin = RFail e))))
     (\<lambda>s w'. s = SBlocked) w1"
proof -
  have "did w (step_world (KWrite fd bs) r eo (step_world (KRead fileid 1024) (RData bs) None w1))
      (ps @ [Ev (KRead fileid 1024) (RData bs), Ev (KWrite fd bs) r])"
    and "bs \<noteq> [] \<Longrightarrow> pieces fd fileid (ps @ [Ev (KRead fileid 1024) (RData bs), Ev (KWrite fd bs) r])" for bs r eo
    using did_call [OF did_call [OF assms(1)]] by (simp, simp add: pieces_append [OF assms(2)])
  then have *: "bs \<noteq> [] \<Longrightarrow> \<exists>ps. did w (step_world (KWrite fd bs) r eo (step_world (KRead fileid 1024) (RData bs) None w1)) ps
      \<and> pieces fd fileid ps" for bs r eo by blast
  have last: "\<exists>cs. did w (step_world (KRead fileid 1024) fin eo w1) cs \<and> (\<exists>ps fin. cs = ps @ [Ev (KRead fileid 1024) fin]
      \<and> pieces fd fileid ps \<and> (fin = RData [] \<or> (\<exists>e. fin = RFail e)))" if "fin = RData [] \<or> (\<exists>e. fin = RFail e)" for fin eo
    using did_call [OF assms(1), of "KRead fileid 1024" fin eo] assms(2) that by blast
  show ?thesis
    unfolding send_file_body_def
    by (intro wp_intros) (auto simp: fill_buf_def simp del: step_world_simps intro!: * last)
qed

lemma wp_send_file:
  "wp (send_file fd name) (\<lambda>_ w'. \<exists>cs. did w w' cs \<and> copies fd name cs) (\<lambda>s w'. s = SBlocked) w"
proof -
  have loop: "wp (forever (send_file_body fd fileid) ())
      (\<lambda>_ w'. \<exists>cs. did w1 w' cs \<and> (\<exists>ps fin. cs = ps @ [Ev (KRead fileid 1024) fin] \<and> pieces fd fileid ps
                   \<and> (fin = RData [] \<or> (\<exists>e. fin = RFail e))))
      (\<lambda>s w'. s = SBlocked) w1" for fileid w1
    by (rule wp_forever [where I = "\<lambda>_ w'. \<exists>ps. did w1 w' ps \<and> pieces fd fileid ps", OF eats_round_send_file_body])
      (use did_refl [of w1] wp_file_body in force)+
  have closed: "\<exists>cs. did w (step_world (KClose fileid) r eo w1) cs \<and> copies fd name cs"
    if "did w w1 ([Ev (KOpen name) (RInt fileid)] @ cs)" "\<exists>ps fin. cs = ps @ [Ev (KRead fileid 1024) fin]
      \<and> pieces fd fileid ps \<and> (fin = RData [] \<or> (\<exists>e. fin = RFail e))" for fileid w1 cs r eo
    using did_call [OF that(1), of "KClose fileid" r eo] that(2) by (fastforce simp: copies_def)
  have opened: "did w (step_world (KOpen name) r eo w) [Ev (KOpen name) r]" for r eo
    using did_call [OF did_refl] by simp
  have "wp (forever (send_file_body fd fileid) ())
      (\<lambda>_ w'. wp (bnd (sys_int (KClose fileid)) (\<lambda>_. ret ())) (\<lambda>_ w'. \<exists>cs. did w w' cs \<and> copies fd name cs) (\<lambda>s w'. s = SBlocked) w')
      (\<lambda>s w'. s = SBlocked) (step_world (KOpen name) (RInt fileid) None w)" for fileid
    by (rule wp_did [OF loop opened], intro wp_intros) (simp_all del: step_world_simps add: closed)
  moreover have "\<exists>cs. did w (step_world (KOpen name) (RFail e) eo w
      \<lparr>trace := trace (step_world (KOpen name) (RFail e) eo w) @ [Perror m]\<rparr>) cs \<and> copies fd name cs" for e eo m
    using did_perror [OF opened] by (fastforce simp: copies_def)
  ultimately show ?thesis
    unfolding send_file_def by (intro wp_intros) (simp_all del: step_world_simps)
qed

lemma wp_list_entries:
  "length buffer < 2048 \<Longrightarrow>
   wp (list_entries es buffer)
     (\<lambda>b w'. b = buffer @ concat (map dir_entry es) \<and> did w w' []
        \<and> length (buffer @ concat (map dir_entry es)) < 2048 \<and> (\<forall>e \<in> set es. length (dir_entry e) < 1024))
     (\<lambda>s w'. s = SFault OutOfBounds \<and> did w w' []
        \<and> \<not> (length (buffer @ concat (map dir_entry es)) < 2048 \<and> (\<forall>e \<in> set es. length (dir_entry e) < 1024))) w"
proof (induction es arbitrary: buffer w)
  case Nil
  then show ?case by (simp add: wp_simps did_refl)
next
  case (Cons e es)
  note trans = did_trans [OF did_print [OF did_refl], simplified]
  show ?case
  proof (cases "length (dir_entry e) < 1024 \<and> length buffer + length (dir_entry e) < 2048")
    case True
    then show ?thesis
      by (auto simp: sprintf_at_def wp_simps intro!: wp_conseq [OF Cons.IH] intro: trans)
  next
    case False
    with did_print [OF did_refl] show ?thesis by (auto simp: sprintf_at_def wp_simps)
  qed
qed

text \<open>What is read of a directory, and what becomes of the connection when that fails.\<close>

definition scans :: "int \<Rightarrow> int \<Rightarrow> string \<Rightarrow> string \<Rightarrow> event list \<Rightarrow> bool" where
  "scans fd epfd p b cs \<longleftrightarrow>
     (\<exists>es. cs = [Ev (KScandir p) (RDir es)] \<and> b = page es \<and> page_fits es)
     \<or> (\<exists>e r r'. cs = [Ev (KScandir p) (RFail e), Ev (KClose fd) r, Ev (KEpollCtl epfd CTL_DEL fd None) r'] \<and> b = [])"

definition overflows :: "string \<Rightarrow> event list \<Rightarrow> bool" where
  "overflows p cs \<longleftrightarrow> (\<exists>es cs'. cs = cs' @ [Ev (KScandir p) (RDir es)] \<and> \<not> page_fits es)"

lemma overflowsI: "\<not> page_fits es \<Longrightarrow> overflows p [Ev (KScandir p) (RDir es)]"
  unfolding overflows_def by force

lemma overflows_append: "overflows p cs \<Longrightarrow> overflows p (cs' @ cs)"
  unfolding overflows_def by (metis append_assoc)

lemma wp_getDirstr:
  "wp (getDirstr fd p [] epfd) (\<lambda>b w'. \<exists>cs. did w w' cs \<and> scans fd epfd p b cs)
     (\<lambda>s w'. s = SBlocked \<or> s = SFault OutOfBounds \<and> (\<exists>cs. did w w' cs \<and> overflows p cs)) w"
proof -
  have list: "wp (list_entries (rev (sort_key fst es)) []) (\<lambda>b w'. \<exists>cs. did w w' cs \<and> scans fd epfd p b cs)
     (\<lambda>s w'. s = SBlocked \<or> s = SFault OutOfBounds \<and> (\<exists>cs. did w w' cs \<and> overflows p cs))
     (step_world (KScandir p) (RDir es) None w)" for es
  proof (rule wp_conseq [OF wp_list_entries], goal_cases)
    case (2 b w')
    then show ?case using did_trans [OF did_call [OF did_refl], of "KScandir p" "RDir es" None w w' "[]"]
      by (auto simp: scans_def page_def page_fits_def)
  next
    case (3 s w')
    then show ?case using did_trans [OF did_call [OF did_refl], of "KScandir p" "RDir es" None w w' "[]"]
      overflowsI [of es p] by (auto simp: page_def page_fits_def)
  qed simp
  have close: "\<exists>cs. did w (step_world (KEpollCtl epfd CTL_DEL fd None) r' eo' (step_world (KClose fd) r eo
      (step_world (KScandir p) (RFail e) (Some e) w\<lparr>trace := trace (step_world (KScandir p) (RFail e) (Some e) w) @ [Perror m]\<rparr>))) cs
      \<and> scans fd epfd p [] cs" for e r eo r' eo' m
  proof -
    have "did w (step_world (KScandir p) (RFail e) (Some e) w) [Ev (KScandir p) (RFail e)]" using did_call [OF did_refl] by simp
    from did_call [OF did_call [OF did_perror [OF this]]]
    show ?thesis unfolding scans_def by (metis append_Cons append_Nil)
  qed
  show ?thesis
    unfolding getDirstr_def scandir_def bnd_assoc bnd_ret
  proof (intro wp_bnd [THEN iffD2] wp_callI, goal_cases)
    case (2 r eo x s)
    then show ?case
    proof (cases r)
      case (RFail e)
      with 2 close show ?thesis by (simp del: step_world_simps, intro wp_intros) (auto simp del: step_world_simps)
    next
      case (RDir es)
      with 2 show ?thesis using list [of es] by (auto split: if_splits)
    qed auto
  qed simp
qed

text \<open>A header and a file.\<close>

definition answers :: "int \<Rightarrow> string \<Rightarrow> string \<Rightarrow> event list \<Rightarrow> bool" where
  "answers fd header name cs \<longleftrightarrow> (\<exists>r cs'. cs = Ev (KWrite fd header) r # cs' \<and> copies fd name cs')"

lemma wp_answer:
  assumes "length c + length msg + length t \<le> 100" and "n < 2147483648"
  shows "wp (thn (printf f xs) (thn (send_header fd c msg t n) (send_file fd name)))
     (\<lambda>_ w'. \<exists>cs. did w w' cs \<and> answers fd (http_header c msg t n) name cs) (\<lambda>s w'. s = SBlocked) w"
  by (intro wp_intros wp_did [OF wp_send_header [OF assms] did_print [OF did_refl]] wp_did [OF wp_send_file])
    (assumption | fastforce simp: answers_def)+

lemma wp_thn3:
  assumes "wp (thn a (thn b c)) (\<lambda>_. wp k Q E) E w"
  shows "wp (thn a (thn b (thn c k))) Q E w"
proof -
  have "wp (thn (thn a (thn b c)) k) Q E w" using assms by (simp only: wp_thn)
  then show ?thesis by (simp only: thn_assoc)
qed

text \<open>The page of a directory: between two files, one write of the items.\<close>

definition sends_page :: "int \<Rightarrow> int \<Rightarrow> string \<Rightarrow> string \<Rightarrow> event list \<Rightarrow> bool" where
  "sends_page fd epfd p tail cs \<longleftrightarrow>
     (\<exists>b r sc cs'. cs = sc @ Ev (KWrite fd b) r # cs' \<and> scans fd epfd p b sc \<and> copies fd tail cs')"

lemma wp_dir_body:
  "wp (bnd (getDirstr fd p [] epfd) (\<lambda>buffer.
        thn (printf f [AS buffer]) (bnd (sys_write fd buffer) (\<lambda>_. send_file fd tail))))
     (\<lambda>_ w'. \<exists>cs. did w w' cs \<and> sends_page fd epfd p tail cs)
     (\<lambda>s w'. s = SBlocked \<or> s = SFault OutOfBounds \<and> (\<exists>cs. did w w' cs \<and> overflows p cs)) w"
proof -
  have put: "wp (send_file fd tail) (\<lambda>_ w'. \<exists>cs. did w w' cs \<and> sends_page fd epfd p tail cs) (\<lambda>s w'. s = SBlocked) w1"
    if "did w w1 (sc @ [Ev (KWrite fd b) r])" "scans fd epfd p b sc" for w1 sc b r
    by (rule wp_did [OF wp_send_file that(1)]) (use that(2) in \<open>auto simp: sends_page_def\<close>, blast)
  have "wp (thn (printf f [AS b]) (bnd (sys_write fd b) (\<lambda>_. send_file fd tail)))
     (\<lambda>_ w'. \<exists>cs. did w w' cs \<and> sends_page fd epfd p tail cs) (\<lambda>s w'. s = SBlocked) w1"
    if "did w w1 sc" "scans fd epfd p b sc" for w1 b sc
    by (intro wp_intros put [OF did_call [OF did_print [OF that(1)]] that(2)]) simp
  then show ?thesis
    by (intro wp_bnd [THEN iffD2] wp_conseq [OF wp_getDirstr]) (auto intro: wp_conseq)
qed

lemma mime_length: "length (get_mime_type name) \<le> 33"
  using get_mime_type_text by blast

lemma int_of_off_less: "int_of_off n < 2147483648"
  using sint_less [of "word_of_int n :: 32 word"] by (simp add: int_of_off_def)

text \<open>The calls of the handler after the \<^verbatim>\<open>stat\<close>, whose reply is \<open>r\<close>.\<close>

definition response :: "int \<Rightarrow> int \<Rightarrow> string \<Rightarrow> reply \<Rightarrow> event list \<Rightarrow> bool" where
  "response fd epfd p r cs \<longleftrightarrow>
     (case r of
        RFail e \<Rightarrow> answers fd (http_header ''404'' ''NOT FOUND'' (get_mime_type ''.html'') 0) ''error.html'' cs
      | RStat k n \<Rightarrow>
          if k = FReg then answers fd (http_header ''200'' ''OK'' (get_mime_type p) (int_of_off n)) p cs
          else if k = FDir then
            \<exists>h l. cs = h @ l \<and> sends_page fd epfd p ''http/dir_tail.html'' l
              \<and> answers fd (http_header ''200'' ''OK'' (get_mime_type ''.html'') 0) ''http/dir_header.html'' h
          else cs = []
      | _ \<Rightarrow> False)"

lemma wp_respond_dir:
  "wp (thn (printf (''type is dir'' @ [LF]) [])
        (thn (send_header fd ''200'' ''OK'' (get_mime_type ''.html'') 0)
        (thn (send_file fd ''http/dir_header.html'')
        (bnd (getDirstr fd p [] epfd) (\<lambda>buffer.
         thn (printf (''buffer == [%s]'' @ [LF]) [AS buffer])
        (bnd (sys_write fd buffer) (\<lambda>_. send_file fd ''http/dir_tail.html'')))))))
     (\<lambda>_ w'. \<exists>cs. did w w' cs \<and> response fd epfd p (RStat FDir n) cs)
     (\<lambda>s w'. s = SBlocked \<or> s = SFault OutOfBounds \<and> (\<exists>cs. did w w' cs \<and> overflows p cs)) w"
proof (rule wp_thn3, rule wp_conseq [OF wp_answer], goal_cases)
  case 1
  then show ?case using mime_length [of "''.html''"] by simp
next
  case (3 x w1)
  then obtain h where h: "did w w1 h"
    "answers fd (http_header ''200'' ''OK'' (get_mime_type ''.html'') 0) ''http/dir_header.html'' h" by blast
  have "sends_page fd epfd p ''http/dir_tail.html'' l \<Longrightarrow> response fd epfd p (RStat FDir n) (h @ l)" for l
    using h(2) by (auto simp: response_def)
  then show ?case
    by (intro wp_conseq [OF wp_dir_body]) (use did_trans [OF h(1)] overflows_append in blast)+
qed simp_all

text \<open>C9: the response to a request for path \<open>p\<close>, system call by system call. When \<^verbatim>\<open>stat\<close> fails, the 404 header and then the
  file \<^verbatim>\<open>error.html\<close> are handed to \<^verbatim>\<open>write\<close>; for a regular file the 200 header with the content type of the path and
  the size (as an \<^verbatim>\<open>int\<close>), then the file \<open>p\<close>; for a directory the header, the file
  \<^verbatim>\<open>http/dir_header.html\<close>, in one write the items of \<open>p\<close> in reverse alphabetical order, and the file
  \<^verbatim>\<open>http/dir_tail.html\<close>; nothing for any other kind of file. A file is copied in order, every piece read handed to one
  \<^verbatim>\<open>write\<close> whose result is not looked at, and closed; one that cannot be opened is skipped. When
  the directory cannot be read, the connection is closed, and written to all the same. The buffers
  overflow exactly when the items do not fit.\<close>

theorem respond_sends:
  "wp (respond fd epfd p)
     (\<lambda>_ w'. \<exists>r cs. did w w' (Ev (KStat p) r # cs) \<and> response fd epfd p r cs)
     (\<lambda>s w'. s = SBlocked \<or> s = SFault OutOfBounds \<and> (\<exists>cs. did w w' cs \<and> overflows p cs)) w"
  unfolding respond_def
proof (intro wp_bnd [THEN iffD2] wp_callI, goal_cases)
  case (2 r eo x s)
  have stat: "did w (step_world (KStat p) r eo w) [Ev (KStat p) r]" using did_call [OF did_refl] by simp
  show ?case
  proof (cases r)
    case (RFail e)
    with 2 have x: "x = None" by simp
    have "answers fd (http_header ''404'' ''NOT FOUND'' (get_mime_type ''.html'') 0) ''error.html'' cs \<Longrightarrow> response fd epfd p r cs" for cs
      using RFail by (simp add: response_def)
    then show ?thesis unfolding x option.case(1)
      by (intro wp_did [OF wp_answer stat]) (use mime_length [of "''.html''"] in auto)
  next
    case (RStat k n)
    with 2 have x: "x = Some (k, n)" by (simp split: if_splits)
    consider "k = FReg" | "k = FDir" "k \<noteq> FReg" | "k \<noteq> FReg" "k \<noteq> FDir" by fastforce
    then show ?thesis
    proof cases
      case 1
      then have "answers fd (http_header ''200'' ''OK'' (get_mime_type p) (int_of_off n)) p cs \<Longrightarrow> response fd epfd p r cs" for cs
        using RStat by (simp add: response_def)
      then show ?thesis unfolding x option.case(2) prod.case if_P [OF 1]
        by (intro wp_did [OF wp_answer stat]) (use mime_length [of p] int_of_off_less [of n] in auto)
    next
      case 2
      have "did w1 w' cs \<Longrightarrow> overflows p cs \<Longrightarrow> did w w1 [e] \<Longrightarrow> \<exists>cs. did w w' cs \<and> overflows p cs" for e w1 w' cs
        using did_trans [of w w1 "[e]" w' cs] overflows_append by blast
      moreover have "did w w' ([Ev (KStat p) r] @ cs) \<Longrightarrow> response fd epfd p (RStat FDir n) cs
          \<Longrightarrow> \<exists>r cs. did w w' (Ev (KStat p) r # cs) \<and> response fd epfd p r cs" for w' cs
        using RStat 2(1) by auto
      ultimately show ?thesis unfolding x option.case(2) prod.case if_P [OF 2(1)] if_not_P [OF 2(2)]
        by (intro wp_conseq [OF wp_respond_dir [of fd p epfd _ n]]) (use stat did_trans [OF stat] in metis)+
    next
      case 3
      then have "response fd epfd p r []" using RStat by (simp add: response_def)
      with 3 stat x show ?thesis by (auto simp: wp_simps simp del: step_world_simps)
    qed
  qed (use 2 in auto)
qed simp

text \<open>A directory is listed, in reverse alphabetical order with one item for every regular file
  and every directory (the latter with a final slash), exactly when the whole list is shorter
  than the 2048 bytes of \<^verbatim>\<open>buffer\<close> and each item than the 1024 of \<^verbatim>\<open>buf\<close>; otherwise \<^verbatim>\<open>strcat\<close>
  writes past the array.\<close>

theorem list_entries_result:
  "fst (list_entries es [] w) =
     (if length (concat (map dir_entry es)) < 2048 \<and> list_all (\<lambda>e. length (dir_entry e) < 1024) es
      then Val (concat (map dir_entry es)) else Stop (SFault OutOfBounds))"
proof -
  have "length buffer < 2048 \<Longrightarrow> fst (list_entries es buffer w) =
     (if length (buffer @ concat (map dir_entry es)) < 2048
         \<and> list_all (\<lambda>e. length (dir_entry e) < 1024) es
      then Val (buffer @ concat (map dir_entry es)) else Stop (SFault OutOfBounds))" for buffer
    by (induction es arbitrary: buffer w) (auto simp: exec sprintf_at_def)
  from this [of "[]"] show ?thesis by simp
qed

section \<open>From the request line to the path\<close>

definition stats1 :: "event \<Rightarrow> string list" where
  "stats1 e = (case e of Ev c r \<Rightarrow> (case c of KStat p \<Rightarrow> [p] | _ \<Rightarrow> []) | _ \<Rightarrow> [])"

text \<open>The paths a piece of trace asked the kernel about.\<close>

definition stats :: "event list \<Rightarrow> string list" where
  "stats tr = concat (map stats1 tr)"

definition no_stat :: "event \<Rightarrow> bool" where
  "no_stat e \<longleftrightarrow> stats1 e = []"

lemma no_stat_list: "list_all no_stat tr \<Longrightarrow> stats tr = []"
  by (induction tr) (auto simp: stats_def no_stat_def)

lemma no_stat_simps [simp]:
  "no_stat (Print fmt xs)" "no_stat (Perror m)" "no_stat (Ev (KRead f n) r)"
  "no_stat (Ev (KWrite f bs) r)" "no_stat (Ev (KOpen p) r)" "no_stat (Ev (KClose f) r)"
  "no_stat (Ev (KScandir p) r)" "no_stat (Ev (KEpollCtl ep op f e) r)"
  by (simp_all add: no_stat_def stats1_def)

lemma takeWhile_dropWhile_stop:
  "c \<notin> set m \<Longrightarrow> takeWhile (\<lambda>d. d \<noteq> c) (m @ c # s) = m \<and> dropWhile (\<lambda>d. d \<noteq> c) (m @ c # s) = c # s"
  by (induction m) auto

lemma scan_request_line:
  assumes "m \<noteq> []" and "CHR '' '' \<notin> set m" and "f \<noteq> []" and "list_all (\<lambda>c. \<not> isspace_c c) f"
    and "v \<noteq> []" and "list_all (\<lambda>c. \<not> isspace_c c) v"
  shows "scan_request (m @ CHR '' '' # f @ CHR '' '' # v @ CR # s) = (m, f, v)"
proof -
  have sp: "isspace_c CHR '' ''" "isspace_c CR" "isspace_c LF" by (simp_all add: isspace_c_def code_def)
  have f: "CHR '' '' \<notin> set f" using assms(4) sp by (auto simp: list_all_iff)
  have drop: "dropWhile isspace_c (CHR '' '' # x @ y) = x @ y"
    if "x \<noteq> []" "list_all (\<lambda>c. \<not> isspace_c c) x" for x y
    using that sp by (cases x) auto
  have "takeWhile (\<lambda>c. c \<notin> {CHR '' '', CR, LF}) (v @ CR # s) = v"
    using assms(6) sp by (induction v) auto
  then show ?thesis
    using takeWhile_dropWhile_stop [OF assms(2)] takeWhile_dropWhile_stop [OF f]
      drop [OF assms(3,4)] drop [OF assms(5,6)] assms(1,3)
    by (simp add: scan_request_def)
qed

text \<open>The path a request for \<^verbatim>\<open>/f\<close> ends up at.\<close>

definition request_path :: "string \<Rightarrow> string" where
  "request_path f = (if f = [] then ''./'' else takeWhile (\<lambda>c. c \<noteq> NUL) (decoded f))"

lemma cstring_append: "NUL \<notin> set s \<Longrightarrow> cstring (s @ NUL # r) = Some s"
  by (induction s) (auto simp: cstring_def)

lemma cstring_cut: "cstring (s @ NUL # r) = Some (takeWhile (\<lambda>c. c \<noteq> NUL) s)"
  by (induction s) (auto simp: cstring_def)

lemma resolve_path:
  assumes "length f < 254" and "NUL \<notin> set f"
  shows "\<exists>arr. resolve (CHR ''/'' # f) = Some arr \<and> cstring (drop 1 arr) = Some (request_path f)"
proof (cases "f = []")
  case True
  have "zbuf 254 = NUL # NUL # NUL # zbuf 251" by (simp add: zbuf_def eval_nat_numeral)
  moreover have "decoded ''./'' = ''./''" by (simp add: is_escape_def)
  ultimately show ?thesis
    using strdecode_inplace_correct [of _ "''/''" "''./''" "zbuf 251", OF refl]
      cstring_cut [of "''./''" "zbuf 251"]
    by (simp add: True resolve_def fill_buf_zbuf request_path_def cstring_cut)
next
  case False
  then obtain k where k: "254 - length f = Suc k" using assms(1) by (cases "254 - length f") auto
  then have "zbuf (254 - length f) = NUL # zbuf k" by (simp add: zbuf_def)
  then have "fill_buf (zbuf 255) (CHR ''/'' # f) = ''/'' @ f @ NUL # zbuf k"
    by (simp add: fill_buf_zbuf)
  with strdecode_inplace_correct [of _ "''/''" f "zbuf k", OF refl assms(2)] False
  show ?thesis by (simp add: resolve_def request_path_def cstring_cut)
qed

lemma wp_pfile_of:
  assumes "length f < 254" and "NUL \<notin> set f"
  shows "wp (pfile_of (CHR ''/'' # f))
     (\<lambda>p w'. p = request_path f \<and> extends no_stat w w') (\<lambda>_ _. False) w"
  using resolve_path [OF assms]
  by (auto simp: pfile_of_def wp_simps extends_def)

lemma emits_respond_no_stat:
  "emits no_stat (send_header fd c m t n)" "emits no_stat (send_file fd name)"
  "emits no_stat (list_entries es buffer)"
  by (auto simp: send_header_def send_file_def send_file_body_def intro!: emits_intros)
    (induction es arbitrary: buffer, auto intro!: emits_intros)

lemma wp_respond_stats:
  "wp (respond fd epfd p) (\<lambda>_ w'. \<exists>tr. trace w' = trace w @ tr \<and> stats tr = [p])
     (\<lambda>_ w'. \<exists>tr. trace w' = trace w @ tr \<and> (stats tr = [] \<or> stats tr = [p])) w"
  unfolding respond_def
proof (intro wp_bnd [THEN iffD2] wp_callI, goal_cases)
  case 1
  then show ?case by (auto simp: stats_def)
next
  case (2 r eo x s)
  have "stats (Ev (KStat p) r # tr) = [p]" if "list_all no_stat tr" for r tr
    using no_stat_list [OF that] by (simp add: stats_def stats1_def)
  note st = this
  show ?case
    unfolding getDirstr_def scandir_def
    by (rule wp_emits [where P = no_stat])
      (intro emits_intros emits_respond_no_stat, simp_all, (use st in blast)+)
qed

lemma readLine_no_stat: "emits no_stat (readLine fd buf n st)"
proof -
  have "emits no_stat (readLine_loop (char_read fd) i k buf st)" for i k buf st
    by (induction k arbitrary: i buf st)
      (auto simp: char_read_def take_char_def read_again_def intro!: emits_intros)
  then show ?thesis by (simp add: readLine_def)
qed

lemma drain_no_stat: "emits no_stat (drain fd buf st)"
  unfolding drain_def drain_body_def
  by (intro emits_intros) (auto split: prod.splits intro!: emits_intros readLine_no_stat)

lemma line_upto: "LF \<notin> set l \<Longrightarrow> length l < k \<Longrightarrow> line k (l @ LF # s) = l @ [LF]"
proof (induction l arbitrary: k)
  case Nil
  then show ?case by (cases k) auto
next
  case (Cons c l)
  then show ?case by (cases k) auto
qed

definition word_ok :: "nat \<Rightarrow> string \<Rightarrow> bool" where
  \<comment> \<open>a word of a request line: no white space, no NUL, fits its array\<close>
  "word_ok n s \<longleftrightarrow> length s < n \<and> NUL \<notin> set s \<and> list_all (\<lambda>c. \<not> isspace_c c) s"

definition request_line :: "string \<Rightarrow> string \<Rightarrow> string \<Rightarrow> string" where
  "request_line m f v = m @ CHR '' '' # CHR ''/'' # f @ CHR '' '' # v @ [CR]"

lemma request_line_chars:
  assumes "word_ok 16 m" and "word_ok 254 f" and "word_ok 16 v"
  shows "LF \<notin> set (request_line m f v)" and "NUL \<notin> set (request_line m f v)"
    and "length (request_line m f v) < 300"
  using assms by (auto simp: word_ok_def request_line_def list_all_iff isspace_c_def code_def)

lemma parse_request_line:
  assumes "word_ok 16 m" and "word_ok 254 f" and "word_ok 16 v" and "m \<noteq> []" and "v \<noteq> []"
  shows "parse_request (request_line m f v @ LF # NUL # rest) = ret (m, CHR ''/'' # f, v)"
proof -
  have sp: "CHR '' '' \<notin> set m" "list_all (\<lambda>c. \<not> isspace_c c) (CHR ''/'' # f)"
    "list_all (\<lambda>c. \<not> isspace_c c) v"
    using assms by (auto simp: word_ok_def list_all_iff isspace_c_def code_def)
  have "cstring (request_line m f v @ LF # NUL # rest) = Some (request_line m f v @ [LF])"
    using cstring_append [of "request_line m f v @ [LF]" rest] request_line_chars(2) [OF assms(1-3)]
    by simp
  moreover have "scan_request (request_line m f v @ [LF]) = (m, CHR ''/'' # f, v)"
    using scan_request_line [OF assms(4) sp(1) _ sp(2) assms(5) sp(3), of "[LF]"]
    by (simp add: request_line_def)
  ultimately show ?thesis using assms(1-3)
    by (simp add: parse_request_def c_str_def word_ok_def)
qed

text \<open>The end of the handler asks about one path only: \<open>stats_none\<close> before \<^verbatim>\<open>stat\<close>, \<open>stats_one\<close> after it.\<close>

definition stats_none :: "world \<Rightarrow> world \<Rightarrow> bool" where
  "stats_none w w' \<longleftrightarrow> extends no_stat w w'"

definition stats_one :: "world \<Rightarrow> string \<Rightarrow> world \<Rightarrow> bool" where
  "stats_one w p w' \<longleftrightarrow> (\<exists>tr. trace w' = trace w @ tr \<and> stats tr = [p])"

definition stats_upto :: "world \<Rightarrow> string \<Rightarrow> world \<Rightarrow> bool" where
  "stats_upto w p w' \<longleftrightarrow> (\<exists>tr. trace w' = trace w @ tr \<and> (stats tr = [] \<or> stats tr = [p]))"

lemma stats_none_upto: "stats_none w w' \<Longrightarrow> stats_upto w p w'"
  by (auto simp: stats_none_def stats_upto_def extends_def dest: no_stat_list)

lemma stats_none_app: "stats_none w w1 \<Longrightarrow> trace w2 = trace w1 @ tr \<Longrightarrow> list_all no_stat tr \<Longrightarrow> stats_none w w2"
  by (auto simp: stats_none_def extends_def)

lemma wp_respond_one:
  assumes "stats_none w w1"
  shows "wp (thn (respond fd epfd p) (ret st)) (\<lambda>_. stats_one w p) (\<lambda>_. stats_upto w p) w1"
proof -
  from assms obtain tr where "trace w1 = trace w @ tr" and "stats tr = []"
    by (auto simp: stats_none_def extends_def dest: no_stat_list)
  then show ?thesis
    by (intro wp_thn [THEN iffD2] wp_ret [THEN iffD2] wp_conseq [OF wp_respond_stats])
      (auto simp: stats_def stats_one_def stats_upto_def)
qed

lemma wp_drain_respond:
  assumes "stats_none w w1"
  shows "wp (bnd (drain fd buf st) (\<lambda>(buf, st). thn (respond fd epfd p) (ret st)))
     (\<lambda>_. stats_one w p) (\<lambda>_. stats_upto w p) w1"
proof (rule wp_bnd [THEN iffD2], rule wp_emits [OF drain_no_stat], goal_cases)
  case (1 x w' tr)
  with assms have "stats_none w w'" by (auto intro: stats_none_app)
  then show ?case by (cases x) (simp add: wp_respond_one)
next
  case (2 s w' tr)
  with assms show ?case by (auto intro: stats_none_upto stats_none_app)
qed

lemma wp_path_respond:
  assumes "length f < 254" "NUL \<notin> set f" and "stats_none w w1"
  shows "wp (bnd (pfile_of (CHR ''/'' # f)) (\<lambda>pFile.
        bnd (drain fd buf st) (\<lambda>(buf, st). thn (respond fd epfd pFile) (ret st))))
     (\<lambda>_. stats_one w (request_path f)) (\<lambda>_. stats_upto w (request_path f)) w1"
  using assms(3) extends_trans
  by (intro wp_bnd [THEN iffD2] wp_conseq [OF wp_pfile_of [OF assms(1,2)]])
    (auto simp: stats_none_def intro!: wp_drain_respond [unfolded wp_bnd])

lemma readLine_request:
  assumes "word_ok 16 m" and "word_ok 254 f" and "word_ok 16 v"
    and "rdbuf_ok st" and "stream st w = (request_line m f v @ LF # later, en)"
  obtains st' w' where "readLine fd (zbuf 1024) 1024 st w =
      (Val (int (length (request_line m f v)),
            request_line m f v @ LF # NUL # zbuf (1022 - length (request_line m f v)), st'), w')"
    and "stats_none w w'"
proof -
  let ?l = "request_line m f v"
  note chars = request_line_chars [OF assms(1-3)]
  have line: "line 1024 (?l @ LF # later) = ?l @ [LF]"
    using chars by (intro line_upto) simp_all
  have "\<exists>st' w'. readLine fd (zbuf 1024) 1024 st w
      = (Val (int (length ?l), ?l @ LF # NUL # zbuf (1022 - length ?l), st'), w')"
    using http_source.readLine_loop_spec [OF assms(4,5), of 0 1024 "zbuf 1024" fd] chars(3) line
    by (auto simp: Let_def readLine_def line_buf_def ends_nl_def)
  then obtain st' w' where rl: "readLine fd (zbuf 1024) 1024 st w
      = (Val (int (length ?l), ?l @ LF # NUL # zbuf (1022 - length ?l), st'), w')" by blast
  from readLine_no_stat rl obtain tr where "trace w' = trace w @ tr" "list_all no_stat tr"
    by (rule emitsE)
  then have "stats_none w w'" by (auto simp: stats_none_def extends_def)
  with rl show ?thesis by (rule that)
qed

text \<open>C18: the path of a request. When the next line of the connection is \<open>m\<close> \<^verbatim>\<open>/\<close>\<open>f\<close> \<open>v\<close>, of words that fit
  the arrays \<^verbatim>\<open>sscanf\<close> stores them in, the handler
  asks the kernel about exactly one path, \<open>f\<close> with its escapes decoded (\<^verbatim>\<open>./\<close> for the root), and
  whatever comes after the line. Nothing confines the path to the directory served: escaped or
  not, \<^verbatim>\<open>..\<close> components and a leading slash are passed on.\<close>

theorem http_service_path:
  assumes "word_ok 16 m" and "word_ok 254 f" and "word_ok 16 v" and "m \<noteq> []" and "v \<noteq> []"
    and "rdbuf_ok st" and "stream st w = (request_line m f v @ LF # later, en)"
  shows "wp (http_service fd epfd st)
     (\<lambda>_ w'. \<exists>tr. trace w' = trace w @ tr \<and> stats tr = [request_path f])
     (\<lambda>_ w'. \<exists>tr. trace w' = trace w @ tr \<and> (stats tr = [] \<or> stats tr = [request_path f])) w"
proof -
  let ?l = "request_line m f v"
  obtain st' w' where rl: "readLine fd (zbuf 1024) 1024 st w
      = (Val (int (length ?l), ?l @ LF # NUL # zbuf (1022 - length ?l), st'), w')" and w': "stats_none w w'"
    by (rule readLine_request [OF assms(1-3) assms(6,7)])
  have str: "cstring (?l @ LF # NUL # r) = Some (?l @ [LF])" for r
    using cstring_append [of "?l @ [LF]" r] request_line_chars [OF assms(1-3)] by simp
  have fit: "length f < 254" "NUL \<notin> set f" using assms(2) by (auto simp: word_ok_def)
  have pos: "\<not> int (length ?l) \<le> 0" by (simp add: request_line_def)
  have "wp (http_service fd epfd st) (\<lambda>_. stats_one w (request_path f)) (\<lambda>_. stats_upto w (request_path f)) w"
    unfolding http_service_def wp_bnd_run [where m = "readLine fd (zbuf 1024) 1024 st", OF rl] prod.case
      if_not_P [OF pos] bnd_c_str [OF str] parse_request_line [OF assms(1-5)] bnd_ret
    by (intro wp_thn [THEN iffD2] wp_printf [THEN iffD2] wp_path_respond [OF fit] stats_none_app [OF w'])
      (simp, simp add: no_stat_def stats1_def)
  then show ?thesis unfolding stats_one_def stats_upto_def .
qed

theorem http_service_path_witness:
  "wp (http_service 5 3 rdbuf_init)
     (\<lambda>_ w'. stats (trace w') = [''../etc/passwd''])
     (\<lambda>_ w'. stats (trace w') = [] \<or> stats (trace w') = [''../etc/passwd''])
     (start [RData (''GET /%2e%2e/etc/passwd HTTP/1.1'' @ [CR, LF]), RData [CR, LF]])"
proof -
  let ?w = "start [RData (''GET /%2e%2e/etc/passwd HTTP/1.1'' @ [CR, LF]), RData [CR, LF]]"
  have w: "word_ok 16 ''GET''" "word_ok 254 ''%2e%2e/etc/passwd''" "word_ok 16 ''HTTP/1.1''"
    by (simp_all add: word_ok_def isspace_c_def code_def)
  have "stream rdbuf_init ?w
      = (request_line ''GET'' ''%2e%2e/etc/passwd'' ''HTTP/1.1'' @ LF # [CR, LF], Hang)"
    by (simp add: stream_def unread_init request_line_def)
  moreover have "request_path ''%2e%2e/etc/passwd'' = ''../etc/passwd''" by code_simp
  ultimately show ?thesis
    using http_service_path [OF w _ _ rdbuf_init_ok, of ?w "[CR, LF]" Hang 5 3]
    by (auto elim!: wp_conseq)
qed

end
