(* ===== verification/EpollServers.thy ===== *)
theory EpollServers
  imports Sockets
begin

text \<open>
  The epoll echo servers \<^verbatim>\<open>linux-network/epoll.c\<close>, \<^verbatim>\<open>epoll-lt.c\<close>, \<^verbatim>\<open>epoll-et.c\<close> and
  \<^verbatim>\<open>epollEL-loop.c\<close>. The first three are one text with two parameters, the size of \<^verbatim>\<open>buf\<close> and the
  events a client is registered for; the fourth makes clients non-blocking and reads in an inner
  loop until \<^verbatim>\<open>read\<close> fails.
\<close>

section \<open>The servers\<close>

definition data_fd :: "edata \<Rightarrow> int" where
  \<comment> \<open>the union \<^verbatim>\<open>data\<close> read as \<^verbatim>\<open>data.fd\<close>\<close>
  "data_fd d = (case d of DFd fd \<Rightarrow> fd | DPtr p \<Rightarrow> int p)"

text \<open>A loop leaves with \<open>None\<close> at a \<^verbatim>\<open>break\<close> and with \<open>Some v\<close> at a \<^verbatim>\<open>return v\<close>.\<close>

definition epoll_accept :: "32 word \<Rightarrow> bool \<Rightarrow> int \<Rightarrow> int \<Rightarrow> (unit + int option) prog" where
  "epoll_accept cflags nonblock ftd epl =
     bnd (sys_accept ftd) (\<lambda>(cfd, sa).
       if cfd < 0 then thn (perror (''accept error'' @ [LF])) (ret (Inr (Some (-1))))
       else
         thn (if nonblock then
                bnd (sys_int (KFcntlGet cfd)) (\<lambda>flag.
                bnd (sys_int (KFcntlSet cfd (word_of_int flag OR O_NONBLOCK))) (\<lambda>_. ret ()))
              else ret ())
        (thn (print_client sa)
        (bnd (sys_int (KEpollCtl epl CTL_ADD cfd (Some (cflags, DFd cfd)))) (\<lambda>_.
         ret (Inl ())))))"

definition epoll_event ::
    "nat \<Rightarrow> 32 word \<Rightarrow> int \<Rightarrow> int \<Rightarrow> nat \<times> epoll_ev \<Rightarrow> unit \<Rightarrow> (unit + int option) prog" where
  "epoll_event n cflags ftd epl ev _ =
     (case ev of (i, (_, data)) \<Rightarrow>
     if data_fd data = ftd then epoll_accept cflags False ftd epl
     else
       bnd (sys_read (data_fd data) n) (\<lambda>r.
         if rlen r = 0 then
           thn (printf (''connect is close'' @ [LF]) [])
             (bnd (sys_int (KEpollCtl epl CTL_DEL (data_fd data) None)) (\<lambda>_. ret (Inl ())))
         else
           bnd (c_str (rbuf (zbuf n) r)) (\<lambda>str.
           thn (printf (''i == [%d],clinet str = [%s]'' @ [LF]) [AI (int i), AS str])
             (bnd (sys_write (data_fd data) (rbuf (zbuf n) r)) (\<lambda>_. ret (Inl ()))))))"

definition epoll_round ::
    "(nat \<times> epoll_ev \<Rightarrow> unit \<Rightarrow> (unit + int option) prog) \<Rightarrow> int \<Rightarrow> unit \<Rightarrow> (unit + int option) prog"
where
  "epoll_round handle epl _ =
     bnd (sys_epoll_wait epl 1024 (-1)) (\<lambda>r.
       case r of
         None \<Rightarrow> bnd get_errno (\<lambda>e. if e = EINTR then ret (Inl ()) else ret (Inr None))
       | Some rece \<Rightarrow> for_each (enumerate 0 rece) handle ())"

definition epoll_listen ::
    "(int \<Rightarrow> int \<Rightarrow> nat \<times> epoll_ev \<Rightarrow> unit \<Rightarrow> (unit + int option) prog) \<Rightarrow> int prog" where
  "epoll_listen handle =
     server_socket (''bind error'' @ [LF]) 256 (\<lambda>ftd.
     bnd (sys_int (KEpollCreate 1024)) (\<lambda>epl.
       if epl < 0 then thn (perror (''epoll error'' @ [LF])) (ret (-1))
       else
     bnd (sys_int (KEpollCtl epl CTL_ADD ftd (Some (EPOLLIN, DFd ftd)))) (\<lambda>res.
       if res < 0 then thn (perror (''epoll_ctl error'' @ [LF])) (ret (-1))
       else
     bnd (forever (epoll_round (handle ftd epl) epl) ()) (\<lambda>r.
       case r of
         Some v \<Rightarrow> ret v
       | None \<Rightarrow>
           bnd (sys_int (KClose epl)) (\<lambda>_. bnd (sys_int (KClose ftd)) (\<lambda>_. ret 0))))))"

definition epoll_server :: "nat \<Rightarrow> 32 word \<Rightarrow> int prog" where
  "epoll_server n cflags = epoll_listen (epoll_event n cflags)"

definition epoll_main :: "int prog" where
  "epoll_main = epoll_server 1024 EPOLLIN"

definition epoll_lt_main :: "int prog" where
  "epoll_lt_main = epoll_server 2 EPOLLIN"

definition epoll_et_main :: "int prog" where
  "epoll_et_main = epoll_server 2 (EPOLLET OR EPOLLIN)"

text \<open>The inner \<^verbatim>\<open>while(1)\<close> of \<^verbatim>\<open>epollEL-loop.c\<close>. Its second close condition
  \<^verbatim>\<open>(readres<0 && readres != -1)\<close> never holds.\<close>

definition el_read :: "int \<Rightarrow> nat \<Rightarrow> int \<Rightarrow> unit \<Rightarrow> (unit + unit) prog" where
  "el_read epl i fd _ =
     bnd (sys_read fd 2) (\<lambda>r.
       if rlen r = -1 then ret (Inr ())
       else if rlen r = 0 \<or> (rlen r < 0 \<and> rlen r \<noteq> -1) then
         thn (printf (''connect is close'' @ [LF]) [])
           (bnd (sys_int (KEpollCtl epl CTL_DEL fd None)) (\<lambda>_. ret (Inl ())))
       else
         bnd (c_str (rbuf (zbuf 2) r)) (\<lambda>str.
         thn (printf (''i == [%d],clinet str = [%s]'' @ [LF]) [AI (int i), AS str])
           (bnd (sys_write fd (rbuf (zbuf 2) r)) (\<lambda>_. ret (Inl ())))))"

definition el_event :: "int \<Rightarrow> int \<Rightarrow> nat \<times> epoll_ev \<Rightarrow> unit \<Rightarrow> (unit + int option) prog" where
  "el_event ftd epl ev _ =
     (case ev of (i, (_, data)) \<Rightarrow>
     if data_fd data = ftd then epoll_accept (EPOLLIN OR EPOLLET) True ftd epl
     else bnd (forever (el_read epl i (data_fd data)) ()) (\<lambda>_. ret (Inl ())))"

definition epoll_el_main :: "int prog" where
  "epoll_el_main = epoll_listen el_event"

lemma tame_epoll_accept [tame_intros]: "tame (epoll_accept cf nb ftd epl)"
  unfolding epoll_accept_def by (intro tame_intros)

lemma tame_epoll_event [tame_intros]: "tame (epoll_event n cf ftd epl x s)"
  unfolding epoll_event_def by (intro tame_intros)

lemma eats_round_el_read: "eats_round (el_read epl i fd s)"
  unfolding el_read_def by (intro eats_sys_round tame_intros)

lemma tame_el_event [tame_intros]: "tame (el_event ftd epl x s)"
  unfolding el_event_def by (intro tame_intros eats_round_el_read)

lemma eats_round_epoll_round:
  "(\<And>x s. tame (handle x s)) \<Longrightarrow> eats_round (epoll_round handle epl s)"
  unfolding epoll_round_def by (intro eats_sys_round tame_intros)

text \<open>The epoll servers send back their whole buffer.\<close>

definition pad :: "nat \<Rightarrow> string option \<Rightarrow> string" where
  "pad n r = rbuf (zbuf n) r"

definition echo_stop :: "int set \<Rightarrow> nat \<Rightarrow> stop \<Rightarrow> world \<Rightarrow> bool" where
  "echo_stop own n s w \<longleftrightarrow> echo_ok (pad n) False own w \<and> (s = SBlocked \<or> s = SFault Unterminated \<and> overfull n w)"

text \<open>
  The contract between the epoll loop and an event handler: a handler keeps the echo automaton
  happy from any safe world, never asks to leave the loop by \<^verbatim>\<open>break\<close>, does not spin, and stops
  only as \<open>echo_stop\<close> says.
\<close>

text \<open>The server's own descriptors: the listening socket and the epoll instance, the results of the first and the fifth call.\<close>

definition own_fds :: "reply list \<Rightarrow> int set" where
  "own_fds s = result s \<union> result (drop 4 s)"

locale echo_handler =
  fixes handle :: "int \<Rightarrow> int \<Rightarrow> nat \<times> epoll_ev \<Rightarrow> unit \<Rightarrow> (unit + int option) prog"
    and n :: nat
  assumes handle_tame: "tame (handle ftd epl x s)"
    and handle_safe: "echo_ok (pad n) False own w \<Longrightarrow>
      wp (handle ftd epl x s) (\<lambda>y w'. echo_ok (pad n) False own w' \<and> y \<noteq> Inr None) (echo_stop own n) w"
begin

definition stopped :: "world \<Rightarrow> bool" where
  "stopped w \<longleftrightarrow> snd (echo_now w)"

lemma each_safe:
  assumes "echo_ok (pad n) False own w"
  shows "wp (for_each xs (handle ftd epl) s)
     (\<lambda>y w'. echo_ok (pad n) False own w' \<and> y \<noteq> Inr None) (echo_stop own n) w"
  by (rule wp_for_each [where I = "\<lambda>_. echo_ok (pad n) False own", OF assms])
    (auto elim!: wp_conseq [OF handle_safe] split: sum.splits)

lemma round_safe:
  assumes "echo_ok (pad n) False own w"
  shows "wp (epoll_round (handle ftd epl) epl s)
     (\<lambda>y w'. echo_ok (pad n) False own w' \<and> (y = Inr None \<longrightarrow> stopped w')) (echo_stop own n) w"
  using assms unfolding epoll_round_def
  by (intro wp_intros)
    (auto simp: stopped_def echo_upd_def echo_stop_def intro!: wp_conseq [OF each_safe])

lemma loop_safe:
  assumes "echo_ok (pad n) False own w"
  shows "wp (forever (epoll_round (handle ftd epl) epl) s)
     (\<lambda>r w'. echo_ok (pad n) False own w' \<and> (r = None \<longrightarrow> stopped w')) (echo_stop own n) w"
  by (rule wp_forever [where I = "\<lambda>_. echo_ok (pad n) False own", OF eats_round_epoll_round [OF handle_tame] assms])
    (auto elim!: wp_conseq [OF round_safe] split: sum.splits)

lemma listen_safe:
  "wp (epoll_listen handle) (\<lambda>_. echo_ok (pad n) False (own_fds s)) (echo_stop (own_fds s) n) (start s)"
proof -
  note pro = echo_setup [of s _ "pad n" False "own_fds s", THEN conjunct1]
  have own: "ftd \<in> result s \<Longrightarrow> ftd \<in> own_fds s" "drop 4 s = RInt epl # t \<Longrightarrow> epl \<in> own_fds s" for ftd epl t
    by (simp_all add: own_fds_def result_def)
  have created: "wp (sys_int (KEpollCreate 1024)) Q E w"
    if "E SBlocked w" "\<And>epl. 0 \<le> epl \<Longrightarrow> epl \<in> own_fds s \<Longrightarrow> Q epl (step_world (KEpollCreate 1024) (RInt epl) None w)"
      "\<And>e. Q (-1) (step_world (KEpollCreate 1024) (RFail e) (Some e) w)" "script w = drop 4 s" for Q E w
    using that own(2) unfolding wp_sys_int that(4) by (auto split: list.split reply.split)
  show ?thesis
    unfolding epoll_listen_def
    by (intro wp_server_socket wp_bnd [THEN iffD2] created wp_intros wp_conseq [OF loop_safe])
      (auto simp: echo_stop_def pro echo_chk_def stopped_def echo_upd_def own)
qed

end

lemma echo_accept_safe:
  assumes "echo_ok (pad n) False own w"
  shows "wp (epoll_accept cf nb ftd epl) (\<lambda>y w'. echo_ok (pad n) False own w' \<and> y \<noteq> Inr None) (echo_stop own n) w"
  using assms unfolding epoll_accept_def
  by (intro wp_intros) (auto simp: echo_stop_def)

interpretation level: echo_handler "epoll_event (Suc m) cflags" "Suc m" for m cflags
proof (unfold_locales, goal_cases)
  case (1 ftd epl x s)
  show ?case by (rule tame_epoll_event)
next
  case (2 own w ftd epl x s)
  obtain i evs data where x: "x = (i, evs, data)" by (cases x)
  show ?case
    using 2 unfolding epoll_event_def x prod.case
    by (intro wp_intros wp_conseq [OF echo_accept_safe])
      (auto simp: echo_stop_def echo_chk_def pad_def overfull_def cstring_fill split: if_splits)
qed

lemma el_read_safe:
  assumes "echo_ok (pad 2) False own w"
  shows "wp (el_read epl i fd s) (\<lambda>_. echo_ok (pad 2) False own) (echo_stop own 2) w"
  using assms unfolding el_read_def
  by (intro wp_intros)
    (auto simp: echo_stop_def echo_chk_def pad_def overfull_def cstring_fill split: if_splits)

interpretation edge: echo_handler el_event 2
proof (unfold_locales, goal_cases)
  case (1 ftd epl x s)
  show ?case by (rule tame_el_event)
next
  case (2 own w ftd epl x s)
  obtain i evs data where x: "x = (i, evs, data)" by (cases x)
  have loop: "wp (forever (el_read epl i fd) ()) (\<lambda>_. echo_ok (pad 2) False own) (echo_stop own 2) w" for fd
    by (rule wp_forever [where I = "\<lambda>_. echo_ok (pad 2) False own", OF eats_round_el_read 2])
      (auto elim!: wp_conseq [OF el_read_safe] split: sum.splits)
  have "wp (bnd (forever (el_read epl i fd) ()) (\<lambda>_. ret (Inl ())))
      (\<lambda>y w'. echo_ok (pad 2) False own w' \<and> y \<noteq> Inr None) (echo_stop own 2) w" for fd
    by (rule wp_bnd [THEN iffD2], rule wp_conseq [OF loop]) (simp_all add: wp_ret)
  with echo_accept_safe [OF 2] show ?case
    unfolding el_event_def x prod.case by (intro wp_ifI)
qed

text \<open>C26: in every run of \<^verbatim>\<open>epoll.c\<close>, \<^verbatim>\<open>epoll-lt.c\<close> and \<^verbatim>\<open>epoll-et.c\<close> each write goes to the descriptor
  that was just read and holds exactly the bytes read, padded with NULs to the full size of the
  buffer; and no descriptor, not even that of a client that has hung up, is closed before
  \<^verbatim>\<open>epoll_wait\<close> fails, and then only those of the listening socket and of the epoll instance.\<close>

theorem epoll_server_echoes:
  "safe_trace (echo_chk (pad (Suc m)) False (own_fds s)) echo_upd echo_init
     (trace (snd (epoll_server (Suc m) cflags (start s))))"
  using level.listen_safe [of m cflags s] unfolding epoll_server_def
  by (auto simp: wp_def echo_stop_def split: prod.splits outcome.splits)

text \<open>The only way these servers leave the C language is a client that fills the buffer, 1024
  bytes in \<^verbatim>\<open>epoll.c\<close> and two in the others, without a NUL: the \<^verbatim>\<open>printf\<close> of the buffer then runs
  past it. They do not spin.\<close>

theorem epoll_server_stops:
  "wp (epoll_server (Suc m) cflags) (\<lambda>_ _. True)
     (\<lambda>st w'. st = SBlocked \<or> st = SFault Unterminated
        \<and> (\<exists>fd d. last (trace w') = Ev (KRead fd (Suc m)) (RData d)
                   \<and> length d = Suc m \<and> NUL \<notin> set d)) (start s)"
  using level.listen_safe [of m cflags s] unfolding epoll_server_def
  by (auto elim!: wp_conseq simp: echo_stop_def overfull_def)

text \<open>The inner loop of \<^verbatim>\<open>epollEL-loop.c\<close> is left only when a \<^verbatim>\<open>read\<close> fails: a client that hangs
  up, whose \<^verbatim>\<open>read\<close> returns 0 each time, is deleted from the tree and read again for ever, and the
  server never gets back to \<^verbatim>\<open>epoll_wait\<close>.\<close>

theorem el_read_leaves_on_error:
  "wp (forever (el_read epl i fd) ())
     (\<lambda>_ w'. \<exists>e. last (trace w') = Ev (KRead fd 2) (RFail e))
     (\<lambda>s w'. s = SBlocked \<or> s = SFault Unterminated) w"
  by (rule wp_forever [where I = "\<lambda>_ _. True", OF eats_round_el_read TrueI])
    (unfold el_read_def, intro wp_intros, auto)

text \<open>And so it does, however long the client's end stays closed: \<open>k\<close> reads that return 0 take
  \<open>k\<close> rounds of the inner loop and nothing else.\<close>

theorem el_read_hangup_loops:
  "\<exists>w'. forever (el_read epl i fd) () (start (concat (replicate k [RData [], RInt 0]))) = (Stop SBlocked, w')
     \<and> trace w' = concat (replicate k
         [Ev (KRead fd 2) (RData []), Print (''connect is close'' @ [LF]) [],
          Ev (KEpollCtl epl CTL_DEL fd None) (RInt 0)])"
proof -
  let ?round = "[Ev (KRead fd 2) (RData []), Print (''connect is close'' @ [LF]) [],
          Ev (KEpollCtl epl CTL_DEL fd None) (RInt 0)]"
  have "script w = concat (replicate k [RData [], RInt 0]) \<Longrightarrow>
      \<exists>w'. forever (el_read epl i fd) () w = (Stop SBlocked, w')
         \<and> trace w' = trace w @ concat (replicate k ?round)" for w
  proof (induction k arbitrary: w)
    case 0
    then show ?case
      by (subst forever_unfold [OF eats_round_el_read]) (simp add: el_read_def exec)
  next
    case (Suc k)
    let ?w = "step_world (KEpollCtl epl CTL_DEL fd None) (RInt 0) None
      ((step_world (KRead fd 2) (RData []) None w)
        \<lparr>trace := trace w @ [Ev (KRead fd 2) (RData []), Print (''connect is close'' @ [LF]) []]\<rparr>)"
    have "forever (el_read epl i fd) () w = forever (el_read epl i fd) () ?w"
      using Suc.prems
      by (subst forever_unfold [OF eats_round_el_read]) (simp add: el_read_def exec)
    moreover have "script ?w = concat (replicate k [RData [], RInt 0])" using Suc.prems by simp
    ultimately show ?case using Suc.IH [of ?w] by simp
  qed
  from this [of "start (concat (replicate k [RData [], RInt 0]))"] show ?thesis by simp
qed

end
