(* ===== verification/Slots.thy ===== *)
theory Slots
  imports Logic
begin

text \<open>
  The fixed tables of connections several servers keep, searched by linear loops. The locale
  \<open>slot_table\<close> is the contract those loops keep with the servers: the search returns the first
  free slot, or says there is none; its consequences (a used slot is never overwritten, the
  number of used slots counts the connections) are shared by all of them.
\<close>

fun scan_slots :: "('s \<Rightarrow> bool) \<Rightarrow> nat \<Rightarrow> 's list \<Rightarrow> nat option" where
  \<comment> \<open>\<^verbatim>\<open>for(i=0;i<size;i++) if(free(slot[i])) { res = i; break; }\<close>\<close>
  "scan_slots free i [] = None"
| "scan_slots free i (x # xs) = (if free x then Some i else scan_slots free (Suc i) xs)"

fun scan_last :: "('s \<Rightarrow> bool) \<Rightarrow> nat \<Rightarrow> nat option \<Rightarrow> 's list \<Rightarrow> nat option" where
  \<comment> \<open>the same loop without the \<^verbatim>\<open>break\<close>\<close>
  "scan_last p i res [] = res"
| "scan_last p i res (x # xs) = scan_last p (Suc i) (if p x then Some i else res) xs"

definition index_or :: "nat option \<Rightarrow> int" where
  \<comment> \<open>the \<^verbatim>\<open>int\<close> result, initialised with -1\<close>
  "index_or r = (case r of None \<Rightarrow> -1 | Some i \<Rightarrow> int i)"

definition slot_at :: "'s list \<Rightarrow> int \<Rightarrow> 's prog" where
  \<comment> \<open>reading \<^verbatim>\<open>slot[i]\<close>\<close>
  "slot_at xs i = (if 0 \<le> i \<and> i < int (length xs) then ret (xs ! nat i) else fault_p OutOfBounds)"

definition slot_put :: "'s list \<Rightarrow> int \<Rightarrow> ('s \<Rightarrow> 's) \<Rightarrow> 's list prog" where
  \<comment> \<open>updating \<^verbatim>\<open>slot[i]\<close>\<close>
  "slot_put xs i f =
     (if 0 \<le> i \<and> i < int (length xs) then ret (xs[nat i := f (xs ! nat i)]) else fault_p OutOfBounds)"

lemma scan_slots_Some:
  "scan_slots free k xs = Some i \<Longrightarrow>
     k \<le> i \<and> i - k < length xs \<and> free (xs ! (i - k)) \<and> list_all (\<lambda>x. \<not> free x) (take (i - k) xs)"
proof (induction free k xs rule: scan_slots.induct)
  case (2 free k x xs)
  show ?case
  proof (cases "free x")
    case False
    with 2 have "Suc k \<le> i" "i - Suc k < length xs" "free (xs ! (i - Suc k))"
      "list_all (\<lambda>x. \<not> free x) (take (i - Suc k) xs)" by auto
    moreover from this have "i - k = Suc (i - Suc k)" by simp
    ultimately show ?thesis using False by simp
  qed (use 2 in auto)
qed simp

lemma scan_slots_None: "scan_slots free k xs = None \<longleftrightarrow> list_all (\<lambda>x. \<not> free x) xs"
  by (induction free k xs rule: scan_slots.induct) auto

lemma scan_last_Some:
  "scan_last p k res xs = Some i \<Longrightarrow>
     (k \<le> i \<and> i - k < length xs \<and> p (xs ! (i - k))) \<or> res = Some i \<and> list_all (\<lambda>x. \<not> p x) xs"
proof (induction p k res xs rule: scan_last.induct)
  case (2 p k res x xs)
  then consider "Suc k \<le> i \<and> i - Suc k < length xs \<and> p (xs ! (i - Suc k))"
    | "(if p x then Some k else res) = Some i" "list_all (\<lambda>x. \<not> p x) xs" by auto
  then show ?case
  proof cases
    case 1
    then have "Suc k \<le> i" by blast
    then have "i - k = Suc (i - Suc k)" by arith
    with 1 show ?thesis by simp
  qed (auto split: if_splits)
qed simp

lemma scan_last_None: "scan_last p k res xs = None \<longleftrightarrow> res = None \<and> list_all (\<lambda>x. \<not> p x) xs"
  by (induction p k res xs rule: scan_last.induct) auto

lemma index_or_simps [simp]: "index_or None = -1" "index_or (Some i) = int i"
  by (simp_all add: index_or_def)

lemma index_or_neg: "index_or r < 0 \<longleftrightarrow> r = None"
  by (cases r) auto

lemma index_or_eq_neg: "index_or r = -1 \<longleftrightarrow> r = None"
  by (cases r) auto

lemma tame_slot [tame_intros]: "tame (slot_at xs i)" "tame (slot_put xs i f)"
  unfolding slot_at_def slot_put_def by (intro tame_intros; simp)+

lemma emits_slot [emits_intros]: "emits P (slot_at xs i)" "emits P (slot_put xs i f)"
  unfolding slot_at_def slot_put_def by (intro emits_intros)+

lemma wp_slot_atI [wp_intros]:
  "(0 \<le> i \<Longrightarrow> i < int (length xs) \<Longrightarrow> Q (xs ! nat i) w) \<Longrightarrow>
   (\<not> (0 \<le> i \<and> i < int (length xs)) \<Longrightarrow> E (SFault OutOfBounds) w) \<Longrightarrow> wp (slot_at xs i) Q E w"
  by (simp add: slot_at_def wp_ret wp_halt)

lemma wp_slot_putI [wp_intros]:
  "(0 \<le> i \<Longrightarrow> i < int (length xs) \<Longrightarrow> Q (xs[nat i := f (xs ! nat i)]) w) \<Longrightarrow>
   (\<not> (0 \<le> i \<and> i < int (length xs)) \<Longrightarrow> E (SFault OutOfBounds) w) \<Longrightarrow> wp (slot_put xs i f) Q E w"
  by (simp add: slot_put_def wp_ret wp_halt)

section \<open>The contract\<close>

locale slot_table =
  fixes free :: "'s \<Rightarrow> bool" and find :: "'s list \<Rightarrow> nat option"
  assumes find_Some: "find xs = Some i \<Longrightarrow>
      i < length xs \<and> free (xs ! i) \<and> list_all (\<lambda>x. \<not> free x) (take i xs)"
    and find_None: "find xs = None \<Longrightarrow> list_all (\<lambda>x. \<not> free x) xs"
begin

definition used :: "'s list \<Rightarrow> nat" where
  "used xs = length (filter (\<lambda>x. \<not> free x) xs)"

lemma used_le: "used xs \<le> length xs"
  by (simp add: used_def)

lemma find_full: "find xs = None \<longleftrightarrow> used xs = length xs"
proof
  assume "find xs = None"
  then show "used xs = length xs" using find_None [of xs] by (simp add: used_def list_all_iff)
next
  assume u: "used xs = length xs"
  show "find xs = None"
  proof (cases "find xs")
    case (Some i)
    with find_Some have "i < length xs" "free (xs ! i)" by blast+
    then have "xs ! i \<in> set xs" "\<not> (\<not> free (xs ! i))" by auto
    then have "length (filter (\<lambda>x. \<not> free x) xs) < length xs" by (rule length_filter_less)
    with u show ?thesis by (simp add: used_def)
  qed
qed

lemma used_update:
  assumes "i < length xs"
  shows "used (xs[i := x]) + (if free (xs ! i) then 0 else 1)
     = used xs + (if free x then 0 else 1)"
proof -
  have "used xs = used (take i xs @ xs ! i # drop (Suc i) xs)"
    using id_take_nth_drop [OF assms] by simp
  then show ?thesis using assms by (simp add: used_def upd_conv_take_nth_drop)
qed

lemma occupy_used: "find xs = Some i \<Longrightarrow> \<not> free x \<Longrightarrow> used (xs[i := x]) = Suc (used xs)"
  using find_Some [of xs i] used_update [of i xs x] by simp

lemma occupy_keeps:
  "find xs = Some i \<Longrightarrow> j < length xs \<Longrightarrow> \<not> free (xs ! j) \<Longrightarrow> (xs[i := x]) ! j = xs ! j"
  using find_Some [of xs i] by (cases "i = j") auto

lemma release_used:
  "i < length xs \<Longrightarrow> \<not> free (xs ! i) \<Longrightarrow> free x \<Longrightarrow> Suc (used (xs[i := x])) = used xs"
  using used_update [of i xs x] by simp

end

lemma scan_slot_table: "slot_table free (scan_slots free 0)"
  by unfold_locales (use scan_slots_Some [of free 0] scan_slots_None [of free 0] in auto)

end
