(* ===== verification/SelectServer.thy ===== *)
theory SelectServer
  imports Sockets Slots
begin

text \<open>
  \<^verbatim>\<open>linux-network/select.c\<close>: an upper-casing echo server over \<^verbatim>\<open>select\<close>. Its state is the table
  \<^verbatim>\<open>ifno\<close> of 100 connections, the set of watched descriptors and the largest of them. An \<^verbatim>\<open>fd_set\<close>
  has room for the descriptors 0 to 1023; \<^verbatim>\<open>FD_SET\<close> of any other writes outside it.
\<close>

section \<open>The table\<close>

record IFNO =
  ifno_fd :: int
  ifno_client :: "saddr option"
  ifno_flag :: int

definition ifnoInit :: "IFNO list \<Rightarrow> IFNO list" where
  "ifnoInit ifno = map (\<lambda>s. s\<lparr>ifno_flag := -1\<rparr>) ifno"

definition find_ifno :: "IFNO list \<Rightarrow> nat option" where
  "find_ifno ifno = scan_slots (\<lambda>s. ifno_flag s = -1) 0 ifno"

definition getifno :: "IFNO list \<Rightarrow> int prog" where
  "getifno ifno =
     (let res = index_or (find_ifno ifno)
      in thn (printf (''ifno i == [%d]'' @ [LF]) [AI res]) (ret res))"

definition getIfnobyFd :: "IFNO list \<Rightarrow> int \<Rightarrow> int" where
  "getIfnobyFd ifno fd = index_or (scan_last (\<lambda>s. ifno_fd s = fd) 0 None ifno)"

interpretation ifno: slot_table "\<lambda>s. ifno_flag s = -1" find_ifno
  unfolding find_ifno_def by (rule scan_slot_table)

section \<open>The server\<close>

type_synonym sel_state = "IFNO list \<times> int set \<times> int"   \<comment> \<open>\<^verbatim>\<open>ifno\<close>, \<^verbatim>\<open>set\<close>, \<^verbatim>\<open>maxftd\<close>\<close>

definition FD_SET :: "int \<Rightarrow> int set \<Rightarrow> int set prog" where
  "FD_SET fd s = (if 0 \<le> fd \<and> fd < 1024 then ret (insert fd s) else fault_p OutOfBounds)"

fun dec_ready :: "int set \<Rightarrow> reply \<Rightarrow> (errno option \<times> (int \<times> int set) option) option" where
  \<comment> \<open>without a timeout \<^verbatim>\<open>select\<close> returns the watched descriptors that are ready and their number\<close>
  "dec_ready watched (RReady n s) =
     (if s \<subseteq> watched \<and> 0 < n \<and> n = int (card s) then Some (None, Some (n, s)) else None)"
| "dec_ready watched (RFail e) = Some (Some e, None)"
| "dec_ready watched _ = None"

text \<open>The \<^verbatim>\<open>accept\<close> branch; the message of the full table is in Chinese (GBK).\<close>

definition table_full_msg :: string where
  "table_full_msg = map (\<lambda>n :: nat. char_of n)
     [0xC1, 0xB4, 0xBD, 0xD3, 0xCA, 0xFD, 0xD2, 0xD1, 0xBE, 0xAD, 0xC2, 0xFA, 0xC1, 0xCB, 0xA3, 0xAC, 0xC7, 0xEB, 0xB5, 0xC8, 0xB4, 0xFD, 0x0A]"

definition select_accept :: "int \<Rightarrow> sel_state \<Rightarrow> int \<Rightarrow> (sel_state \<times> int \<times> bool) prog" where
  \<comment> \<open>the new state, \<^verbatim>\<open>changeftd\<close>, and whether the round ends by \<^verbatim>\<open>continue\<close>\<close>
  "select_accept ftd st changeftd =
     (case st of (ifno, fds, maxftd) \<Rightarrow>
     bnd (getifno ifno) (\<lambda>index.
       if 0 \<le> index then
         bnd (sys_accept ftd) (\<lambda>(cfd, sa).
         thn (print_client sa)
        (bnd (slot_put ifno index (\<lambda>_. \<lparr>ifno_fd = cfd, ifno_client = sa, ifno_flag = 1\<rparr>)) (\<lambda>ifno.
         bnd (FD_SET cfd fds) (\<lambda>fds.
         ret ((ifno, fds, if maxftd < cfd then cfd else maxftd), changeftd - 1, changeftd - 1 = 0)))))
       else thn (printf table_full_msg []) (ret (st, changeftd, False))))"

definition select_client ::
    "int set \<Rightarrow> int \<Rightarrow> sel_state \<times> int \<Rightarrow> (sel_state \<times> int + sel_state) prog" where
  \<comment> \<open>one round of the \<^verbatim>\<open>for\<close> loop over descriptors; \<open>Inr\<close> is its \<^verbatim>\<open>break\<close>\<close>
  "select_client tmpfds i = (\<lambda>((ifno, fds, maxftd), changeftd).
     if i \<in> tmpfds then
       bnd (sys_read i 1024) (\<lambda>r.
       let index = getIfnobyFd ifno i in
       bnd (if rlen r = 0 then
              bnd (slot_at ifno index) (\<lambda>s.
              thn (printf (''client ip = [%s],port = [%d], close connect'' @ [LF])
                     (client_args (ifno_client s)))
             (bnd (slot_put ifno index (\<lambda>s. s\<lparr>ifno_flag := -1\<rparr>)) (\<lambda>ifno.
              bnd (sys_int (KClose i)) (\<lambda>_. ret (ifno, fds - {i}, maxftd)))))
            else
              bnd (slot_at ifno index) (\<lambda>s.
              bnd (c_str (rbuf (zbuf 1024) r)) (\<lambda>str.
              thn (printf (''client ip = [%s],port = [%d],str = [%s]'' @ [LF])
                     (client_args (ifno_client s) @ [AS str]))
             (bnd (sys_write i (upper_prefix (nat (rlen r)) (rbuf (zbuf 1024) r))) (\<lambda>_.
              ret (ifno, fds, maxftd))))))
         (\<lambda>st. ret (if changeftd - 1 = 0 then Inr st else Inl (st, changeftd - 1))))
     else ret (Inl ((ifno, fds, maxftd), changeftd)))"

definition select_round :: "int \<Rightarrow> sel_state \<Rightarrow> (sel_state + unit) prog" where
  "select_round ftd st =
     (case st of (ifno, fds, maxftd) \<Rightarrow>
     bnd (call (KSelect (maxftd + 1) fds) (dec_ready fds)) (\<lambda>r.
       case r of
         None \<Rightarrow> bnd get_errno (\<lambda>e. if e = EINTR then ret (Inl st) else ret (Inr ()))
       | Some (changeftd, tmpfds) \<Rightarrow>
           bnd (if ftd \<in> tmpfds then select_accept ftd st changeftd else ret (st, changeftd, False))
             (\<lambda>(st, changeftd, again).
              if again then ret (Inl st)
              else
                bnd (for_each [ftd + 1..snd (snd st)] (select_client tmpfds) (st, changeftd))
                  (\<lambda>x. ret (Inl (case x of Inl (st, _) \<Rightarrow> st | Inr st \<Rightarrow> st))))))"

definition select_main :: "int prog" where
  "select_main =
     (let ifno = ifnoInit (replicate 100 \<lparr>ifno_fd = 0, ifno_client = None, ifno_flag = 0\<rparr>)
      in server_socket (''bind error'' @ [LF]) 128 (\<lambda>ftd.
         bnd (FD_SET ftd {}) (\<lambda>fds.
         bnd (forever (select_round ftd) (ifno, fds, ftd)) (\<lambda>_.
         bnd (sys_int (KClose ftd)) (\<lambda>_. ret 0)))))"

section \<open>The invariant\<close>

text \<open>
  Every watched descriptor is at most \<open>maxftd\<close> and, but for the listening one, has an occupied slot
  in the table: \<^verbatim>\<open>getIfnobyFd\<close> never returns -1.
\<close>

definition has_slot :: "IFNO list \<Rightarrow> int \<Rightarrow> bool" where
  "has_slot ifno fd \<longleftrightarrow> (\<exists>j < length ifno. ifno_fd (ifno ! j) = fd)"

definition sel_inv :: "int \<Rightarrow> sel_state \<Rightarrow> bool" where
  "sel_inv ftd st \<longleftrightarrow> (case st of (ifno, fds, maxftd) \<Rightarrow>
     length ifno = 100 \<and> (\<forall>fd \<in> fds. 0 \<le> fd \<and> fd \<le> maxftd)
     \<and> (\<forall>fd \<in> fds. fd \<noteq> ftd \<longrightarrow>
          (\<exists>j < length ifno. ifno_fd (ifno ! j) = fd \<and> ifno_flag (ifno ! j) = 1)))"

definition upcased :: "string option \<Rightarrow> string" where
  \<comment> \<open>the whole buffer, its received part in upper case\<close>
  "upcased r = upper_prefix (nat (rlen r)) (rbuf (zbuf 1024) r)"

definition bad_accept :: "world \<Rightarrow> bool" where
  \<comment> \<open>the last call was an \<^verbatim>\<open>accept\<close> that failed or gave a descriptor too large for an \<^verbatim>\<open>fd_set\<close>\<close>
  "bad_accept w \<longleftrightarrow> (\<exists>tr fd r f xs. trace w = tr @ [Ev (KAccept fd) r, Print f xs]
      \<and> (case r of RConn n a \<Rightarrow> 1024 \<le> n | RFail e \<Rightarrow> True | _ \<Rightarrow> False))"

definition select_stop :: "int set \<Rightarrow> stop \<Rightarrow> world \<Rightarrow> bool" where
  "select_stop own s w \<longleftrightarrow> echo_ok upcased True own w \<and>
     (s = SBlocked \<or> s = SFault Unterminated \<and> overfull 1024 w
      \<or> s = SFault OutOfBounds \<and> bad_accept w)"

lemma getIfnobyFd_slot:
  assumes "has_slot ifno fd"
  shows "\<exists>j < length ifno. getIfnobyFd ifno fd = int j \<and> ifno_fd (ifno ! j) = fd"
proof (cases "scan_last (\<lambda>s. ifno_fd s = fd) 0 None ifno")
  case None
  with assms show ?thesis
    by (auto simp: scan_last_None list_all_length has_slot_def)
next
  case (Some j)
  from scan_last_Some [OF this] Some show ?thesis by (auto simp: getIfnobyFd_def)
qed

lemma has_slot_update:
  "has_slot ifno fd \<Longrightarrow> has_slot (ifno[i := (ifno ! i)\<lparr>ifno_flag := fl\<rparr>]) fd"
  unfolding has_slot_def by (metis IFNO.select_convs(1) IFNO.surjective IFNO.update_convs(3)
      length_list_update nth_list_update_eq nth_list_update_neq)

lemma sel_inv_has_slot: "sel_inv ftd (ifno, fds, m) \<Longrightarrow> fd \<in> fds \<Longrightarrow> fd \<noteq> ftd \<Longrightarrow> has_slot ifno fd"
  unfolding sel_inv_def has_slot_def prod.case by blast

lemma sel_inv_accept:
  assumes "sel_inv ftd (ifno, fds, m)" and "find_ifno ifno = Some i" and "0 \<le> cfd"
  shows "sel_inv ftd (ifno[i := \<lparr>ifno_fd = cfd, ifno_client = sa, ifno_flag = 1\<rparr>],
      insert cfd fds, if m < cfd then cfd else m)"
proof -
  let ?s = "\<lparr>ifno_fd = cfd, ifno_client = sa, ifno_flag = 1\<rparr>"
  have i: "i < length ifno" using ifno.find_Some [OF assms(2)] by simp
  have keep: "(ifno[i := ?s]) ! j = ifno ! j" if "j < length ifno" "ifno_flag (ifno ! j) = 1" for j
    using ifno.occupy_keeps [OF assms(2), of j ?s] that by simp
  have "\<exists>j < length ifno. ifno_fd (ifno[i := ?s] ! j) = fd \<and> ifno_flag (ifno[i := ?s] ! j) = 1"
    if "fd \<in> insert cfd fds" "fd \<noteq> ftd" for fd
  proof (cases "fd = cfd")
    case True
    with i show ?thesis by (intro exI [of _ i]) simp
  next
    case False
    with that assms(1) obtain j where "j < length ifno" "ifno_fd (ifno ! j) = fd"
      "ifno_flag (ifno ! j) = 1" by (auto simp: sel_inv_def)
    with keep show ?thesis by auto
  qed
  moreover have "0 \<le> fd \<and> fd \<le> (if m < cfd then cfd else m)" if "fd \<in> insert cfd fds" for fd
  proof (cases "fd = cfd")
    case False
    with that assms(1) have "0 \<le> fd \<and> fd \<le> m" by (auto simp: sel_inv_def)
    then show ?thesis by auto
  qed (use assms(3) in auto)
  ultimately show ?thesis using assms(1) by (simp add: sel_inv_def)
qed

lemma sel_inv_close:
  assumes inv: "sel_inv ftd (ifno, fds, m)" and j: "j < length ifno" "ifno_fd (ifno ! j) = fd"
  shows "sel_inv ftd (ifno[j := (ifno ! j)\<lparr>ifno_flag := -1\<rparr>], fds - {fd}, m)"
proof -
  have "\<exists>k < length ifno. ifno_fd (ifno[j := s] ! k) = fd' \<and> ifno_flag (ifno[j := s] ! k) = 1"
    if fd': "fd' \<in> fds - {fd}" "fd' \<noteq> ftd" for fd' s
  proof -
    from inv fd' obtain k where "k < length ifno" "ifno_fd (ifno ! k) = fd'" "ifno_flag (ifno ! k) = 1"
      by (auto simp: sel_inv_def)
    moreover from this j fd' have "k \<noteq> j" by auto
    ultimately show ?thesis by (intro exI [of _ k]) simp
  qed
  with inv show ?thesis by (simp add: sel_inv_def)
qed

lemma wp_select_accept:
  assumes "sel_inv ftd st" and "echo_ok upcased True own w"
  shows "wp (select_accept ftd st n)
     (\<lambda>(st', n', again) w'. sel_inv ftd st' \<and> fst (snd st) \<subseteq> fst (snd st') \<and> echo_ok upcased True own w')
     (select_stop own) w"
proof -
  obtain ifno fds m where st: "st = (ifno, fds, m)" by (cases st)
  show ?thesis
  proof (cases "find_ifno ifno")
    case None
    with assms show ?thesis
      by (auto simp: select_accept_def st getifno_def Let_def wp_simps)
  next
    case (Some i)
    then have "i < length ifno" using ifno.find_Some by blast
    with assms Some show ?thesis
      unfolding select_accept_def st getifno_def FD_SET_def print_client_def Let_def prod.case
      by (intro wp_intros) (auto simp: select_stop_def bad_accept_def dest: sel_inv_accept [where cfd = cfd for cfd] split: if_splits)
  qed
qed

definition client_inv :: "int \<Rightarrow> int set \<Rightarrow> sel_state \<Rightarrow> bool" where
  \<comment> \<open>during the loop over the ready descriptors\<close>
  "client_inv ftd tmpfds st \<longleftrightarrow> sel_inv ftd st \<and> (\<forall>fd \<in> tmpfds. fd \<noteq> ftd \<longrightarrow> has_slot (fst st) fd)"

lemma wp_select_client:
  assumes "client_inv ftd tmpfds st" and "echo_ok upcased True own w" and "i \<noteq> ftd"
  shows "wp (select_client tmpfds i (st, n))
     (\<lambda>x w'. client_inv ftd tmpfds (case x of Inl (st', _) \<Rightarrow> st' | Inr st' \<Rightarrow> st')
        \<and> echo_ok upcased True own w')
     (select_stop own) w"
proof (cases "i \<in> tmpfds")
  case False
  with assms show ?thesis by (cases st) (auto simp: select_client_def wp_simps)
next
  case True
  obtain ifno fds m where st: "st = (ifno, fds, m)" by (cases st)
  from assms True have "has_slot ifno i" by (simp add: client_inv_def st)
  from getIfnobyFd_slot [OF this] obtain j
    where j: "j < length ifno" "getIfnobyFd ifno i = int j" "ifno_fd (ifno ! j) = i" by blast
  have inv: "client_inv ftd tmpfds (ifno[j := (ifno ! j)\<lparr>ifno_flag := -1\<rparr>], fds - {i}, m)"
    using assms(1) sel_inv_close [OF _ j(1,3)] has_slot_update
    by (auto simp: client_inv_def st)
  show ?thesis
    using True assms j(1,2) inv
    unfolding select_client_def st Let_def prod.case
    by (simp, intro wp_intros)
      (auto simp: select_stop_def echo_chk_def upcased_def overfull_def cstring_fill split: if_splits)
qed

lemma wp_select_ready:
  assumes "sel_inv ftd st" and "tmpfds \<subseteq> fst (snd st)" and "echo_ok upcased True own w"
  shows "wp (for_each [ftd + 1..k] (select_client tmpfds) (st, n))
     (\<lambda>x w'. sel_inv ftd (case x of Inl (st', _) \<Rightarrow> st' | Inr st' \<Rightarrow> st') \<and> echo_ok upcased True own w')
     (select_stop own) w"
proof (rule wp_for_each [where I = "\<lambda>(st, _) w'. client_inv ftd tmpfds st \<and> echo_ok upcased True own w'"],
    goal_cases)
  case 1
  with assms show ?case by (cases st) (auto simp: client_inv_def intro: sel_inv_has_slot)
next
  case (2 i s w')
  obtain st1 n1 where s: "s = (st1, n1)" by (cases s)
  from 2 have "client_inv ftd tmpfds st1" "echo_ok upcased True own w'" "i \<noteq> ftd" by (auto simp: s)
  from wp_select_client [OF this, of n1] show ?case
    unfolding s by (rule wp_conseq) (auto simp: client_inv_def split: sum.splits)
next
  case (3 s w')
  then show ?case by (cases s) (auto simp: client_inv_def)
qed

lemma wp_select_round:
  assumes "sel_inv ftd st" and "echo_ok upcased True own w"
  shows "wp (select_round ftd st)
     (\<lambda>x w'. echo_ok upcased True own w' \<and>
        (case x of Inl st' \<Rightarrow> sel_inv ftd st' | Inr _ \<Rightarrow> snd (echo_now w'))) (select_stop own) w"
proof -
  obtain ifno fds m where st: "st = (ifno, fds, m)" by (cases st)
  have rest: "wp (bnd (for_each [ftd + 1..snd (snd st')] (select_client tmpfds) (st', k))
        (\<lambda>x. ret (Inl (case x of Inl (st, _) \<Rightarrow> st | Inr st \<Rightarrow> st))))
     (\<lambda>x w'. echo_ok upcased True own w' \<and>
        (case x of Inl st' \<Rightarrow> sel_inv ftd st' | Inr _ \<Rightarrow> snd (echo_now w'))) (select_stop own) w1"
    if "sel_inv ftd st'" "tmpfds \<subseteq> fst (snd st')" "echo_ok upcased True own w1" for st' tmpfds k w1
    by (rule wp_bnd [THEN iffD2], rule wp_conseq [OF wp_select_ready [OF that]])
      (auto simp: wp_ret)
  have ready: "wp (bnd (if ftd \<in> tmpfds then select_accept ftd st k else ret (st, k, False))
       (\<lambda>(st, changeftd, again).
          if again then ret (Inl st)
          else bnd (for_each [ftd + 1..snd (snd st)] (select_client tmpfds) (st, changeftd))
                 (\<lambda>x. ret (Inl (case x of Inl (st, _) \<Rightarrow> st | Inr st \<Rightarrow> st)))))
     (\<lambda>x w'. echo_ok upcased True own w' \<and>
        (case x of Inl st' \<Rightarrow> sel_inv ftd st' | Inr _ \<Rightarrow> snd (echo_now w'))) (select_stop own) w1"
    if "tmpfds \<subseteq> fds" "echo_ok upcased True own w1" for tmpfds k w1
  proof -
    have "wp (if ftd \<in> tmpfds then select_accept ftd st k else ret (st, k, False))
        (\<lambda>(st', n', again) w'. sel_inv ftd st' \<and> tmpfds \<subseteq> fst (snd st') \<and> echo_ok upcased True own w')
        (select_stop own) w1"
      using that st assms(1)
      by (auto simp: wp_ret elim!: wp_conseq [OF wp_select_accept]) blast
    note acc = this
    show ?thesis
      by (rule wp_bnd [THEN iffD2], rule wp_conseq [OF acc]) (auto simp: wp_ret
          intro!: rest [of "(a, b, c)" for a b c, unfolded snd_conv fst_conv])
  qed
  show ?thesis
    using assms unfolding select_round_def st prod.case
  proof (intro wp_bnd [THEN iffD2] wp_callI, goal_cases)
    case (2 r eo x s)
    then show ?case
    proof (cases x)
      case None
      with 2 show ?thesis
        by (cases r) (auto simp: wp_simps echo_upd_def split: if_splits)
    next
      case (Some y)
      obtain k tmpfds where y: "y = (k, tmpfds)" by (cases y)
      with 2 Some have "tmpfds \<subseteq> fds" by (cases r) (auto split: if_splits)
      then show ?thesis
        unfolding Some y option.case prod.case
        by (rule ready [unfolded st]) (use 2 in auto)
    qed
  qed (simp add: select_stop_def)
qed

lemma tame_FD_SET [tame_intros]: "tame (FD_SET fd s)"
  unfolding FD_SET_def by (intro tame_intros) simp

lemma tame_select_accept [tame_intros]: "tame (select_accept ftd st n)"
  unfolding select_accept_def getifno_def Let_def by (intro tame_intros)

lemma tame_select_client [tame_intros]: "tame (select_client t i s)"
proof -
  obtain ifno fds m n where s: "s = ((ifno, fds, m), n)" by (metis surj_pair)
  show ?thesis unfolding select_client_def s Let_def prod.case by (intro tame_intros)
qed

lemma eats_round_select_round: "eats_round (select_round ftd st)"
  unfolding select_round_def
  by (cases st; simp only: prod.case) (intro eats_round_eats eats_bnd1 eats_call tame_intros)

lemma sel_inv_init:
  "0 \<le> ftd \<Longrightarrow>
   sel_inv ftd (ifnoInit (replicate 100 \<lparr>ifno_fd = 0, ifno_client = None, ifno_flag = 0\<rparr>), {ftd}, ftd)"
  by (simp add: sel_inv_def ifnoInit_def)

lemma select_main_safe:
  "wp select_main (\<lambda>_. echo_ok upcased True (result scr))
     (\<lambda>s w'. select_stop (result scr) s w'
        \<or> s = SFault OutOfBounds \<and> extends setup_event (start scr) w') (start scr)"
proof -
  have loop: "wp (forever (select_round ftd) st)
      (\<lambda>_ w'. echo_ok upcased True own w' \<and> snd (echo_now w')) (select_stop own) w"
    if "sel_inv ftd st" "echo_ok upcased True own w" for own ftd st w
    by (rule wp_forever [where I = "\<lambda>st w'. sel_inv ftd st \<and> echo_ok upcased True own w'",
          OF eats_round_select_round])
      (use that in \<open>auto elim!: wp_conseq [OF wp_select_round] split: sum.splits\<close>)
  note pro = echo_setup [of scr _ upcased True "result scr", THEN conjunct1]
  show ?thesis
    unfolding select_main_def Let_def FD_SET_def
    by (intro wp_server_socket wp_intros wp_conseq [OF loop] sel_inv_init)
      (auto simp: select_stop_def pro echo_chk_def)
qed

text \<open>C12: \<^verbatim>\<open>select.c\<close> echoes in upper case: every write of every run goes to the descriptor just read
  and is its 1024-byte buffer with the bytes received in upper case; a client is closed only
  after a \<^verbatim>\<open>read\<close> of it returned 0, and the listening socket, the result of the first call, only after \<^verbatim>\<open>select\<close> failed.\<close>

theorem select_main_echoes:
  "safe_trace (echo_chk upcased True (result s)) echo_upd echo_init (trace (snd (select_main (start s))))"
proof -
  note pro = echo_setup [of s _ upcased True "result s", THEN conjunct1]
  have "wp select_main (\<lambda>_. echo_ok upcased True (result s)) (\<lambda>_. echo_ok upcased True (result s)) (start s)"
    by (rule wp_conseq [OF select_main_safe]) (auto simp: select_stop_def pro)
  then show ?thesis by (auto simp: wp_def split: prod.splits outcome.splits)
qed

text \<open>The table look-ups of \<^verbatim>\<open>select.c\<close> never miss and its array accesses stay inside: the only
  ways the server leaves the C language are a client that fills the buffer without a NUL, an
  \<^verbatim>\<open>accept\<close> that failed (its -1 goes into \<^verbatim>\<open>FD_SET\<close>) or returned a descriptor beyond the \<^verbatim>\<open>fd_set\<close>, and a
  listening descriptor beyond it.\<close>

theorem select_main_stops:
  "wp select_main (\<lambda>_ _. True)
     (\<lambda>st w'. st = SBlocked \<or> st = SFault Unterminated \<and> overfull 1024 w'
        \<or> st = SFault OutOfBounds \<and> (bad_accept w' \<or> extends setup_event (start s) w')) (start s)"
  by (rule wp_conseq [OF select_main_safe]) (auto simp: select_stop_def)

end
