(* ===== verification/PollServer.thy ===== *)
theory PollServer
  imports Sockets Slots
begin

text \<open>
  \<^verbatim>\<open>linux-network/poll.c\<close>: an echo server over \<^verbatim>\<open>poll\<close>. Its state is the array of 1024 \<^verbatim>\<open>pollfd\<close>
  entries and \<open>maxftd\<close>, the largest descriptor seen, which the code uses as the index of the last
  entry. The \<open>revents\<close> of an entry \<^verbatim>\<open>poll\<close> has not yet written is uninitialised memory (\<open>None\<close>).
\<close>

definition POLLIN :: "32 word" where "POLLIN = 1"

record pollfd =
  pfd :: int
  pevents :: "32 word"
  revents :: "32 word option"

type_synonym poll_state = "pollfd list \<times> int"   \<comment> \<open>\<^verbatim>\<open>client\<close>, \<^verbatim>\<open>maxftd\<close>\<close>

definition find_free :: "pollfd list \<Rightarrow> nat option" where
  "find_free client = scan_slots (\<lambda>p. pfd p = -1) 0 client"

definition getFree :: "pollfd list \<Rightarrow> int" where
  "getFree client = index_or (find_free client)"

interpretation pollfd: slot_table "\<lambda>p. pfd p = -1" find_free
  unfolding find_free_def by (rule scan_slot_table)

fun dec_poll :: "(int \<times> 32 word) list \<Rightarrow> reply \<Rightarrow> (errno option \<times> (int \<times> 32 word list) option) option" where
  \<comment> \<open>one \<open>revents\<close> per entry, 0 for a negative descriptor, and the number of those not 0\<close>
  "dec_poll ps (RPoll n rs) =
     (if length rs = length ps \<and> list_all2 (\<lambda>p r. 0 \<le> fst p \<or> r = 0) ps rs
         \<and> n = int (length (filter (\<lambda>r. r \<noteq> 0) rs)) \<and> 0 < n
      then Some (None, Some (n, rs)) else None)"
| "dec_poll ps (RFail e) = Some (Some e, None)"
| "dec_poll ps _ = None"

definition poll_ready :: "pollfd \<Rightarrow> bool prog" where
  \<comment> \<open>\<^verbatim>\<open>revents == POLLIN\<close>\<close>
  "poll_ready p = (case revents p of None \<Rightarrow> fault_p Uninitialised | Some r \<Rightarrow> ret (r = POLLIN))"

definition poll_accept :: "int \<Rightarrow> poll_state \<Rightarrow> poll_state prog" where
  "poll_accept ftd = (\<lambda>(client, maxftd).
     bnd (sys_accept ftd) (\<lambda>(cfd, sa).
     thn (if cfd < 0 then printf (''accept error'' @ [LF]) [] else ret ())
    (thn (print_client sa)
    (bnd (slot_put client (getFree client) (\<lambda>p. p\<lparr>pfd := cfd, pevents := POLLIN\<rparr>)) (\<lambda>client.
     ret (client, if maxftd < cfd then cfd else maxftd))))))"

definition poll_client :: "int \<Rightarrow> pollfd list \<times> int \<Rightarrow> (pollfd list \<times> int + pollfd list) prog" where
  "poll_client i = (\<lambda>(client, changeNumber).
     bnd (slot_at client i) (\<lambda>p.
       if pfd p = -1 then ret (Inl (client, changeNumber))
       else
         bnd (poll_ready p) (\<lambda>b.
           if \<not> b then ret (Inl (client, changeNumber))
           else
             bnd (sys_read (pfd p) 1024) (\<lambda>r.
             bnd (if rlen r = 0 then
                    thn (printf (''the connect is close'' @ [LF]) [])
                   (bnd (sys_int (KClose (pfd p))) (\<lambda>_.
                    slot_put client i (\<lambda>p. p\<lparr>pfd := -1\<rparr>)))
                  else if rlen r < 0 then fault_p OutOfBounds  \<comment> \<open>\<^verbatim>\<open>write(fd,buf,(size_t)-1)\<close>\<close>
                  else
                    bnd (sys_write (pfd p) (take (nat (rlen r)) (rbuf (zbuf 1024) r))) (\<lambda>_.
                    ret client))
               (\<lambda>client.
                ret (if changeNumber - 1 = 0 then Inr client
                     else Inl (client, changeNumber - 1)))))))"

definition poll_clients :: "pollfd list \<times> int \<Rightarrow> int \<Rightarrow> (poll_state + unit) prog" where
  "poll_clients = (\<lambda>(client, maxftd) changeNumber.
     bnd (for_each [1..maxftd] poll_client (client, changeNumber)) (\<lambda>x.
     ret (Inl (case x of Inl (client, _) \<Rightarrow> (client, maxftd) | Inr client \<Rightarrow> (client, maxftd)))))"

definition poll_round :: "int \<Rightarrow> poll_state \<Rightarrow> (poll_state + unit) prog" where
  "poll_round ftd = (\<lambda>(client, maxftd).
     let nfds = nat (maxftd + 1); ps = map (\<lambda>p. (pfd p, pevents p)) (take nfds client)
     in if length client < nfds then fault_p OutOfBounds
        else
          bnd (call (KPoll ps (-1)) (dec_poll ps)) (\<lambda>r.
            case r of
              None \<Rightarrow>
                bnd get_errno (\<lambda>e. if e = EINTR then ret (Inl (client, maxftd)) else ret (Inr ()))
            | Some (changeNumber, rs) \<Rightarrow>
                let client = map2 (\<lambda>p r. p\<lparr>revents := Some r\<rparr>) (take nfds client) rs @ drop nfds client
                in bnd (slot_at client 0) (\<lambda>p0.
                   bnd (poll_ready p0) (\<lambda>b.
                     if b then
                       bnd (poll_accept ftd (client, maxftd)) (\<lambda>st.
                         if changeNumber - 1 = 0 then ret (Inl st)
                         else poll_clients st (changeNumber - 1))
                     else poll_clients (client, maxftd) changeNumber))))"

definition poll_init :: "int \<Rightarrow> pollfd list" where
  "poll_init ftd =
     (replicate 1024 \<lparr>pfd = -1, pevents = 0, revents = None\<rparr>)[0 :=
        \<lparr>pfd = ftd, pevents = POLLIN, revents = None\<rparr>]"

definition poll_main :: "int prog" where
  "poll_main =
     server_socket (''bind error '' @ [LF]) 256 (\<lambda>ftd.
     bnd (forever (poll_round ftd) (poll_init ftd, ftd)) (\<lambda>_.
     bnd (sys_int (KClose ftd)) (\<lambda>_. ret 0)))"

section \<open>Echo, and the listening socket stays watched\<close>

text \<open>The echo automaton with the descriptor of the last \<^verbatim>\<open>listen\<close> beside it.\<close>

definition relay :: "string option \<Rightarrow> string" where
  "relay r = (case r of None \<Rightarrow> [] | Some d \<Rightarrow> d)"

definition poll_upd :: "echo_state \<times> int \<Rightarrow> event \<Rightarrow> echo_state \<times> int" where
  "poll_upd q e = (echo_upd (fst q) e,
     (case e of Ev c r \<Rightarrow> (case c of KListen f b \<Rightarrow> f | _ \<Rightarrow> snd q) | _ \<Rightarrow> snd q))"

definition poll_chk :: "echo_state \<times> int \<Rightarrow> event \<Rightarrow> bool" where
  "poll_chk q e \<longleftrightarrow> echo_chk relay True {snd q} (fst q) e \<and>
     (case e of
        Ev c r \<Rightarrow> (case c of KPoll ps t \<Rightarrow> take 1 ps = [(snd q, POLLIN)] | _ \<Rightarrow> True)
      | _ \<Rightarrow> True)"

abbreviation poll_now :: "world \<Rightarrow> echo_state \<times> int" where
  "poll_now w \<equiv> foldl poll_upd (echo_init, 0) (trace w)"

abbreviation poll_ok :: "world \<Rightarrow> bool" where
  "poll_ok w \<equiv> safe_trace poll_chk poll_upd (echo_init, 0) (trace w)"

definition poll_inv :: "int \<Rightarrow> poll_state \<Rightarrow> world \<Rightarrow> bool" where
  "poll_inv ftd st w \<longleftrightarrow> poll_ok w \<and> snd (poll_now w) = ftd \<and> 0 \<le> ftd \<and> 0 \<le> snd st
     \<and> length (fst st) = 1024 \<and> pfd (fst st ! 0) = ftd \<and> pevents (fst st ! 0) = POLLIN"

lemma poll_upd_simps [simp]:
  "poll_upd q (Print f xs) = (fst q, snd q)" "poll_upd q (Perror m) = (fst q, snd q)"
  "poll_upd q (Ev (KRead fd k) r) = (((fd, case r of RData d \<Rightarrow> Some d | _ \<Rightarrow> None), snd (fst q)), snd q)"
  "poll_upd q (Ev (KAccept fd) r) = (fst q, snd q)" "poll_upd q (Ev (KClose fd) r) = (fst q, snd q)"
  "poll_upd q (Ev (KWrite fd bs) r) = (fst q, snd q)"
  "poll_upd q (Ev (KPoll ps t) r) =
     ((fst (fst q), case r of RFail _ \<Rightarrow> True | _ \<Rightarrow> False), snd q)"
  by (simp_all add: poll_upd_def echo_upd_def)

lemma poll_chk_simps [simp]:
  "poll_chk q (Print fmt xs)" "poll_chk q (Perror m)" "poll_chk q (Ev (KRead fd k) r)"
  "poll_chk q (Ev (KAccept fd) r)"
  "poll_chk q (Ev (KPoll ps t) r) \<longleftrightarrow> take 1 ps = [(snd q, POLLIN)]"
  "poll_chk q (Ev (KWrite f bs) r) \<longleftrightarrow> fst (fst (fst q)) = f \<and> bs = relay (snd (fst (fst q)))"
  "poll_chk q (Ev (KClose f) r) \<longleftrightarrow> snd (fst q) \<and> f = snd q \<or> fst (fst q) = (f, Some [])"
  by (simp_all add: poll_chk_def echo_chk_def)

lemma wp_poll_accept:
  assumes "poll_inv ftd st w"
  shows "wp (poll_accept ftd st) (poll_inv ftd) (\<lambda>_. poll_ok) w"
proof -
  obtain client m where st: "st = (client, m)" by (cases st)
  have pos: "nat (getFree client) \<noteq> 0" if "0 \<le> getFree client"
  proof -
    from that have "find_free client \<noteq> None"
      unfolding getFree_def using index_or_neg [of "find_free client"] by linarith
    then obtain i where i: "find_free client = Some i" by blast
    then have "pfd (client ! i) = -1" using pollfd.find_Some by blast
    with assms have "i \<noteq> 0" by (cases "i = 0") (auto simp: poll_inv_def st)
    with i show ?thesis by (simp add: getFree_def)
  qed
  have len: "length client = 1024" using assms by (simp add: poll_inv_def st)
  show ?thesis
    using assms unfolding poll_accept_def st print_client_def prod.case
    by (intro wp_intros) (use pos len in \<open>auto simp: poll_inv_def nth_list_update\<close>)
qed

lemma wp_poll_client:
  assumes "poll_inv ftd (client, m) w" and "1 \<le> i"
  shows "wp (poll_client i (client, n))
     (\<lambda>x. poll_inv ftd (case x of Inl (client', _) \<Rightarrow> client' | Inr client' \<Rightarrow> client', m))
     (\<lambda>_. poll_ok) w"
  using assms unfolding poll_client_def poll_ready_def prod.case
  by (intro wp_intros) (auto simp: poll_inv_def relay_def fill_buf_def)

lemma wp_poll_clients:
  assumes "poll_inv ftd st w"
  shows "wp (poll_clients st n) (\<lambda>x w'. case x of Inl st' \<Rightarrow> poll_inv ftd st' w' | Inr _ \<Rightarrow> False)
     (\<lambda>_. poll_ok) w"
proof -
  obtain client m where st: "st = (client, m)" by (cases st)
  have "wp (for_each [1..m] poll_client (client, n))
     (\<lambda>x. poll_inv ftd (case x of Inl (client', _) \<Rightarrow> client' | Inr client' \<Rightarrow> client', m))
     (\<lambda>_. poll_ok) w"
  proof (rule wp_for_each [where I = "\<lambda>(client, _). poll_inv ftd (client, m)"], goal_cases)
    case (2 i s w')
    obtain c1 n1 where s: "s = (c1, n1)" by (cases s)
    from 2 have "poll_inv ftd (c1, m) w'" "1 \<le> i" by (auto simp: s)
    from wp_poll_client [OF this, of n1] show ?case
      unfolding s by (rule wp_conseq) (auto split: sum.splits)
  qed (use assms st in auto)
  then show ?thesis
    unfolding st poll_clients_def prod.case
    by (auto simp: wp_bnd wp_ret elim!: wp_conseq split: sum.splits)
qed

lemma wp_poll_round:
  assumes "poll_inv ftd st w"
  shows "wp (poll_round ftd st)
     (\<lambda>x w'. case x of Inl st' \<Rightarrow> poll_inv ftd st' w' | Inr _ \<Rightarrow> poll_ok w' \<and> snd (fst (poll_now w')) \<and> snd (poll_now w') = ftd)
     (\<lambda>_. poll_ok) w"
proof -
  obtain client m where st: "st = (client, m)" by (cases st)
  define nfds where "nfds = nat (m + 1)"
  define ps where "ps = map (\<lambda>p. (pfd p, pevents p)) (take nfds client)"
  note inv = assms [unfolded poll_inv_def st fst_conv snd_conv]
  have n: "0 < nfds" using inv by (simp add: nfds_def)
  then have ps1: "take 1 ps = [(ftd, POLLIN)]"
    using inv by (cases client; cases nfds) (auto simp: ps_def)
  have upd: "poll_inv ftd (map2 (\<lambda>p r. p\<lparr>revents := Some r\<rparr>) (take nfds client) rs @ drop nfds client, m)
      (step_world (KPoll ps (-1)) (RPoll k rs) eo w)"
    if "length rs = length ps" "length client \<ge> nfds" for rs k eo
  proof -
    let ?c = "map2 (\<lambda>p r. p\<lparr>revents := Some r\<rparr>) (take nfds client) rs @ drop nfds client"
    have l: "length rs = nfds" using that by (simp add: ps_def)
    have "?c ! 0 = (client ! 0)\<lparr>revents := Some (rs ! 0)\<rparr>"
      using n l that(2) by (simp add: nth_append)
    moreover have "length ?c = 1024" using inv l that(2) by simp
    ultimately show ?thesis using inv ps1 by (simp add: poll_inv_def)
  qed
  have go: "wp (bnd (slot_at c 0) (\<lambda>p0. bnd (poll_ready p0) (\<lambda>b.
        if b then bnd (poll_accept ftd (c, m)) (\<lambda>st.
          if k - 1 = 0 then ret (Inl st) else poll_clients st (k - 1))
        else poll_clients (c, m) k)))
     (\<lambda>x w'. case x of Inl st' \<Rightarrow> poll_inv ftd st' w' | Inr _ \<Rightarrow> poll_ok w' \<and> snd (fst (poll_now w')) \<and> snd (poll_now w') = ftd)
     (\<lambda>_. poll_ok) w1" if i: "poll_inv ftd (c, m) w1" for c k w1
  proof -
    have ok: "poll_ok w1" using i by (simp add: poll_inv_def)
    have cl: "wp (poll_clients st' k')
       (\<lambda>x w'. case x of Inl st' \<Rightarrow> poll_inv ftd st' w' | Inr _ \<Rightarrow> poll_ok w' \<and> snd (fst (poll_now w')) \<and> snd (poll_now w') = ftd)
       (\<lambda>_. poll_ok) w2" if "poll_inv ftd st' w2" for st' k' w2
      by (rule wp_conseq [OF wp_poll_clients [OF that]]) (auto split: sum.splits)
    show ?thesis
      unfolding poll_ready_def
      by (intro wp_intros cl wp_conseq [OF wp_poll_accept]) (use i ok in auto)
  qed
  show ?thesis
    unfolding poll_round_def st prod.case Let_def nfds_def [symmetric] ps_def [symmetric]
  proof (intro wp_ifI wp_bnd [THEN iffD2] wp_callI, goal_cases)
    case (3 r eo x s)
    then show ?case
    proof (cases x)
      case None
      with 3 inv ps1 show ?thesis
        by (cases r) (auto simp: wp_simps poll_inv_def st split: if_splits)
    next
      case (Some y)
      obtain k rs where y: "y = (k, rs)" by (cases y)
      with 3 Some have "r = RPoll k rs" "length rs = length ps" by (cases r; auto split: if_splits)+
      with 3 Some y show ?thesis using upd by (simp add: go)
    qed
  qed (use inv in \<open>auto simp: wp_halt\<close>)
qed

lemma tame_poll_ready [tame_intros]: "tame (poll_ready p)"
  unfolding poll_ready_def by (intro tame_intros) simp

lemma tame_poll_accept [tame_intros]: "tame (poll_accept ftd st)"
  unfolding poll_accept_def by (cases st; simp only: prod.case) (intro tame_intros)

lemma tame_poll_client [tame_intros]: "tame (poll_client i s)"
  unfolding poll_client_def by (cases s; simp only: prod.case) (intro tame_intros; simp)

lemma tame_poll_clients [tame_intros]: "tame (poll_clients st n)"
  unfolding poll_clients_def by (cases st; simp only: prod.case) (intro tame_intros)

lemma eats_round_poll_round: "eats_round (poll_round ftd st)"
  unfolding poll_round_def Let_def
  by (cases st; simp only: prod.case)
    (intro eats_round_if eats_round_halt eats_round_eats eats_bnd1 eats_call tame_intros; simp)

text \<open>every run of \<^verbatim>\<open>poll.c\<close> relays: each write sends, to the descriptor just read, exactly the
  bytes it delivered, and a client is closed only after its \<^verbatim>\<open>read\<close> returned 0, the listening socket only after \<^verbatim>\<open>poll\<close> failed; and every \<^verbatim>\<open>poll\<close>
  watches the listening socket in entry 0 of the array, which no connection ever takes over.\<close>

theorem poll_main_relays:
  "safe_trace poll_chk poll_upd (echo_init, 0) (trace (snd (poll_main (start s))))"
proof -
  have loop: "wp (forever (poll_round ftd) st)
      (\<lambda>_ w'. poll_ok w' \<and> snd (fst (poll_now w')) \<and> snd (poll_now w') = ftd) (\<lambda>_. poll_ok) w"
    if "poll_inv ftd st w" for ftd st w
    using that by (rule wp_forever [where I = "poll_inv ftd", OF eats_round_poll_round _ wp_poll_round])
  have init: "pfd (poll_init ftd ! 0) = ftd" "pevents (poll_init ftd ! 0) = POLLIN"
    "length (poll_init ftd) = 1024" for ftd by (simp_all add: poll_init_def)
  have "wp poll_main (\<lambda>_. poll_ok) (\<lambda>_. poll_ok) (start s)"
    unfolding poll_main_def server_socket_def
    by (intro wp_intros wp_conseq [OF loop])
      (auto simp: poll_inv_def init poll_upd_def poll_chk_def echo_upd_def echo_chk_def)
  then show ?thesis by (auto simp: wp_def split: prod.splits outcome.splits)
qed

end
