(* ===== verification/EpollReactor.thy ===== *)
theory EpollReactor
  imports Sockets Slots
begin

text \<open>
  The callback-driven epoll server \<^verbatim>\<open>linux-network/epoll-advance.c\<close> and its variant over the wrappers
  of \<^verbatim>\<open>wrap.c\<close>, \<^verbatim>\<open>epoll-advance1.c\<close> (whose functions carry the suffix 1 here). The state is the
  array \<^verbatim>\<open>g_events\<close>: entries 0 to 1023 for connections, entry 1024 for the listening socket. An
  entry knows its descriptor, the callback to run, the events it waits for and its buffer; epoll
  holds the address of the entry, \<open>DPtr i\<close> here.
\<close>

section \<open>The table\<close>

definition MAX_EVENTS :: nat where "MAX_EVENTS = 1024"
definition BUFLEN :: nat where "BUFLEN = 4096"

datatype callback = NoCallback | Acceptconn | Recvdata | Senddata

record myevent_s =
  efd :: int
  events :: "32 word"
  earg :: nat
  call_back :: callback
  status :: int
  ebuf :: string
  elen :: int
  last_active :: int

record reactor =
  g_efd :: int
  g_lfd :: int
  g_events :: "myevent_s list"

definition reactor_init :: reactor where
  \<comment> \<open>the globals before \<^verbatim>\<open>main\<close>, zeroed\<close>
  "reactor_init = \<lparr>g_efd = 0, g_lfd = 0, g_events = replicate (Suc MAX_EVENTS)
     \<lparr>efd = 0, events = 0, earg = 0, call_back = NoCallback, status = 0, ebuf = zbuf BUFLEN,
      elen = 0, last_active = 0\<rparr>\<rparr>"

definition ev_at :: "nat \<Rightarrow> reactor \<Rightarrow> myevent_s" where
  "ev_at i g = g_events g ! i"

definition ev_upd :: "nat \<Rightarrow> (myevent_s \<Rightarrow> myevent_s) \<Rightarrow> reactor \<Rightarrow> reactor" where
  "ev_upd i f g = g\<lparr>g_events := (g_events g)[i := f (g_events g ! i)]\<rparr>"

definition eventset :: "nat \<Rightarrow> int \<Rightarrow> callback \<Rightarrow> reactor \<Rightarrow> reactor prog" where
  "eventset i fd cb g =
     bnd (sys_int KTime) (\<lambda>t.
     ret (ev_upd i (\<lambda>ev. ev\<lparr>efd := fd, call_back := cb, events := 0, earg := i, status := 0,
                          last_active := t\<rparr>) g))"

definition eventdel :: "nat \<Rightarrow> reactor \<Rightarrow> reactor prog" where
  "eventdel i g =
     (if status (ev_at i g) \<noteq> 1 then ret g
      else
        bnd (sys_int (KEpollCtl (g_efd g) CTL_DEL (efd (ev_at i g)) (Some (0, DPtr i)))) (\<lambda>_.
        thn (printf (''event del success [fd=%d]'' @ [LF]) [AI (efd (ev_at i g))])
          (ret (ev_upd i (\<lambda>ev. ev\<lparr>status := 0\<rparr>) g))))"

definition eventadd :: "32 word \<Rightarrow> nat \<Rightarrow> reactor \<Rightarrow> reactor prog" where
  "eventadd evs i g =
     (let op = (if status (ev_at i g) = 1 then CTL_MOD else CTL_ADD); fd = efd (ev_at i g)
      in bnd (sys_int (KEpollCtl (g_efd g) op fd (Some (evs, DPtr i)))) (\<lambda>r.
         thn (if r < 0 then
                printf (''event add failed [fd=%d], events[%d]'' @ [LF]) [AI fd, AI (uint evs)]
              else
                printf (''event add OK [fd=%d], op=%d, events[%0X]'' @ [LF])
                  [AI fd, AI (if op = CTL_MOD then 3 else 1), AI (uint evs)])
           (ret (ev_upd i (\<lambda>ev. ev\<lparr>events := evs, status := 1\<rparr>) g))))"

section \<open>The callbacks of \<^verbatim>\<open>epoll-advance.c\<close>\<close>

definition find_idle :: "myevent_s list \<Rightarrow> nat option" where
  \<comment> \<open>\<^verbatim>\<open>for(i=0;i<MAX_EVENTS;i++) if(g_events[i].status == 0) break;\<close>\<close>
  "find_idle es = scan_slots (\<lambda>ev. status ev = 0) 0 (take MAX_EVENTS es)"

definition add_client :: "int \<Rightarrow> nat \<Rightarrow> reactor \<Rightarrow> reactor prog" where
  \<comment> \<open>the end of \<^verbatim>\<open>acceptconn\<close>: the connection made non-blocking and hung into the tree\<close>
  "add_client cfd i g =
     bnd (sys_int (KFcntlGet cfd)) (\<lambda>flags.
     bnd (sys_int (KFcntlSet cfd (word_of_int flags OR O_NONBLOCK))) (\<lambda>r.
       if r < 0 then
         bnd get_errno (\<lambda>e.
         thn (printf (''%s: fcntl nonblocking failed, %s'' @ [LF]) [AS ''acceptconn'', AErr e]) (ret g))
       else bnd (eventset i cfd Recvdata g) (eventadd EPOLLIN i)))"

definition acceptconn :: "int \<Rightarrow> reactor \<Rightarrow> reactor prog" where
  "acceptconn lfd g =
     thn (printf (''%s: fcntl is start'' @ [LF]) [AS ''acceptconn''])
    (bnd (sys_accept lfd) (\<lambda>(cfd, sa).
     thn (print_client sa)
       (case find_idle (g_events g) of
          None \<Rightarrow>
            bnd get_errno (\<lambda>e.
            thn (printf (''%s: max connect limit[%d]'' @ [LF]) [AS ''acceptconn'', AErr e]) (ret g))
        | Some i \<Rightarrow> add_client cfd i g)))"

definition terminate_buf :: "nat \<Rightarrow> int \<Rightarrow> reactor \<Rightarrow> reactor prog" where
  \<comment> \<open>\<^verbatim>\<open>ev->len = len; ev->buf[len] = '\0';\<close>\<close>
  "terminate_buf i len g =
     (if len < int BUFLEN
      then ret (ev_upd i (\<lambda>ev. ev\<lparr>elen := len, ebuf := (ebuf ev)[nat len := NUL]\<rparr>) g)
      else fault_p OutOfBounds)"

definition recvdata :: "int \<Rightarrow> nat \<Rightarrow> reactor \<Rightarrow> reactor prog" where
  "recvdata fd i g =
     thn (printf (''%s: fcntl is start'' @ [LF]) [AS ''recvdata''])
    (bnd (sys_read (efd (ev_at i g)) BUFLEN) (\<lambda>r.
     let g = ev_upd i (\<lambda>ev. ev\<lparr>ebuf := rbuf (zbuf BUFLEN) r\<rparr>) g; len = rlen r
     in bnd (eventdel i g) (\<lambda>g.
          if 0 < len then
            bnd (terminate_buf i len g) (\<lambda>g.
            bnd (c_str (ebuf (ev_at i g))) (\<lambda>str.
            thn (printf (''C[%d]:%s'' @ [LF]) [AI fd, AS str])
           (bnd (eventset i fd Senddata g) (eventadd EPOLLOUT i))))
          else
            let len = 0   \<comment> \<open>\<^verbatim>\<open>else if(len = 0)\<close> assigns\<close>
            in if len \<noteq> (0 :: int) then
                 bnd (sys_int (KClose (efd (ev_at i g)))) (\<lambda>_.
                 thn (printf (''[fd=%d] pos[%ld], closed'' @ [LF]) [AI fd, AI (int i)]) (ret g))
               else
                 bnd (sys_int (KClose (efd (ev_at i g)))) (\<lambda>_.
                 bnd get_errno (\<lambda>e.
                 thn (printf (''read [fd=%d] error[%d]:%s'' @ [LF]) [AI fd, AErr e, AErr e]) (ret g))))))"

definition senddata :: "int \<Rightarrow> nat \<Rightarrow> reactor \<Rightarrow> reactor prog" where
  "senddata fd i g =
     bnd (sys_write fd (ebuf (ev_at i g))) (\<lambda>len.
       if 0 < len then
         bnd (c_str (ebuf (ev_at i g))) (\<lambda>str.
         thn (printf (''send[fd=%d]-->[%d]:[%s]'' @ [LF]) [AI fd, AI len, AS str])
        (bnd (eventdel i g) (\<lambda>g.
         bnd (eventset i fd Recvdata g) (eventadd EPOLLIN i))))
       else
         bnd (sys_int (KClose (efd (ev_at i g)))) (\<lambda>_.
         bnd (eventdel i g) (\<lambda>g.
         bnd get_errno (\<lambda>e.
         thn (printf (''send[fd=%d] error %s'' @ [LF]) [AI fd, AErr e]) (ret g)))))"

section \<open>\<^verbatim>\<open>main\<close>\<close>

definition initlistensocket :: "reactor \<Rightarrow> reactor prog" where
  "initlistensocket g =
     bnd (sys_int (KSocket AF_INET SOCK_STREAM)) (\<lambda>lfd.
     thn (if lfd < 0 then perror (''socket error'' @ [LF]) else ret ())
    (bnd (sys_int (KSetsockopt lfd 1)) (\<lambda>_.
     bnd (sys_int (KBind lfd (Inet INADDR_ANY (htons 8888)))) (\<lambda>res.
     thn (if res < 0 then perror (''bind error'' @ [LF]) else ret ())
    (bnd (sys_int (KListen lfd 20)) (\<lambda>_.
     bnd (eventset MAX_EVENTS lfd Acceptconn (g\<lparr>g_lfd := lfd\<rparr>)) (eventadd EPOLLIN MAX_EVENTS)))))))"

text \<open>One step of the sweep over idle connections: \<open>close\<close> is the call that closes one.\<close>

definition sweep_step :: "(int \<Rightarrow> int prog) \<Rightarrow> int \<Rightarrow> reactor \<times> nat \<Rightarrow> (reactor \<times> nat) prog" where
  "sweep_step close_fd now = (\<lambda>(g, checkpos).
     let checkpos = (if checkpos = MAX_EVENTS then 0 else checkpos)
     in if status (ev_at checkpos g) \<noteq> 1 then ret (g, Suc checkpos)
        else if 60 \<le> now - last_active (ev_at checkpos g) then
          bnd (close_fd (efd (ev_at checkpos g))) (\<lambda>_.
          thn (printf (''[fd=%d] timeout'' @ [LF]) [AI (efd (ev_at checkpos g))])
         (bnd (eventdel checkpos g) (\<lambda>g. ret (g, Suc checkpos))))
        else ret (g, Suc checkpos))"

primrec sweep :: "(int \<Rightarrow> int prog) \<Rightarrow> int \<Rightarrow> nat \<Rightarrow> reactor \<times> nat \<Rightarrow> (reactor \<times> nat) prog" where
  "sweep close_fd now 0 s = ret s"
| "sweep close_fd now (Suc n) s = bnd (sweep_step close_fd now s) (sweep close_fd now n)"

definition run_callback :: "nat \<Rightarrow> reactor \<Rightarrow> reactor prog" where
  "run_callback i g =
     (let fd = efd (ev_at i g) in
      case call_back (ev_at i g) of
        NoCallback \<Rightarrow> fault_p NullPointer
      | Acceptconn \<Rightarrow> acceptconn fd g
      | Recvdata \<Rightarrow> recvdata fd i g
      | Senddata \<Rightarrow> senddata fd i g)"

text \<open>
  One event of \<^verbatim>\<open>epoll_wait\<close>. An address the program never registered is a foreign pointer. The
  first test uses \<^verbatim>\<open>&&\<close> where \<^verbatim>\<open>&\<close> is meant: any event will do.
\<close>

definition dispatch :: "nat \<times> epoll_ev \<Rightarrow> reactor \<Rightarrow> (reactor + reactor) prog" where
  "dispatch = (\<lambda>(k, (evs, data)) g.
     case data of
       DFd _ \<Rightarrow> fault_p ForeignPointer
     | DPtr i \<Rightarrow>
         if Suc MAX_EVENTS \<le> i then fault_p ForeignPointer
         else
           bnd (if evs \<noteq> 0 \<and> EPOLLIN \<noteq> 0 \<and> events (ev_at i g) \<noteq> 0 \<and> EPOLLIN \<noteq> 0 then
                  thn (printf (''i == [%d],events =[%d],ev = [%d],EPOLLIN =[%d]'' @ [LF])
                         [AI (int k), AI (uint evs), AI (uint (events (ev_at i g))), AI 1])
                    (run_callback i g)
                else ret g) (\<lambda>g.
           bnd (if evs AND EPOLLOUT \<noteq> 0 \<and> events (ev_at i g) AND EPOLLOUT \<noteq> 0 then
                  thn (printf (''i == [%d],fd =[%d],events =[%d],ev = [%d],EPOLLOUT = [%d]'' @ [LF])
                         [AI (int k), AI (efd (ev_at i g)), AI (uint evs),
                          AI (uint (events (ev_at i g))), AI 4])
                    (run_callback i g)
                else ret g) (\<lambda>g. ret (Inl g))))"

text \<open>The body of \<^verbatim>\<open>while(1)\<close>, the same text in both files up to the call that closes and the
  handling of one event.\<close>

definition reactor_loop ::
    "(int \<Rightarrow> int prog) \<Rightarrow> (nat \<times> epoll_ev \<Rightarrow> reactor \<Rightarrow> (reactor + reactor) prog) \<Rightarrow>
     reactor \<times> nat \<Rightarrow> (reactor \<times> nat + reactor) prog" where
  "reactor_loop close_fd handle s =
     bnd (sys_int KTime) (\<lambda>now.
     bnd (sweep close_fd now 100 s) (\<lambda>(g, checkpos).
     bnd (sys_epoll_wait (g_efd g) (Suc MAX_EVENTS) 1000) (\<lambda>r.
       case r of
         None \<Rightarrow> thn (printf (''epoll_wait error, exit'' @ [LF]) []) (ret (Inr g))
       | Some evs \<Rightarrow>
           bnd (for_each (enumerate 0 evs) handle g) (\<lambda>x.
           ret (Inl ((case x of Inl g \<Rightarrow> g | Inr g \<Rightarrow> g), checkpos))))))"

definition reactor_round :: "reactor \<times> nat \<Rightarrow> (reactor \<times> nat + reactor) prog" where
  "reactor_round = reactor_loop (\<lambda>fd. sys_int (KClose fd)) dispatch"

definition reactor_main :: "int prog" where
  "reactor_main =
     bnd (sys_int (KEpollCreate (int (Suc MAX_EVENTS)))) (\<lambda>ep.
       if ep < 0 then thn (perror (''create epoll  error'' @ [LF])) (ret (-1))
       else
         bnd (initlistensocket (reactor_init\<lparr>g_efd := ep\<rparr>)) (\<lambda>g.
         bnd (forever reactor_round (g, 0)) (\<lambda>g.
         bnd (sys_int (KClose (g_efd g))) (\<lambda>_.
         bnd (sys_int (KClose (g_lfd g))) (\<lambda>_. ret 0)))))"

section \<open>\<^verbatim>\<open>epoll-advance1.c\<close>\<close>

definition eventset1 :: "nat \<Rightarrow> int \<Rightarrow> callback \<Rightarrow> reactor \<Rightarrow> reactor prog" where
  \<comment> \<open>the same text\<close>
  "eventset1 = eventset"

definition eventdel1 :: "nat \<Rightarrow> reactor \<Rightarrow> reactor prog" where
  \<comment> \<open>without the message\<close>
  "eventdel1 i g =
     (if status (ev_at i g) \<noteq> 1 then ret g
      else
        bnd (sys_int (KEpollCtl (g_efd g) CTL_DEL (efd (ev_at i g)) (Some (0, DPtr i)))) (\<lambda>_.
        ret (ev_upd i (\<lambda>ev. ev\<lparr>status := 0\<rparr>) g)))"

definition eventadd1 :: "32 word \<Rightarrow> nat \<Rightarrow> reactor \<Rightarrow> reactor prog" where
  \<comment> \<open>the same text\<close>
  "eventadd1 = eventadd"

definition add_client1 :: "int \<Rightarrow> nat \<Rightarrow> reactor \<Rightarrow> reactor prog" where
  "add_client1 cfd i g =
     bnd (sys_int (KFcntlGet cfd)) (\<lambda>flags.
     bnd (sys_int (KFcntlSet cfd (word_of_int flags OR O_NONBLOCK))) (\<lambda>r.
       if r < 0 then
         bnd get_errno (\<lambda>e.
         thn (printf (''%s: fcntl nonblocking failed, %s'' @ [LF]) [AS ''acceptconn'', AErr e]) (ret g))
       else bnd (eventset1 i cfd Recvdata g) (eventadd1 EPOLLIN i)))"

definition acceptconn1 :: "int \<Rightarrow> reactor \<Rightarrow> reactor prog" where
  \<comment> \<open>with a full table \<open>i\<close> is \<open>MAX_EVENTS\<close> in the last message, the entry of the listening socket\<close>
  "acceptconn1 lfd g =
     thn (printf (''%s: fcntl is start'' @ [LF]) [AS ''acceptconn''])
    (bnd (Accept lfd) (\<lambda>(cfd, sa).
     bnd (case find_idle (g_events g) of
            None \<Rightarrow>
              thn (printf (''%s: max connect limit[%d]'' @ [LF]) [AS ''acceptconn'', AI (int MAX_EVENTS)])
                (ret (g, MAX_EVENTS))
          | Some i \<Rightarrow> bnd (add_client1 cfd i g) (\<lambda>g. ret (g, i))) (\<lambda>(g, i).
     thn (printf (''new connect [%s:%d][time:%ld], pos[%d]'' @ [LF])
            (client_args sa @ [AI (last_active (ev_at i g)), AI (int i)])) (ret g))))"

definition recvdata1 :: "int \<Rightarrow> nat \<Rightarrow> reactor \<Rightarrow> reactor prog" where
  "recvdata1 fd i g =
     bnd (Read fd BUFLEN) (\<lambda>r.
     let g = ev_upd i (\<lambda>ev. ev\<lparr>ebuf := rbuf (zbuf BUFLEN) r\<rparr>) g; len = rlen r
     in bnd (eventdel1 i g) (\<lambda>g.
          if 0 < len then
            bnd (terminate_buf i len g) (\<lambda>g.
            bnd (c_str (ebuf (ev_at i g))) (\<lambda>str.
            thn (printf (''C[%d]:%s'' @ [LF]) [AI fd, AS str])
           (bnd (eventset1 i fd Senddata g) (eventadd1 EPOLLOUT i))))
          else if len = 0 then
            bnd (Close (efd (ev_at i g))) (\<lambda>_.
            thn (printf (''[fd=%d] pos[%ld], closed'' @ [LF]) [AI fd, AI (int i)]) (ret g))
          else
            bnd (Close (efd (ev_at i g))) (\<lambda>_.
            bnd get_errno (\<lambda>e.
            thn (printf (''read [fd=%d] error[%d]:%s'' @ [LF]) [AI fd, AErr e, AErr e]) (ret g)))))"

definition senddata1 :: "int \<Rightarrow> nat \<Rightarrow> reactor \<Rightarrow> reactor prog" where
  "senddata1 fd i g =
     (let n = nat (elen (ev_at i g));
          g = ev_upd i (\<lambda>ev. ev\<lparr>ebuf := upper_prefix n (ebuf ev)\<rparr>) g
      in bnd (Write fd (take n (ebuf (ev_at i g)))) (\<lambda>len.
           if 0 < len then
             bnd (c_str (ebuf (ev_at i g))) (\<lambda>str.
             thn (printf (''send[fd=%d]-->[%d]:[%s]'' @ [LF]) [AI fd, AI len, AS str])
            (bnd (eventdel1 i g) (\<lambda>g.
             bnd (eventset1 i fd Recvdata g) (eventadd1 EPOLLIN i))))
           else
             bnd (Close (efd (ev_at i g))) (\<lambda>_.
             bnd (eventdel1 i g) (\<lambda>g.
             bnd get_errno (\<lambda>e.
             thn (printf (''send[fd=%d] error %s'' @ [LF]) [AI fd, AErr e]) (ret g))))))"

definition initlistensocket1 :: "reactor \<Rightarrow> reactor prog" where
  \<comment> \<open>the socket is hung into the tree before it is bound\<close>
  "initlistensocket1 g =
     bnd (Socket AF_INET SOCK_STREAM) (\<lambda>lfd.
     bnd (sys_int (KSetsockopt lfd 1)) (\<lambda>_.
     bnd (bnd (eventset1 MAX_EVENTS lfd Acceptconn (g\<lparr>g_lfd := lfd\<rparr>)) (eventadd1 EPOLLIN MAX_EVENTS)) (\<lambda>g.
     bnd (Bind lfd (Inet INADDR_ANY (htons 8888))) (\<lambda>_.
     bnd (Listen lfd 20) (\<lambda>_. ret g)))))"

definition run_callback1 :: "nat \<Rightarrow> reactor \<Rightarrow> reactor prog" where
  "run_callback1 i g =
     (let fd = efd (ev_at i g) in
      case call_back (ev_at i g) of
        NoCallback \<Rightarrow> fault_p NullPointer
      | Acceptconn \<Rightarrow> acceptconn1 fd g
      | Recvdata \<Rightarrow> recvdata1 fd i g
      | Senddata \<Rightarrow> senddata1 fd i g)"

definition dispatch1 :: "nat \<times> epoll_ev \<Rightarrow> reactor \<Rightarrow> (reactor + reactor) prog" where
  "dispatch1 = (\<lambda>(k, (evs, data)) g.
     case data of
       DFd _ \<Rightarrow> fault_p ForeignPointer
     | DPtr i \<Rightarrow>
         if Suc MAX_EVENTS \<le> i then fault_p ForeignPointer
         else
           (let note = (\<lambda>g. printf (''i == [%d],events =[%d],ev = [%d]'' @ [LF])
                          [AI (int k), AI (uint evs), AI (uint (events (ev_at i g)))]);
                note_in = (\<lambda>g. printf (''i == [%d],events =[%d],ev = [%d],EPOLLIN =[%d]'' @ [LF])
                          [AI (int k), AI (uint evs), AI (uint (events (ev_at i g))), AI 1])
            in thn (note g)
              (bnd (if evs AND EPOLLIN \<noteq> 0 \<and> events (ev_at i g) AND EPOLLIN \<noteq> 0
                    then thn (note_in g) (run_callback1 i g) else ret g) (\<lambda>g.
               thn (note g)
              (bnd (if evs AND EPOLLOUT \<noteq> 0 \<and> events (ev_at i g) AND EPOLLOUT \<noteq> 0
                    then thn (note_in g) (run_callback1 i g) else ret g) (\<lambda>g. ret (Inl g)))))))"

definition reactor_round1 :: "reactor \<times> nat \<Rightarrow> (reactor \<times> nat + reactor) prog" where
  "reactor_round1 = reactor_loop Close dispatch1"

definition reactor_main1 :: "int prog" where
  "reactor_main1 =
     bnd (sys_int (KEpollCreate (int (Suc MAX_EVENTS)))) (\<lambda>ep.
       if ep < 0 then thn (perror ''create epoll error'') (ret (-1))
       else
         bnd (initlistensocket1 (reactor_init\<lparr>g_efd := ep\<rparr>)) (\<lambda>g.
         bnd (forever reactor_round1 (g, 0)) (\<lambda>g.
         bnd (Close (g_efd g)) (\<lambda>_.
         bnd (Close (g_lfd g)) (\<lambda>_. ret 0)))))"

section \<open>The table invariant\<close>

definition client_ok :: "myevent_s \<Rightarrow> bool" where
  "client_ok ev \<longleftrightarrow> length (ebuf ev) = BUFLEN
     \<and> (case call_back ev of
          NoCallback \<Rightarrow> events ev = 0
        | Acceptconn \<Rightarrow> False
        | Recvdata \<Rightarrow> True
        | Senddata \<Rightarrow> NUL \<in> set (ebuf ev))"

definition listener_ok :: "int \<Rightarrow> myevent_s \<Rightarrow> bool" where
  "listener_ok lfd ev \<longleftrightarrow>
     call_back ev = Acceptconn \<and> efd ev = lfd \<and> status ev = 1 \<and> events ev = EPOLLIN"

definition reactor_inv :: "reactor \<Rightarrow> bool" where
  "reactor_inv g \<longleftrightarrow> length (g_events g) = Suc MAX_EVENTS
     \<and> listener_ok (g_lfd g) (ev_at MAX_EVENTS g) \<and> (\<forall>i < MAX_EVENTS. client_ok (ev_at i g))"

definition full_read :: "world \<Rightarrow> bool" where
  \<comment> \<open>some \<^verbatim>\<open>read\<close> has filled a buffer\<close>
  "full_read w \<longleftrightarrow> (\<exists>fd d. Ev (KRead fd BUFLEN) (RData d) \<in> set (trace w) \<and> length d = BUFLEN)"

definition reactor_stop :: "stop \<Rightarrow> world \<Rightarrow> bool" where
  "reactor_stop s w \<longleftrightarrow> s = SBlocked \<or> s = SFault ForeignPointer \<or> s = SFault OutOfBounds \<and> full_read w
     \<or> s = SExit (-1)"

lemma ev_at_upd [simp]:
  "i < length (g_events g) \<Longrightarrow> ev_at j (ev_upd i f g) = (if i = j then f (ev_at i g) else ev_at j g)"
  by (simp add: ev_at_def ev_upd_def)

lemma ev_upd_simps [simp]:
  "length (g_events (ev_upd i f g)) = length (g_events g)" "g_lfd (ev_upd i f g) = g_lfd g"
  "g_efd (ev_upd i f g) = g_efd g"
  by (simp_all add: ev_upd_def)

lemma reactor_inv_upd:
  assumes "reactor_inv g" and "i < MAX_EVENTS" and "client_ok (f (ev_at i g))"
  shows "reactor_inv (ev_upd i f g)"
  using assms by (auto simp: reactor_inv_def)

lemma reactor_inv_client: "reactor_inv g \<Longrightarrow> i < MAX_EVENTS \<Longrightarrow> client_ok (ev_at i g)"
  by (simp add: reactor_inv_def)

lemma wp_eventdel:
  assumes "reactor_inv g" and "i < MAX_EVENTS"
  shows "wp (eventdel i g)
     (\<lambda>g' w'. reactor_inv g' \<and> ebuf (ev_at i g') = ebuf (ev_at i g) \<and> set (trace w) \<subseteq> set (trace w'))
     reactor_stop w"
proof -
  have "reactor_inv (ev_upd i (\<lambda>ev. ev\<lparr>status := 0\<rparr>) g)"
    using assms by (intro reactor_inv_upd) (auto simp: reactor_inv_def client_ok_def split: callback.splits)
  moreover have "i < length (g_events g)" using assms by (simp add: reactor_inv_def)
  ultimately show ?thesis
    using assms unfolding eventdel_def by (intro wp_intros) (auto simp: reactor_stop_def)
qed

lemma wp_eventdel1:
  assumes "reactor_inv g" and "i < MAX_EVENTS"
  shows "wp (eventdel1 i g)
     (\<lambda>g' w'. reactor_inv g' \<and> ebuf (ev_at i g') = ebuf (ev_at i g) \<and> set (trace w) \<subseteq> set (trace w'))
     reactor_stop w"
proof -
  have "reactor_inv (ev_upd i (\<lambda>ev. ev\<lparr>status := 0\<rparr>) g)"
    using assms by (intro reactor_inv_upd) (auto simp: reactor_inv_def client_ok_def split: callback.splits)
  moreover have "i < length (g_events g)" using assms by (simp add: reactor_inv_def)
  ultimately show ?thesis
    using assms unfolding eventdel1_def by (intro wp_intros) (auto simp: reactor_stop_def)
qed

lemma wp_eventset_add:
  assumes "reactor_inv g" and "i < MAX_EVENTS" and "cb = Recvdata \<or> cb = Senddata \<and> NUL \<in> set (ebuf (ev_at i g))"
  shows "wp (bnd (eventset i fd cb g) (eventadd evs i)) (\<lambda>g' _. reactor_inv g') reactor_stop w"
proof -
  let ?f = "\<lambda>t ev. ev\<lparr>efd := fd, call_back := cb, events := evs, earg := i, status := 1, last_active := t\<rparr>"
  have len: "i < length (g_events g)" using assms by (simp add: reactor_inv_def)
  have "client_ok (?f t (ev_at i g))" for t
    using reactor_inv_client [OF assms(1,2)] assms(3)
    by (auto simp: client_ok_def split: callback.splits)
  then have inv: "reactor_inv (ev_upd i (?f t) g)" for t by (intro reactor_inv_upd assms)
  have eq: "ev_upd i (\<lambda>ev. ev\<lparr>events := evs, status := 1\<rparr>)
      (ev_upd i (\<lambda>ev. ev\<lparr>efd := fd, call_back := cb, events := 0, earg := i, status := 0,
        last_active := t\<rparr>) g) = ev_upd i (?f t) g" for t
    using len by (cases "g_events g ! i") (simp add: ev_upd_def)
  show ?thesis
    unfolding eventset_def eventadd_def Let_def
    by (intro wp_intros) (auto simp: reactor_stop_def eq inv)
qed

lemma wp_eventset_addI:
  assumes "reactor_inv g" and "i < MAX_EVENTS" and "cb = Recvdata \<or> cb = Senddata \<and> NUL \<in> set (ebuf (ev_at i g))"
    and "\<And>g' w'. reactor_inv g' \<Longrightarrow> Q g' w'" and "\<And>s w'. reactor_stop s w' \<Longrightarrow> E s w'"
  shows "wp (eventset i fd cb g) (\<lambda>x. wp (eventadd evs i x) Q E) E w"
  using wp_conseq [OF wp_eventset_add [OF assms(1-3)], of Q E] assms(4,5)
  by (simp add: wp_bnd)

lemma wp_acceptconn:
  assumes "reactor_inv g"
  shows "wp (acceptconn lfd g) (\<lambda>g' _. reactor_inv g') reactor_stop w"
proof -
  have idle: "i < MAX_EVENTS" if "find_idle (g_events g) = Some i" for i
    using scan_slots_Some [of "\<lambda>ev. status ev = 0" 0 "take MAX_EVENTS (g_events g)" i] that
    by (simp add: find_idle_def)
  show ?thesis
    unfolding acceptconn_def add_client_def print_client_def
    by (intro wp_intros wp_eventset_addI) (use assms idle in \<open>auto simp: reactor_stop_def\<close>)
qed

lemma wp_terminate_buf:
  assumes "reactor_inv g" and "i < MAX_EVENTS" and "0 < len"
    and "int BUFLEN \<le> len \<Longrightarrow> full_read w"
    and "\<And>g'. reactor_inv g' \<Longrightarrow> NUL \<in> set (ebuf (ev_at i g')) \<Longrightarrow> Q g' w"
  shows "wp (terminate_buf i len g) Q reactor_stop w"
proof -
  have len: "i < length (g_events g)" using assms by (simp add: reactor_inv_def)
  let ?f = "\<lambda>ev. ev\<lparr>elen := len, ebuf := (ebuf ev)[nat len := NUL]\<rparr>"
  show ?thesis
  proof (cases "len < int BUFLEN")
    case True
    have "client_ok (ev_at i g)" using assms(1,2) by (rule reactor_inv_client)
    then have l: "nat len < length (ebuf (ev_at i g))" using True assms(3) by (simp add: client_ok_def)
    then have n: "NUL \<in> set ((ebuf (ev_at i g))[nat len := NUL])" by (rule set_update_memI)
    then have "client_ok (?f (ev_at i g))"
      using \<open>client_ok (ev_at i g)\<close> by (auto simp: client_ok_def split: callback.splits)
    then have "reactor_inv (ev_upd i ?f g)" by (rule reactor_inv_upd [OF assms(1,2)])
    then show ?thesis using True n len by (simp add: terminate_buf_def wp_ret assms(5))
  next
    case False
    then show ?thesis using assms(4) by (simp add: terminate_buf_def wp_halt reactor_stop_def)
  qed
qed

lemma cstring_NUL: "NUL \<in> set b \<Longrightarrow> cstring b \<noteq> None"
  by (simp add: cstring_def)

lemma wp_recvdata:
  assumes "reactor_inv g" and "i < MAX_EVENTS" and "call_back (ev_at i g) = Recvdata"
  shows "wp (recvdata fd i g) (\<lambda>g' _. reactor_inv g') reactor_stop w"
proof -
  have g1: "reactor_inv (ev_upd i (\<lambda>ev. ev\<lparr>ebuf := rbuf (zbuf BUFLEN) r\<rparr>) g)"
    if "length (case r of None \<Rightarrow> [] | Some d \<Rightarrow> d) \<le> BUFLEN" for r
  proof (rule reactor_inv_upd [OF assms(1,2)])
    have "length (rbuf (zbuf BUFLEN) r) = BUFLEN" using that by (cases r) simp_all
    then show "client_ok ((ev_at i g)\<lparr>ebuf := rbuf (zbuf BUFLEN) r\<rparr>)"
      using assms(3) by (simp add: client_ok_def)
  qed
  have full: "full_read w'" if "Ev (KRead f BUFLEN) (RData d) \<in> set (trace w')" "BUFLEN \<le> length d"
    "length d \<le> BUFLEN" for f d w' using that unfolding full_read_def by (metis le_antisym)
  have after: "wp (if 0 < rlen r
        then bnd (terminate_buf i (rlen r) g') (\<lambda>g.
          bnd (c_str (ebuf (ev_at i g))) (\<lambda>str.
          thn (printf (''C[%d]:%s'' @ [LF]) [AI fd, AS str])
         (bnd (eventset i fd Senddata g) (eventadd EPOLLOUT i))))
        else if (0 :: int) \<noteq> 0 then
          bnd (sys_int (KClose (efd (ev_at i g')))) (\<lambda>_.
          thn (printf (''[fd=%d] pos[%ld], closed'' @ [LF]) [AI fd, AI (int i)]) (ret g'))
        else
          bnd (sys_int (KClose (efd (ev_at i g')))) (\<lambda>_.
          bnd get_errno (\<lambda>e.
          thn (printf (''read [fd=%d] error[%d]:%s'' @ [LF]) [AI fd, AErr e, AErr e]) (ret g'))))
     (\<lambda>g' _. reactor_inv g') reactor_stop w'"
    if "reactor_inv g'" "int BUFLEN \<le> rlen r \<Longrightarrow> full_read w'" for g' w' r
    by (intro wp_intros wp_terminate_buf wp_eventset_addI)
      (use that assms(2) cstring_NUL in \<open>auto simp: reactor_stop_def\<close>)
  show ?thesis
    unfolding recvdata_def Let_def
    by (intro wp_intros wp_conseq [OF wp_eventdel] after)
      (use g1 [of None] g1 [of "Some d" for d] assms(2) full in \<open>auto simp: reactor_stop_def\<close>)
qed

lemma wp_senddata:
  assumes "reactor_inv g" and "i < MAX_EVENTS" and "call_back (ev_at i g) = Senddata"
  shows "wp (senddata fd i g) (\<lambda>g' _. reactor_inv g') reactor_stop w"
proof -
  have "NUL \<in> set (ebuf (ev_at i g))"
    using reactor_inv_client [OF assms(1,2)] assms(3) by (simp add: client_ok_def)
  then have str: "cstring (ebuf (ev_at i g)) \<noteq> None" by (rule cstring_NUL)
  show ?thesis
    unfolding senddata_def
    by (intro wp_intros wp_conseq [OF wp_eventdel] wp_eventset_addI)
      (use assms str in \<open>auto simp: reactor_stop_def\<close>)
qed

lemma wp_acceptconn1:
  assumes "reactor_inv g"
  shows "wp (acceptconn1 lfd g) (\<lambda>g' _. reactor_inv g') reactor_stop w"
proof -
  have idle: "i < MAX_EVENTS" if "find_idle (g_events g) = Some i" for i
    using scan_slots_Some [of "\<lambda>ev. status ev = 0" 0 "take MAX_EVENTS (g_events g)" i] that
    by (simp add: find_idle_def)
  show ?thesis
    unfolding acceptconn1_def add_client1_def eventset1_def eventadd1_def
    by (intro wp_intros wp_eventset_addI) (use assms idle in \<open>auto simp: reactor_stop_def\<close>)
qed

lemma wp_recvdata1:
  assumes "reactor_inv g" and "i < MAX_EVENTS" and "call_back (ev_at i g) = Recvdata"
  shows "wp (recvdata1 fd i g) (\<lambda>g' _. reactor_inv g') reactor_stop w"
proof -
  have g1: "reactor_inv (ev_upd i (\<lambda>ev. ev\<lparr>ebuf := rbuf (zbuf BUFLEN) r\<rparr>) g)"
    if "length (case r of None \<Rightarrow> [] | Some d \<Rightarrow> d) \<le> BUFLEN" for r
  proof (rule reactor_inv_upd [OF assms(1,2)])
    have "length (rbuf (zbuf BUFLEN) r) = BUFLEN" using that by (cases r) simp_all
    then show "client_ok ((ev_at i g)\<lparr>ebuf := rbuf (zbuf BUFLEN) r\<rparr>)"
      using assms(3) by (simp add: client_ok_def)
  qed
  have full: "full_read w'" if "Ev (KRead f BUFLEN) (RData d) \<in> set (trace w')" "BUFLEN \<le> length d"
    "length d \<le> BUFLEN" for f d w' using that unfolding full_read_def by (metis le_antisym)
  have after: "wp (if 0 < rlen r
        then bnd (terminate_buf i (rlen r) g') (\<lambda>g.
          bnd (c_str (ebuf (ev_at i g))) (\<lambda>str.
          thn (printf (''C[%d]:%s'' @ [LF]) [AI fd, AS str])
         (bnd (eventset i fd Senddata g) (eventadd EPOLLOUT i))))
        else if rlen r = 0 then
          bnd (Close (efd (ev_at i g'))) (\<lambda>_.
          thn (printf (''[fd=%d] pos[%ld], closed'' @ [LF]) [AI fd, AI (int i)]) (ret g'))
        else
          bnd (Close (efd (ev_at i g'))) (\<lambda>_.
          bnd get_errno (\<lambda>e.
          thn (printf (''read [fd=%d] error[%d]:%s'' @ [LF]) [AI fd, AErr e, AErr e]) (ret g'))))
     (\<lambda>g' _. reactor_inv g') reactor_stop w'"
    if "reactor_inv g'" "int BUFLEN \<le> rlen r \<Longrightarrow> full_read w'" for g' w' r
    by (intro wp_intros wp_terminate_buf wp_eventset_addI)
      (use that assms(2) cstring_NUL in \<open>auto simp: reactor_stop_def\<close>)
  show ?thesis
    unfolding recvdata1_def eventset1_def eventadd1_def Let_def
    by (intro wp_intros wp_conseq [OF wp_eventdel1] after)
      (use g1 [of None] g1 [of "Some d" for d] assms(2) full in \<open>auto simp: reactor_stop_def\<close>)
qed

lemma upper_prefix_NUL: "NUL \<in> set b \<Longrightarrow> NUL \<in> set (upper_prefix n b)"
proof -
  assume "NUL \<in> set b"
  then have "NUL \<in> set (take n b) \<or> NUL \<in> set (drop n b)" by (metis Un_iff append_take_drop_id set_append)
  moreover have "toupper_c NUL = NUL" by simp
  ultimately show ?thesis unfolding upper_prefix_eq by (metis Un_iff image_eqI set_append set_map)
qed

lemma wp_senddata1:
  assumes "reactor_inv g" and "i < MAX_EVENTS" and "call_back (ev_at i g) = Senddata"
  shows "wp (senddata1 fd i g) (\<lambda>g' _. reactor_inv g') reactor_stop w"
proof -
  define g1 where "g1 = ev_upd i (\<lambda>ev. ev\<lparr>ebuf := upper_prefix (nat (elen (ev_at i g))) (ebuf ev)\<rparr>) g"
  have len: "i < length (g_events g)" using assms by (simp add: reactor_inv_def)
  have ok: "client_ok (ev_at i g)" using assms(1,2) by (rule reactor_inv_client)
  then have nul: "NUL \<in> set (ebuf (ev_at i g))" using assms(3) by (simp add: client_ok_def)
  then have inv: "reactor_inv g1"
    unfolding g1_def using ok assms(3)
    by (intro reactor_inv_upd assms(1,2)) (simp add: client_ok_def upper_prefix_NUL)
  have str: "cstring (ebuf (ev_at i g1)) \<noteq> None"
    using nul len by (intro cstring_NUL) (simp add: g1_def upper_prefix_NUL)
  show ?thesis
    unfolding senddata1_def eventset1_def eventadd1_def Let_def g1_def [symmetric]
    by (intro wp_intros wp_conseq [OF wp_eventdel1] wp_eventset_addI)
      (use inv assms(2) str in \<open>auto simp: reactor_stop_def\<close>)
qed

lemma run_callback_safe:
  assumes "reactor_inv g" and "i \<le> MAX_EVENTS" and "events (ev_at i g) \<noteq> 0"
  shows "wp (run_callback i g) (\<lambda>g' _. reactor_inv g') reactor_stop w"
    and "wp (run_callback1 i g) (\<lambda>g' _. reactor_inv g') reactor_stop w"
proof -
  consider "i = MAX_EVENTS" "call_back (ev_at i g) = Acceptconn"
    | "i < MAX_EVENTS" "call_back (ev_at i g) = Recvdata"
    | "i < MAX_EVENTS" "call_back (ev_at i g) = Senddata"
    using assms reactor_inv_client [OF assms(1), of i]
    by (cases "i = MAX_EVENTS"; cases "call_back (ev_at i g)")
      (auto simp: reactor_inv_def listener_ok_def client_ok_def)
  then show "wp (run_callback i g) (\<lambda>g' _. reactor_inv g') reactor_stop w"
    and "wp (run_callback1 i g) (\<lambda>g' _. reactor_inv g') reactor_stop w"
    using assms(1)
    by (cases; simp add: run_callback_def run_callback1_def wp_acceptconn wp_recvdata wp_senddata
        wp_acceptconn1 wp_recvdata1 wp_senddata1)+
qed

section \<open>The loop\<close>

text \<open>
  What the loop asks of the code it is instantiated with: closing a descriptor returns, handling
  an event keeps the table invariant, and neither spins.
\<close>

locale reactor_handler =
  fixes close_fd :: "int \<Rightarrow> int prog"
    and handle :: "nat \<times> epoll_ev \<Rightarrow> reactor \<Rightarrow> (reactor + reactor) prog"
  assumes close_safe: "wp (close_fd fd) (\<lambda>_ _. True) reactor_stop w"
    and close_tame: "tame (close_fd fd)"
    and handle_safe: "reactor_inv g \<Longrightarrow>
      wp (handle ev g) (\<lambda>x _. reactor_inv (case x of Inl g \<Rightarrow> g | Inr g \<Rightarrow> g)) reactor_stop w"
    and handle_tame: "tame (handle ev g)"
begin

lemma sweep_step_safe:
  assumes "reactor_inv g" and "c \<le> MAX_EVENTS"
  shows "wp (sweep_step close_fd now (g, c))
     (\<lambda>(g', c') _. reactor_inv g' \<and> c' \<le> MAX_EVENTS) reactor_stop w"
proof -
  have c: "(if c = MAX_EVENTS then 0 else c) < MAX_EVENTS"
    using assms(2) by (simp add: MAX_EVENTS_def)
  show ?thesis
    unfolding sweep_step_def prod.case Let_def
    by (intro wp_intros wp_conseq [OF wp_eventdel [OF _ c]] wp_conseq [OF close_safe])
      (use assms c in auto)
qed

lemma sweep_safe:
  "reactor_inv g \<Longrightarrow> c \<le> MAX_EVENTS \<Longrightarrow>
   wp (sweep close_fd now n (g, c))
     (\<lambda>(g', c') _. reactor_inv g' \<and> c' \<le> MAX_EVENTS) reactor_stop w"
proof (induction n arbitrary: g c w)
  case (Suc n)
  then show ?case
    by (auto simp: wp_bnd intro!: wp_conseq [OF sweep_step_safe])
qed (simp add: wp_ret)

lemma each_safe:
  assumes "reactor_inv g"
  shows "wp (for_each evs handle g) (\<lambda>x _. reactor_inv (case x of Inl g \<Rightarrow> g | Inr g \<Rightarrow> g)) reactor_stop w"
  by (rule wp_for_each [where I = "\<lambda>g _. reactor_inv g", OF assms])
    (auto elim!: wp_conseq [OF handle_safe] split: sum.splits)

lemma round_safe:
  assumes "reactor_inv (fst s)" and "snd s \<le> MAX_EVENTS"
  shows "wp (reactor_loop close_fd handle s)
     (\<lambda>x _. case x of Inl s' \<Rightarrow> reactor_inv (fst s') \<and> snd s' \<le> MAX_EVENTS | Inr g \<Rightarrow> reactor_inv g)
     reactor_stop w"
  unfolding reactor_loop_def
  by (cases s, simp only:, intro wp_intros wp_conseq [OF sweep_safe] wp_conseq [OF each_safe])
    (use assms in \<open>auto simp: reactor_stop_def\<close>)

lemma tame_sweep: "tame (sweep close_fd now n s)"
proof (induction n arbitrary: s)
  case (Suc n)
  have "tame (sweep_step close_fd now s)"
    unfolding sweep_step_def eventdel_def Let_def
    by (cases s; simp only: prod.case) (intro tame_intros close_tame)
  then show ?case using Suc by (auto intro: tame_intros)
qed (auto intro: tame_intros)

lemma eats_round: "eats_round (reactor_loop close_fd handle s)"
  unfolding reactor_loop_def
  by (intro eats_sys_round tame_intros tame_sweep handle_tame)

lemma loop_safe:
  assumes "reactor_inv g"
  shows "wp (forever (reactor_loop close_fd handle) (g, 0)) (\<lambda>g _. reactor_inv g) reactor_stop w"
  by (rule wp_forever [where I = "\<lambda>s _. reactor_inv (fst s) \<and> snd s \<le> MAX_EVENTS", OF eats_round])
    (use assms in \<open>auto intro: round_safe\<close>)

end

lemma tame_entry [tame_intros]:
  "tame (eventset i fd cb g)" "tame (eventdel i g)" "tame (eventadd evs i g)" "tame (eventdel1 i g)"
  "tame (terminate_buf i len g)"
  unfolding eventset_def eventdel_def eventadd_def eventdel1_def terminate_buf_def Let_def
  by (intro tame_intros; simp)+

lemma tame_callbacks [tame_intros]:
  "tame (acceptconn lfd g)" "tame (recvdata fd i g)" "tame (senddata fd i g)"
  "tame (acceptconn1 lfd g)" "tame (recvdata1 fd i g)" "tame (senddata1 fd i g)"
  unfolding acceptconn_def recvdata_def senddata_def acceptconn1_def recvdata1_def senddata1_def
    add_client_def add_client1_def eventset1_def eventadd1_def Let_def
  by (intro tame_intros)+

lemma tame_run_callback [tame_intros]: "tame (run_callback i g)" "tame (run_callback1 i g)"
  unfolding run_callback_def run_callback1_def Let_def
  by (cases "call_back (ev_at i g)"; simp add: tame_intros)+

lemma flag_nonzero: "v AND x \<noteq> 0 \<Longrightarrow> v \<noteq> (0 :: 32 word)"
  by auto

lemma tame_dispatch: "tame (dispatch ev g)" "tame (dispatch1 ev g)"
proof -
  obtain k evs data where ev: "ev = (k, evs, data)" by (cases ev)
  show "tame (dispatch ev g)" "tame (dispatch1 ev g)"
    unfolding dispatch_def dispatch1_def Let_def ev prod.case
    by (cases data; simp only: edata.case; intro tame_intros; simp)+
qed

lemma dispatch_safe:
  assumes "reactor_inv g"
  shows "wp (dispatch ev g) (\<lambda>x _. reactor_inv (case x of Inl g \<Rightarrow> g | Inr g \<Rightarrow> g)) reactor_stop w"
    and "wp (dispatch1 ev g) (\<lambda>x _. reactor_inv (case x of Inl g \<Rightarrow> g | Inr g \<Rightarrow> g)) reactor_stop w"
proof -
  obtain k evs data where ev: "ev = (k, evs, data)" by (cases ev)
  note run = run_callback_safe(1) [THEN wp_conseq] run_callback_safe(2) [THEN wp_conseq]
  show "wp (dispatch ev g) (\<lambda>x _. reactor_inv (case x of Inl g \<Rightarrow> g | Inr g \<Rightarrow> g)) reactor_stop w"
    unfolding dispatch_def ev prod.case
    by (cases data; simp only: edata.case; intro wp_intros run)
      (use assms flag_nonzero in \<open>auto simp: reactor_stop_def\<close>)
  show "wp (dispatch1 ev g) (\<lambda>x _. reactor_inv (case x of Inl g \<Rightarrow> g | Inr g \<Rightarrow> g)) reactor_stop w"
    unfolding dispatch1_def Let_def ev prod.case
    by (cases data; simp only: edata.case; intro wp_intros run)
      (use assms flag_nonzero in \<open>auto simp: reactor_stop_def\<close>)
qed

interpretation plain: reactor_handler "\<lambda>fd. sys_int (KClose fd)" dispatch
proof (unfold_locales, goal_cases)
  case (1 fd w)
  show ?case by (intro wp_intros) (simp_all add: reactor_stop_def)
qed (intro tame_intros tame_dispatch dispatch_safe; assumption?)+

interpretation wrapped: reactor_handler Close dispatch1
proof (unfold_locales, goal_cases)
  case (1 fd w)
  show ?case by (intro wp_intros) (simp_all add: reactor_stop_def)
qed (intro tame_intros tame_dispatch dispatch_safe; assumption?)+

lemma reactor_inv_listen:
  "reactor_inv (ev_upd MAX_EVENTS (\<lambda>ev. ev\<lparr>events := EPOLLIN, status := 1\<rparr>)
     (ev_upd MAX_EVENTS (\<lambda>ev. ev\<lparr>efd := lfd, call_back := Acceptconn, events := 0, earg := e,
        status := 0, last_active := t\<rparr>) (reactor_init\<lparr>g_efd := ep, g_lfd := lfd\<rparr>)))"
proof -
  have "client_ok (ev_at i (reactor_init\<lparr>g_efd := ep, g_lfd := lfd\<rparr>))" if "i < MAX_EVENTS" for i
    using that by (simp add: ev_at_def reactor_init_def client_ok_def nth_Cons')
  moreover have "length (g_events (reactor_init\<lparr>g_efd := ep, g_lfd := lfd\<rparr>)) = Suc MAX_EVENTS"
    by (simp add: reactor_init_def)
  ultimately show ?thesis by (simp add: reactor_inv_def listener_ok_def)
qed

lemma wp_add_listener:
  "wp (bnd (eventset MAX_EVENTS lfd Acceptconn (reactor_init\<lparr>g_efd := ep, g_lfd := lfd\<rparr>))
         (eventadd EPOLLIN MAX_EVENTS)) (\<lambda>g _. reactor_inv g) reactor_stop w"
  unfolding eventset_def eventadd_def Let_def
  by (intro wp_steps reactor_inv_listen) (simp add: reactor_stop_def)+

lemma wp_listen_reactor:
  "wp (initlistensocket (reactor_init\<lparr>g_efd := ep\<rparr>)) (\<lambda>g _. reactor_inv g) reactor_stop w"
  "wp (initlistensocket1 (reactor_init\<lparr>g_efd := ep\<rparr>)) (\<lambda>g _. reactor_inv g) reactor_stop w"
proof -
  show "wp (initlistensocket (reactor_init\<lparr>g_efd := ep\<rparr>)) (\<lambda>g _. reactor_inv g) reactor_stop w"
    unfolding initlistensocket_def
    by (intro wp_add_listener wp_steps) (simp add: reactor_stop_def)+
  have "wp (bnd (bnd (eventset1 MAX_EVENTS lfd Acceptconn (reactor_init\<lparr>g_efd := ep, g_lfd := lfd\<rparr>))
       (eventadd1 EPOLLIN MAX_EVENTS)) (\<lambda>g. bnd (Bind lfd sa) (\<lambda>_. bnd (Listen lfd n) (\<lambda>_. ret g))))
     (\<lambda>g _. reactor_inv g) reactor_stop w1" for lfd sa n w1
    unfolding eventset1_def eventadd1_def
    by (rule wp_bnd [THEN iffD2], rule wp_conseq [OF wp_add_listener], intro wp_intros)
      (simp_all add: reactor_stop_def)
  note rest = this [unfolded wp_bnd]
  show "wp (initlistensocket1 (reactor_init\<lparr>g_efd := ep\<rparr>)) (\<lambda>g _. reactor_inv g) reactor_stop w"
    unfolding initlistensocket1_def wp_bnd
    by (intro wp_wrappers wp_any rest) (simp_all add: reactor_stop_def)
qed

text \<open>The states at the head of \<^verbatim>\<open>while(1)\<close>: behind the prologue, and behind each round of the loop.\<close>

inductive heads :: "(reactor \<Rightarrow> reactor prog) \<Rightarrow> (reactor \<times> nat \<Rightarrow> (reactor \<times> nat + reactor) prog) \<Rightarrow> reactor \<times> nat \<Rightarrow> world \<Rightarrow> bool"
  for prologue "round" where
  heads_first: "prologue (reactor_init\<lparr>g_efd := ep\<rparr>) w = (Val g, w') \<Longrightarrow> heads prologue round (g, 0) w'"
| heads_next: "heads prologue round s w \<Longrightarrow> round s w = (Val (Inl s'), w') \<Longrightarrow> heads prologue round s' w'"

definition table_sound :: "reactor \<Rightarrow> bool" where
  \<comment> \<open>entry 1024 is that of the listening socket, the others are free or those of connections\<close>
  "table_sound g \<longleftrightarrow> length (g_events g) = 1025
     \<and> efd (ev_at 1024 g) = g_lfd g \<and> call_back (ev_at 1024 g) = Acceptconn \<and> status (ev_at 1024 g) = 1 \<and> events (ev_at 1024 g) = EPOLLIN
     \<and> (\<forall>i < 1024. call_back (ev_at i g) \<noteq> Acceptconn \<and> (events (ev_at i g) \<noteq> 0 \<longrightarrow> call_back (ev_at i g) \<noteq> NoCallback)
          \<and> (call_back (ev_at i g) = Senddata \<longrightarrow> NUL \<in> set (ebuf (ev_at i g))))"

lemma reactor_inv_sound: "reactor_inv g \<Longrightarrow> table_sound g"
  by (auto simp: reactor_inv_def table_sound_def listener_ok_def client_ok_def MAX_EVENTS_def split: callback.splits)

lemma heads_inv:
  assumes "heads prologue round s w"
    and "\<And>ep w. wp (prologue (reactor_init\<lparr>g_efd := ep\<rparr>)) (\<lambda>g _. reactor_inv g) reactor_stop w"
    and "\<And>s w. reactor_inv (fst s) \<Longrightarrow> snd s \<le> MAX_EVENTS \<Longrightarrow> wp (round s)
     (\<lambda>x _. case x of Inl s' \<Rightarrow> reactor_inv (fst s') \<and> snd s' \<le> MAX_EVENTS | Inr g \<Rightarrow> reactor_inv g) reactor_stop w"
  shows "reactor_inv (fst s) \<and> snd s \<le> MAX_EVENTS"
  using assms(1)
proof (induction rule: heads.induct)
  case (heads_first ep w g w')
  with assms(2) [of ep w] show ?case by (simp add: wp_def)
next
  case (heads_next s w s' w')
  with assms(3) [of s w] show ?case by (simp add: wp_def)
qed

lemma heads_sound:
  "heads initlistensocket reactor_round s w \<or> heads initlistensocket1 reactor_round1 s w \<Longrightarrow> table_sound (fst s) \<and> snd s \<le> 1024"
proof (elim disjE)
  assume "heads initlistensocket reactor_round s w"
  from heads_inv [OF this wp_listen_reactor(1)] have "reactor_inv (fst s) \<and> snd s \<le> MAX_EVENTS"
    unfolding reactor_round_def using plain.round_safe by blast
  then show ?thesis using reactor_inv_sound by (simp add: MAX_EVENTS_def)
next
  assume "heads initlistensocket1 reactor_round1 s w"
  from heads_inv [OF this wp_listen_reactor(2)] have "reactor_inv (fst s) \<and> snd s \<le> MAX_EVENTS"
    unfolding reactor_round1_def using wrapped.round_safe by blast
  then show ?thesis using reactor_inv_sound by (simp add: MAX_EVENTS_def)
qed

text \<open>C25: the table of both epoll reactors stays sound: whenever the loop begins a round, entry 1024 is that of the
  listening socket with \<^verbatim>\<open>acceptconn\<close>, watched; no other entry has that callback, every entry that asks for
  events has a callback, and what \<^verbatim>\<open>senddata\<close> will print has a terminator. So the
  programs, as long as the kernel delivers addresses that were registered, never call a null pointer or leave an array, except that a
  \<^verbatim>\<open>read\<close> that fills all 4096 bytes makes \<^verbatim>\<open>recvdata\<close> write the terminator behind the buffer.\<close>

theorem reactor_main_stops:
  "(\<forall>s w'. heads initlistensocket reactor_round s w' \<or> heads initlistensocket1 reactor_round1 s w'
      \<longrightarrow> table_sound (fst s) \<and> snd s \<le> 1024)
   \<and> wp reactor_main (\<lambda>_ _. True)
     (\<lambda>s w'. s = SBlocked \<or> s = SFault ForeignPointer \<or> s = SFault OutOfBounds \<and> full_read w'
        \<or> s = SExit (-1)) w
   \<and> wp reactor_main1 (\<lambda>_ _. True)
     (\<lambda>s w'. s = SBlocked \<or> s = SFault ForeignPointer \<or> s = SFault OutOfBounds \<and> full_read w'
        \<or> s = SExit (-1)) w"
proof -
  have a: "wp reactor_main (\<lambda>_ _. True) reactor_stop w"
    unfolding reactor_main_def reactor_round_def
    by (intro wp_conseq [OF wp_listen_reactor(1)] wp_conseq [OF plain.loop_safe] wp_steps)
      (simp_all add: reactor_stop_def)
  have b: "wp reactor_main1 (\<lambda>_ _. True) reactor_stop w"
    unfolding reactor_main1_def reactor_round1_def
    by (intro wp_intros wp_conseq [OF wp_listen_reactor(2)] wp_conseq [OF wrapped.loop_safe])
      (simp_all add: reactor_stop_def)
  from a b heads_sound show ?thesis unfolding reactor_stop_def [abs_def] by blast
qed

theorem reactor_main_stops_witness:
  "\<exists>g w'. heads initlistensocket reactor_round (g, 0) w' \<and> efd (ev_at 1024 g) = 4 \<and> table_sound g"
proof -
  have "\<exists>g w'. initlistensocket (reactor_init\<lparr>g_efd := 3\<rparr>) (start [RInt 4, RInt 0, RInt 0, RInt 0, RInt 5, RInt 0]) = (Val g, w')
      \<and> efd (ev_at 1024 g) = 4"
    by (simp add: initlistensocket_def eventset_def eventadd_def Let_def exec) (simp add: reactor_init_def MAX_EVENTS_def)
  then obtain g w' where g: "initlistensocket (reactor_init\<lparr>g_efd := 3\<rparr>) (start [RInt 4, RInt 0, RInt 0, RInt 0, RInt 5, RInt 0]) = (Val g, w')"
    "efd (ev_at 1024 g) = 4" by blast
  from g(1) have head: "heads initlistensocket reactor_round (g, 0) w'" by (rule heads_first)
  with reactor_main_stops [THEN conjunct1] have "table_sound g" by fastforce
  with head g(2) show ?thesis by blast
qed

section \<open>The sweep over idle connections\<close>

definition idle :: "int \<Rightarrow> myevent_s \<Rightarrow> bool" where
  "idle now ev \<longleftrightarrow> status ev = 1 \<and> 60 \<le> now - last_active ev"

definition swept :: "nat \<Rightarrow> nat \<Rightarrow> nat \<Rightarrow> bool" where
  \<comment> \<open>entry \<open>j\<close> is among the \<open>n\<close> entries visited from \<open>c\<close>, round the connection entries\<close>
  "swept c n j \<longleftrightarrow> (\<exists>k < n. j = (c + k) mod MAX_EVENTS)"

definition sweep_result :: "int \<Rightarrow> (nat \<Rightarrow> bool) \<Rightarrow> reactor \<Rightarrow> world \<Rightarrow> reactor \<Rightarrow> world \<Rightarrow> bool" where
  \<comment> \<open>the idle entries visited are closed and off the tree, every other entry is as it was\<close>
  "sweep_result now visited g w g' w' \<longleftrightarrow> length (g_events g') = length (g_events g)
     \<and> set (trace w) \<subseteq> set (trace w')
     \<and> (\<forall>j. if visited j \<and> idle now (ev_at j g)
            then ev_at j g' = (ev_at j g)\<lparr>status := 0\<rparr>
              \<and> (\<exists>r. Ev (KClose (efd (ev_at j g))) r \<in> set (trace w'))
            else ev_at j g' = ev_at j g)"

lemma swept_0: "\<not> swept c 0 j"
  by (simp add: swept_def)

lemma swept_Suc: "swept c (Suc n) j \<longleftrightarrow> j = c mod MAX_EVENTS \<or> swept (Suc (c mod MAX_EVENTS)) n j"
proof -
  have "(c + Suc k) mod MAX_EVENTS = (Suc (c mod MAX_EVENTS) + k) mod MAX_EVENTS" for k
    by (metis add_Suc_right add_Suc_shift mod_add_left_eq)
  moreover have "(\<exists>k < Suc n. P k) \<longleftrightarrow> P 0 \<or> (\<exists>k < n. P (Suc k))" for P
    using less_Suc_eq_0_disj by auto
  ultimately show ?thesis by (simp add: swept_def)
qed

lemma wp_sweep_step:
  assumes "length (g_events g) = Suc MAX_EVENTS" and "c \<le> MAX_EVENTS"
  shows "wp (sweep_step (\<lambda>fd. sys_int (KClose fd)) now (g, c))
     (\<lambda>(g', c') w'. c' = Suc (c mod MAX_EVENTS)
        \<and> sweep_result now (\<lambda>j. j = c mod MAX_EVENTS) g w g' w') (\<lambda>s _. s = SBlocked) w"
proof -
  have c: "(if c = MAX_EVENTS then 0 else c) = c mod MAX_EVENTS"
    using assms(2) by (simp add: mod_if)
  have "c mod MAX_EVENTS < length (g_events g)"
    using assms(1) by (simp add: MAX_EVENTS_def less_Suc_eq)
  then show ?thesis
    unfolding sweep_step_def eventdel_def prod.case Let_def c
    by (intro wp_intros) (auto simp: sweep_result_def idle_def)
qed

lemma sweep_result_trans:
  assumes "sweep_result now v g w g1 w1" and "sweep_result now v' g1 w1 g2 w2"
  shows "sweep_result now (\<lambda>j. v j \<or> v' j) g w g2 w2"
proof -
  have "if (v j \<or> v' j) \<and> idle now (ev_at j g)
        then ev_at j g2 = (ev_at j g)\<lparr>status := 0\<rparr>
          \<and> (\<exists>r. Ev (KClose (efd (ev_at j g))) r \<in> set (trace w2))
        else ev_at j g2 = ev_at j g" for j
    using assms by (cases "v j \<and> idle now (ev_at j g)") (auto simp: sweep_result_def idle_def dest!: spec [of _ j] split: if_splits)
  then show ?thesis using assms by (auto simp: sweep_result_def)
qed

lemma wp_sweep:
  "length (g_events g) = Suc MAX_EVENTS \<Longrightarrow> c \<le> MAX_EVENTS \<Longrightarrow>
   wp (sweep (\<lambda>fd. sys_int (KClose fd)) now n (g, c))
     (\<lambda>(g', c') w'. c' \<le> MAX_EVENTS \<and> sweep_result now (swept c n) g w g' w')
     (\<lambda>s _. s = SBlocked) w"
proof (induction n arbitrary: g c w)
  case 0
  then show ?case by (auto simp: wp_ret sweep_result_def swept_0)
next
  case (Suc n)
  have next_c: "Suc (c mod MAX_EVENTS) \<le> MAX_EVENTS" by (simp add: MAX_EVENTS_def Suc_le_eq)
  have tl: "wp (sweep (\<lambda>fd. sys_int (KClose fd)) now n (g1, Suc (c mod MAX_EVENTS)))
     (\<lambda>(g', c') w'. c' \<le> MAX_EVENTS \<and> sweep_result now (swept c (Suc n)) g w g' w')
     (\<lambda>s _. s = SBlocked) w1"
    if r: "sweep_result now (\<lambda>j. j = c mod MAX_EVENTS) g w g1 w1" for g1 w1
  proof -
    have "length (g_events g1) = Suc MAX_EVENTS" using r Suc.prems(1) by (simp add: sweep_result_def)
    from Suc.IH [OF this next_c] show ?thesis
      by (rule wp_conseq) (auto simp: swept_Suc [abs_def] dest: sweep_result_trans [OF r])
  qed
  show ?case
    by (simp, rule wp_bnd [THEN iffD2], rule wp_conseq [OF wp_sweep_step [OF Suc.prems]])
      (auto intro: tl)
qed

text \<open>C13: the sweep at the head of each round looks at exactly the next \<open>n\<close> connection entries after
  \<open>checkpos\<close>, going round from 1023 to 0, and never at the listening socket; those that are on the
  tree and have been silent for a minute are closed and taken off it, every other entry is left
  as it was, and \<open>checkpos\<close> stays within the array.\<close>

theorem sweep_closes_idle:
  assumes "length (g_events g) = Suc MAX_EVENTS" and "c \<le> MAX_EVENTS"
  shows "wp (sweep (\<lambda>fd. sys_int (KClose fd)) now n (g, c))
     (\<lambda>(g', c') w'. c' \<le> MAX_EVENTS \<and>
        (\<forall>j. if swept c n j \<and> idle now (ev_at j g)
              then ev_at j g' = (ev_at j g)\<lparr>status := 0\<rparr>
                \<and> (\<exists>r. Ev (KClose (efd (ev_at j g))) r \<in> set (trace w'))
              else ev_at j g' = ev_at j g)
        \<and> \<not> swept c n MAX_EVENTS) (\<lambda>s _. s = SBlocked) w"
proof -
  have "(c + k) mod MAX_EVENTS < MAX_EVENTS" for k by (simp add: MAX_EVENTS_def)
  then have "\<not> swept c n MAX_EVENTS" unfolding swept_def by (metis less_irrefl)
  then show ?thesis
    by (intro wp_conseq [OF wp_sweep [OF assms]]) (auto simp: sweep_result_def)
qed

theorem sweep_closes_idle_witness:
  "wp (sweep (\<lambda>fd. sys_int (KClose fd)) 100 100 (ev_upd 3 (\<lambda>ev. ev\<lparr>status := 1, efd := 7\<rparr>) reactor_init, 1000))
     (\<lambda>(g', c') w'. status (ev_at 3 g') = 0 \<and> (\<exists>r. Ev (KClose 7) r \<in> set (trace w')))
     (\<lambda>s _. s = SBlocked) (start [RInt 0, RInt 0])"
proof -
  let ?g = "ev_upd 3 (\<lambda>ev. ev\<lparr>status := 1, efd := 7\<rparr>) reactor_init"
  have len: "length (g_events ?g) = Suc MAX_EVENTS" "1000 \<le> MAX_EVENTS"
    by (simp_all add: reactor_init_def MAX_EVENTS_def)
  have ev: "status (ev_at 3 ?g) = 1 \<and> efd (ev_at 3 ?g) = 7 \<and> last_active (ev_at 3 ?g) = 0"
    by (simp add: ev_at_def ev_upd_def reactor_init_def MAX_EVENTS_def)
  have "swept 1000 100 3" unfolding swept_def MAX_EVENTS_def by (intro exI [of _ 27]) simp
  with ev show ?thesis
    by (intro wp_conseq [OF sweep_closes_idle [OF len, of 100 100]])
      (auto simp: idle_def dest!: spec [of _ 3])
qed

section \<open>One exchange with a client\<close>

text \<open>Every write goes to the descriptor read last and carries what was read, in upper case.\<close>

definition shout_chk :: "echo_state \<Rightarrow> event \<Rightarrow> bool" where
  "shout_chk q e = (case e of
      Ev c r \<Rightarrow> (case c of
          KWrite f bs \<Rightarrow> (case fst q of (g, d) \<Rightarrow> f = g \<and> Some bs = map_option (map toupper_c) d)
        | _ \<Rightarrow> True)
    | _ \<Rightarrow> True)"

abbreviation shout_ok :: "world \<Rightarrow> bool" where
  "shout_ok w \<equiv> safe_trace shout_chk echo_upd echo_init (trace w)"

lemma shout_quiet [simp]:
  "shout_chk q (Print fmt xs)" "shout_chk q (Perror m)" "shout_chk q (Ev (KRead fd n) r)"
  "shout_chk q (Ev (KEpollCtl ep op fd ev) r)" "shout_chk q (Ev KTime r)" "shout_chk q (Ev (KClose fd) r)"
  "echo_upd q (Ev KTime r) = q"
  "shout_chk q (Ev (KWrite f bs) r) \<longleftrightarrow>
     (case fst q of (g, d) \<Rightarrow> f = g \<and> Some bs = map_option (map toupper_c) d)"
  by (simp_all add: shout_chk_def echo_upd_def)

definition loaded :: "int \<Rightarrow> string \<Rightarrow> myevent_s \<Rightarrow> bool" where
  "loaded fd d ev \<longleftrightarrow> call_back ev = Senddata \<and> efd ev = fd \<and> elen ev = int (length d)
     \<and> take (length d) (ebuf ev) = d"

lemma extends_again_read:
  assumes "extends (again (KRead fd n)) (start s) w" shows "shout_ok w"
proof -
  have "list_all (again (KRead fd n)) tr \<Longrightarrow> safe_trace shout_chk echo_upd q tr" for q tr
    by (induction tr arbitrary: q) (auto simp: again_def)
  with assms show ?thesis by (auto simp: extends_def)
qed

lemma wp_recvdata1_loads:
  assumes "i < length (g_events g)" and "length (ebuf (ev_at i g)) = BUFLEN"
  shows "wp (recvdata1 fd i g)
     (\<lambda>g' w'. shout_ok w' \<and> i < length (g_events g') \<and> (call_back (ev_at i g') \<noteq> Senddata
        \<or> call_back (ev_at i g) = Senddata
        \<or> (\<exists>d. loaded fd d (ev_at i g') \<and> fst (echo_now w') = (fd, Some d)))) (\<lambda>_. shout_ok) (start s)"
  unfolding recvdata1_def eventdel1_def terminate_buf_def eventset1_def eventadd1_def
    eventset_def eventadd_def Let_def
  by (intro wp_intros)
    (use assms in \<open>auto simp: loaded_def fill_buf_def dest!: extends_again_read\<close>)

lemma extends_again_write:
  assumes "extends (again (KWrite fd (map toupper_c d))) w w'" and "shout_ok w"
    and "fst (echo_now w) = (fd, Some d)"
  shows "shout_ok w' \<and> fst (echo_now w') = (fd, Some d)"
proof -
  have "list_all (again (KWrite fd (map toupper_c d))) tr \<Longrightarrow>
      safe_trace shout_chk echo_upd (echo_now w) tr \<and> foldl echo_upd (echo_now w) tr = echo_now w"
    for tr using assms(3) by (induction tr) (auto simp: again_def)
  with assms show ?thesis by (auto simp: extends_def)
qed

lemma wp_senddata1_shouts:
  assumes "i < length (g_events g)" and "loaded fd d (ev_at i g)"
    and "shout_ok w" and "fst (echo_now w) = (fd, Some d)"
  shows "wp (senddata1 fd i g) (\<lambda>_. shout_ok) (\<lambda>_. shout_ok) w"
proof -
  let ?g = "ev_upd i (\<lambda>ev. ev\<lparr>ebuf := upper_prefix (nat (elen (ev_at i g))) (ebuf ev)\<rparr>) g"
  have take: "take (nat (elen (ev_at i g))) (ebuf (ev_at i ?g)) = map toupper_c d"
    using assms(1,2) by (auto simp: loaded_def upper_prefix_eq take_map min_def)
  show ?thesis
    unfolding senddata1_def Let_def take eventdel1_def eventset1_def eventadd1_def eventset_def eventadd_def
    by (intro wp_intros)
      (use assms in \<open>auto dest!: extends_again_write [OF _ assms(3,4)]\<close>)
qed

text \<open>One exchange of \<^verbatim>\<open>epoll-advance1.c\<close>: what \<^verbatim>\<open>recvdata\<close> reads from a client, \<^verbatim>\<open>senddata\<close> writes to it
  in upper case, all of it and nothing else, repeating the whole write after an interruption.\<close>

theorem reactor1_shouts:
  assumes "i < length (g_events g)" and "length (ebuf (ev_at i g)) = BUFLEN"
    and "call_back (ev_at i g) = Recvdata"
  shows "wp (bnd (recvdata1 fd i g) (\<lambda>g.
        if call_back (ev_at i g) = Senddata then senddata1 fd i g else ret g))
     (\<lambda>_. shout_ok) (\<lambda>_. shout_ok) (start s)"
  by (rule wp_bnd [THEN iffD2], rule wp_conseq [OF wp_recvdata1_loads [OF assms(1,2)]])
    (use assms(3) in \<open>auto simp: wp_ret intro: wp_senddata1_shouts\<close>)

theorem reactor1_shouts_witness:
  "wp (bnd (recvdata1 7 3 (ev_upd 3 (\<lambda>ev. ev\<lparr>call_back := Recvdata, efd := 7\<rparr>) reactor_init)) (\<lambda>g.
        if call_back (ev_at 3 g) = Senddata then senddata1 7 3 g else ret g))
     (\<lambda>_. shout_ok) (\<lambda>_. shout_ok) (start [RData ''hi'', RInt 0, RInt 0, RFail EINTR, RInt 2])"
proof -
  let ?g = "ev_upd 3 (\<lambda>ev. ev\<lparr>call_back := Recvdata, efd := 7\<rparr>) reactor_init"
  have "3 < length (g_events ?g)" "length (ebuf (ev_at 3 ?g)) = BUFLEN" "call_back (ev_at 3 ?g) = Recvdata"
    by (simp_all add: ev_at_def ev_upd_def reactor_init_def MAX_EVENTS_def BUFLEN_def)
  then show ?thesis by (rule reactor1_shouts)
qed

end
