(* ===== verification/ForkServer.thy ===== *)
theory ForkServer
  imports Sockets
begin

text \<open>
  \<^verbatim>\<open>linux-network/mutl-process.c\<close>: an upper-casing server that forks a process for each connection.
  A run of the program is the run of one process: after \<^verbatim>\<open>fork\<close> returned 0 it is the child's.
\<close>

definition fork_child_body :: "int \<Rightarrow> string \<Rightarrow> string \<Rightarrow> (string + unit) prog" where
  \<comment> \<open>\<^verbatim>\<open>buf\<close> is cleared before the loop only\<close>
  "fork_child_body afd iplen buf =
     bnd (sys_read afd 1024) (\<lambda>r.
       if rlen r = 0 then ret (Inr ())
       else
         let buf = rbuf buf r
         in bnd (c_str buf) (\<lambda>str.
            thn (printf (''client ip = [%s],readres = [%d], say = [%s]'' @ [LF])
                   [AS iplen, AI (rlen r), AS str])
              (let buf = upper_prefix (nat (rlen r)) buf
               in if rlen r < 0 then fault_p OutOfBounds  \<comment> \<open>\<^verbatim>\<open>write(afd,buf,(size_t)-1)\<close>\<close>
                  else bnd (sys_write afd (take (nat (rlen r)) buf)) (\<lambda>_. ret (Inl buf)))))"

definition fork_child :: "int \<Rightarrow> string \<Rightarrow> 'a prog" where
  "fork_child afd iplen =
     thn (forever (fork_child_body afd iplen) (zbuf 1024))
       (bnd (sys_int (KClose afd)) (\<lambda>_. exit_p 0))"

definition fork_round :: "int \<Rightarrow> unit \<Rightarrow> (unit + int) prog" where
  "fork_round ftd _ =
     bnd (sys_accept ftd) (\<lambda>(afd, sa).
       if afd < 0 then thn (perror (''accept error'' @ [LF])) (ret (Inr (-1)))
       else
         thn (printf (''clent ip = [%s],port = [%d] is connet'' @ [LF]) (client_args sa))
        (bnd (sys_int KFork) (\<lambda>pid.
           if pid < 0 then thn (perror (''fork error'' @ [LF])) (ret (Inr (-1)))
           else if 0 < pid then bnd (sys_int (KClose afd)) (\<lambda>_. ret (Inl ()))
           else fork_child afd (case sa of Some (Inet a p) \<Rightarrow> inet_ntop a | _ \<Rightarrow> inet_ntop 0))))"

definition process_main :: "int prog" where
  "process_main =
     bnd (sys_int (KSocket AF_INET SOCK_STREAM)) (\<lambda>ftd.
       if ftd < 0 then thn (perror (''socket errror'' @ [LF])) (ret (-1))
       else
     bnd (sys_int (KBind ftd (Inet INADDR_ANY (htons 8888)))) (\<lambda>res.
       if res < 0 then thn (perror (''bind error'' @ [LF])) (ret (-1))
       else
     bnd (sys_int (KListen ftd 256)) (\<lambda>_.
     thn (printf (''listen......'' @ [LF]) []) (forever (fork_round ftd) ()))))"

section \<open>Roles\<close>

text \<open>
  The automaton of one process. \<open>Idle\<close>: the parent, holding no connection; \<open>Holding n\<close>: the parent
  between \<^verbatim>\<open>accept\<close> and \<^verbatim>\<open>close\<close> of connection \<open>n\<close>; \<open>Child n d\<close>: a child serving \<open>n\<close>, whose last read
  delivered \<open>d\<close>.
\<close>

datatype role = Idle | Holding int | Child int string

definition role_upd :: "role \<Rightarrow> event \<Rightarrow> role" where
  "role_upd q e = (case e of
      Ev c r \<Rightarrow> (case c of
          KAccept f \<Rightarrow> (case r of RConn n a \<Rightarrow> Holding n | _ \<Rightarrow> q)
        | KFork \<Rightarrow> (case q of
              Holding n \<Rightarrow> (case r of RInt k \<Rightarrow> if k = 0 then Child n [] else q | _ \<Rightarrow> q)
            | _ \<Rightarrow> q)
        | KClose f \<Rightarrow> (case q of Holding n \<Rightarrow> Idle | _ \<Rightarrow> q)
        | KRead f n \<Rightarrow> (case q of Child m d \<Rightarrow> (case r of RData d' \<Rightarrow> Child m d' | _ \<Rightarrow> q) | _ \<Rightarrow> q)
        | _ \<Rightarrow> q)
    | _ \<Rightarrow> q)"

definition role_chk :: "role \<Rightarrow> event \<Rightarrow> bool" where
  "role_chk q e = (case e of
      Ev c r \<Rightarrow> (case c of
          KAccept f \<Rightarrow> q = Idle
        | KFork \<Rightarrow> (case q of Holding n \<Rightarrow> True | _ \<Rightarrow> False)
        | KRead f n \<Rightarrow> (case q of Child m d \<Rightarrow> f = m | _ \<Rightarrow> False)
        | KWrite f bs \<Rightarrow> (case q of Child m d \<Rightarrow> f = m \<and> bs = map toupper_c d | _ \<Rightarrow> False)
        | KClose f \<Rightarrow> (case q of Holding n \<Rightarrow> f = n | Child m d \<Rightarrow> f = m \<and> d = [] | Idle \<Rightarrow> False)
        | _ \<Rightarrow> True)
    | _ \<Rightarrow> True)"

abbreviation role_ok :: "world \<Rightarrow> bool" where
  "role_ok w \<equiv> safe_trace role_chk role_upd Idle (trace w)"

abbreviation role_now :: "world \<Rightarrow> role" where
  "role_now w \<equiv> foldl role_upd Idle (trace w)"

lemma role_simps [simp]:
  "role_chk q (Print fmt xs)" "role_chk q (Perror msg)" "role_upd q (Print fmt xs) = q"
  "role_upd q (Perror msg) = q"
  "role_chk q (Ev (KAccept f) r) \<longleftrightarrow> q = Idle"
  "role_upd q (Ev (KAccept f) (RConn n a)) = Holding n" "role_upd q (Ev (KAccept f) (RFail e)) = q"
  "role_chk (Holding n) (Ev KFork r)"
  "role_upd (Holding n) (Ev KFork (RInt k)) = (if k = 0 then Child n [] else Holding n)"
  "role_upd (Holding n) (Ev KFork (RFail e)) = Holding n"
  "role_chk (Holding n) (Ev (KClose f) r) \<longleftrightarrow> f = n" "role_upd (Holding n) (Ev (KClose f) r) = Idle"
  "role_chk (Child m d) (Ev (KClose f) r) \<longleftrightarrow> f = m \<and> d = []"
  "role_chk (Child m d) (Ev (KRead f sz) r) \<longleftrightarrow> f = m"
  "role_upd (Child m d) (Ev (KRead f sz) (RData d')) = Child m d'"
  "role_upd (Child m d) (Ev (KRead f sz) (RFail e)) = Child m d"
  "role_chk (Child m d) (Ev (KWrite f bs) r) \<longleftrightarrow> f = m \<and> bs = map toupper_c d"
  "role_upd (Child m d) (Ev (KWrite f bs) r) = Child m d"
  by (simp_all add: role_chk_def role_upd_def)

lemma eats_round_child: "eats_round (fork_child_body afd ip buf)"
  unfolding fork_child_body_def Let_def by (intro eats_sys_round tame_intros) simp

lemma tame_fork_child [tame_intros]: "tame (fork_child afd ip)"
  unfolding fork_child_def by (intro tame_intros eats_round_child) simp

lemma eats_round_fork: "eats_round (fork_round ftd s)"
  unfolding fork_round_def by (intro eats_sys_round tame_intros)

lemma wp_fork_child:
  assumes "role_ok w" and "role_now w = Child afd []"
  shows "wp (fork_child afd ip) (\<lambda>_ _. False)
     (\<lambda>s w'. role_ok w' \<and> (s = SBlocked \<or> s = SExit 0 \<or> s = SFault OutOfBounds \<or> s = SFault Unterminated)) w"
proof -
  let ?E = "\<lambda>s w'. role_ok w' \<and>
     (s = SBlocked \<or> s = SExit 0 \<or> s = SFault OutOfBounds \<or> s = SFault Unterminated)"
  have loop: "wp (forever (fork_child_body afd ip) (zbuf 1024))
      (\<lambda>_ w'. role_ok w' \<and> role_now w' = Child afd []) ?E w"
  proof (rule wp_forever [where I = "\<lambda>buf w'. role_ok w' \<and> length buf = 1024 \<and> (\<exists>d. role_now w' = Child afd d)",
        OF eats_round_child], goal_cases)
    case (2 buf w1)
    then obtain d where "role_ok w1" "length buf = 1024" "role_now w1 = Child afd d" by blast
    then show ?case
      unfolding fork_child_body_def Let_def
      by (intro wp_intros) (auto simp: upper_prefix_eq fill_buf_def)
  qed (use assms in auto)
  show ?thesis
    unfolding fork_child_def
    by (rule wp_thn [THEN iffD2], rule wp_conseq [OF loop], intro wp_intros) auto
qed

lemma wp_fork_round:
  assumes "role_ok w" and "role_now w = Idle"
  shows "wp (fork_round ftd s) (\<lambda>x w'. role_ok w' \<and> (case x of Inl _ \<Rightarrow> role_now w' = Idle | Inr _ \<Rightarrow> True))
     (\<lambda>_. role_ok) w"
  using assms unfolding fork_round_def
  by (intro wp_intros wp_conseq [OF wp_fork_child]) auto

text \<open>The division of labour in \<^verbatim>\<open>mutl-process.c\<close>. The parent never reads or writes a connection, and
  accepts the next one only when it has closed the last; a child never accepts or forks, reads
  and writes only its own connection, answers every message with exactly its upper-case form, and
  closes the connection after a \<^verbatim>\<open>read\<close> that returned 0.\<close>

theorem process_main_roles:
  "safe_trace role_chk role_upd Idle (trace (snd (process_main (start s))))"
proof -
  have loop: "wp (forever (fork_round ftd) ()) (\<lambda>_. role_ok) (\<lambda>_. role_ok) w"
    if "role_ok w \<and> role_now w = Idle" for ftd w
    by (rule wp_forever [where I = "\<lambda>_ w. role_ok w \<and> role_now w = Idle", OF eats_round_fork that])
      (auto elim!: wp_conseq [OF wp_fork_round] split: sum.splits)
  have "wp process_main (\<lambda>_. role_ok) (\<lambda>_. role_ok) (start s)"
    unfolding process_main_def
    by (intro wp_intros loop) (auto simp: role_chk_def role_upd_def)
  then show ?thesis by (auto simp: wp_def split: prod.splits outcome.splits)
qed

end
