(* ===== verification/ThreadServer.thy ===== *)
theory ThreadServer
  imports Sockets Slots
begin

text \<open>
  \<^verbatim>\<open>linux-network/mutl-thread.c\<close>: an upper-casing server with one thread per connection. The I/O of
  the prologue and of a handler are programs; the table \<^verbatim>\<open>ifno\<close>, shared by \<^verbatim>\<open>main\<close> and all the
  handlers without a lock, is the state of a transition system whose actions are the accesses to
  it in the order the code makes them.
\<close>

section \<open>The table\<close>

record tinfo =
  t_cfd :: int
  t_flag :: int

definition find_tinfo :: "tinfo list \<Rightarrow> nat option" where
  "find_tinfo ifno = scan_slots (\<lambda>s. t_flag s = -1) 0 ifno"

definition getFreeIfno :: "tinfo list \<Rightarrow> nat option" where
  \<comment> \<open>\<open>None\<close>: \<^verbatim>\<open>res\<close> is returned uninitialised\<close>
  "getFreeIfno ifno = find_tinfo ifno"

definition getIfnoByCfd :: "tinfo list \<Rightarrow> int \<Rightarrow> nat option" where
  "getIfnoByCfd ifno cfd = scan_slots (\<lambda>s. t_cfd s = cfd) 0 ifno"

interpretation tinfo: slot_table "\<lambda>s. t_flag s = -1" find_tinfo
  unfolding find_tinfo_def by (rule scan_slot_table)

section \<open>The I/O of \<^verbatim>\<open>main\<close> and of a handler\<close>

definition thread_listen :: "(int + int) prog" where
  \<comment> \<open>the prologue of \<^verbatim>\<open>main\<close>: the listening descriptor, or the value \<^verbatim>\<open>main\<close> returns\<close>
  "thread_listen =
     bnd (sys_int (KSocket AF_INET SOCK_STREAM)) (\<lambda>ftd.
       if ftd < 0 then thn (perror (''socket error'' @ [LF])) (ret (Inr (-1)))
       else
     bnd (sys_int (KBind ftd (Inet INADDR_ANY (htons 8888)))) (\<lambda>res.
       if res < 0 then thn (perror (''bind error'' @ [LF])) (ret (Inr (-1)))
       else
     bnd (sys_int (KListen ftd 256)) (\<lambda>res.
       if res < 0 then thn (perror (''listen error'' @ [LF])) (ret (Inr (-1)))
       else ret (Inl ftd))))"

definition thread_accept :: "int \<Rightarrow> int prog" where
  \<comment> \<open>the result is not checked\<close>
  "thread_accept ftd = bnd (sys_accept ftd) (\<lambda>(cfd, sa). thn (print_client sa) (ret cfd))"

definition sock_body :: "int \<Rightarrow> string \<Rightarrow> unit \<Rightarrow> (unit + unit) prog" where
  "sock_body cfd iplen _ =
     bnd (sys_read cfd 1024) (\<lambda>r.
       if rlen r = 0 then
         thn (printf (''ip = [%s],connect is close'' @ [LF]) [AS iplen]) (ret (Inr ()))
       else
         bnd (c_str (rbuf (zbuf 1024) r)) (\<lambda>str.
         thn (printf (''ip = [%s],send message = [%s]'' @ [LF]) [AS iplen, AS str])
           (bnd (sys_write cfd (upper_prefix (nat (rlen r)) (rbuf (zbuf 1024) r))) (\<lambda>_.
            ret (Inl ())))))"

definition sock_loop :: "int \<Rightarrow> string \<Rightarrow> unit prog" where
  "sock_loop cfd iplen = forever (sock_body cfd iplen) ()"

section \<open>The shared table\<close>

text \<open>
  Where a handler is: created with the address of entry \<open>i\<close>; serving the descriptor it copied from
  there; with the index it looked its descriptor up at; past \<^verbatim>\<open>close\<close>; past clearing the flag.
\<close>

datatype hpc = HStart nat | HServe int | HFound int nat | HClosed nat | HDone

datatype mpc = MAccept | MPlace int | MCreate nat | MExit
  | MUndefined  \<comment> \<open>an index nobody assigned was used: from here on C allows anything\<close>

record tserver =
  table :: "tinfo list"
  opened :: "int list"
  threads :: "hpc list"
  mainpc :: mpc

datatype taction =
    Accepted int    \<comment> \<open>\<^verbatim>\<open>accept\<close> returns a descriptor that is not open\<close>
  | AcceptFails     \<comment> \<open>the code goes on with -1\<close>
  | Place           \<comment> \<open>\<^verbatim>\<open>getFreeIfno\<close> and the three assignments to the entry\<close>
  | Create          \<comment> \<open>\<^verbatim>\<open>pthread_create\<close>\<close>
  | CreateFails     \<comment> \<open>\<^verbatim>\<open>main\<close> returns -1, and with it the process\<close>
  | Copy nat        \<comment> \<open>handler \<open>k\<close>: \<^verbatim>\<open>ifns = *(struct IFNO*)arg\<close>\<close>
  | Lookup nat      \<comment> \<open>after the read loop, which a \<^verbatim>\<open>read\<close> of -1 never leaves: \<^verbatim>\<open>getIfnoByCfd\<close>\<close>
  | CloseFd nat
  | ClearFlag nat

definition get_thread :: "nat \<Rightarrow> tserver \<Rightarrow> hpc option" where
  "get_thread k s = (if k < length (threads s) then Some (threads s ! k) else None)"

definition set_thread :: "nat \<Rightarrow> hpc \<Rightarrow> tserver \<Rightarrow> tserver" where
  "set_thread k h s = s\<lparr>threads := (threads s)[k := h]\<rparr>"

text \<open>An action of the system; \<open>None\<close> when it is not enabled. A search that finds nothing returns an
  uninitialised index, which is used at once: \<open>MUndefined\<close>, and nothing is said of what follows.\<close>

definition texec :: "taction \<Rightarrow> tserver \<Rightarrow> tserver option" where
  "texec a s = (if mainpc s = MExit \<or> mainpc s = MUndefined then None else case a of
      Accepted fd \<Rightarrow>
        if mainpc s = MAccept \<and> fd \<notin> set (opened s) \<and> 0 \<le> fd
        then Some (s\<lparr>opened := fd # opened s, mainpc := MPlace fd\<rparr>) else None
    | AcceptFails \<Rightarrow> if mainpc s = MAccept then Some (s\<lparr>mainpc := MPlace (-1)\<rparr>) else None
    | Place \<Rightarrow>
        (case mainpc s of
           MPlace fd \<Rightarrow>
             (case getFreeIfno (table s) of
                None \<Rightarrow> Some (s\<lparr>mainpc := MUndefined\<rparr>)
              | Some i \<Rightarrow> Some (s\<lparr>table := (table s)[i := \<lparr>t_cfd = fd, t_flag = 1\<rparr>], mainpc := MCreate i\<rparr>))
         | _ \<Rightarrow> None)
    | Create \<Rightarrow>
        (case mainpc s of
           MCreate i \<Rightarrow> Some (s\<lparr>threads := threads s @ [HStart i], mainpc := MAccept\<rparr>)
         | _ \<Rightarrow> None)
    | CreateFails \<Rightarrow> (case mainpc s of MCreate i \<Rightarrow> Some (s\<lparr>mainpc := MExit\<rparr>) | _ \<Rightarrow> None)
    | Copy k \<Rightarrow>
        (case get_thread k s of
           Some (HStart i) \<Rightarrow> Some (set_thread k (HServe (t_cfd (table s ! i))) s)
         | _ \<Rightarrow> None)
    | Lookup k \<Rightarrow>
        (case get_thread k s of
           Some (HServe fd) \<Rightarrow>
             if 0 \<le> fd then
               (case getIfnoByCfd (table s) fd of
                  None \<Rightarrow> Some (s\<lparr>mainpc := MUndefined\<rparr>)
                | Some j \<Rightarrow> Some (set_thread k (HFound fd j) s))
             else None
         | _ \<Rightarrow> None)
    | CloseFd k \<Rightarrow>
        (case get_thread k s of
           Some (HFound fd j) \<Rightarrow>
             Some (set_thread k (HClosed j) (s\<lparr>opened := removeAll fd (opened s)\<rparr>))
         | _ \<Rightarrow> None)
    | ClearFlag k \<Rightarrow>
        (case get_thread k s of
           Some (HClosed j) \<Rightarrow>
             Some (set_thread k HDone (s\<lparr>table := (table s)[j := (table s ! j)\<lparr>t_flag := -1\<rparr>]\<rparr>))
         | _ \<Rightarrow> None))"

definition tinit :: "tserver \<Rightarrow> bool" where
  "tinit s \<longleftrightarrow> s = \<lparr>table = replicate 100 \<lparr>t_cfd = 0, t_flag = -1\<rparr>, opened = [0, 1, 2, 3],
     threads = [], mainpc = MAccept\<rparr>"

inductive tstep :: "tserver \<Rightarrow> tserver \<Rightarrow> bool" where
  "texec a s = Some t \<Longrightarrow> tstep s t"

inductive_cases tstepE: "tstep s t"

primrec truns :: "taction list \<Rightarrow> tserver \<Rightarrow> tserver option" where
  "truns [] s = Some s"
| "truns (a # as) s = (case texec a s of None \<Rightarrow> None | Some t \<Rightarrow> truns as t)"

lemma truns_reach: "truns as s = Some t \<Longrightarrow> reach tinit tstep s \<Longrightarrow> reach tinit tstep t"
proof (induction as arbitrary: s)
  case (Cons a as)
  then obtain u where "texec a s = Some u" and "truns as u = Some t" by (auto split: option.splits)
  with Cons show ?case by (metis reach_step tstep.intros)
qed simp

section \<open>Capacity\<close>

definition live :: "tserver \<Rightarrow> nat" where
  "live s = length (filter (\<lambda>h. h \<noteq> HDone) (threads s))"

definition pending :: "tserver \<Rightarrow> nat" where
  "pending s = (case mainpc s of MCreate _ \<Rightarrow> 1 | _ \<Rightarrow> 0)"

definition tinv :: "tserver \<Rightarrow> bool" where
  "tinv s \<longleftrightarrow> length (table s) = 100 \<and> live s + pending s \<le> tinfo.used (table s)"

lemma live_set_thread:
  assumes "get_thread k s = Some h"
  shows "live (set_thread k h' s) + (if h = HDone then 0 else 1) = live s + (if h' = HDone then 0 else 1)"
proof -
  have k: "k < length (threads s)" "threads s ! k = h"
    using assms by (auto simp: get_thread_def split: if_splits)
  then have "threads s = take k (threads s) @ h # drop (Suc k) (threads s)"
    using id_take_nth_drop by metis
  then have "live s = length (filter (\<lambda>h. h \<noteq> HDone) (take k (threads s) @ h # drop (Suc k) (threads s)))"
    by (simp add: live_def)
  with k show ?thesis by (simp add: live_def set_thread_def upd_conv_take_nth_drop)
qed

lemma live_running:
  "get_thread k s = Some h \<Longrightarrow> h \<noteq> HDone \<Longrightarrow> h' \<noteq> HDone \<Longrightarrow> live (set_thread k h' s) = live s"
  using live_set_thread [of k s h h'] by simp

lemma set_thread_simps [simp]:
  "table (set_thread k h s) = table s" "mainpc (set_thread k h s) = mainpc s" "pending (set_thread k h s) = pending s"
  "pending (s\<lparr>opened := os\<rparr>) = pending s" "pending (s\<lparr>table := ts\<rparr>) = pending s"
  "live (s\<lparr>opened := os\<rparr>) = live s" "live (s\<lparr>table := ts\<rparr>) = live s" "live (s\<lparr>mainpc := m\<rparr>) = live s"
  "get_thread k (s\<lparr>opened := os\<rparr>) = get_thread k s" "get_thread k (s\<lparr>table := ts\<rparr>) = get_thread k s"
  by (simp_all add: set_thread_def pending_def live_def get_thread_def)

lemma release_le: "tinfo.used ts \<le> Suc (tinfo.used (ts[j := s\<lparr>t_flag := -1\<rparr>]))"
proof (cases "j < length ts")
  case True
  from tinfo.used_update [OF this, of "s\<lparr>t_flag := -1\<rparr>"] show ?thesis by (simp split: if_splits)
qed (simp add: list_update_beyond not_less)

lemma tinv_step:
  assumes "tinv s" and "texec a s = Some t"
  shows "tinv t"
proof (cases a)
  case (Accepted fd)
  with assms show ?thesis
    by (auto simp: texec_def tinv_def pending_def split: if_splits)
next
  case AcceptFails
  with assms show ?thesis
    by (auto simp: texec_def tinv_def pending_def split: if_splits)
next
  case CreateFails
  with assms show ?thesis
    by (auto simp: texec_def tinv_def pending_def split: mpc.splits)
next
  case Place
  then consider "t = s\<lparr>mainpc := MUndefined\<rparr>"
    | fd i where "mainpc s = MPlace fd" "find_tinfo (table s) = Some i"
        "t = s\<lparr>table := (table s)[i := \<lparr>t_cfd = fd, t_flag = 1\<rparr>], mainpc := MCreate i\<rparr>"
    using assms(2) by (auto simp: texec_def getFreeIfno_def split: mpc.splits option.splits if_splits)
  then show ?thesis
  proof cases
    case 1
    moreover have "live s \<le> tinfo.used (table s)" "length (table s) = 100" using assms(1) by (simp_all add: tinv_def)
    ultimately show ?thesis by (simp add: tinv_def pending_def)
  next
    case (2 fd i)
    from tinfo.occupy_used [OF 2(2), of "\<lparr>t_cfd = fd, t_flag = 1\<rparr>"] 2 assms(1)
    show ?thesis by (simp add: tinv_def pending_def live_def)
  qed
next
  case Create
  with assms show ?thesis
    by (auto simp: texec_def tinv_def pending_def live_def split: mpc.splits)
next
  case (Copy k)
  with assms show ?thesis
    by (auto simp: texec_def tinv_def live_running split: option.splits hpc.splits if_splits)
next
  case (Lookup k)
  with assms show ?thesis
    by (auto simp: texec_def tinv_def live_running pending_def split: option.splits hpc.splits if_splits mpc.splits)
next
  case (CloseFd k)
  with assms show ?thesis
    by (auto simp: texec_def tinv_def live_running split: option.splits hpc.splits if_splits)
next
  case (ClearFlag k)
  then obtain j where h: "get_thread k s = Some (HClosed j)"
    and t: "t = set_thread k HDone (s\<lparr>table := (table s)[j := (table s ! j)\<lparr>t_flag := -1\<rparr>]\<rparr>)"
    using assms(2) by (auto simp: texec_def split: option.splits hpc.splits if_splits)
  let ?s = "s\<lparr>table := (table s)[j := (table s ! j)\<lparr>t_flag := -1\<rparr>]\<rparr>"
  have "get_thread k ?s = Some (HClosed j)" using h by simp
  from live_set_thread [OF this, of HDone] release_le [of "table s" j "table s ! j"] assms(1) t
  show ?thesis by (simp add: tinv_def)
qed

interpretation capacity: invariant_system tinit tstep tinv
proof
  show "tinv s" if "tinit s" for s
    using that by (simp add: tinit_def tinv_def live_def pending_def)
  show "tinv t" if "tinv s" "tstep s t" for s t
    using that by (auto elim: tstepE intro: tinv_step)
qed

lemma used_full: "length ts = 100 \<Longrightarrow> find_tinfo ts = None \<longleftrightarrow> tinfo.used ts = 100"
  using length_filter_less [of _ ts "\<lambda>x. t_flag x \<noteq> -1"]
  by (force simp: find_tinfo_def scan_slots_None list_all_iff tinfo.used_def filter_id_conv)

text \<open>C14: at every moment of every interleaving of \<^verbatim>\<open>mutl-thread.c\<close>, until an index nobody assigned is used, at most 100
  handlers are at work, and each of them, with the connection \<^verbatim>\<open>main\<close> may be about to hand over, is
  paid for by an entry of the table that is marked used. A connection \<^verbatim>\<open>main\<close> has accepted goes into an
  entry that is not marked when there is one; when all 100 are marked, \<^verbatim>\<open>main\<close> uses an uninitialised index.\<close>

theorem thread_capacity:
  assumes "reach tinit tstep s"
  shows "live s \<le> 100 \<and> live s + pending s \<le> tinfo.used (table s) \<and> tinfo.used (table s) \<le> 100
    \<and> (\<forall>fd. mainpc s = MPlace fd \<longrightarrow>
         (if tinfo.used (table s) = 100 then texec Place s = Some (s\<lparr>mainpc := MUndefined\<rparr>)
          else \<exists>i < 100. t_flag (table s ! i) = -1
            \<and> texec Place s = Some (s\<lparr>table := (table s)[i := \<lparr>t_cfd = fd, t_flag = 1\<rparr>], mainpc := MCreate i\<rparr>)))"
proof -
  from capacity.reach_inv [OF assms] have inv: "length (table s) = 100" "live s + pending s \<le> tinfo.used (table s)"
    by (simp_all add: tinv_def)
  have "\<exists>i < 100. t_flag (table s ! i) = -1
      \<and> texec Place s = Some (s\<lparr>table := (table s)[i := \<lparr>t_cfd = fd, t_flag = 1\<rparr>], mainpc := MCreate i\<rparr>)"
    if "mainpc s = MPlace fd" "tinfo.used (table s) \<noteq> 100" for fd
  proof -
    from that(2) used_full [OF inv(1)] obtain i where "find_tinfo (table s) = Some i" by auto
    with tinfo.find_Some [OF this] inv(1) that(1) show ?thesis
      by (intro exI [of _ i]) (simp add: texec_def getFreeIfno_def)
  qed
  moreover have "texec Place s = Some (s\<lparr>mainpc := MUndefined\<rparr>)" if "mainpc s = MPlace fd" "tinfo.used (table s) = 100" for fd
    using that used_full [OF inv(1)] by (simp add: texec_def getFreeIfno_def)
  ultimately show ?thesis using inv tinfo.used_le [of "table s"] by auto
qed

definition race :: "taction list" where
  \<comment> \<open>handler 0 has closed descriptor 5 but not yet cleared its entry when 5 is handed out again\<close>
  "race = [Accepted 5, Place, Create, Copy 0, Lookup 0, CloseFd 0,
           Accepted 5, Place, Create, Copy 1, Lookup 1, ClearFlag 0,
           Accepted 6, Place, Create, CloseFd 1, ClearFlag 1,
           Accepted 5, Place, Create, Copy 2, Copy 3]"

definition tserver0 :: tserver where
  "tserver0 = \<lparr>table = replicate 100 \<lparr>t_cfd = 0, t_flag = -1\<rparr>, opened = [0, 1, 2, 3],
     threads = [], mainpc = MAccept\<rparr>"

lemma race_runs:
  "map_option (\<lambda>s. (threads s, opened s)) (truns race tserver0)
     = Some ([HDone, HDone, HServe 5, HServe 5], [5, 6, 0, 1, 2, 3])"
  by code_simp

lemma race_reaches:
  "\<exists>s. reach tinit tstep s \<and> threads s = [HDone, HDone, HServe 5, HServe 5] \<and> opened s = [5, 6, 0, 1, 2, 3]"
proof -
  from race_runs obtain s where s: "truns race tserver0 = Some s"
    and "threads s = [HDone, HDone, HServe 5, HServe 5] \<and> opened s = [5, 6, 0, 1, 2, 3]" by auto
  moreover have "reach tinit tstep tserver0" by (rule reach_init) (simp add: tinit_def tserver0_def)
  ultimately show ?thesis using truns_reach [OF s] by blast
qed

text \<open>And the table does fill up: with 100 clients at work, the next one makes \<^verbatim>\<open>main\<close> use an index nobody assigned.\<close>

definition crowd :: "nat \<Rightarrow> tserver" where
  \<comment> \<open>\<open>n\<close> clients have come and none has gone\<close>
  "crowd n = \<lparr>table = map (\<lambda>i. \<lparr>t_cfd = int i + 4, t_flag = 1\<rparr>) [0..<n] @ replicate (100 - n) \<lparr>t_cfd = 0, t_flag = -1\<rparr>,
     opened = rev (map (\<lambda>i. int i + 4) [0..<n]) @ [0, 1, 2, 3], threads = map HStart [0..<n], mainpc = MAccept\<rparr>"

lemma find_crowd: "n < 100 \<Longrightarrow> find_tinfo (table (crowd n)) = Some n"
proof -
  have scan: "scan_slots (\<lambda>s. t_flag s = -1) k (map (\<lambda>i. \<lparr>t_cfd = f i, t_flag = 1\<rparr>) is @ \<lparr>t_cfd = 0, t_flag = -1\<rparr> # ts) = Some (k + length is)"
    for k f "is" ts by (induction "is" arbitrary: k) auto
  assume "n < 100"
  then have "replicate (100 - n) \<lparr>t_cfd = 0, t_flag = -1\<rparr> = \<lparr>t_cfd = 0, t_flag = -1\<rparr> # replicate (99 - n) \<lparr>t_cfd = 0, t_flag = -1\<rparr>"
    by (simp flip: replicate_Suc add: Suc_diff_le)
  then show ?thesis using scan [of 0 "\<lambda>i. int i + 4" "[0..<n]"] by (simp add: find_tinfo_def crowd_def)
qed

lemma crowd_grows:
  assumes "n < 100"
  shows "truns [Accepted (int n + 4), Place, Create] (crowd n) = Some (crowd (Suc n))"
proof -
  have "replicate (100 - n) x = x # replicate (99 - n) x" for x :: tinfo
    using assms by (simp flip: replicate_Suc add: Suc_diff_le)
  then show ?thesis using find_crowd [OF assms] assms
    by (auto simp: texec_def getFreeIfno_def crowd_def list_update_append)
qed

lemma crowd_reach: "n \<le> 100 \<Longrightarrow> reach tinit tstep (crowd n)"
proof (induction n)
  case 0
  show ?case by (rule reach_init) (simp add: tinit_def crowd_def)
next
  case (Suc n)
  then have "reach tinit tstep (crowd n)" "n < 100" by simp_all
  then show ?case using truns_reach [OF crowd_grows] by blast
qed

lemma crowded:
  "\<exists>s. reach tinit tstep s \<and> live s = 100 \<and> mainpc s = MPlace 104"
proof -
  let ?s = "(crowd 100)\<lparr>opened := 104 # opened (crowd 100), mainpc := MPlace 104\<rparr>"
  have "texec (Accepted 104) (crowd 100) = Some ?s" by (auto simp: texec_def crowd_def)
  then have "reach tinit tstep ?s" using crowd_reach [of 100] by (auto intro: reach_step tstep.intros)
  moreover have "live ?s = 100" by (simp add: live_def crowd_def filter_map comp_def)
  ultimately show ?thesis by (intro exI [of _ ?s]) simp
qed

theorem thread_capacity_witness:
  "\<exists>s. reach tinit tstep s \<and> live s = 100 \<and> mainpc s = MPlace 104 \<and> texec Place s = Some (s\<lparr>mainpc := MUndefined\<rparr>)"
proof -
  from crowded obtain s where s: "reach tinit tstep s" "live s = 100" "mainpc s = MPlace 104" by blast
  from thread_capacity [OF s(1)] s(2) have "tinfo.used (table s) = 100" by simp
  with thread_capacity [OF s(1)] s show ?thesis by (intro exI [of _ s]) simp
qed

text \<open>The table is not safe without a lock: a handler closes its descriptor before it clears its
  entry, so that \<^verbatim>\<open>getIfnoByCfd\<close> of the next connection with that descriptor can find the stale
  entry. Some interleaving ends with two handlers serving the same connection, 5, and connection
  6, accepted and open, served by none.\<close>

theorem thread_double_service:
  "\<exists>s. reach tinit tstep s \<and> threads s = [HDone, HDone, HServe 5, HServe 5] \<and> 6 \<in> set (opened s)"
  using race_reaches by fastforce

end
