(* ===== verification/ThreadPool.thy ===== *)
theory ThreadPool
  imports Logic "HOL-Library.Multiset"
begin

text \<open>
  \<^verbatim>\<open>linux-UDPandThreadPool/threadpool.c\<close>. The task queue is a ring buffer, shown to be a bounded
  FIFO queue; the pool is a transition system of the adding thread and the workers, whose actions
  are the pieces of code between two operations on the mutex or a condition variable. All
  threads block on the condition \<^verbatim>\<open>empty_task\<close>; \<^verbatim>\<open>not_empty_task\<close> is signalled but nobody waits on it.
\<close>

section \<open>Queues\<close>

text \<open>
  The contract of a bounded FIFO queue: \<open>abs\<close> is its contents, first out first. Two consequences
  are drawn once: what comes out is what went in, in that order, and a queue with room stays
  within its bound.
\<close>

locale fifo =
  fixes put :: "'x \<Rightarrow> 'q \<Rightarrow> 'q" and take1 :: "'q \<Rightarrow> 'x \<times> 'q"
    and size :: "'q \<Rightarrow> nat" and bound :: "'q \<Rightarrow> nat" and ok :: "'q \<Rightarrow> bool" and abs :: "'q \<Rightarrow> 'x list"
  assumes put_ok: "ok q \<Longrightarrow> size q < bound q \<Longrightarrow> ok (put x q) \<and> abs (put x q) = abs q @ [x] \<and> bound (put x q) = bound q"
    and take_ok: "ok q \<Longrightarrow> size q \<noteq> 0 \<Longrightarrow>
      ok (snd (take1 q)) \<and> abs q = fst (take1 q) # abs (snd (take1 q)) \<and> bound (snd (take1 q)) = bound q"
    and size_abs: "ok q \<Longrightarrow> size q = length (abs q) \<and> size q \<le> bound q"
begin

lemma history_put:
  "ok q \<Longrightarrow> size q < bound q \<Longrightarrow> ins = outs @ abs q \<Longrightarrow> ins @ [x] = outs @ abs (put x q)"
  using put_ok by simp

lemma history_take:
  "ok q \<Longrightarrow> size q \<noteq> 0 \<Longrightarrow> ins = outs @ abs q \<Longrightarrow>
     ins = (outs @ [fst (take1 q)]) @ abs (snd (take1 q))"
  using take_ok by fastforce

lemma put_size: "ok q \<Longrightarrow> size q < bound q \<Longrightarrow> size (put x q) = Suc (size q)"
  using put_ok [of q x] size_abs [of q] size_abs [of "put x q"] by simp

lemma take_size: "ok q \<Longrightarrow> size q \<noteq> 0 \<Longrightarrow> Suc (size (snd (take1 q))) = size q"
  using take_ok [of q] size_abs [of q] size_abs [of "snd (take1 q)"] by (metis length_Cons)

end

section \<open>The ring buffer\<close>

record ring =
  tasks :: "nat list"     \<comment> \<open>the \<^verbatim>\<open>tasknum\<close> of each entry of \<^verbatim>\<open>task\<close>\<close>
  max_job_num :: nat
  job_num :: nat
  job_push :: nat
  job_pop :: nat

definition ring_init :: "nat \<Rightarrow> ring" where
  "ring_init n = \<lparr>tasks = replicate n 0, max_job_num = n, job_num = 0, job_push = 0, job_pop = 0\<rparr>"

definition ring_put :: "nat \<Rightarrow> ring \<Rightarrow> ring" where
  "ring_put x r =
     r\<lparr>tasks := (tasks r)[job_push r mod max_job_num r := x],
       job_push := job_push r + 1, job_num := job_num r + 1\<rparr>"

definition ring_take :: "ring \<Rightarrow> nat \<times> ring" where
  "ring_take r =
     (tasks r ! (job_pop r mod max_job_num r),
      r\<lparr>job_pop := job_pop r + 1, job_num := job_num r - 1\<rparr>)"

definition ring_ok :: "ring \<Rightarrow> bool" where
  "ring_ok r \<longleftrightarrow> 0 < max_job_num r \<and> length (tasks r) = max_job_num r
     \<and> job_num r \<le> max_job_num r \<and> job_push r = job_pop r + job_num r"

definition ring_abs :: "ring \<Rightarrow> nat list" where
  "ring_abs r = map (\<lambda>k. tasks r ! ((job_pop r + k) mod max_job_num r)) [0..<job_num r]"

lemma ring_slot_distinct:
  assumes "k < n" and "n < (m :: nat)"
  shows "(p + n) mod m \<noteq> (p + k) mod m"
proof
  assume "(p + n) mod m = (p + k) mod m"
  then have "m dvd (p + n) - (p + k)" using assms by (simp add: mod_eq_dvd_iff_nat)
  then have "m \<le> n - k" using assms by (auto dest: dvd_imp_le)
  then show False using assms by simp
qed

lemma ring_put_ok:
  assumes "ring_ok r" and "job_num r < max_job_num r"
  shows "ring_ok (ring_put x r) \<and> ring_abs (ring_put x r) = ring_abs r @ [x]
     \<and> max_job_num (ring_put x r) = max_job_num r"
proof -
  have "job_push r mod max_job_num r < length (tasks r)" using assms(1) by (simp add: ring_ok_def)
  moreover have "(job_pop r + job_num r) mod max_job_num r \<noteq> (job_pop r + k) mod max_job_num r"
    if "k < job_num r" for k using that assms(2) by (rule ring_slot_distinct)
  ultimately show ?thesis using assms by (auto simp: ring_ok_def ring_put_def ring_abs_def)
qed

lemma ring_take_ok:
  assumes "ring_ok r" and "job_num r \<noteq> 0"
  shows "ring_ok (snd (ring_take r)) \<and> ring_abs r = fst (ring_take r) # ring_abs (snd (ring_take r))
     \<and> max_job_num (snd (ring_take r)) = max_job_num r"
proof -
  obtain n where n: "job_num r = Suc n" using assms(2) by (cases "job_num r") auto
  have "[0..<Suc n] = 0 # map Suc [0..<n]" by (simp only: upt_conv_Cons map_Suc_upt zero_less_Suc)
  then have "ring_abs r = fst (ring_take r) # ring_abs (snd (ring_take r))"
    by (simp add: ring_abs_def ring_take_def n o_def del: upt_Suc)
  then show ?thesis using assms(1) n by (simp add: ring_ok_def ring_take_def)
qed

interpretation ring: fifo ring_put ring_take job_num max_job_num ring_ok ring_abs
proof (unfold_locales, goal_cases)
  case (1 q x)
  then show ?case by (rule ring_put_ok)
next
  case (2 q)
  then show ?case by (rule ring_take_ok)
next
  case (3 q)
  then show ?case by (simp add: ring_ok_def ring_abs_def)
qed

section \<open>Threads\<close>

datatype tid = TMain | TWorker nat

text \<open>
  Where a worker is in \<^verbatim>\<open>thrRun\<close>: at \<^verbatim>\<open>pthread_mutex_lock\<close>; at the test of the inner loop; blocked in
  \<^verbatim>\<open>pthread_cond_wait\<close>; woken and taking the mutex again; at \<^verbatim>\<open>if(job_num)\<close>; at \<^verbatim>\<open>if(shutdown)\<close>, with or
  without having copied a task in this round; at \<^verbatim>\<open>task_func\<close>; past \<^verbatim>\<open>pthread_exit\<close>.
\<close>

datatype wpc = WLock | WTest | WWait | WRelock | WTake | WCheck bool | WRun | WExit

text \<open>
  Where \<^verbatim>\<open>main\<close> is: in the creation loop; at the head of its loop with index \<open>i\<close>; in
  \<^verbatim>\<open>addtask\<close> at the test, blocked, taking the mutex again, storing the task, at the signal; in
  \<^verbatim>\<open>destroy_threadpool\<close> at each of its statements; at its \<^verbatim>\<open>return\<close>; gone, and the process with it.
\<close>

datatype apc =
    ACreate | AFor nat | ATest nat | AWait nat | ARelock nat | APut nat | ASignal nat
  | AShutdown | ABroadcast | AJoin | ADestroy | AReturn | AExit

record worker =
  wpc :: wpc
  mine :: "nat option"    \<comment> \<open>\<^verbatim>\<open>task->tasknum\<close> of the thread's own \<^verbatim>\<open>task\<close>, \<open>None\<close> before the first copy\<close>

text \<open>Undefined behaviour a run can meet; it ends there.\<close>

datatype hazard = UseAfterFree | DestroyedInUse | NoTask

record pool =
  queue :: ring
  thr_num :: nat
  shutdown :: bool
  pool_lock :: "tid option"
  workers :: "worker list"
  adder :: apc
  beginnum :: nat
  freed :: bool
  hazard :: "hazard option"
  added :: "nat list"      \<comment> \<open>the history: tasks stored, tasks copied out, tasks run, and tasks a worker\<close>
  taken :: "nat list"      \<comment> \<open>copied out and gave up because of \<^verbatim>\<open>shutdown\<close>\<close>
  ran :: "nat list"
  dropped :: "nat list"

text \<open>The pool when \<^verbatim>\<open>create_threadpool\<close> reaches its loop over \<^verbatim>\<open>pthread_create\<close>. The allocations and the
  thread creations are taken to succeed; the code does not check them.\<close>

definition create_threadpool :: "nat \<Rightarrow> nat \<Rightarrow> pool" where
  "create_threadpool thrnum maxtasknum =
     \<lparr>queue = ring_init maxtasknum, thr_num = thrnum, shutdown = False, pool_lock = None,
      workers = [], adder = ACreate, beginnum = 1000, freed = False, hazard = None,
      added = [], taken = [], ran = [], dropped = []\<rparr>"

definition wpc_of :: "pool \<Rightarrow> nat \<Rightarrow> wpc" where
  "wpc_of s k = (if k < length (workers s) then wpc (workers s ! k) else WExit)"

definition set_wpc :: "nat \<Rightarrow> wpc \<Rightarrow> pool \<Rightarrow> pool" where
  "set_wpc k p s = s\<lparr>workers := (workers s)[k := (workers s ! k)\<lparr>wpc := p\<rparr>]\<rparr>"

definition waits :: "pool \<Rightarrow> tid \<Rightarrow> bool" where
  \<comment> \<open>the thread is blocked on the condition \<^verbatim>\<open>empty_task\<close>\<close>
  "waits s t = (case t of TMain \<Rightarrow> (case adder s of AWait _ \<Rightarrow> True | _ \<Rightarrow> False)
                        | TWorker k \<Rightarrow> wpc_of s k = WWait)"

definition nobody_waits :: "pool \<Rightarrow> bool" where
  "nobody_waits s \<longleftrightarrow> \<not> waits s TMain \<and> list_all (\<lambda>w. wpc w \<noteq> WWait) (workers s)"

definition wake :: "tid \<Rightarrow> pool \<Rightarrow> pool" where
  "wake t s = (case t of
      TMain \<Rightarrow> (case adder s of AWait i \<Rightarrow> s\<lparr>adder := ARelock i\<rparr> | _ \<Rightarrow> s)
    | TWorker k \<Rightarrow> if wpc_of s k = WWait then set_wpc k WRelock s else s)"

text \<open>\<^verbatim>\<open>pthread_cond_signal(&empty_task)\<close> wakes a thread of the scheduler's choice, if any waits.\<close>

definition signal_empty :: "tid option \<Rightarrow> pool \<Rightarrow> pool option" where
  "signal_empty w s = (case w of
      None \<Rightarrow> if nobody_waits s then Some s else None
    | Some t \<Rightarrow> if waits s t then Some (wake t s) else None)"

definition acquire :: "tid \<Rightarrow> pool \<Rightarrow> pool option" where
  "acquire t s = (if pool_lock s = None then Some (s\<lparr>pool_lock := Some t\<rparr>) else None)"

definition release :: "pool \<Rightarrow> pool" where
  "release s = s\<lparr>pool_lock := None\<rparr>"

section \<open>The worker: \<^verbatim>\<open>thrRun\<close>\<close>

definition copy_task :: "nat \<Rightarrow> pool \<Rightarrow> pool" where
  \<comment> \<open>\<^verbatim>\<open>memcpy(task, &thrPool->task[taskpos], sizeof(PoolTask)); job_num--\<close>\<close>
  "copy_task k s =
     (let (x, q) = ring_take (queue s)
      in s\<lparr>queue := q, taken := taken s @ [x],
           workers := (workers s)[k := \<lparr>wpc = WCheck True, mine = Some x\<rparr>]\<rparr>)"

definition give_up :: "nat \<Rightarrow> bool \<Rightarrow> pool \<Rightarrow> pool" where
  \<comment> \<open>\<^verbatim>\<open>if(shutdown)\<close>: unlock, \<^verbatim>\<open>free(task)\<close>, \<^verbatim>\<open>pthread_exit\<close>\<close>
  "give_up k b s = set_wpc k WExit
     (release (if b then s\<lparr>dropped := dropped s @ [the (mine (workers s ! k))]\<rparr> else s))"

definition taskRun :: "nat \<Rightarrow> nat \<Rightarrow> pool \<Rightarrow> pool" where
  "taskRun k x s = set_wpc k WLock (s\<lparr>ran := ran s @ [x]\<rparr>)"

definition thrRun :: "nat \<Rightarrow> tid option \<Rightarrow> pool \<Rightarrow> pool option" where
  "thrRun k w s =
     (if freed s \<and> wpc_of s k \<notin> {WWait, WRun, WExit} then Some (s\<lparr>hazard := Some UseAfterFree\<rparr>)
      else (case wpc_of s k of
          WLock \<Rightarrow> map_option (set_wpc k WTest) (acquire (TWorker k) s)
        | WTest \<Rightarrow>
            Some (if job_num (queue s) \<le> 0 \<and> \<not> shutdown s then set_wpc k WWait (release s)
                  else set_wpc k WTake s)
        | WWait \<Rightarrow> None
        | WRelock \<Rightarrow> map_option (set_wpc k WTest) (acquire (TWorker k) s)
        | WTake \<Rightarrow>
            if job_num (queue s) \<noteq> 0 then signal_empty w (copy_task k s)
            else Some (set_wpc k (WCheck False) s)
        | WCheck b \<Rightarrow>
            Some (if shutdown s then give_up k b s else set_wpc k WRun (release s))
        | WRun \<Rightarrow>
            (case mine (workers s ! k) of
               None \<Rightarrow> Some (s\<lparr>hazard := Some NoTask\<rparr>)
             | Some x \<Rightarrow> Some (taskRun k x s))
        | WExit \<Rightarrow> None))"

section \<open>The adding thread: \<^verbatim>\<open>create_threadpool\<close>, \<^verbatim>\<open>addtask\<close>, \<^verbatim>\<open>destroy_threadpool\<close>, \<^verbatim>\<open>main\<close>\<close>

definition put_task :: "nat \<Rightarrow> pool \<Rightarrow> pool" where
  \<comment> \<open>the stores of \<^verbatim>\<open>addtask\<close> and its unlock\<close>
  "put_task i s = release (s\<lparr>queue := ring_put (beginnum s) (queue s), beginnum := beginnum s + 1,
     added := added s @ [beginnum s], adder := ASignal i\<rparr>)"

definition create_step :: "pool \<Rightarrow> pool" where
  "create_step s =
     (if length (workers s) < thr_num s then s\<lparr>workers := workers s @ [\<lparr>wpc = WLock, mine = None\<rparr>]\<rparr>
      else s\<lparr>adder := AFor 0\<rparr>)"

definition addtask :: "nat \<Rightarrow> pool \<Rightarrow> pool option" where
  \<comment> \<open>the step of \<^verbatim>\<open>addtask\<close> in round \<open>i\<close> of the loop; its first statement, the lock\<close>
  "addtask i s = map_option (adder_update (\<lambda>_. ATest i)) (acquire TMain s)"

definition addtask_test :: "nat \<Rightarrow> pool \<Rightarrow> pool" where
  "addtask_test i s =
     (if max_job_num (queue s) \<le> job_num (queue s) then release (s\<lparr>adder := AWait i\<rparr>)
      else s\<lparr>adder := APut i\<rparr>)"

text \<open>\<^verbatim>\<open>pthread_join\<close> of a detached thread returns at once (\<^verbatim>\<open>EINVAL\<close>). Destroying a condition with threads
  blocked on it, or the mutex while it is held, is undefined.\<close>

definition destroy_threadpool :: "pool \<Rightarrow> pool" where
  \<comment> \<open>from \<^verbatim>\<open>pthread_cond_destroy\<close> on\<close>
  "destroy_threadpool s =
     (if nobody_waits s \<and> pool_lock s = None then s\<lparr>freed := True, adder := AReturn\<rparr>
      else s\<lparr>hazard := Some DestroyedInUse\<rparr>)"

definition main_step :: "pool \<Rightarrow> pool option" where
  "main_step s = (case adder s of
      ACreate \<Rightarrow> Some (create_step s)
    | AFor i \<Rightarrow> if i < 50 then addtask i s else Some (s\<lparr>adder := AShutdown\<rparr>)
    | ATest i \<Rightarrow> Some (addtask_test i s)
    | AWait i \<Rightarrow> None
    | ARelock i \<Rightarrow> addtask i s
    | APut i \<Rightarrow> Some (put_task i s)
    | ASignal i \<Rightarrow> Some (s\<lparr>adder := AFor (i + 1)\<rparr>)  \<comment> \<open>\<^verbatim>\<open>not_empty_task\<close>: no thread waits on it\<close>
    | AShutdown \<Rightarrow> Some (s\<lparr>shutdown := True, adder := ABroadcast\<rparr>)
    | ABroadcast \<Rightarrow> Some (s\<lparr>adder := AJoin\<rparr>)         \<comment> \<open>the same condition\<close>
    | AJoin \<Rightarrow> Some (s\<lparr>adder := ADestroy\<rparr>)
    | ADestroy \<Rightarrow> Some (destroy_threadpool s)
    | AReturn \<Rightarrow> Some (s\<lparr>adder := AExit\<rparr>)
    | AExit \<Rightarrow> None)"

section \<open>The system\<close>

datatype paction =
    Main
  | Work nat "tid option"   \<comment> \<open>a step of worker \<open>k\<close>, and whom its signal wakes\<close>
  | Spurious tid            \<comment> \<open>\<^verbatim>\<open>pthread_cond_wait\<close> may return without a signal\<close>

definition pexec :: "paction \<Rightarrow> pool \<Rightarrow> pool option" where
  "pexec a s =
     (if hazard s \<noteq> None \<or> adder s = AExit then None
      else (case a of
          Main \<Rightarrow> main_step s
        | Work k w \<Rightarrow> thrRun k w s
        | Spurious t \<Rightarrow> if waits s t then Some (wake t s) else None))"

definition pinit :: "pool \<Rightarrow> bool" where
  "pinit s \<longleftrightarrow> s = create_threadpool 3 20"

inductive pstep :: "pool \<Rightarrow> pool \<Rightarrow> bool" where
  "pexec a s = Some t \<Longrightarrow> pstep s t"

inductive_cases pstepE: "pstep s t"

primrec pruns :: "paction list \<Rightarrow> pool \<Rightarrow> pool option" where
  "pruns [] s = Some s"
| "pruns (a # as) s = (case pexec a s of None \<Rightarrow> None | Some t \<Rightarrow> pruns as t)"

lemma pruns_reach: "pruns as s = Some t \<Longrightarrow> reach pinit pstep s \<Longrightarrow> reach pinit pstep t"
proof (induction as arbitrary: s)
  case (Cons a as)
  then obtain u where "pexec a s = Some u" and "pruns as u = Some t" by (auto split: option.splits)
  with Cons show ?case by (metis reach_step pstep.intros)
qed simp

section \<open>Invariants\<close>

definition critical :: "pool \<Rightarrow> tid \<Rightarrow> bool" where
  \<comment> \<open>the thread is at a point of its code that lies between a lock and the next unlock\<close>
  "critical s t = (case t of
      TMain \<Rightarrow> (case adder s of ATest _ \<Rightarrow> True | APut _ \<Rightarrow> True | _ \<Rightarrow> False)
    | TWorker k \<Rightarrow> (case wpc_of s k of WTest \<Rightarrow> True | WTake \<Rightarrow> True | WCheck _ \<Rightarrow> True | _ \<Rightarrow> False))"

definition lock_inv :: "pool \<Rightarrow> bool" where
  "lock_inv s \<longleftrightarrow> (\<forall>t. critical s t \<longleftrightarrow> pool_lock s = Some t)"

definition tally :: "apc \<Rightarrow> nat" where
  \<comment> \<open>how many tasks \<^verbatim>\<open>main\<close> has stored, read off the point it is at\<close>
  "tally a = (case a of
      ACreate \<Rightarrow> 0 | AFor i \<Rightarrow> i | ATest i \<Rightarrow> i | AWait i \<Rightarrow> i | ARelock i \<Rightarrow> i | APut i \<Rightarrow> i
    | ASignal i \<Rightarrow> i + 1 | _ \<Rightarrow> 50)"

definition in_loop :: "apc \<Rightarrow> bool" where
  "in_loop a = (case a of
      ATest i \<Rightarrow> i < 50 | AWait i \<Rightarrow> i < 50 | ARelock i \<Rightarrow> i < 50 | APut i \<Rightarrow> i < 50
    | ASignal i \<Rightarrow> i < 50 | AFor i \<Rightarrow> i \<le> 50 | _ \<Rightarrow> True)"

definition queue_inv :: "pool \<Rightarrow> bool" where
  "queue_inv s \<longleftrightarrow> ring_ok (queue s) \<and> max_job_num (queue s) = 20
     \<and> taken s @ ring_abs (queue s) = added s
     \<and> added s = [1000..<beginnum s] \<and> beginnum s = 1000 + tally (adder s) \<and> in_loop (adder s)
     \<and> (\<forall>i. adder s = APut i \<longrightarrow> job_num (queue s) < 20)"

definition exit_inv :: "pool \<Rightarrow> bool" where
  "exit_inv s \<longleftrightarrow> (\<forall>k. wpc_of s k = WTake \<longrightarrow> job_num (queue s) \<noteq> 0 \<or> shutdown s)
     \<and> (\<forall>k. wpc_of s k = WCheck False \<longrightarrow> shutdown s)"

definition busy :: "wpc \<Rightarrow> bool" where
  \<comment> \<open>the worker has a task it copied and has not run\<close>
  "busy p \<longleftrightarrow> p = WCheck True \<or> p = WRun"

definition hand :: "worker \<Rightarrow> nat list" where
  "hand w = (if busy (wpc w) then [the (mine w)] else [])"

definition hands :: "pool \<Rightarrow> nat multiset" where
  "hands s = mset (concat (map hand (workers s)))"

definition hand_inv :: "pool \<Rightarrow> bool" where
  "hand_inv s \<longleftrightarrow> mset (taken s) = mset (ran s) + mset (dropped s) + hands s
     \<and> (shutdown s \<or> dropped s = [])
     \<and> (\<forall>k. busy (wpc_of s k) \<longrightarrow> mine (workers s ! k) \<noteq> None)"

lemma wpc_of_set_wpc [simp]:
  "wpc_of (set_wpc k p s) j = (if j = k \<and> k < length (workers s) then p else wpc_of s j)"
  by (simp add: wpc_of_def set_wpc_def)

lemma wpc_of_upd [simp]:
  "wpc_of (s\<lparr>queue := q\<rparr>) = wpc_of s" "wpc_of (s\<lparr>shutdown := b\<rparr>) = wpc_of s"
  "wpc_of (s\<lparr>pool_lock := l\<rparr>) = wpc_of s" "wpc_of (s\<lparr>adder := a\<rparr>) = wpc_of s"
  "wpc_of (s\<lparr>beginnum := n\<rparr>) = wpc_of s" "wpc_of (s\<lparr>freed := b\<rparr>) = wpc_of s"
  "wpc_of (s\<lparr>hazard := h\<rparr>) = wpc_of s" "wpc_of (s\<lparr>added := xs\<rparr>) = wpc_of s"
  "wpc_of (s\<lparr>taken := xs\<rparr>) = wpc_of s" "wpc_of (s\<lparr>ran := xs\<rparr>) = wpc_of s"
  "wpc_of (s\<lparr>dropped := xs\<rparr>) = wpc_of s"
  by (simp_all add: wpc_of_def fun_eq_iff)

lemma wpc_of_inside: "wpc_of s k \<noteq> WExit \<Longrightarrow> k < length (workers s)"
  by (simp add: wpc_of_def split: if_splits)

lemma set_wpc_fields [simp]:
  "queue (set_wpc k p s) = queue s" "shutdown (set_wpc k p s) = shutdown s"
  "pool_lock (set_wpc k p s) = pool_lock s" "adder (set_wpc k p s) = adder s"
  "beginnum (set_wpc k p s) = beginnum s" "freed (set_wpc k p s) = freed s"
  "hazard (set_wpc k p s) = hazard s" "added (set_wpc k p s) = added s"
  "taken (set_wpc k p s) = taken s" "ran (set_wpc k p s) = ran s" "dropped (set_wpc k p s) = dropped s"
  by (simp_all add: set_wpc_def)

lemma wake_fields [simp]:
  "queue (wake t s) = queue s" "shutdown (wake t s) = shutdown s"
  "pool_lock (wake t s) = pool_lock s" "beginnum (wake t s) = beginnum s" "freed (wake t s) = freed s"
  "hazard (wake t s) = hazard s" "added (wake t s) = added s"
  "taken (wake t s) = taken s" "ran (wake t s) = ran s" "dropped (wake t s) = dropped s"
  "tally (adder (wake t s)) = tally (adder s)" "in_loop (adder (wake t s)) = in_loop (adder s)"
  "adder (wake t s) = APut i \<longleftrightarrow> adder s = APut i"
  by (auto simp: wake_def tally_def in_loop_def split: tid.splits apc.splits)

lemma wake_wpc_of:
  "wpc_of (wake t s) k = wpc_of s k \<or> wpc_of s k = WWait \<and> wpc_of (wake t s) k = WRelock"
  by (auto simp: wake_def split: tid.splits apc.splits)

lemma wake_critical [simp]: "critical (wake t s) u = critical s u"
  by (auto simp: critical_def wake_def split: tid.splits apc.splits wpc.splits if_splits)

text \<open>What a signal does is a matter of \<open>wake\<close> alone.\<close>

lemma signal_emptyE:
  assumes "signal_empty w s = Some t"
  obtains "t = s" | u where "t = wake u s"
  using assms by (auto simp: signal_empty_def split: option.splits if_splits)

definition wake_stable :: "(pool \<Rightarrow> bool) \<Rightarrow> bool" where
  "wake_stable P \<longleftrightarrow> (\<forall>s t. P s \<longrightarrow> P (wake t s))"

lemma signal_keeps: "wake_stable P \<Longrightarrow> P s \<Longrightarrow> signal_empty w s = Some t \<Longrightarrow> P t"
  by (erule signal_emptyE) (auto simp: wake_stable_def)

lemma wake_lock_inv: "wake_stable lock_inv"
  by (simp add: wake_stable_def lock_inv_def)

lemma wake_queue_inv: "wake_stable queue_inv"
  unfolding wake_stable_def queue_inv_def by (simp only: wake_fields) blast

lemma wake_same: "p \<noteq> WRelock \<Longrightarrow> wpc_of (wake t s) k = p \<Longrightarrow> wpc_of s k = p"
  using wake_wpc_of [of t s k] by auto

lemma wake_exit_inv: "wake_stable exit_inv"
  unfolding wake_stable_def exit_inv_def by (auto dest!: wake_same [rotated])

lemma hands_update:
  assumes "k < length (workers s)"
  shows "hands (s\<lparr>workers := (workers s)[k := w]\<rparr>) + mset (hand (workers s ! k)) = hands s + mset (hand w)"
proof -
  let ?ws = "workers s"
  have ws: "?ws = take k ?ws @ ?ws ! k # drop (Suc k) ?ws" using assms by (rule id_take_nth_drop)
  have "hands s = mset (concat (map hand (take k ?ws @ ?ws ! k # drop (Suc k) ?ws)))"
    using ws by (simp add: hands_def)
  then show ?thesis using assms by (simp add: hands_def upd_conv_take_nth_drop)
qed

lemma hands_set_wpc:
  assumes "k < length (workers s)"
  shows "hands (set_wpc k p s) + mset (hand (workers s ! k))
     = hands s + mset (hand ((workers s ! k)\<lparr>wpc := p\<rparr>))"
  using hands_update [OF assms] by (simp add: set_wpc_def)

lemma hands_fields [simp]:
  "hands (s\<lparr>queue := q\<rparr>) = hands s" "hands (s\<lparr>shutdown := b\<rparr>) = hands s"
  "hands (s\<lparr>pool_lock := l\<rparr>) = hands s" "hands (s\<lparr>adder := a\<rparr>) = hands s"
  "hands (s\<lparr>beginnum := n\<rparr>) = hands s" "hands (s\<lparr>freed := b\<rparr>) = hands s"
  "hands (s\<lparr>hazard := h\<rparr>) = hands s" "hands (s\<lparr>added := xs\<rparr>) = hands s"
  "hands (s\<lparr>taken := xs\<rparr>) = hands s" "hands (s\<lparr>ran := xs\<rparr>) = hands s"
  "hands (s\<lparr>dropped := xs\<rparr>) = hands s"
  by (simp_all add: hands_def)

text \<open>A step of a worker from a point to a point with the same tasks in hand.\<close>

lemma set_wpc_hand_inv:
  assumes "hand_inv s" and "busy p = busy (wpc_of s k)"
  shows "hand_inv (set_wpc k p s)"
proof (cases "k < length (workers s)")
  case True
  then have "busy p = busy (wpc (workers s ! k))" using assms(2) by (simp add: wpc_of_def)
  then have "hands (set_wpc k p s) = hands s"
    using hands_set_wpc [OF True, of p] by (simp add: hand_def split: if_splits)
  moreover have "mine (workers (set_wpc k p s) ! j) = mine (workers s ! j)" for j
    using True by (simp add: set_wpc_def nth_list_update)
  ultimately show ?thesis using assms by (simp add: hand_inv_def)
next
  case False
  then have "set_wpc k p s = s" by (simp add: set_wpc_def list_update_beyond)
  with assms(1) show ?thesis by simp
qed

lemma hand_inv_fields [simp]:
  "hand_inv (s\<lparr>queue := q\<rparr>) = hand_inv s" "hand_inv (s\<lparr>pool_lock := l\<rparr>) = hand_inv s"
  "hand_inv (s\<lparr>adder := a\<rparr>) = hand_inv s" "hand_inv (s\<lparr>beginnum := n\<rparr>) = hand_inv s"
  "hand_inv (s\<lparr>freed := b\<rparr>) = hand_inv s" "hand_inv (s\<lparr>hazard := h\<rparr>) = hand_inv s"
  "hand_inv (s\<lparr>added := xs\<rparr>) = hand_inv s"
  by (simp_all add: hand_inv_def)

lemma wake_hand_inv: "wake_stable hand_inv"
  by (simp add: wake_stable_def wake_def set_wpc_hand_inv busy_def split: tid.splits apc.splits)

section \<open>The invariants are kept\<close>

lemma critical_fields [simp]:
  "critical (s\<lparr>queue := q\<rparr>) = critical s" "critical (s\<lparr>shutdown := b\<rparr>) = critical s"
  "critical (s\<lparr>pool_lock := l\<rparr>) = critical s" "critical (s\<lparr>beginnum := n\<rparr>) = critical s"
  "critical (s\<lparr>freed := b\<rparr>) = critical s" "critical (s\<lparr>hazard := h\<rparr>) = critical s"
  "critical (s\<lparr>added := xs\<rparr>) = critical s" "critical (s\<lparr>taken := xs\<rparr>) = critical s"
  "critical (s\<lparr>ran := xs\<rparr>) = critical s" "critical (s\<lparr>dropped := xs\<rparr>) = critical s"
  by (auto simp: critical_def fun_eq_iff split: tid.splits)

definition wcrit :: "wpc \<Rightarrow> bool" where
  "wcrit p = (case p of WTest \<Rightarrow> True | WTake \<Rightarrow> True | WCheck _ \<Rightarrow> True | _ \<Rightarrow> False)"

definition acrit :: "apc \<Rightarrow> bool" where
  "acrit a = (case a of ATest _ \<Rightarrow> True | APut _ \<Rightarrow> True | _ \<Rightarrow> False)"

lemma wcrit_simps [simp]:
  "\<not> wcrit WLock" "wcrit WTest" "\<not> wcrit WWait" "\<not> wcrit WRelock" "wcrit WTake" "wcrit (WCheck b)"
  "\<not> wcrit WRun" "\<not> wcrit WExit"
  by (simp_all add: wcrit_def)

lemma acrit_simps [simp]:
  "\<not> acrit ACreate" "\<not> acrit (AFor i)" "acrit (ATest i)" "\<not> acrit (AWait i)" "\<not> acrit (ARelock i)"
  "acrit (APut i)" "\<not> acrit (ASignal i)" "\<not> acrit AShutdown" "\<not> acrit ABroadcast" "\<not> acrit AJoin"
  "\<not> acrit ADestroy" "\<not> acrit AReturn" "\<not> acrit AExit"
  by (simp_all add: acrit_def)

lemma critical_eq:
  "critical s t = (case t of TMain \<Rightarrow> acrit (adder s) | TWorker k \<Rightarrow> wcrit (wpc_of s k))"
  by (auto simp: critical_def wcrit_def acrit_def split: tid.splits)

lemma lock_inv_eq:
  "lock_inv s \<longleftrightarrow> (acrit (adder s) \<longleftrightarrow> pool_lock s = Some TMain)
     \<and> (\<forall>k. wcrit (wpc_of s k) \<longleftrightarrow> pool_lock s = Some (TWorker k))"
  by (auto simp: lock_inv_def critical_eq split: tid.splits)

lemma wcrit_inside: "wcrit (wpc_of s k) \<Longrightarrow> k < length (workers s)"
  by (rule wpc_of_inside) auto

text \<open>Changes of a worker's point that respect the lock.\<close>

lemma lock_inv_same:
  "lock_inv s \<Longrightarrow> wcrit p = wcrit (wpc_of s k) \<Longrightarrow> lock_inv (set_wpc k p s)"
  by (auto simp: lock_inv_eq)

lemma lock_inv_release:
  "lock_inv s \<Longrightarrow> wcrit (wpc_of s k) \<Longrightarrow> \<not> wcrit p \<Longrightarrow> lock_inv (set_wpc k p (release s))"
  using wcrit_inside [of s k] by (auto simp: lock_inv_eq release_def)

lemma lock_inv_acquire:
  "lock_inv s \<Longrightarrow> acquire (TWorker k) s = Some t \<Longrightarrow> wpc_of s k \<noteq> WExit \<Longrightarrow> wcrit p
     \<Longrightarrow> lock_inv (set_wpc k p t)"
  by (auto simp: lock_inv_eq acquire_def dest: wpc_of_inside split: if_splits)

text \<open>Copying a task out, as every observer sees it.\<close>

lemma copy_task_fields [simp]:
  "queue (copy_task k s) = snd (ring_take (queue s))" "shutdown (copy_task k s) = shutdown s"
  "pool_lock (copy_task k s) = pool_lock s" "adder (copy_task k s) = adder s"
  "beginnum (copy_task k s) = beginnum s" "added (copy_task k s) = added s"
  "taken (copy_task k s) = taken s @ [fst (ring_take (queue s))]"
  "ran (copy_task k s) = ran s" "dropped (copy_task k s) = dropped s"
  by (simp_all add: copy_task_def split_beta)

lemma copy_task_wpc_of [simp]:
  "wpc_of (copy_task k s) j = (if j = k \<and> k < length (workers s) then WCheck True else wpc_of s j)"
  by (simp add: wpc_of_def copy_task_def split_beta)

lemma copy_task_hand_inv:
  assumes "hand_inv s" and "wpc_of s k = WTake"
  shows "hand_inv (copy_task k s)"
proof -
  have k: "k < length (workers s)" using assms(2) by (intro wpc_of_inside) simp
  have m: "mine (workers (copy_task k s) ! j)
      = (if j = k then Some (fst (ring_take (queue s))) else mine (workers s ! j))" for j
    using k by (simp add: copy_task_def split_beta nth_list_update)
  have "hand (workers s ! k) = []" using assms(2) k by (simp add: hand_def wpc_of_def busy_def)
  then have "hands (copy_task k s) = hands s + {#fst (ring_take (queue s))#}"
    using hands_update [OF k, of "\<lparr>wpc = WCheck True, mine = Some (fst (ring_take (queue s)))\<rparr>"]
    by (simp add: copy_task_def split_beta hands_def hand_def busy_def)
  then show ?thesis using assms(1) k by (simp add: hand_inv_def m)
qed

text \<open>A busy worker that gets rid of its task, by running it or by dropping it.\<close>

lemma hands_done:
  assumes "busy (wpc_of s k)" and "\<not> busy p"
  shows "hands s = hands (set_wpc k p s) + {#the (mine (workers s ! k))#}"
proof -
  have k: "k < length (workers s)" using assms(1) by (intro wpc_of_inside) (auto simp: busy_def)
  then show ?thesis using hands_set_wpc [OF k, of p] assms by (simp add: wpc_of_def hand_def)
qed

lemma mine_set_wpc [simp]: "mine (workers (set_wpc k p s) ! j) = mine (workers s ! j)"
  by (cases "k < length (workers s)") (auto simp: set_wpc_def nth_list_update list_update_beyond)

lemma set_wpc_commute:
  "set_wpc k p (s\<lparr>ran := xs\<rparr>) = (set_wpc k p s)\<lparr>ran := xs\<rparr>"
  "set_wpc k p (s\<lparr>dropped := xs\<rparr>) = (set_wpc k p s)\<lparr>dropped := xs\<rparr>"
  "set_wpc k p (s\<lparr>pool_lock := l\<rparr>) = (set_wpc k p s)\<lparr>pool_lock := l\<rparr>"
  by (simp_all add: set_wpc_def)

lemma taskRun_hand_inv:
  assumes "hand_inv s" and "wpc_of s k = WRun" and "mine (workers s ! k) = Some x"
  shows "hand_inv (taskRun k x s)"
proof -
  have "hands s = hands (set_wpc k WLock s) + {#x#}" using hands_done [of s k WLock] assms by (simp add: busy_def)
  with assms show ?thesis by (simp add: hand_inv_def taskRun_def set_wpc_commute busy_def)
qed

lemma give_up_hand_inv:
  assumes "hand_inv s" and "wpc_of s k = WCheck b" and "shutdown s"
  shows "hand_inv (give_up k b s)"
proof (cases b)
  case True
  then have "hands s = hands (set_wpc k WExit s) + {#the (mine (workers s ! k))#}"
    using hands_done [of s k WExit] assms by (simp add: busy_def)
  with assms True show ?thesis
    by (simp add: hand_inv_def give_up_def release_def set_wpc_commute busy_def)
next
  case False
  with assms show ?thesis
    by (simp add: give_up_def release_def set_wpc_commute set_wpc_hand_inv busy_def)
qed

lemma give_up_fields [simp]:
  "queue (give_up k b s) = queue s" "shutdown (give_up k b s) = shutdown s"
  "pool_lock (give_up k b s) = None" "adder (give_up k b s) = adder s"
  "beginnum (give_up k b s) = beginnum s" "added (give_up k b s) = added s"
  "taken (give_up k b s) = taken s"
  "wpc_of (give_up k b s) j = (if j = k then WExit else wpc_of s j)"
  by (simp_all add: give_up_def release_def) (simp add: wpc_of_def)

section \<open>Steps of a worker\<close>

text \<open>The points at which a step can happen, with the step.\<close>

lemma thrRun_cases:
  assumes "thrRun k w s = Some t"
  obtains (hazard) h where "t = s\<lparr>hazard := h\<rparr>"
      "h = Some UseAfterFree \<or> wpc_of s k = WRun \<and> mine (workers s ! k) = None"
  | (lock) u where "wpc_of s k \<in> {WLock, WRelock}" "acquire (TWorker k) s = Some u" "t = set_wpc k WTest u"
  | (wait) "wpc_of s k = WTest" "t = set_wpc k WWait (release s)"
  | (leave) "wpc_of s k = WTest" "job_num (queue s) \<noteq> 0 \<or> shutdown s" "t = set_wpc k WTake s"
  | (take) "wpc_of s k = WTake" "job_num (queue s) \<noteq> 0" "signal_empty w (copy_task k s) = Some t"
  | (skip) "wpc_of s k = WTake" "job_num (queue s) = 0" "t = set_wpc k (WCheck False) s"
  | (exit) b where "wpc_of s k = WCheck b" "shutdown s" "t = give_up k b s"
  | (unlock) b where "wpc_of s k = WCheck b" "\<not> shutdown s" "t = set_wpc k WRun (release s)"
  | (run) x where "wpc_of s k = WRun" "mine (workers s ! k) = Some x" "t = taskRun k x s"
  using assms that
  by (cases "wpc_of s k") (auto simp: thrRun_def split: if_splits option.splits)

lemma hazard_keeps [simp]:
  "lock_inv (s\<lparr>hazard := h\<rparr>) = lock_inv s" "queue_inv (s\<lparr>hazard := h\<rparr>) = queue_inv s"
  "exit_inv (s\<lparr>hazard := h\<rparr>) = exit_inv s"
  by (simp_all add: lock_inv_def queue_inv_def exit_inv_def)

lemma acquire_eq: "acquire t s = Some u \<longleftrightarrow> pool_lock s = None \<and> u = s\<lparr>pool_lock := Some t\<rparr>"
  by (auto simp: acquire_def)

lemma lock_inv_give_up:
  assumes "lock_inv s" and "wpc_of s k = WCheck b"
  shows "lock_inv (give_up k b s)"
proof -
  have "pool_lock s = Some (TWorker k)" using assms by (metis lock_inv_eq wcrit_simps(6))
  with assms(1) show ?thesis by (auto simp: lock_inv_eq)
qed

lemma lock_inv_others: "lock_inv s \<Longrightarrow> wcrit (wpc_of s k) \<Longrightarrow> wcrit (wpc_of s j) \<Longrightarrow> j = k"
  by (auto simp: lock_inv_eq)

lemma thrRun_lock_inv:
  assumes "lock_inv s" and "thrRun k w s = Some t"
  shows "lock_inv t"
  using assms(2)
proof (cases rule: thrRun_cases)
  case (lock u)
  with assms(1) show ?thesis by (auto intro: lock_inv_acquire)
next
  case take
  have "pool_lock s = Some (TWorker k)" using assms(1) take(1) by (metis lock_inv_eq wcrit_simps(5))
  then have "lock_inv (copy_task k s)" using assms(1) take(1) by (auto simp: lock_inv_eq)
  from signal_keeps [OF wake_lock_inv this] take show ?thesis by simp
next
  case (exit b)
  with assms(1) show ?thesis by (simp add: lock_inv_give_up)
next
  case (run x)
  with assms(1) have "lock_inv (set_wpc k WLock s)" by (simp add: lock_inv_same)
  with run show ?thesis by (simp add: taskRun_def set_wpc_commute lock_inv_def)
qed (use assms(1) in \<open>simp_all add: lock_inv_same lock_inv_release\<close>)

lemma thrRun_queue_inv:
  assumes "queue_inv s" and "thrRun k w s = Some t"
  shows "queue_inv t"
  using assms(2)
proof (cases rule: thrRun_cases)
  case take
  from assms(1) this(2) have "queue_inv (copy_task k s)"
    using ring.take_ok [of "queue s"] ring.take_size [of "queue s"] by (auto simp: queue_inv_def)
  from signal_keeps [OF wake_queue_inv this] take show ?thesis by simp
qed (use assms(1) in \<open>simp_all add: queue_inv_def acquire_eq release_def taskRun_def\<close>)

lemma thrRun_exit_inv:
  assumes "lock_inv s" and "exit_inv s" and "thrRun k w s = Some t"
  shows "exit_inv t"
  using assms(3)
proof (cases rule: thrRun_cases)
  case take
  have "wpc_of s j \<noteq> WTake" if "j \<noteq> k" for j
    using lock_inv_others [OF assms(1), of k j] take(1) that by auto
  moreover have "k < length (workers s)" using take(1) by (intro wpc_of_inside) simp
  ultimately have "exit_inv (copy_task k s)" using assms(2) by (auto simp: exit_inv_def)
  from signal_keeps [OF wake_exit_inv this] take show ?thesis by simp
qed (use assms(2) in \<open>auto simp: exit_inv_def acquire_eq release_def taskRun_def\<close>)

lemma thrRun_hand_inv:
  assumes "exit_inv s" and "hand_inv s" and "thrRun k w s = Some t"
  shows "hand_inv t"
  using assms(3)
proof (cases rule: thrRun_cases)
  case take
  then show ?thesis using signal_keeps [OF wake_hand_inv copy_task_hand_inv] assms(2) by blast
next
  case (unlock b)
  with assms(1) have "busy (wpc_of s k)" by (cases b) (auto simp: exit_inv_def busy_def)
  with unlock assms(2) show ?thesis
    by (simp add: set_wpc_hand_inv release_def set_wpc_commute busy_def)
qed (use assms(2) in \<open>auto simp: acquire_eq release_def set_wpc_commute busy_def
  intro: set_wpc_hand_inv give_up_hand_inv taskRun_hand_inv\<close>)

section \<open>Steps of \<^verbatim>\<open>main\<close>\<close>

lemma upt_snoc: "[1000..<1001 + i] = [1000..<1000 + i] @ [1000 + i :: nat]"
  using upt_Suc_append [of 1000 "1000 + i"] by simp

lemma main_step_cases:
  assumes "main_step s = Some t"
  obtains (create) "adder s = ACreate" "t = create_step s"
  | (lock) i where "adder s \<in> {AFor i, ARelock i}" "adder s = AFor i \<longrightarrow> i < 50"
      "pool_lock s = None" "t = s\<lparr>pool_lock := Some TMain, adder := ATest i\<rparr>"
  | (wait) i where "adder s = ATest i" "t = release (s\<lparr>adder := AWait i\<rparr>)"
  | (leave) i where "adder s = ATest i" "job_num (queue s) < max_job_num (queue s)" "t = s\<lparr>adder := APut i\<rparr>"
  | (put) i where "adder s = APut i" "t = put_task i s"
  | (signal) i where "adder s = ASignal i" "t = s\<lparr>adder := AFor (i + 1)\<rparr>"
  | (stop) i a where "adder s = AFor i \<and> \<not> i < 50 \<and> a = AShutdown \<or> adder s = ABroadcast \<and> a = AJoin
      \<or> adder s = AJoin \<and> a = ADestroy \<or> adder s = AReturn \<and> a = AExit" "t = s\<lparr>adder := a\<rparr>"
  | (shut) "adder s = AShutdown" "t = s\<lparr>shutdown := True, adder := ABroadcast\<rparr>"
  | (destroy) "adder s = ADestroy" "t = destroy_threadpool s"
proof (cases "adder s")
  case (AFor i)
  show ?thesis
  proof (cases "i < 50")
    case True
    with AFor assms show ?thesis by (intro lock [of i]) (auto simp: main_step_def addtask_def acquire_eq)
  qed (use AFor assms in \<open>intro stop [of i AShutdown], auto simp: main_step_def\<close>)
next
  case (ATest i)
  show ?thesis
  proof (cases "max_job_num (queue s) \<le> job_num (queue s)")
    case True
    with ATest assms show ?thesis by (intro wait [of i]) (auto simp: main_step_def addtask_test_def)
  next
    case False
    with ATest assms show ?thesis by (intro leave [of i]) (auto simp: main_step_def addtask_test_def)
  qed
next
  case (ARelock i)
  with assms show ?thesis by (intro lock [of i]) (auto simp: main_step_def addtask_def acquire_eq)
next
  case ABroadcast
  with assms show ?thesis by (intro stop [of 0 AJoin]) (simp_all add: main_step_def)
next
  case AJoin
  with assms show ?thesis by (intro stop [of 0 ADestroy]) (simp_all add: main_step_def)
next
  case AReturn
  with assms show ?thesis by (intro stop [of 0 AExit]) (simp_all add: main_step_def)
next
  case ACreate
  with assms show ?thesis by (intro create) (simp_all add: main_step_def)
next
  case (APut i)
  with assms show ?thesis by (intro put [of i]) (simp_all add: main_step_def)
next
  case (ASignal i)
  with assms show ?thesis by (intro signal [of i]) (simp_all add: main_step_def)
next
  case AShutdown
  with assms show ?thesis by (intro shut) (simp_all add: main_step_def)
next
  case ADestroy
  with assms show ?thesis by (intro destroy) (simp_all add: main_step_def)
qed (use assms in \<open>simp_all add: main_step_def\<close>)

lemma create_keeps:
  assumes "adder s = ACreate"
  shows "lock_inv s \<Longrightarrow> lock_inv (create_step s)" "queue_inv s \<Longrightarrow> queue_inv (create_step s)"
    "exit_inv s \<Longrightarrow> exit_inv (create_step s)" "hand_inv s \<Longrightarrow> hand_inv (create_step s)"
proof -
  let ?t = "s\<lparr>workers := workers s @ [\<lparr>wpc = WLock, mine = None\<rparr>]\<rparr>"
  have w: "wpc_of ?t k = (if k = length (workers s) then WLock else wpc_of s k)" for k
    by (simp add: wpc_of_def nth_append)
  have h: "hands ?t = hands s" by (simp add: hands_def hand_def busy_def)
  have m: "busy (wpc_of s k) \<Longrightarrow> mine (workers ?t ! k) = mine (workers s ! k)" for k
    by (simp add: wpc_of_def busy_def nth_append split: if_splits)
  have out: "wpc_of s (length (workers s)) = WExit" by (simp add: wpc_of_def)
  show "lock_inv s \<Longrightarrow> lock_inv (create_step s)"
    using w out assms by (auto simp: create_step_def lock_inv_eq) (metis wcrit_simps(8))+
  show "queue_inv s \<Longrightarrow> queue_inv (create_step s)"
    using assms by (auto simp: create_step_def queue_inv_def tally_def in_loop_def)
  show "exit_inv s \<Longrightarrow> exit_inv (create_step s)"
    using w by (auto simp: create_step_def exit_inv_def)
  show "hand_inv s \<Longrightarrow> hand_inv (create_step s)"
    using w h m by (auto simp: create_step_def hand_inv_def busy_def)
qed

lemma main_lock_inv:
  assumes "lock_inv s" and "main_step s = Some t"
  shows "lock_inv t"
  using assms(2)
proof (cases rule: main_step_cases)
  case create
  with assms(1) show ?thesis by (simp add: create_keeps)
qed (use assms(1) in \<open>auto simp: lock_inv_eq acquire_eq release_def put_task_def destroy_threadpool_def\<close>)

lemma main_queue_inv:
  assumes "queue_inv s" and "main_step s = Some t"
  shows "queue_inv t"
  using assms(2)
proof (cases rule: main_step_cases)
  case create
  with assms(1) show ?thesis by (simp add: create_keeps)
next
  case (put i)
  with assms(1) show ?thesis
    using upt_snoc ring.put_ok [of "queue s" "beginnum s"]
    by (auto simp: queue_inv_def put_task_def release_def tally_def in_loop_def)
qed (use assms(1) in \<open>auto simp: queue_inv_def acquire_eq release_def destroy_threadpool_def tally_def in_loop_def\<close>)

lemma main_exit_inv:
  assumes "exit_inv s" and "main_step s = Some t"
  shows "exit_inv t"
  using assms(2)
proof (cases rule: main_step_cases)
  case create
  with assms(1) show ?thesis by (simp add: create_keeps)
qed (use assms(1) in \<open>auto simp: exit_inv_def acquire_eq release_def put_task_def ring_put_def destroy_threadpool_def\<close>)

lemma main_hand_inv:
  assumes "hand_inv s" and "main_step s = Some t"
  shows "hand_inv t"
  using assms(2)
proof (cases rule: main_step_cases)
  case create
  with assms(1) show ?thesis by (simp add: create_keeps)
next
  case shut
  with assms(1) show ?thesis by (simp add: hand_inv_def)
qed (use assms(1) in \<open>auto simp: acquire_eq release_def put_task_def destroy_threadpool_def\<close>)

section \<open>What holds in every reachable state\<close>

definition pinv :: "pool \<Rightarrow> bool" where
  "pinv s \<longleftrightarrow> lock_inv s \<and> queue_inv s \<and> exit_inv s \<and> hand_inv s \<and> hazard s \<noteq> Some NoTask"

lemma acquire_fields: "acquire t s = Some u \<Longrightarrow> hazard u = hazard s"
  by (auto simp: acquire_eq)

lemma signal_hazard: "signal_empty w s = Some t \<Longrightarrow> hazard t = hazard s"
  by (erule signal_emptyE) simp_all

lemma thrRun_hazard:
  assumes "hand_inv s" and "hazard s = None" and "thrRun k w s = Some t"
  shows "hazard t \<noteq> Some NoTask"
  using assms(3)
proof (cases rule: thrRun_cases)
  case (hazard h)
  then show ?thesis using assms(1) by (auto simp: hand_inv_def busy_def)
next
  case take
  then show ?thesis using assms(2) signal_hazard by (fastforce simp: copy_task_def split_beta)
qed (use assms(2) in \<open>auto simp: acquire_eq release_def taskRun_def give_up_def\<close>)

lemma main_hazard: "hazard s = None \<Longrightarrow> main_step s = Some t \<Longrightarrow> hazard t \<noteq> Some NoTask"
  by (erule main_step_cases)
    (auto simp: create_step_def release_def put_task_def destroy_threadpool_def)

lemma pinv_step:
  assumes "pinv s" and "pexec a s = Some t"
  shows "pinv t"
proof (cases a)
  case Main
  with assms have "main_step s = Some t" "hazard s = None" by (auto simp: pexec_def split: if_splits)
  with assms(1) show ?thesis unfolding pinv_def
    by (auto intro: main_lock_inv main_queue_inv main_exit_inv main_hand_inv dest: main_hazard)
next
  case (Work k w)
  with assms have "thrRun k w s = Some t" "hazard s = None" by (auto simp: pexec_def split: if_splits)
  with assms(1) show ?thesis unfolding pinv_def
    by (auto intro: thrRun_lock_inv thrRun_queue_inv thrRun_exit_inv thrRun_hand_inv dest: thrRun_hazard)
next
  case (Spurious u)
  with assms have "t = wake u s" by (auto simp: pexec_def split: if_splits)
  with assms(1) show ?thesis
    using wake_lock_inv wake_queue_inv wake_exit_inv wake_hand_inv by (simp add: pinv_def wake_stable_def)
qed

lemma pinv_init: "pinv (create_threadpool 3 20)"
proof -
  have "wpc_of (create_threadpool 3 20) k = WExit" for k by (simp add: wpc_of_def create_threadpool_def)
  then show ?thesis
    by (simp add: pinv_def lock_inv_eq queue_inv_def exit_inv_def hand_inv_def)
      (simp add: create_threadpool_def ring_init_def ring_ok_def ring_abs_def tally_def in_loop_def hands_def busy_def)
qed

interpretation pool: invariant_system pinit pstep pinv
proof
  show "pinv s" if "pinit s" for s using that pinv_init by (simp add: pinit_def)
  show "pinv t" if "pinv s" "pstep s t" for s t using that by (auto elim: pstepE intro: pinv_step)
qed

section \<open>Two runs\<close>

lemma reach_run:
  "reach pinit pstep s \<Longrightarrow> pruns as s = Some t \<Longrightarrow> reach pinit pstep t"
  using pruns_reach by blast

lemmas run_simps = pexec_def main_step_def thrRun_def wpc_of_def set_wpc_def acquire_def release_def
  create_step_def addtask_def addtask_test_def put_task_def signal_empty_def nobody_waits_def waits_def

definition quiet :: "nat \<Rightarrow> pool \<Rightarrow> bool" where
  \<comment> \<open>\<open>n\<close> tasks were stored; \<^verbatim>\<open>main\<close> is at its loop; nothing is wrong so far\<close>
  "quiet n s \<longleftrightarrow> adder s = AFor n \<and> pool_lock s = None \<and> hazard s = None \<and> \<not> freed s
     \<and> \<not> shutdown s \<and> max_job_num (queue s) = 20 \<and> beginnum s = 1000 + n"

definition fresh :: worker where
  "fresh = \<lparr>wpc = WLock, mine = None\<rparr>"

lemma created: "\<exists>s. reach pinit pstep s \<and> quiet 0 s \<and> workers s = [fresh, fresh, fresh]
    \<and> job_num (queue s) = 0 \<and> ran s = []"
proof -
  have "\<exists>s. pruns [Main, Main, Main, Main] (create_threadpool 3 20) = Some s \<and> quiet 0 s
      \<and> workers s = [fresh, fresh, fresh] \<and> job_num (queue s) = 0 \<and> ran s = []"
    by (simp add: run_simps create_threadpool_def ring_init_def quiet_def fresh_def)
  moreover have "reach pinit pstep (create_threadpool 3 20)" by (rule reach_init) (simp add: pinit_def)
  ultimately show ?thesis by (blast intro: reach_run)
qed

definition waiting :: worker where
  "waiting = \<lparr>wpc = WWait, mine = None\<rparr>"

lemma starving:
  "n \<le> 20 \<Longrightarrow> \<exists>s. reach pinit pstep s \<and> quiet n s \<and> workers s = [waiting, waiting, waiting]
     \<and> job_num (queue s) = n"
proof (induction n)
  case 0
  obtain s where s: "reach pinit pstep s" "quiet 0 s" "workers s = [fresh, fresh, fresh]" "job_num (queue s) = 0"
    using created by blast
  then have "\<exists>t. pruns [Work 0 None, Work 0 None, Work 1 None, Work 1 None, Work 2 None, Work 2 None] s = Some t
      \<and> quiet 0 t \<and> workers t = [waiting, waiting, waiting] \<and> job_num (queue t) = 0"
    by (simp add: run_simps quiet_def fresh_def waiting_def)
  with s(1) show ?case by (blast intro: reach_run)
next
  case (Suc n)
  then obtain s where s: "reach pinit pstep s" "quiet n s" "workers s = [waiting, waiting, waiting]"
    "job_num (queue s) = n" by auto
  then have "\<exists>t. pruns [Main, Main, Main, Main] s = Some t
      \<and> quiet (Suc n) t \<and> workers t = [waiting, waiting, waiting] \<and> job_num (queue t) = Suc n"
    using Suc.prems by (simp add: run_simps quiet_def waiting_def ring_put_def)
  with s(1) show ?case by (blast intro: reach_run)
qed

lemma starved:
  "\<exists>s. reach pinit pstep s \<and> hazard s = None \<and> adder s = AWait 20
     \<and> workers s = [waiting, waiting, waiting] \<and> job_num (queue s) = 20"
proof -
  obtain s where s: "reach pinit pstep s" "quiet 20 s" "workers s = [waiting, waiting, waiting]"
    "job_num (queue s) = 20" using starving [of 20] by auto
  then have "\<exists>t. pruns [Main, Main] s = Some t \<and> hazard t = None \<and> adder t = AWait 20
      \<and> workers t = [waiting, waiting, waiting] \<and> job_num (queue t) = 20"
    by (simp add: run_simps quiet_def)
  with s(1) show ?thesis by (blast intro: reach_run)
qed

lemma draining:
  "n \<le> 50 \<Longrightarrow> \<exists>s m. reach pinit pstep s \<and> quiet n s
     \<and> workers s = [\<lparr>wpc = WLock, mine = m\<rparr>, fresh, fresh] \<and> job_num (queue s) = 0 \<and> ran s = [1000..<1000 + n]"
proof (induction n)
  case 0
  then show ?case using created by (auto simp: fresh_def)
next
  case (Suc n)
  then obtain s m where s: "reach pinit pstep s" "quiet n s" "workers s = [\<lparr>wpc = WLock, mine = m\<rparr>, fresh, fresh]"
    "job_num (queue s) = 0" "ran s = [1000..<1000 + n]" by auto
  have q: "queue_inv s" using pool.reach_inv [OF s(1)] by (simp add: pinv_def)
  let ?q = "ring_put (1000 + n) (queue s)"
  have "fst (ring_take ?q) = 1000 + n" "job_num (snd (ring_take ?q)) = 0"
      "max_job_num (snd (ring_take ?q)) = 20" "max_job_num ?q = 20" "job_num ?q = 1"
    using ring.put_ok [of "queue s" "1000 + n"] ring.take_ok [of ?q] q s(4)
    by (auto simp: queue_inv_def ring_abs_def) (simp_all add: ring_put_def ring_take_def)
  then have "\<exists>t. pruns [Main, Main, Main, Main, Work 0 None, Work 0 None, Work 0 None, Work 0 None, Work 0 None] s = Some t
      \<and> quiet (Suc n) t \<and> workers t = [\<lparr>wpc = WLock, mine = Some (1000 + n)\<rparr>, fresh, fresh]
      \<and> job_num (queue t) = 0 \<and> ran t = [1000..<1000 + Suc n]"
    using Suc.prems s by (simp add: run_simps quiet_def fresh_def copy_task_def taskRun_def split_beta upt_snoc)
  with s(1) show ?case by (blast intro: reach_run)
qed

lemma drained:
  "\<exists>s. reach pinit pstep s \<and> hazard s = Some DestroyedInUse \<and> shutdown s
     \<and> map wpc (workers s) = [WWait, WWait, WWait] \<and> ran s = [1000..<1000 + 50]"
proof -
  obtain s m xs where s: "reach pinit pstep s" "quiet 50 s" "workers s = [\<lparr>wpc = WLock, mine = m\<rparr>, fresh, fresh]"
    "job_num (queue s) = 0" "ran s = xs" and xs: "xs = [1000..<1000 + 50]"
    using draining [OF order_refl] by blast
  have "\<exists>t. pruns [Work 0 None, Work 0 None, Work 1 None, Work 1 None, Work 2 None, Work 2 None,
        Main, Main, Main, Main, Main] s = Some t
      \<and> hazard t = Some DestroyedInUse \<and> shutdown t \<and> map wpc (workers t) = [WWait, WWait, WWait]
      \<and> ran t = xs"
    using s by (simp add: run_simps quiet_def fresh_def destroy_threadpool_def)
  then show ?thesis unfolding xs [symmetric]
    by (elim exE conjE) (rule exI, intro conjI, erule reach_run [OF s(1)], assumption+)
qed

section \<open>Properties\<close>

text \<open>C7: the task queue of the pool is a bounded first-in first-out queue, in every interleaving of
  \<^verbatim>\<open>main\<close> and the workers: the tasks are numbered 1000, 1001, ... in the order \<^verbatim>\<open>main\<close> stores them, the
  workers copy them out in that order, what is between is the contents of the ring, at most 20,
  and no more than 50 tasks are ever stored.\<close>

theorem pool_fifo:
  assumes "reach pinit pstep s"
  shows "taken s @ ring_abs (queue s) = [1000..<1000 + length (added s)]
     \<and> job_num (queue s) = length (ring_abs (queue s)) \<and> length (ring_abs (queue s)) \<le> 20
     \<and> length (added s) \<le> 50"
proof -
  have q: "queue_inv s" using pool.reach_inv [OF assms] by (simp add: pinv_def)
  have t: "in_loop a \<Longrightarrow> tally a \<le> 50" for a by (cases a) (simp_all add: in_loop_def tally_def)
  from q ring.size_abs [of "queue s"] t [of "adder s"] show ?thesis by (simp add: queue_inv_def)
qed

theorem pool_fifo_witness:
  "\<exists>s :: pool. job_num (queue s) = 20 \<and> length (ring_abs (queue s)) = 20"
proof -
  obtain s where "reach pinit pstep s" "job_num (queue s) = 20" using starved by blast
  then show ?thesis using pool_fifo [of s] by (intro exI [of _ s]) simp
qed

text \<open>The mutex does its work: in every reachable state at most one thread is between a lock and the
  next unlock, and it is the one recorded as the owner.\<close>

theorem pool_mutual_exclusion:
  assumes "reach pinit pstep s" and "critical s t" and "critical s u"
  shows "t = u \<and> pool_lock s = Some t"
  using pool.reach_inv [OF assms(1)] assms(2,3) by (simp add: pinv_def lock_inv_def)

theorem pool_mutual_exclusion_witness:
  "\<exists>s. critical s TMain \<and> pool_lock s = Some TMain"
proof -
  obtain s where s: "reach pinit pstep s" "quiet 0 s" using created by blast
  then have "\<exists>t. pruns [Main] s = Some t \<and> critical t TMain"
    by (simp add: run_simps quiet_def critical_def)
  with s(1) obtain t where "reach pinit pstep t" "critical t TMain" by (blast intro: reach_run)
  then show ?thesis using pool_mutual_exclusion by blast
qed

text \<open>C10: no task is run twice and none disappears before the shutdown: the tasks copied out are the tasks
  run, the tasks in the hands of workers and the tasks thrown away by workers that saw \<^verbatim>\<open>shutdown\<close>, each
  exactly once; and no worker ever calls \<^verbatim>\<open>task_func\<close> of a structure it has not filled.\<close>

theorem pool_runs_each_task_once:
  assumes "reach pinit pstep s"
  shows "mset (taken s) = mset (ran s) + mset (dropped s) + hands s \<and> distinct (ran s @ dropped s)
     \<and> (shutdown s \<or> dropped s = []) \<and> hazard s \<noteq> Some NoTask"
proof -
  have p: "pinv s" by (rule pool.reach_inv [OF assms])
  then have m: "mset (taken s) = mset (ran s @ dropped s) + hands s" by (simp add: pinv_def hand_inv_def)
  have "distinct (taken s @ ring_abs (queue s))" using p by (simp add: pinv_def queue_inv_def)
  then have "distinct (taken s)" by simp
  then have "distinct (ran s @ dropped s)"
    by (metis distinct_append ex_mset m mset_append mset_eq_imp_distinct_iff)
  with p show ?thesis by (simp add: pinv_def hand_inv_def)
qed

theorem pool_runs_each_task_once_witness:
  "\<exists>s :: pool. ran s = [1000..<1000 + 50] \<and> distinct (ran s @ dropped s)"
proof -
  obtain s where "reach pinit pstep s" "ran s = [1000..<1000 + 50]" using drained by blast
  then show ?thesis using pool_runs_each_task_once by blast
qed

text \<open>C16: the pool refines a queue: a step leaves the contents alone, or is the store of the next number
  into a queue with room, or takes out the oldest task.\<close>

theorem pool_refines_queue:
  assumes "reach pinit pstep s" and "pstep s t"
  shows "ring_abs (queue t) = ring_abs (queue s)
     \<or> length (ring_abs (queue s)) < 20 \<and> ring_abs (queue t) = ring_abs (queue s) @ [beginnum s]
     \<or> (\<exists>x. ring_abs (queue s) = x # ring_abs (queue t) \<and> taken t = taken s @ [x])"
proof -
  have q: "queue_inv s" using pool.reach_inv [OF assms(1)] by (simp add: pinv_def)
  from assms(2) obtain a where a: "pexec a s = Some t" by (auto elim: pstepE)
  consider (w) k w where "thrRun k w s = Some t" | (m) "main_step s = Some t" | (s) u where "t = wake u s"
    using a by (auto simp: pexec_def split: if_splits paction.splits)
  then show ?thesis
  proof cases
    case (w k w)
    then show ?thesis
    proof (cases rule: thrRun_cases)
      case take
      then have "queue t = snd (ring_take (queue s))" "taken t = taken s @ [fst (ring_take (queue s))]"
        by (auto elim!: signal_emptyE)
      with q take ring.take_ok [of "queue s"] show ?thesis by (simp add: queue_inv_def)
    qed (simp_all add: acquire_eq release_def taskRun_def)
  next
    case m
    then show ?thesis
    proof (cases rule: main_step_cases)
      case (put i)
      with q ring.put_ok [of "queue s" "beginnum s"] ring.size_abs [of "queue s"] show ?thesis
        by (simp add: queue_inv_def put_task_def release_def)
    qed (simp_all add: create_step_def release_def destroy_threadpool_def)
  next
    case (s u)
    then show ?thesis by simp
  qed
qed

theorem pool_refines_queue_witness:
  "\<exists>s t. pstep s t \<and> adder s = APut 0 \<and>
     (ring_abs (queue t) = ring_abs (queue s)
     \<or> length (ring_abs (queue s)) < 20 \<and> ring_abs (queue t) = ring_abs (queue s) @ [beginnum s]
     \<or> (\<exists>x. ring_abs (queue s) = x # ring_abs (queue t) \<and> taken t = taken s @ [x]))"
proof -
  obtain s where s: "reach pinit pstep s" "quiet 0 s" "job_num (queue s) = 0" using created by blast
  then have "\<exists>t. pruns [Main, Main] s = Some t \<and> adder t = APut 0 \<and> hazard t = None"
    by (simp add: run_simps quiet_def)
  with s(1) obtain t where t: "reach pinit pstep t" "adder t = APut 0" "hazard t = None"
    by (blast intro: reach_run)
  then have "pstep t (put_task 0 t)"
    by (intro pstep.intros [of Main]) (simp add: pexec_def main_step_def)
  with t show ?thesis using pool_refines_queue by blast
qed

text \<open>C28: the pool can come to a standstill with work to do. All threads wait on \<^verbatim>\<open>empty_task\<close> and \<^verbatim>\<open>addtask\<close> signals
  \<^verbatim>\<open>not_empty_task\<close>: if the workers block before the first task is stored, \<^verbatim>\<open>main\<close> fills the queue and
  blocks as well, and from then on nothing but a spurious wake-up can happen.\<close>

theorem pool_lost_wakeup:
  "\<exists>s. reach pinit pstep s \<and> job_num (queue s) = 20 \<and> hazard s = None
     \<and> {a. pexec a s \<noteq> None} = Spurious ` {TMain, TWorker 0, TWorker 1, TWorker 2}"
proof -
  obtain s where s: "reach pinit pstep s" "hazard s = None" "adder s = AWait 20"
    "workers s = [waiting, waiting, waiting]" "job_num (queue s) = 20" using starved by blast
  have pcs: "wpc_of s k = (if k < 3 then WWait else WExit)" for k
    using s(4) by (auto simp: wpc_of_def waiting_def less_Suc_eq numeral_3_eq_3)
  then have "thrRun k w s = None" for k w by (simp add: thrRun_def)
  with s have "pexec a s \<noteq> None \<longleftrightarrow> (\<exists>u. a = Spurious u \<and> waits s u)" for a
    by (cases a) (auto simp: pexec_def main_step_def)
  moreover have "waits s u \<longleftrightarrow> u \<in> {TMain, TWorker 0, TWorker 1, TWorker 2}" for u
    using s(3) pcs by (cases u) (auto simp: waits_def)
  ultimately have "{a. pexec a s \<noteq> None} = Spurious ` {TMain, TWorker 0, TWorker 1, TWorker 2}" by blast
  with s show ?thesis by blast
qed

text \<open>\<^verbatim>\<open>destroy_threadpool\<close> does not stop the workers: its broadcast goes to a condition nobody waits on and its
  joins are of detached threads. In some run all 50 tasks are done, the three workers block for
  more, and \<^verbatim>\<open>main\<close> destroys the condition they are blocked on.\<close>

theorem pool_destroyed_in_use:
  "\<exists>s. reach pinit pstep s \<and> hazard s = Some DestroyedInUse \<and> shutdown s
     \<and> map wpc (workers s) = [WWait, WWait, WWait] \<and> ran s = [1000..<1000 + 50]"
  by (rule drained)

end
