(* ===== verification/SocketDemos.thy ===== *)
theory SocketDemos
  imports Sockets
begin

text \<open>
  The clients and servers without a multiplexer: \<^verbatim>\<open>socketCon.c\<close>, \<^verbatim>\<open>socketService.c\<close> of \<^verbatim>\<open>linux-network\<close>,
  and \<^verbatim>\<open>UdpClient.c\<close>, \<^verbatim>\<open>UdpService.c\<close>, \<^verbatim>\<open>localClient.c\<close>, \<^verbatim>\<open>localService.c\<close> of \<^verbatim>\<open>linux-UDPandThreadPool\<close>.
  A \<^verbatim>\<open>read\<close> that fails leaves -1 in an \<^verbatim>\<open>int\<close> which the UDP and local programs then pass as a size: that
  is an access outside the buffer.
\<close>

section \<open>\<^verbatim>\<open>socketCon.c\<close> and \<^verbatim>\<open>socketService.c\<close>\<close>

definition con_main :: "int prog" where
  "con_main =
     bnd (sys_int (KSocket AF_INET SOCK_STREAM)) (\<lambda>socketfd.
       if socketfd = -1 then thn (perror (''socket fail'' @ [LF])) (ret (-1))
       else
     bnd (sys_int (KConnect socketfd (Inet INADDR_ANY (htons 8083)))) (\<lambda>res.
       if res = -1 then thn (perror (''connect fail'' @ [LF])) (ret (-1))
       else
         let buf = fill_buf (zbuf 1024) ''sgyt 1024'' in
     bnd (sys_send socketfd buf) (\<lambda>res.
     bnd (c_str buf) (\<lambda>str.
     thn (printf (''res = [%d],buf = [%s]'' @ [LF]) [AI res, AS str])
    (bnd (sys_recv socketfd 1024) (\<lambda>r.
     bnd (c_str (rbuf (zbuf 1024) r)) (\<lambda>str2.
     thn (printf (''res = [%d],buf2 = [%s]'' @ [LF]) [AI (rlen r), AS str2])
    (thn (printf (''this is wait,now is start'' @ [LF]) [])
    (bnd (sys_int (KClose socketfd)) (\<lambda>_. ret 0))))))))))"

definition greeting :: string where
  \<comment> \<open>\<^verbatim>\<open>buf2[1204]\<close>\<close>
  "greeting = fill_buf (zbuf 1204) ''connect is ok''"

definition service_body :: "int \<Rightarrow> string \<Rightarrow> (string + unit) prog" where
  \<comment> \<open>\<^verbatim>\<open>buf\<close> is cleared before the loop only\<close>
  "service_body acpfd buf =
     bnd (sys_read acpfd 1024) (\<lambda>r.
       if rlen r = 0 then ret (Inr ())
       else
         bnd (c_str (rbuf buf r)) (\<lambda>str.
         thn (printf (''readres = [%d],buf = [%s]'' @ [LF]) [AI (rlen r), AS str])
        (bnd (sys_int (KSleep 10)) (\<lambda>_.
         bnd (sys_send acpfd greeting) (\<lambda>_. ret (Inl (rbuf buf r)))))))"

definition service_main :: "int prog" where
  "service_main =
     bnd (sys_int (KSocket AF_INET SOCK_STREAM)) (\<lambda>socketfd.
       if socketfd = -1 then thn (perror (''socket fail'' @ [LF])) (ret (-1))
       else
     bnd (sys_int (KBind socketfd (Inet (addr_of_octets 127 0 0 1) (htons 8083)))) (\<lambda>res.
       if res < 0 then thn (perror (''bind error'' @ [LF])) (ret (-1))
       else
     bnd (sys_int (KListen socketfd 256)) (\<lambda>res.
       if res = -1 then thn (perror (''listen error'' @ [LF])) (ret (-1))
       else
     bnd (sys_accept socketfd) (\<lambda>(acpfd, sa).
     thn (if acpfd = -1 then perror (''accept error'' @ [LF]) else ret ())
    (thn (printf ''client ip = [%s],client port=[%d]'' (client_args sa))
    (thn (printf (''accept is wait,now is start'' @ [LF]) [])
    (bnd (forever (service_body acpfd) (zbuf 1024)) (\<lambda>_.
     bnd (sys_int (KClose acpfd)) (\<lambda>_.
     bnd (sys_int (KClose socketfd)) (\<lambda>_. ret 0))))))))))"

section \<open>\<^verbatim>\<open>UdpClient.c\<close> and \<^verbatim>\<open>UdpService.c\<close>\<close>

definition udp_client_body :: "int \<Rightarrow> unit \<Rightarrow> (unit + int) prog" where
  \<comment> \<open>sends its whole buffer, whatever was typed, and waits for as many bytes as were typed\<close>
  "udp_client_body ftd _ =
     bnd (sys_read 0 1024) (\<lambda>r.
     bnd (sys_sendto ftd (rbuf (zbuf 1024) r) (Inet INADDR_ANY (htons 8888))) (\<lambda>_.
       if rlen r < 0 then fault_p OutOfBounds
       else
         bnd (sys_recvfrom ftd (nat (rlen r))) (\<lambda>x.
         let r = map_option fst x in
         bnd (c_str (rbuf (zbuf 1024) r)) (\<lambda>str.
         thn (printf ''readres = [%d],buf = [%s]'' [AI (rlen r), AS str]) (ret (Inl ()))))))"

definition udp_client_main :: "int prog" where
  "udp_client_main =
     bnd (sys_int (KSocket AF_INET SOCK_DGRAM)) (\<lambda>ftd.
       if ftd < 0 then thn (perror (''socket error'' @ [LF])) (ret (-1))
       else forever (udp_client_body ftd) ())"

definition udp_service_body :: "int \<Rightarrow> unit \<Rightarrow> (unit + int) prog" where
  "udp_service_body ftd _ =
     bnd (sys_recvfrom ftd 1024) (\<lambda>x.
     let r = map_option fst x; sa = map_option snd x; buf = rbuf (zbuf 1024) r in
     bnd (c_str buf) (\<lambda>str.
     thn (printf (''client ip = [%s],port = [%d],readres = [%d],str = [%s]'' @ [LF])
            (client_args sa @ [AI (rlen r), AS str]))
       (if rlen r = 0 then ret (Inl ())
        else if rlen r < 0 then fault_p OutOfBounds  \<comment> \<open>\<^verbatim>\<open>sendto(ftd,buf,(size_t)-1,...)\<close>\<close>
        else
          bnd (sys_sendto ftd (take (nat (rlen r)) (upper_prefix (nat (rlen r)) buf))
                 (case sa of Some a \<Rightarrow> a | None \<Rightarrow> Inet 0 0)) (\<lambda>_. ret (Inl ())))))"

definition udp_service_main :: "int prog" where
  "udp_service_main =
     bnd (sys_int (KSocket AF_INET SOCK_DGRAM)) (\<lambda>ftd.
       if ftd < 0 then thn (perror (''socket error'' @ [LF])) (ret (-1))
       else
     bnd (sys_int (KSetsockopt ftd 0)) (\<lambda>res.
       if res < 0 then thn (perror (''sockopt error'' @ [LF])) (ret (-1))
       else
     bnd (sys_int (KBind ftd (Inet INADDR_ANY (htons 8888)))) (\<lambda>res.
       if res < 0 then thn (perror (''bind error'' @ [LF])) (ret (-1))
       else forever (udp_service_body ftd) ())))"

section \<open>\<^verbatim>\<open>localClient.c\<close> and \<^verbatim>\<open>localService.c\<close>\<close>

definition local_client_body :: "int \<Rightarrow> unit \<Rightarrow> (unit + unit) prog" where
  "local_client_body cfd _ =
     bnd (sys_read 0 1024) (\<lambda>r.
       if rlen r < 0 then fault_p OutOfBounds
       else
         bnd (sys_write cfd (take (nat (rlen r)) (rbuf (zbuf 1024) r))) (\<lambda>_.
         bnd (sys_read cfd 1024) (\<lambda>r.
           if rlen r < 0 then thn (printf ''this connect is close'' []) (ret (Inr ()))
           else
             bnd (c_str (rbuf (zbuf 1024) r)) (\<lambda>str.
             thn (printf (''readres = [%d],buf = [%s]'' @ [LF]) [AI (rlen r), AS str]) (ret (Inl ()))))))"

definition local_client_main :: "int prog" where
  \<comment> \<open>what is closed at the end is the result of \<^verbatim>\<open>connect\<close>, not the socket\<close>
  "local_client_main =
     bnd (sys_int (KSocket AF_UNIX SOCK_STREAM)) (\<lambda>cfd.
     bnd (sys_int (KAccess ''./client.sock'')) (\<lambda>check.
     bnd (if check \<noteq> -1 then sys_int (KUnlink ''./client.sock'') else ret 0) (\<lambda>res.
       if res < 0 then thn (perror (''unlink is error'' @ [LF])) (ret (-1))
       else
     bnd (sys_int (KBind cfd (UnixPath ''./client.sock''))) (\<lambda>res.
       if res < 0 then thn (perror (''bind error'' @ [LF])) (ret (-1))
       else
     bnd (sys_int (KConnect cfd (UnixPath ''./service.sock''))) (\<lambda>afd.
       if afd < 0 then thn (perror (''connect error'' @ [LF])) (ret (-1))
       else
     bnd (forever (local_client_body cfd) ()) (\<lambda>_.
     bnd (sys_int (KClose afd)) (\<lambda>_. ret 0)))))))"

definition local_service_body :: "int \<Rightarrow> unit \<Rightarrow> (unit + unit) prog" where
  "local_service_body afd _ =
     bnd (sys_read afd 1024) (\<lambda>r.
     let buf = rbuf (zbuf 1024) r in
     bnd (c_str buf) (\<lambda>str.
     thn (printf ''readres = [%d],buf = [%s]'' [AI (rlen r), AS str])
       (if rlen r < 0 then thn (printf ''this connect is close'' []) (ret (Inr ()))
        else
          bnd (sys_write afd (take (nat (rlen r)) (upper_prefix (nat (rlen r)) buf))) (\<lambda>_.
          ret (Inl ())))))"

definition sun_path :: "saddr option \<Rightarrow> string" where
  \<comment> \<open>of a \<^verbatim>\<open>sockaddr_un\<close> that was zeroed before the kernel filled it\<close>
  "sun_path sa = (case sa of Some (UnixPath p) \<Rightarrow> p | _ \<Rightarrow> [])"

definition local_service_main :: "int prog" where
  "local_service_main =
     bnd (sys_int (KSocket AF_UNIX SOCK_STREAM)) (\<lambda>sfd.
     bnd (sys_int (KUnlink ''./service.sock'')) (\<lambda>res.
       if res < 0 then thn (perror (''unlink is error'' @ [LF])) (ret (-1))
       else
     bnd (sys_int (KBind sfd (UnixPath ''./service.sock''))) (\<lambda>res.
       if res < 0 then thn (perror (''bind error'' @ [LF])) (ret (-1))
       else
     bnd (sys_int (KListen sfd 256)) (\<lambda>res.
       if res < 0 then thn (perror (''listen error'' @ [LF])) (ret (-1))
       else
     bnd (sys_accept sfd) (\<lambda>(afd, sa).
       if afd \<le> 0 then thn (perror (''accept error'' @ [LF])) (ret (-1))
       else
     thn (printf (''client->[%s]'' @ [LF]) [AS (sun_path sa)])
    (bnd (forever (local_service_body afd) ()) (\<lambda>_.
     bnd (sys_int (KClose afd)) (\<lambda>_. ret 0))))))))"

lemma eats_round_demos [tame_intros]:
  "eats_round (service_body fd buf)" "eats_round (udp_client_body fd u)"
  "eats_round (udp_service_body fd u)" "eats_round (local_client_body fd v)"
  "eats_round (local_service_body fd v)"
  unfolding service_body_def udp_client_body_def udp_service_body_def local_client_body_def
    local_service_body_def Let_def
  by (intro eats_sys_round tame_intros; simp)+

lemma shout_bytes:
  "length d \<le> n \<Longrightarrow> take (length d) (upper_prefix (length d) (fill_buf (zbuf n) d)) = map toupper_c d"
  by (simp add: upper_prefix_eq fill_buf_def)

section \<open>The UDP service answers the sender\<close>

text \<open>The datagram last received and not yet answered.\<close>

definition udp_upd :: "(int \<times> string \<times> saddr) option \<Rightarrow> event \<Rightarrow> (int \<times> string \<times> saddr) option" where
  "udp_upd q e = (case e of
      Ev c r \<Rightarrow> (case c of
          KRecvfrom f n \<Rightarrow> (case r of RFrom d a \<Rightarrow> Some (f, d, a) | _ \<Rightarrow> None)
        | KSendto f bs a \<Rightarrow> None
        | _ \<Rightarrow> q)
    | _ \<Rightarrow> q)"

definition udp_chk :: "(int \<times> string \<times> saddr) option \<Rightarrow> event \<Rightarrow> bool" where
  "udp_chk q e = (case e of
      Ev c r \<Rightarrow> (case c of
          KRecvfrom f n \<Rightarrow> (case q of None \<Rightarrow> True | Some (f', d, a) \<Rightarrow> d = [])
        | KSendto f bs a \<Rightarrow> (case q of Some (f', d, a') \<Rightarrow> f = f' \<and> a = a' \<and> d \<noteq> [] \<and> bs = map toupper_c d
                                    | None \<Rightarrow> False)
        | _ \<Rightarrow> True)
    | _ \<Rightarrow> True)"

abbreviation udp_ok :: "world \<Rightarrow> bool" where
  "udp_ok w \<equiv> safe_trace udp_chk udp_upd None (trace w)"

definition answered :: "world \<Rightarrow> bool" where
  \<comment> \<open>no datagram with contents waits for its answer\<close>
  "answered w \<longleftrightarrow> (case foldl udp_upd None (trace w) of None \<Rightarrow> True | Some (f, d, a) \<Rightarrow> d = [])"

text \<open>\<^verbatim>\<open>UdpService.c\<close> answers every datagram that is not empty with its upper-case form, sent to the
  address it came from, once and before it receives the next; it sends nothing else.\<close>

theorem udp_service_answers:
  "safe_trace udp_chk udp_upd None (trace (snd (udp_service_main (start s))))"
proof -
  have loop: "wp (forever (udp_service_body ftd) ()) (\<lambda>_. udp_ok) (\<lambda>_. udp_ok) w"
    if "udp_ok w \<and> answered w" for ftd w
  proof (rule wp_forever [where I = "\<lambda>_ w. udp_ok w \<and> answered w", OF eats_round_demos(3) that], goal_cases)
    case (1 u w1)
    then show ?case
      unfolding udp_service_body_def Let_def answered_def
      by (intro wp_intros) (auto simp: udp_chk_def udp_upd_def shout_bytes split: option.splits)
  qed
  have "wp udp_service_main (\<lambda>_. udp_ok) (\<lambda>_. udp_ok) (start s)"
    unfolding udp_service_main_def
    by (intro wp_intros loop) (auto simp: udp_chk_def udp_upd_def answered_def)
  then show ?thesis by (auto simp: wp_def split: prod.splits outcome.splits)
qed

section \<open>The local service\<close>

definition local_chk :: "echo_state \<Rightarrow> event \<Rightarrow> bool" where
  "local_chk q e = (case e of
      Ev c r \<Rightarrow> (case c of
          KWrite f bs \<Rightarrow> (case fst q of (f', Some d) \<Rightarrow> f = f' \<and> bs = map toupper_c d | _ \<Rightarrow> False)
        | KClose f \<Rightarrow> fst q = (f, None)
        | _ \<Rightarrow> True)
    | _ \<Rightarrow> True)"

abbreviation local_ok :: "world \<Rightarrow> bool" where
  "local_ok w \<equiv> safe_trace local_chk echo_upd echo_init (trace w)"

text \<open>\<^verbatim>\<open>localService.c\<close> answers each message on its connection with exactly its upper-case form. It closes the
  connection only when a \<^verbatim>\<open>read\<close> failed: an end of file is answered with a write of no bytes and read again.\<close>

theorem local_service_answers:
  "safe_trace local_chk echo_upd echo_init (trace (snd (local_service_main (start s))))"
proof -
  have loop: "wp (forever (local_service_body afd) ())
      (\<lambda>_ w. local_ok w \<and> fst (echo_now w) = (afd, None)) (\<lambda>_. local_ok) w"
    if "local_ok w" for afd w
  proof (rule wp_forever [where I = "\<lambda>_. local_ok", OF eats_round_demos(5) that], goal_cases)
    case (1 u w1)
    then show ?case
      unfolding local_service_body_def Let_def
      by (intro wp_intros) (auto simp: local_chk_def shout_bytes split: option.splits)
  qed
  have "wp local_service_main (\<lambda>_. local_ok) (\<lambda>_. local_ok) (start s)"
    unfolding local_service_main_def
    by (intro wp_intros wp_conseq [OF loop]) (auto simp: local_chk_def echo_upd_def)
  then show ?thesis by (auto simp: wp_def split: prod.splits outcome.splits)
qed

section \<open>The greeting service\<close>

definition greet_upd :: "int option \<Rightarrow> event \<Rightarrow> int option" where
  \<comment> \<open>the connection that is owed a greeting\<close>
  "greet_upd q e = (case e of
      Ev c r \<Rightarrow> (case c of
          KRead f n \<Rightarrow> if r = RData [] then None else Some f
        | KSend f bs \<Rightarrow> None
        | _ \<Rightarrow> q)
    | _ \<Rightarrow> q)"

definition greet_chk :: "int option \<Rightarrow> event \<Rightarrow> bool" where
  "greet_chk q e = (case e of
      Ev c r \<Rightarrow> (case c of
          KRead f n \<Rightarrow> q = None
        | KSend f bs \<Rightarrow> q = Some f \<and> bs = greeting
        | KClose f \<Rightarrow> q = None
        | _ \<Rightarrow> True)
    | _ \<Rightarrow> True)"

abbreviation greet_ok :: "world \<Rightarrow> bool" where
  "greet_ok w \<equiv> safe_trace greet_chk greet_upd None (trace w)"

abbreviation owed :: "world \<Rightarrow> int option" where
  "owed w \<equiv> foldl greet_upd None (trace w)"

text \<open>\<^verbatim>\<open>socketService.c\<close> answers every \<^verbatim>\<open>read\<close> that did not meet the end of file, failed ones included, with the
  same 1204 bytes, once, before it reads again; after an end of file it sends nothing and leaves.\<close>

theorem service_greets:
  "safe_trace greet_chk greet_upd None (trace (snd (service_main (start s))))"
proof -
  have loop: "wp (forever (service_body fd) buf) (\<lambda>_ w. greet_ok w \<and> owed w = None) (\<lambda>_. greet_ok) w"
    if "greet_ok w \<and> owed w = None" for fd buf w
  proof (rule wp_forever [where I = "\<lambda>_ w. greet_ok w \<and> owed w = None", OF eats_round_demos(1) that], goal_cases)
    case (1 b w1)
    then show ?case
      unfolding service_body_def
      by (intro wp_intros) (auto simp: greet_chk_def greet_upd_def)
  qed
  have "wp service_main (\<lambda>_. greet_ok) (\<lambda>_. greet_ok) (start s)"
    unfolding service_main_def
    by (intro wp_intros wp_conseq [OF loop]) (auto simp: greet_chk_def greet_upd_def)
  then show ?thesis by (auto simp: wp_def split: prod.splits outcome.splits)
qed

end
