(* ===== verification/LibeventServer.thy ===== *)
theory LibeventServer
  imports Sockets Slots
begin

text \<open>
  \<^verbatim>\<open>libevent/serverEvent.c\<close>: an echo server whose connections are events of libevent. The library is
  vendored and not modelled; what the program relies on is: an \<^verbatim>\<open>event_new\<close> makes a new event,
  \<^verbatim>\<open>event_add\<close> makes it pending or fails, \<^verbatim>\<open>event_del\<close> makes it not pending, and \<^verbatim>\<open>event_base_dispatch\<close>
  calls, again and again, the callback of some pending event, with its descriptor, until it
  returns. Which event is next, and whether \<^verbatim>\<open>event_add\<close> succeeds, is up to the script.
\<close>

section \<open>Events\<close>

datatype evcb = Readcb | Conncb

record evt =
  ev_fd :: int
  ev_cb :: evcb
  pending :: bool

section \<open>The client table\<close>

record sclient =
  sflag :: int
  sftd :: int
  sev :: "nat option"     \<comment> \<open>\<^verbatim>\<open>struct event *ev\<close>, \<open>None\<close> for a null pointer\<close>

record evserver =
  sclients :: "sclient list"
  evts :: "evt list"

definition initCli :: "sclient list \<Rightarrow> sclient list" where
  "initCli client = map (\<lambda>c. c\<lparr>sflag := -1\<rparr>) client"

definition find_cli :: "sclient list \<Rightarrow> nat option" where
  "find_cli client = scan_slots (\<lambda>c. sflag c = -1) 0 client"

definition getCli :: "sclient list \<Rightarrow> int" where
  "getCli client = index_or (find_cli client)"

definition getCliByFd :: "sclient list \<Rightarrow> int \<Rightarrow> int" where
  "getCliByFd client fd = index_or (scan_slots (\<lambda>c. sftd c = fd) 0 client)"

interpretation cli: slot_table "\<lambda>c. sflag c = -1" find_cli
  unfolding find_cli_def by (rule scan_slot_table)

definition evserver_init :: evserver where
  "evserver_init = \<lparr>sclients = replicate 20 \<lparr>sflag = 0, sftd = 0, sev = None\<rparr>, evts = []\<rparr>"

section \<open>The calls to the library\<close>

definition event_new :: "int \<Rightarrow> evcb \<Rightarrow> evserver \<Rightarrow> nat \<times> evserver" where
  "event_new fd cb s = (length (evts s), s\<lparr>evts := evts s @ [\<lparr>ev_fd = fd, ev_cb = cb, pending = False\<rparr>]\<rparr>)"

definition set_pending :: "bool \<Rightarrow> nat \<Rightarrow> evserver \<Rightarrow> evserver" where
  "set_pending b k s = s\<lparr>evts := (evts s)[k := (evts s ! k)\<lparr>pending := b\<rparr>]\<rparr>"

definition event_add :: "nat \<Rightarrow> evserver \<Rightarrow> (int \<times> evserver) prog" where
  "event_add k s =
     bnd (sys_int (KApi ''event_add'' [AI (int k)])) (\<lambda>res.
     ret (res, if res < 0 then s else set_pending True k s))"

definition event_del :: "nat option \<Rightarrow> evserver \<Rightarrow> evserver prog" where
  "event_del ev s = (case ev of
      None \<Rightarrow> fault_p NullPointer
    | Some k \<Rightarrow> bnd (sys_int (KApi ''event_del'' [AI (int k)])) (\<lambda>_. ret (set_pending False k s)))"

section \<open>The callbacks\<close>

definition readcb :: "int \<Rightarrow> evserver \<Rightarrow> evserver prog" where
  "readcb fd s =
     bnd (sys_read fd 1024) (\<lambda>r.
       if rlen r \<le> 0 then
         thn (printf (''connect is close'' @ [LF]) [])
        (bnd (let evid = getCliByFd (sclients s) fd
              in if 0 < evid then bnd (slot_at (sclients s) evid) (\<lambda>c. event_del (sev c) s) else ret s) (\<lambda>s.
         bnd (sys_int (KClose fd)) (\<lambda>_. ret s)))
       else
         bnd (c_str (rbuf (zbuf 1024) r)) (\<lambda>str.
         thn (printf (''res = [%d],buf = [%s]'' @ [LF]) [AI (rlen r), AS str])
        (bnd (sys_write fd (rbuf (zbuf 1024) r)) (\<lambda>_. ret s))))"

definition conncb :: "int \<Rightarrow> evserver \<Rightarrow> evserver prog" where
  "conncb fd s =
     (let freeId = getCli (sclients s) in
      if freeId \<noteq> -1 then
        bnd (sys_accept fd) (\<lambda>(cfd, sa).
          if cfd < 0 then thn (perror (''accept error'' @ [LF])) (ret s)
          else
            thn (printf (''clinet ip = [%s],port = [%d]'' @ [LF]) (client_args sa))
           (case event_new cfd Readcb s of (ev, s) \<Rightarrow>
            bnd (event_add ev s) (\<lambda>(res, s).
              if res < 0 then thn (printf (''event_add error'' @ [LF]) []) (ret s)
              else
                bnd (slot_put (sclients s) freeId (\<lambda>_. \<lparr>sflag = 1, sftd = cfd, sev = Some ev\<rparr>)) (\<lambda>client.
                thn (printf (''array index = [%d]'' @ [LF]) [AI freeId])
                  (ret (s\<lparr>sclients := client\<rparr>))))))
      else ret s)"

definition run_event :: "evt \<Rightarrow> evserver \<Rightarrow> evserver prog" where
  "run_event e s = (case ev_cb e of Readcb \<Rightarrow> readcb (ev_fd e) s | Conncb \<Rightarrow> conncb (ev_fd e) s)"

section \<open>\<^verbatim>\<open>main\<close>\<close>

definition dispatch_body :: "evserver \<Rightarrow> (evserver + evserver) prog" where
  "dispatch_body s =
     bnd (sys_int (KApi ''event_base_dispatch'' [])) (\<lambda>k.
       if k < 0 then ret (Inr s)
       else if nat k < length (evts s) \<and> pending (evts s ! nat k) then
         bnd (run_event (evts s ! nat k) s) (\<lambda>s. ret (Inl s))
       else halt SBlocked)"

definition event_main :: "int prog" where
  \<comment> \<open>the result of \<^verbatim>\<open>socket\<close> is not checked; the base is freed before its event\<close>
  "event_main =
     (let s = evserver_init\<lparr>sclients := initCli (sclients evserver_init)\<rparr> in
     bnd (sys_int (KSocket AF_INET SOCK_STREAM)) (\<lambda>lfd.
     bnd (sys_int (KSetsockopt lfd 1)) (\<lambda>res.
       if res < 0 then thn (perror (''setsocketopt error'' @ [LF])) (ret (-1))
       else
     bnd (sys_int (KBind lfd (Inet INADDR_ANY (htons 8888)))) (\<lambda>res.
       if res < 0 then thn (perror (''bind error'' @ [LF])) (ret (-1))
       else
     bnd (sys_int (KListen lfd 256)) (\<lambda>res.
       if res < 0 then thn (perror (''listen error'' @ [LF])) (ret (-1))
       else
     (case event_new lfd Conncb s of (ev, s) \<Rightarrow>
     bnd (event_add ev s) (\<lambda>(res, s).
       if res < 0 then thn (perror (''event_add error'' @ [LF])) (ret (-1))
       else
     bnd (forever dispatch_body s) (\<lambda>s.
     bnd (sys_int (KApi ''event_base_free'' [])) (\<lambda>_.
     bnd (sys_int (KApi ''event_free'' [AI (int ev)])) (\<lambda>_.
     bnd (sys_int (KClose lfd)) (\<lambda>_. ret 0)))))))))))"

section \<open>What the server keeps\<close>

definition added :: "event \<Rightarrow> bool" where
  \<comment> \<open>a successful \<^verbatim>\<open>event_add\<close>\<close>
  "added e = (case e of Ev (KApi f xs) (RInt k) \<Rightarrow> f = ''event_add'' | _ \<Rightarrow> False)"

abbreviation registrations :: "world \<Rightarrow> nat" where
  "registrations w \<equiv> length (filter added (trace w))"

text \<open>
  Entries are only ever filled, from the first one up: with \<open>n\<close> entries filled, \<open>n + 1\<close> events were
  registered, and a connection whose event is pending is found among the \<open>n\<close>.
\<close>

definition table_inv :: "nat \<Rightarrow> evserver \<Rightarrow> bool" where
  "table_inv n s \<longleftrightarrow> length (sclients s) = 20 \<and> n \<le> 20
     \<and> (\<forall>j < 20. sflag (sclients s ! j) = -1 \<longleftrightarrow> n \<le> j)
     \<and> (\<forall>j < n. sev (sclients s ! j) \<noteq> None)
     \<and> (\<forall>e \<in> set (evts s). pending e \<and> ev_cb e = Readcb \<longrightarrow> (\<exists>j < n. sftd (sclients s ! j) = ev_fd e))"

definition server_inv :: "evserver \<Rightarrow> world \<Rightarrow> bool" where
  "server_inv s w \<longleftrightarrow> (\<exists>n. table_inv n s \<and> registrations w = Suc n)"

lemma find_cli_next:
  assumes "table_inv n s"
  shows "find_cli (sclients s) = (if n < 20 then Some n else None)"
proof (cases "find_cli (sclients s)")
  case None
  then have "\<forall>j < 20. sflag (sclients s ! j) \<noteq> -1"
    using cli.find_None [OF None] assms by (simp add: list_all_length table_inv_def)
  with assms have "\<not> n < 20" by (auto simp: table_inv_def)
  with None show ?thesis by simp
next
  case (Some i)
  from cli.find_Some [OF this] assms have i: "i < 20" "n \<le> i" "\<forall>j < i. \<not> n \<le> j"
    by (auto simp: table_inv_def list_all_length)
  then have "i = n" by (metis le_neq_implies_less order_refl)
  with i Some show ?thesis by simp
qed

lemma getCliByFd_filled:
  assumes "table_inv n s" and "j < n" and "sftd (sclients s ! j) = fd"
  shows "0 \<le> getCliByFd (sclients s) fd \<and> getCliByFd (sclients s) fd < 20
     \<and> sev (sclients s ! nat (getCliByFd (sclients s) fd)) \<noteq> None"
proof (cases "scan_slots (\<lambda>c. sftd c = fd) 0 (sclients s)")
  case None
  then have "list_all (\<lambda>c. sftd c \<noteq> fd) (sclients s)" by (simp add: scan_slots_None)
  with assms have False by (auto simp: list_all_length table_inv_def)
  then show ?thesis ..
next
  case (Some i)
  from scan_slots_Some [OF this] have i: "i < length (sclients s)"
    "list_all (\<lambda>c. sftd c \<noteq> fd) (take i (sclients s))" by simp_all
  have "\<not> j < i"
    using i assms by (auto simp: list_all_length)
  with assms i Some show ?thesis by (simp add: getCliByFd_def table_inv_def)
qed

lemma table_inv_del:
  assumes "table_inv n s"
  shows "table_inv n (set_pending False k s)"
proof -
  have "e \<in> set (evts s)" if "e \<in> set ((evts s)[k := (evts s ! k)\<lparr>pending := False\<rparr>])" "pending e" for e
    using that set_update_subset_insert [of "evts s" k "(evts s ! k)\<lparr>pending := False\<rparr>"] by auto
  with assms show ?thesis by (auto simp: table_inv_def set_pending_def)
qed

lemma table_inv_new:
  "table_inv n s \<Longrightarrow> table_inv n (s\<lparr>evts := evts s @ [\<lparr>ev_fd = fd, ev_cb = cb, pending = False\<rparr>]\<rparr>)"
  by (auto simp: table_inv_def)

lemma table_inv_fill:
  assumes "table_inv n s" and "n < 20"
  shows "table_inv (Suc n) (s\<lparr>evts := evts s @ [\<lparr>ev_fd = fd, ev_cb = Readcb, pending = True\<rparr>],
     sclients := (sclients s)[n := \<lparr>sflag = 1, sftd = fd, sev = Some k\<rparr>]\<rparr>)"
proof -
  have "\<exists>j < Suc n. sftd ((sclients s)[n := \<lparr>sflag = 1, sftd = fd, sev = Some k\<rparr>] ! j) = ev_fd e"
    if e: "e \<in> set (evts s)" "pending e" "ev_cb e = Readcb" for e
  proof -
    obtain j where "j < n" "sftd (sclients s ! j) = ev_fd e" using assms(1) e by (auto simp: table_inv_def)
    then show ?thesis by (intro exI [of _ j]) auto
  qed
  with assms show ?thesis
    by (auto simp: table_inv_def nth_list_update less_Suc_eq)
qed

lemma added_simps [simp]:
  "\<not> added (Print fmt args)" "\<not> added (Perror m)" "\<not> added (Ev (KRead fd n) r)" "\<not> added (Ev (KWrite fd bs) r)" "\<not> added (Ev (KAccept fd) r)"
  "\<not> added (Ev (KSocket af ty) r)" "\<not> added (Ev (KSetsockopt fd opt) r)" "\<not> added (Ev (KBind fd sa) r)"
  "\<not> added (Ev (KListen fd backlog) r)" "\<not> added (Ev (KClose fd) r)" "\<not> added (Ev c (RFail e))"
  "added (Ev (KApi f xs) (RInt k)) \<longleftrightarrow> f = ''event_add''"
  by (simp_all add: added_def split: syscall.splits)

abbreviation stops_well :: "stop \<Rightarrow> world \<Rightarrow> bool" where
  "stops_well st w \<equiv> registrations w \<le> 21 \<and> (st = SBlocked \<or> st = SFault Unterminated \<and> overfull 1024 w)"

lemma server_inv_bound: "server_inv s w \<Longrightarrow> registrations w \<le> 21"
  by (auto simp: server_inv_def table_inv_def)

lemma wp_readcb:
  assumes inv: "server_inv s w" and p: "\<exists>e \<in> set (evts s). pending e \<and> ev_cb e = Readcb \<and> ev_fd e = fd"
  shows "wp (readcb fd s) server_inv stops_well w"
proof -
  obtain n where n: "table_inv n s" "registrations w = Suc n" using inv by (auto simp: server_inv_def)
  with p obtain j where "j < n" "sftd (sclients s ! j) = fd" by (auto simp: table_inv_def)
  note slot = getCliByFd_filled [OF n(1) this]
  have n20: "n \<le> 20" "length (sclients s) = 20" using n(1) by (simp_all add: table_inv_def)
  show ?thesis
    unfolding readcb_def Let_def event_del_def
    by (intro wp_intros)
      (use n n20 slot in \<open>auto simp: server_inv_def overfull_def cstring_def fill_buf_def set_zbuf table_inv_del
        split: if_splits\<close>)
qed

lemma wp_conncb:
  assumes "server_inv s w"
  shows "wp (conncb fd s) server_inv stops_well w"
proof -
  obtain n where n: "table_inv n s" "registrations w = Suc n" using assms by (auto simp: server_inv_def)
  then have f: "getCli (sclients s) = (if n < 20 then int n else -1)" "length (sclients s) = 20" "n \<le> 20"
    by (simp_all add: getCli_def find_cli_next) (simp_all add: table_inv_def)
  show ?thesis
    unfolding conncb_def Let_def event_new_def event_add_def
    by (simp only: prod.case, intro wp_intros)
      (use n f table_inv_new [OF n(1)] table_inv_fill [OF n(1)] in
        \<open>auto simp: server_inv_def set_pending_def split: if_splits\<close>)
qed

lemma tame_event_calls [tame_intros]:
  "tame (event_add k s)" "tame (event_del ev s)" "tame (readcb fd s)" "tame (conncb fd s)"
  "tame (run_event e s)"
proof -
  show add: "tame (event_add k s)" for k s unfolding event_add_def by (intro tame_intros)
  show del: "tame (event_del ev s)" for ev s unfolding event_del_def by (intro tame_intros; simp)
  show r: "tame (readcb fd s)" for fd s
    unfolding readcb_def Let_def by (intro tame_intros del)
  show c: "tame (conncb fd s)" for fd s
    unfolding conncb_def Let_def by (intro tame_intros add)
  show "tame (run_event e s)"
    unfolding run_event_def using r c by (simp split: evcb.splits)
qed

lemma eats_round_dispatch: "eats_round (dispatch_body s)"
  unfolding dispatch_body_def by (intro eats_sys_round tame_intros; simp)

lemma wp_dispatch_body:
  assumes "server_inv s w"
  shows "wp (dispatch_body s) (\<lambda>x w'. case x of Inl s' \<Rightarrow> server_inv s' w' | Inr s' \<Rightarrow> server_inv s' w')
     stops_well w"
proof -
  have run: "wp (run_event (evts s ! k) s) server_inv stops_well w'"
    if "server_inv s w'" "k < length (evts s)" "pending (evts s ! k)" for k w'
  proof (cases "ev_cb (evts s ! k)")
    case Readcb
    then have "\<exists>e \<in> set (evts s). pending e \<and> ev_cb e = Readcb \<and> ev_fd e = ev_fd (evts s ! k)"
      using that by (intro bexI [of _ "evts s ! k"]) simp_all
    with Readcb show ?thesis using wp_readcb [OF that(1)] by (simp add: run_event_def)
  next
    case Conncb
    then show ?thesis using wp_conncb [OF that(1)] by (simp add: run_event_def)
  qed
  have "server_inv s (step_world (KApi ''event_base_dispatch'' []) r eo w)" for r eo
    using assms by (auto simp: server_inv_def added_def split: reply.splits)
  moreover have "wp (run_event (evts s ! k) s)
      (\<lambda>x. wp (ret (Inl x)) (\<lambda>x w'. case x of Inl s' \<Rightarrow> server_inv s' w' | Inr s' \<Rightarrow> server_inv s' w') stops_well)
      stops_well w'"
    if "server_inv s w'" "k < length (evts s)" "pending (evts s ! k)" for k w'
    by (rule wp_conseq [OF run [OF that]]) (auto simp: wp_ret)
  ultimately show ?thesis
    using server_inv_bound [OF assms] unfolding dispatch_body_def by (intro wp_intros) auto
qed

lemma server_inv_start:
  assumes "registrations w = Suc 0"
  shows "server_inv (set_pending True 0 \<lparr>sclients = initCli (replicate 20 \<lparr>sflag = 0, sftd = 0, sev = None\<rparr>),
     evts = [\<lparr>ev_fd = lfd, ev_cb = Conncb, pending = False\<rparr>]\<rparr>) w"
  using assms by (auto simp: server_inv_def table_inv_def set_pending_def initCli_def)

text \<open>C29: the table of \<^verbatim>\<open>serverEvent.c\<close> is never cleared: in the whole life of the server at most 20 connections
  are registered with libevent (and the listening socket). The server never deletes a null event, never leaves
  the table, and only ends in the C language's undefined behaviour when a client fills the
  buffer without a NUL.\<close>

theorem event_server_registers_twenty:
  "wp event_main (\<lambda>_ w. registrations w \<le> 21)
     (\<lambda>st w. registrations w \<le> 21 \<and> (st = SBlocked \<or> st = SFault Unterminated \<and> overfull 1024 w)) (start s)"
proof -
  have loop: "wp (forever dispatch_body s) server_inv stops_well w" if "server_inv s w" for s w
    by (rule wp_forever [where I = server_inv, OF eats_round_dispatch that]) (rule wp_dispatch_body)
  show ?thesis
    unfolding event_main_def Let_def event_new_def event_add_def
    by (simp only: prod.case, intro wp_intros wp_conseq [OF loop])
      (auto dest: server_inv_bound intro!: server_inv_start simp: evserver_init_def)
qed

end
