(* ===== verification/BufferEvents.thy ===== *)
theory BufferEvents
  imports Sockets
begin

text \<open>
  The programs over libevent's \<^verbatim>\<open>bufferevent\<close>s: the server \<^verbatim>\<open>hellow-libevent.c\<close>, the client
  \<^verbatim>\<open>bufferevent-client.c\<close>, and \<^verbatim>\<open>event.c\<close>. Of the library they rely on this: \<^verbatim>\<open>event_base_dispatch\<close> calls
  the callbacks of live objects in an order of its own until it returns, \<^verbatim>\<open>bufferevent_read\<close> delivers at
  most the bytes asked for, and an object is gone once it was freed. What happens next is an \<open>occurrence\<close> in
  the script.
\<close>

section \<open>The calls to the library\<close>

fun dec_occurs :: "reply \<Rightarrow> (errno option \<times> occurrence) option" where
  "dec_occurs (ROccurs x) = Some (None, x)"
| "dec_occurs _ = None"

fun dec_bytes :: "nat \<Rightarrow> reply \<Rightarrow> (errno option \<times> string) option" where
  "dec_bytes n (RData bs) = (if length bs \<le> n then Some (None, bs) else None)"
| "dec_bytes n _ = None"

definition sys_dispatch :: "occurrence prog" where
  "sys_dispatch = call (KApi ''event_base_dispatch'' []) dec_occurs"

definition bufferevent_read :: "nat \<Rightarrow> nat \<Rightarrow> string prog" where
  "bufferevent_read bev n = call (KApi ''bufferevent_read'' [AI (int bev)]) (dec_bytes n)"

definition bufferevent_write :: "nat \<Rightarrow> string \<Rightarrow> int prog" where
  "bufferevent_write bev bs = sys_int (KApi ''bufferevent_write'' [AI (int bev), AS bs])"

lemma wp_sys_dispatchI [wp_intros]:
  assumes "E SBlocked w"
    and "\<And>x. Q x (step_world (KApi ''event_base_dispatch'' []) (ROccurs x) None w)"
  shows "wp sys_dispatch Q E w"
  using assms unfolding sys_dispatch_def by (intro wp_callI) (auto elim!: dec_occurs.elims)

lemma wp_bufferevent_readI [wp_intros]:
  assumes "E SBlocked w"
    and "\<And>bs. length bs \<le> n \<Longrightarrow> Q bs (step_world (KApi ''bufferevent_read'' [AI (int bev)]) (RData bs) None w)"
  shows "wp (bufferevent_read bev n) Q E w"
  using assms unfolding bufferevent_read_def
  by (intro wp_callI) (auto elim!: dec_bytes.elims split: if_splits)

lemma eats_bufferevents [tame_intros]:
  "eats sys_dispatch" "eats (bufferevent_read bev n)" "eats (bufferevent_write bev bs)"
  by (simp_all add: sys_dispatch_def bufferevent_read_def bufferevent_write_def eats_call sys_int_def)

lemmas tame_bufferevents [tame_intros] = eats_bufferevents [THEN eats_imp_tame]

lemma wp_case_occurrenceI [wp_intros]:
  assumes "\<And>fd. x = OAccept fd \<Longrightarrow> wp (a fd) Q E w" "\<And>k. x = ORead k \<Longrightarrow> wp (r k) Q E w"
    and "\<And>k. x = OWrite k \<Longrightarrow> wp (d k) Q E w" "\<And>k ev. x = OEvent k ev \<Longrightarrow> wp (e k ev) Q E w"
    and "x = OInput \<Longrightarrow> wp i Q E w" "x = OSignal \<Longrightarrow> wp sg Q E w" "\<And>n. x = OReturn n \<Longrightarrow> wp (t n) Q E w"
  shows "wp (case x of OAccept fd \<Rightarrow> a fd | ORead k \<Rightarrow> r k | OWrite k \<Rightarrow> d k | OEvent k ev \<Rightarrow> e k ev
     | OInput \<Rightarrow> i | OSignal \<Rightarrow> sg | OReturn n \<Rightarrow> t n) Q E w"
  using assms by (cases x) simp_all

definition BEV_EVENT_EOF :: "16 word" where "BEV_EVENT_EOF = 16"
definition BEV_EVENT_ERROR :: "16 word" where "BEV_EVENT_ERROR = 32"
definition BEV_EVENT_CONNECTED :: "16 word" where "BEV_EVENT_CONNECTED = 128"

section \<open>\<^verbatim>\<open>hellow-libevent.c\<close>\<close>

record hserver =
  bevs :: "bool list"   \<comment> \<open>the bufferevents made so far: whether they are not yet freed\<close>
  broken :: bool        \<comment> \<open>\<^verbatim>\<open>event_base_loopbreak\<close> was called\<close>

definition live :: "nat \<Rightarrow> hserver \<Rightarrow> bool" where
  "live k s \<longleftrightarrow> k < length (bevs s) \<and> bevs s ! k"

definition listener_cb :: "int \<Rightarrow> hserver \<Rightarrow> hserver prog" where
  "listener_cb fd s =
     bnd (sys_int (KApi ''bufferevent_socket_new'' [AI fd])) (\<lambda>bev.
       if bev < 0 then
         thn (printf ''Error constructing bufferevent!'' [])
        (bnd (sys_int (KApi ''event_base_loopbreak'' [])) (\<lambda>_. ret (s\<lparr>broken := True\<rparr>)))
       else
         let k = int (length (bevs s)) in
         bnd (sys_int (KApi ''bufferevent_setcb'' [AI k])) (\<lambda>_.
         bnd (sys_int (KApi ''bufferevent_enable'' [AI k, AS ''EV_WRITE''])) (\<lambda>_.
         bnd (sys_int (KApi ''bufferevent_enable'' [AI k, AS ''EV_READ''])) (\<lambda>_.
         ret (s\<lparr>bevs := bevs s @ [True]\<rparr>)))))"

definition conn_readcb :: "nat \<Rightarrow> unit prog" where
  "conn_readcb bev =
     bnd (bufferevent_read bev 1024) (\<lambda>bs.
     let buf = fill_buf (zbuf 1024) bs; n = length bs in
     bnd (c_str buf) (\<lambda>str.
     thn (printf (''n=[%d],buf==[%s]'' @ [LF]) [AI (int n), AS str])
    (bnd (bufferevent_write bev (take n (upper_prefix n buf))) (\<lambda>_. ret ()))))"

definition conn_writecb :: "nat \<Rightarrow> unit prog" where
  "conn_writecb bev =
     bnd (sys_int (KApi ''evbuffer_get_length'' [AI (int bev)])) (\<lambda>n.
       if n = 0 then printf (''flushed answer'' @ [LF]) [] else ret ())"

definition conn_eventcb :: "nat \<Rightarrow> 16 word \<Rightarrow> hserver \<Rightarrow> hserver prog" where
  "conn_eventcb bev events s =
     thn (if events AND BEV_EVENT_EOF \<noteq> 0 then printf (''Connection closed.'' @ [LF]) []
          else if events AND BEV_EVENT_ERROR \<noteq> 0 then
            bnd get_errno (\<lambda>e. printf (''Got an error on the connection: %s'' @ [LF]) [AErr e])
          else ret ())
    (bnd (sys_int (KApi ''bufferevent_free'' [AI (int bev)])) (\<lambda>_.
     ret (s\<lparr>bevs := (bevs s)[bev := False]\<rparr>)))"

definition signal_cb :: "unit prog" where
  "signal_cb =
     thn (printf (''Caught an interrupt signal; exiting cleanly in two seconds.'' @ [LF]) [])
    (bnd (sys_int (KApi ''event_base_loopexit'' [AI 2])) (\<lambda>_. ret ()))"

definition hello_round :: "hserver \<Rightarrow> (hserver + unit) prog" where
  \<comment> \<open>one round of \<^verbatim>\<open>event_base_dispatch\<close>\<close>
  "hello_round s =
     (if broken s then ret (Inr ())
      else
        bnd sys_dispatch (\<lambda>x. case x of
            OAccept fd \<Rightarrow> bnd (listener_cb fd s) (\<lambda>s. ret (Inl s))
          | ORead k \<Rightarrow> if live k s then bnd (conn_readcb k) (\<lambda>_. ret (Inl s)) else halt SBlocked
          | OWrite k \<Rightarrow> if live k s then bnd (conn_writecb k) (\<lambda>_. ret (Inl s)) else halt SBlocked
          | OEvent k ev \<Rightarrow> if live k s then bnd (conn_eventcb k ev s) (\<lambda>s. ret (Inl s)) else halt SBlocked
          | OSignal \<Rightarrow> bnd signal_cb (\<lambda>_. ret (Inl s))
          | OInput \<Rightarrow> halt SBlocked
          | OReturn r \<Rightarrow> ret (Inr ())))"

definition hello_main :: "int prog" where
  "hello_main =
     bnd (sys_int (KApi ''event_base_new'' [])) (\<lambda>base.
       if base < 0 then thn (printf (''Could not initialize libevent!'' @ [LF]) []) (ret 1)
       else
     bnd (sys_int (KApi ''evconnlistener_new_bind'' [AI (uint (htons 9995))])) (\<lambda>listener.
       if listener < 0 then thn (printf (''Could not create a listener!'' @ [LF]) []) (ret 1)
       else
     bnd (sys_int (KApi ''evsignal_new'' [AI 2])) (\<lambda>signal_event.
     bnd (if signal_event < 0 then ret (-1) else sys_int (KApi ''event_add'' [AI signal_event])) (\<lambda>res.
       if res < 0 then thn (printf (''Could not create/add a signal event!'' @ [LF]) []) (ret 1)
       else
     bnd (forever hello_round \<lparr>bevs = [], broken = False\<rparr>) (\<lambda>_.
     bnd (sys_int (KApi ''evconnlistener_free'' [AI listener])) (\<lambda>_.
     bnd (sys_int (KApi ''event_free'' [AI signal_event])) (\<lambda>_.
     bnd (sys_int (KApi ''event_base_free'' [AI base])) (\<lambda>_.
     thn (printf (''done'' @ [LF]) []) (ret 0)))))))))"

section \<open>\<^verbatim>\<open>bufferevent-client.c\<close>\<close>

record bclient =
  bev_live :: bool   \<comment> \<open>the bufferevent is not yet freed\<close>
  cmd_live :: bool   \<comment> \<open>the event of the standard input is not yet freed\<close>

definition cmd_msg_cb :: "nat \<Rightarrow> unit prog" where
  "cmd_msg_cb bev =
     bnd (sys_read 0 1024) (\<lambda>r.
       if rlen r < 0 then thn (printf (''read STDIN_FILENO error'' @ [LF]) []) (exit_p 1)
       else bnd (bufferevent_write bev (take (nat (rlen r)) (rbuf (zbuf 1024) r))) (\<lambda>_. ret ()))"

definition server_msg_cb :: "nat \<Rightarrow> unit prog" where
  \<comment> \<open>\<^verbatim>\<open>buf[len]\<close> is a store behind the buffer when the read filled it\<close>
  "server_msg_cb bev =
     bnd (bufferevent_read bev 1024) (\<lambda>bs.
     let len = length bs; buf = fill_buf (zbuf 1024) bs in
       if len < 1024 then
         bnd (c_str (buf[len := NUL])) (\<lambda>str. printf ''buf = [%s]'' [AS str])
       else fault_p OutOfBounds)"

definition free_bev :: "nat \<Rightarrow> bclient \<Rightarrow> bclient prog" where
  "free_bev bev s =
     (if bev_live s
      then bnd (sys_int (KApi ''bufferevent_free'' [AI (int bev)])) (\<lambda>_. ret (s\<lparr>bev_live := False\<rparr>))
      else fault_p ForeignPointer)"

definition free_cmd :: "nat \<Rightarrow> bclient \<Rightarrow> bclient prog" where
  "free_cmd ev s =
     (if cmd_live s
      then bnd (sys_int (KApi ''event_free'' [AI (int ev)])) (\<lambda>_. ret (s\<lparr>cmd_live := False\<rparr>))
      else fault_p ForeignPointer)"

definition event_cb :: "nat \<Rightarrow> nat \<Rightarrow> 16 word \<Rightarrow> bclient \<Rightarrow> bclient prog" where
  "event_cb bev ev what s =
     (let release = bnd (free_bev bev s) (free_cmd ev) in
      if what AND BEV_EVENT_EOF \<noteq> 0 then thn (printf (''connect is closed'' @ [LF]) []) release
      else if what AND BEV_EVENT_ERROR \<noteq> 0 then thn (printf (''some other is error '' @ [LF]) []) release
      else if what AND BEV_EVENT_CONNECTED \<noteq> 0 then thn (printf (''connect is conneted '' @ [LF]) []) (ret s)
      else release)"

definition client_round :: "nat \<Rightarrow> nat \<Rightarrow> bclient \<Rightarrow> (bclient + bclient) prog" where
  "client_round bev ev s =
     bnd sys_dispatch (\<lambda>x. case x of
         OInput \<Rightarrow> if cmd_live s then bnd (cmd_msg_cb bev) (\<lambda>_. ret (Inl s)) else halt SBlocked
       | ORead k \<Rightarrow> if k = bev \<and> bev_live s then bnd (server_msg_cb bev) (\<lambda>_. ret (Inl s)) else halt SBlocked
       | OEvent k what \<Rightarrow>
           if k = bev \<and> bev_live s then bnd (event_cb bev ev what s) (\<lambda>s. ret (Inl s)) else halt SBlocked
       | OReturn r \<Rightarrow> ret (Inr s)
       | _ \<Rightarrow> halt SBlocked)"

definition isspace_c :: "char \<Rightarrow> bool" where
  "isspace_c c \<longleftrightarrow> 9 \<le> code c \<and> code c \<le> 13 \<or> code c = 32"

definition atoi :: "string \<Rightarrow> int" where
  "atoi s =
     (let s = dropWhile isspace_c s in
      case s of [] \<Rightarrow> 0
      | c # cs \<Rightarrow>
          if c = CHR ''-'' then - int (undec_acc 0 (takeWhile isdigit_c cs))
          else if c = CHR ''+'' then int (undec_acc 0 (takeWhile isdigit_c cs))
          else int (undec_acc 0 (takeWhile isdigit_c s)))"

definition bclient_main :: "string list \<Rightarrow> int prog" where
  \<comment> \<open>a null pointer is -1; no result is checked\<close>
  "bclient_main argv =
     (if length argv < 2 then thn (printf (''please input 2 parameter'' @ [LF]) []) (ret (-1))
      else
        bnd (sys_int (KApi ''event_base_new'' [])) (\<lambda>base.
        bnd (sys_int (KApi ''bufferevent_socket_new'' [AI (-1)])) (\<lambda>bev.
        bnd (sys_int (KApi ''event_new'' [AI 0])) (\<lambda>ev_cmd.
          if ev_cmd < 0 then fault_p NullPointer
          else
        bnd (sys_int (KApi ''event_add'' [AI ev_cmd])) (\<lambda>_.
          if bev < 0 then fault_p NullPointer
          else
        bnd (sys_int (KApi ''bufferevent_socket_connect''
               [AI bev, AI (uint (htons (word_of_int (atoi (argv ! 1)))))])) (\<lambda>_.
        bnd (sys_int (KApi ''bufferevent_setcb'' [AI bev, AI ev_cmd])) (\<lambda>_.
        bnd (sys_int (KApi ''bufferevent_enable'' [AI bev])) (\<lambda>_.
        bnd (forever (client_round (nat bev) (nat ev_cmd)) \<lparr>bev_live = True, cmd_live = True\<rparr>) (\<lambda>s.
        bnd (free_cmd (nat ev_cmd) s) (\<lambda>s.
        bnd (free_bev (nat bev) s) (\<lambda>s.
        bnd (sys_int (KApi ''event_base_free'' [AI base])) (\<lambda>_.
        thn (printf (''finish '' @ [LF]) []) (ret 0)))))))))))))"

section \<open>\<^verbatim>\<open>event.c\<close>\<close>

primrec print_supported :: "string list \<Rightarrow> unit prog" where
  "print_supported [] = printf [LF] []"
| "print_supported (p # ps) = thn (printf ''%s  '' [AS p]) (print_supported ps)"

definition event_demo_main :: "string list \<Rightarrow> string \<Rightarrow> int prog" where
  \<comment> \<open>what \<^verbatim>\<open>event_get_supported_methods\<close> and \<^verbatim>\<open>event_base_get_method\<close> return\<close>
  "event_demo_main methods meth =
     thn (print_supported methods)
    (bnd (sys_int (KApi ''event_base_new'' [])) (\<lambda>base.
       if base < 0 then thn (printf (''create base error'' @ [LF]) []) (ret (-1))
       else
         thn (printf (''%s'' @ [LF]) [AS meth])
        (bnd (sys_int (KApi ''event_base_free'' [AI base])) (\<lambda>_. ret 0))))"

section \<open>The server answers what it read\<close>

text \<open>The data read last and not yet answered, with its bufferevent.\<close>

type_synonym owing = "(nat \<times> string) option"

definition hello_upd :: "owing \<Rightarrow> event \<Rightarrow> owing" where
  "hello_upd q e = (case e of
      Ev (KApi f xs) r \<Rightarrow>
        if f = ''bufferevent_read'' then
          (case (xs, r) of (AI k # _, RData d) \<Rightarrow> Some (nat k, d) | _ \<Rightarrow> None)
        else if f = ''bufferevent_write'' then None
        else q
    | _ \<Rightarrow> q)"

definition hello_chk :: "owing \<Rightarrow> event \<Rightarrow> bool" where
  "hello_chk q e = (case e of
      Ev (KApi f xs) r \<Rightarrow>
        if f = ''bufferevent_write'' then
          (case q of Some (k, d) \<Rightarrow> xs = [AI (int k), AS (map toupper_c d)] | None \<Rightarrow> False)
        else if f \<in> {''bufferevent_read'', ''bufferevent_free'', ''event_base_dispatch''} then q = None
        else True
    | _ \<Rightarrow> True)"

abbreviation hello_ok :: "world \<Rightarrow> bool" where
  "hello_ok w \<equiv> safe_trace hello_chk hello_upd None (trace w)"

abbreviation hello_owes :: "world \<Rightarrow> owing" where
  "hello_owes w \<equiv> foldl hello_upd None (trace w)"

lemma hello_events [simp]:
  "hello_chk q (Print f xs)" "hello_chk q (Perror m)"
  "hello_upd q (Print f xs) = q" "hello_upd q (Perror m) = q"
  "hello_upd q (Ev (KApi f ys) r) =
     (if f = ''bufferevent_read'' then (case (ys, r) of (AI k # _, RData d) \<Rightarrow> Some (nat k, d) | _ \<Rightarrow> None)
      else if f = ''bufferevent_write'' then None else q)"
  "hello_chk q (Ev (KApi f ys) r) \<longleftrightarrow>
     (if f = ''bufferevent_write'' then
        (case q of Some (k, d) \<Rightarrow> ys = [AI (int k), AS (map toupper_c d)] | None \<Rightarrow> False)
      else if f \<in> {''bufferevent_read'', ''bufferevent_free'', ''event_base_dispatch''} then q = None
      else True)"
  by (simp_all add: hello_chk_def hello_upd_def)

definition hello_calm :: "world \<Rightarrow> bool" where
  "hello_calm w \<longleftrightarrow> hello_ok w \<and> hello_owes w = None"

definition read_unended :: "world \<Rightarrow> bool" where
  \<comment> \<open>the data read last fills the buffer and has no end\<close>
  "read_unended w \<longleftrightarrow> (\<exists>k d. hello_owes w = Some (k, d) \<and> length d = 1024 \<and> NUL \<notin> set d)"

abbreviation hello_stops :: "stop \<Rightarrow> world \<Rightarrow> bool" where
  "hello_stops st w \<equiv> hello_ok w \<and> (st = SBlocked \<or> st = SFault Unterminated \<and> read_unended w)"

lemma upper_bytes:
  "length d \<le> n \<Longrightarrow> take (length d) (upper_prefix (length d) (fill_buf (zbuf n) d)) = map toupper_c d"
  by (simp add: upper_prefix_eq fill_buf_def)

lemma wp_api_calm:
  assumes "hello_calm w" and "f \<notin> {''bufferevent_read'', ''bufferevent_write''}"
    and "E SBlocked w" and "\<And>x w'. hello_calm w' \<Longrightarrow> Q x w'"
  shows "wp (sys_int (KApi f ys)) Q E w"
  using assms by (intro wp_sys_intI) (simp_all add: hello_calm_def)

lemma hello_calm_print [simp]: "hello_calm (w\<lparr>trace := trace w @ [Print f xs]\<rparr>) = hello_calm w"
  by (simp add: hello_calm_def)

lemma hello_calm_stops: "hello_calm w \<Longrightarrow> hello_stops SBlocked w"
  by (simp add: hello_calm_def)

lemma wp_listener_cb: "hello_calm w \<Longrightarrow> wp (listener_cb fd s) (\<lambda>_. hello_calm) hello_stops w"
  unfolding listener_cb_def Let_def by (intro wp_intros) (auto simp: hello_calm_def)

lemma wp_conn_readcb: "hello_calm w \<Longrightarrow> wp (conn_readcb bev) (\<lambda>_. hello_calm) hello_stops w"
  unfolding conn_readcb_def Let_def bufferevent_write_def
  by (intro wp_intros)
    (auto simp: hello_calm_def read_unended_def upper_bytes cstring_fill split: if_splits)

lemma wp_conn_writecb: "hello_calm w \<Longrightarrow> wp (conn_writecb bev) (\<lambda>_. hello_calm) hello_stops w"
  unfolding conn_writecb_def by (intro wp_intros) (auto simp: hello_calm_def)

lemma wp_conn_eventcb: "hello_calm w \<Longrightarrow> wp (conn_eventcb bev ev s) (\<lambda>_. hello_calm) hello_stops w"
  unfolding conn_eventcb_def by (intro wp_intros) (auto simp: hello_calm_def)

lemma wp_signal_cb: "hello_calm w \<Longrightarrow> wp signal_cb (\<lambda>_. hello_calm) hello_stops w"
  unfolding signal_cb_def by (intro wp_intros) (auto simp: hello_calm_def)

lemmas wp_hello_callbacks = wp_listener_cb wp_conn_readcb wp_conn_writecb wp_conn_eventcb wp_signal_cb

lemma tame_hello [tame_intros]:
  "tame (listener_cb fd s)" "tame (conn_readcb bev)" "tame (conn_writecb bev)"
  "tame (conn_eventcb bev ev s)" "tame signal_cb"
  unfolding listener_cb_def conn_readcb_def conn_writecb_def conn_eventcb_def signal_cb_def Let_def
  by (intro tame_intros)+

lemma eats_hello_round: "eats_round (hello_round s)"
  unfolding hello_round_def
  by (intro eats_round_if eats_round_Inr eats_bufferevents [THEN eats_bnd1, THEN eats_round_eats])
    (auto intro!: tame_intros split: occurrence.splits)

lemma wp_hello_round:
  assumes "hello_calm w"
  shows "wp (hello_round s) (\<lambda>x w'. case x of Inl s' \<Rightarrow> hello_calm w' | Inr r \<Rightarrow> hello_calm w') hello_stops w"
proof -
  have disp: "hello_calm (step_world (KApi ''event_base_dispatch'' []) r eo w)" for r eo
    using assms by (simp add: hello_calm_def)
  show ?thesis
    unfolding hello_round_def
    by (intro wp_intros wp_hello_callbacks [THEN wp_conseq]) (use assms disp in \<open>auto simp: hello_calm_def\<close>)
qed

text \<open>C21: \<^verbatim>\<open>hellow-libevent.c\<close> answers whatever it reads from a connection with its upper-case form, in one
  write to the same connection and before anything else happens to it; it writes nothing else, and in particular not
  the greeting the comment at the head of the file announces, which was that of the library's sample. It
  ends by leaving its event loop, or in undefined behaviour when a client sends 1024 bytes without a NUL.\<close>

theorem hello_server_answers:
  "wp hello_main (\<lambda>r w. hello_ok w \<and> r \<in> {0, 1})
     (\<lambda>st w. hello_ok w \<and> (st = SBlocked \<or> st = SFault Unterminated \<and> read_unended w)) (start s)"
proof -
  have loop: "wp (forever hello_round q) (\<lambda>_. hello_calm) hello_stops w" if "hello_calm w" for q w
    by (rule wp_forever [where I = "\<lambda>_. hello_calm", OF eats_hello_round that])
      (rule wp_hello_round)
  show ?thesis
    unfolding hello_main_def
    by (intro wp_intros_eq wp_ifI wp_api_calm wp_conseq [OF loop])
      (simp_all add: hello_calm_stops, simp_all add: hello_calm_def)
qed

section \<open>The client frees its objects twice\<close>

definition hangup :: "event \<Rightarrow> bool" where
  \<comment> \<open>the library reports the end of the connection, or of the attempt to make one\<close>
  "hangup e = (case e of
      Ev c (ROccurs (OEvent k what)) \<Rightarrow> what AND BEV_EVENT_EOF \<noteq> 0 \<or> what AND BEV_EVENT_ERROR \<noteq> 0
        \<or> what AND BEV_EVENT_CONNECTED = 0
    | _ \<Rightarrow> False)"

abbreviation hung_up :: "world \<Rightarrow> bool" where
  "hung_up w \<equiv> list_ex hangup (trace w)"

definition filled :: "world \<Rightarrow> bool" where
  \<comment> \<open>the last call delivered as many bytes as the buffer holds\<close>
  "filled w \<longleftrightarrow> (\<exists>c d. last (trace w) = Ev c (RData d) \<and> length d = 1024)"

abbreviation client_stops :: "stop \<Rightarrow> world \<Rightarrow> bool" where
  "client_stops st w \<equiv> st = SBlocked \<or> st = SExit 1 \<and> \<not> hung_up w \<or> st = SFault NullPointer \<and> \<not> hung_up w
     \<or> st = SFault OutOfBounds \<and> filled w \<or> st = SFault ForeignPointer \<and> hung_up w"

definition both_live :: "bclient \<Rightarrow> world \<Rightarrow> bool" where
  "both_live s w \<longleftrightarrow> (if hung_up w then \<not> bev_live s \<and> \<not> cmd_live s else bev_live s \<and> cmd_live s)"

lemma hangup_simps [simp]:
  "\<not> hangup (Print f xs)" "\<not> hangup (Ev c (RInt n))" "\<not> hangup (Ev c (RFail e))" "\<not> hangup (Ev c (RData d))"
  "\<not> hangup (Ev c (ROccurs (ORead k)))" "\<not> hangup (Ev c (ROccurs OInput))" "\<not> hangup (Ev c (ROccurs (OReturn r)))"
  "hangup (Ev c (ROccurs (OEvent k what))) \<longleftrightarrow>
     what AND BEV_EVENT_EOF \<noteq> 0 \<or> what AND BEV_EVENT_ERROR \<noteq> 0 \<or> what AND BEV_EVENT_CONNECTED = 0"
  by (simp_all add: hangup_def)

text \<open>A call that returns a number is no hang-up, whatever it returns.\<close>

lemma wp_sys_int_calm:
  assumes "E SBlocked w" and "\<And>x w'. hung_up w' = hung_up w \<Longrightarrow> Q x w'"
  shows "wp (sys_int c) Q E w"
  using assms by (intro wp_sys_intI) simp_all

lemma tame_client [tame_intros]:
  "tame (cmd_msg_cb bev)" "tame (server_msg_cb bev)" "tame (free_bev bev s)" "tame (free_cmd ev s)"
  "tame (event_cb bev ev what s)"
proof -
  show b: "tame (free_bev bev s)" and c: "tame (free_cmd ev s)" for bev ev s
    unfolding free_bev_def free_cmd_def by (intro tame_intros; simp)+
  show "tame (cmd_msg_cb bev)" "tame (server_msg_cb bev)" "tame (event_cb bev ev what s)"
    unfolding cmd_msg_cb_def server_msg_cb_def event_cb_def Let_def by (intro tame_intros b c; simp)+
qed

lemma eats_client_round: "eats_round (client_round bev ev s)"
  unfolding client_round_def
  by (intro eats_bufferevents [THEN eats_bnd1, THEN eats_round_eats])
    (auto intro!: tame_intros split: occurrence.splits)

lemma wp_client_round:
  assumes "both_live s w"
  shows "wp (client_round bev ev s)
     (\<lambda>x w'. case x of Inl s' \<Rightarrow> both_live s' w' | Inr s' \<Rightarrow> both_live s' w') client_stops w"
  unfolding client_round_def cmd_msg_cb_def server_msg_cb_def event_cb_def free_bev_def free_cmd_def
    bufferevent_write_def Let_def
  by (intro wp_intros)
    (use assms in \<open>auto simp: both_live_def filled_def cstring_def fill_buf_def set_update_memI split: if_splits\<close>)

text \<open>C24: once the library reports that the connection of \<^verbatim>\<open>bufferevent-client.c\<close> ended or could not be made,
  the client frees its two objects in the callback; it then cannot end normally: when the event loop
  returns, \<^verbatim>\<open>main\<close> frees an object that is gone. The other fault needs a message that fills the buffer.\<close>

theorem bclient_frees_twice:
  "wp (bclient_main argv) (\<lambda>r w. \<not> hung_up w)
     (\<lambda>st w. st = SBlocked \<or> st = SExit 1 \<and> \<not> hung_up w \<or> st = SFault NullPointer \<and> \<not> hung_up w
        \<or> st = SFault OutOfBounds \<and> filled w \<or> st = SFault ForeignPointer \<and> hung_up w) (start s)"
proof -
  have loop: "wp (forever (client_round bev ev) q) both_live client_stops w" if "both_live q w" for bev ev q w
    by (rule wp_forever [where I = both_live, OF eats_client_round that]) (rule wp_client_round)
  show ?thesis
    unfolding bclient_main_def free_bev_def free_cmd_def
    by (intro wp_intros_eq wp_ifI wp_sys_int_calm wp_conseq [OF loop]) (auto simp: both_live_def split: if_splits)
qed

lemma bclient_double_free:
  "fst (bclient_main [''client'', ''8888''] (start [RInt 0, RInt 1, RInt 2, RInt 0, RInt 0, RInt 0, RInt 0,
     ROccurs (OEvent 1 16), RInt 0, RInt 0, ROccurs (OReturn 1)])) = Stop (SFault ForeignPointer)"
  by code_simp

end
