(* ===== verification/ThreadSync.thy ===== *)
theory ThreadSync
  imports Logic "HOL-Library.Multiset"
begin

text \<open>
  The synchronisation exercises of \<^verbatim>\<open>linux08\<close> as transition systems: two threads that increment a
  counter under a mutex (\<^verbatim>\<open>thread_lock.c\<close>), a producer and a consumer of a linked list with a
  condition variable (\<^verbatim>\<open>thread_cond.c\<close>) and with two semaphores (\<^verbatim>\<open>thread_sem.c\<close>). An action is one
  access to shared memory or one synchronisation call. The calls of \<^verbatim>\<open>sleep\<close> do not order anything
  and are left out; allocation is taken to succeed.
\<close>

section \<open>\<^verbatim>\<open>thread_lock.c\<close>\<close>

text \<open>Where \<^verbatim>\<open>threadHandler\<close> is, in round \<open>k\<close>: at the loop test, at \<^verbatim>\<open>n = i\<close>, at \<^verbatim>\<open>n++\<close>, at \<^verbatim>\<open>i = n\<close>, at the unlock; done.\<close>

datatype hpoint = LLock nat | LRead nat | LInc nat | LWrite nat | LUnlock nat | LEnd

record handler =
  at :: hpoint
  local_n :: int

datatype mpoint = MCreate | MIds | MJoin nat | MPrint | MReturn int

record counter =
  shared_i :: int
  mutex :: "nat option"      \<comment> \<open>the handler that holds it\<close>
  handlers :: "handler list"
  main_at :: mpoint
  printed :: "int option"

definition set_handler :: "nat \<Rightarrow> handler \<Rightarrow> counter \<Rightarrow> counter" where
  "set_handler t h s = s\<lparr>handlers := (handlers s)[t := h]\<rparr>"

definition threadHandler :: "nat \<Rightarrow> counter \<Rightarrow> counter option" where
  "threadHandler t s =
     (if length (handlers s) \<le> t then None
      else let h = handlers s ! t in
        (case at h of
           LLock k \<Rightarrow>
             if k < 2000 then
               if mutex s = None then Some (set_handler t (h\<lparr>at := LRead k\<rparr>) (s\<lparr>mutex := Some t\<rparr>)) else None
             else Some (set_handler t (h\<lparr>at := LEnd\<rparr>) s)
         | LRead k \<Rightarrow> Some (set_handler t (h\<lparr>at := LInc k, local_n := shared_i s\<rparr>) s)
         | LInc k \<Rightarrow> Some (set_handler t (h\<lparr>at := LWrite k, local_n := local_n h + 1\<rparr>) s)
         | LWrite k \<Rightarrow> Some (set_handler t (h\<lparr>at := LUnlock k\<rparr>) (s\<lparr>shared_i := local_n h\<rparr>))
         | LUnlock k \<Rightarrow> Some (set_handler t (h\<lparr>at := LLock (k + 1)\<rparr>) (s\<lparr>mutex := None\<rparr>))
         | LEnd \<Rightarrow> None))"

definition lock_main :: "bool \<Rightarrow> counter \<Rightarrow> counter option" where
  \<comment> \<open>\<open>ok\<close>: whether a \<^verbatim>\<open>pthread_create\<close> succeeds; if not, \<^verbatim>\<open>main\<close> returns -1 and the process ends\<close>
  "lock_main ok s = (case main_at s of
      MCreate \<Rightarrow>
        if \<not> ok then Some (s\<lparr>main_at := MReturn (-1)\<rparr>)
        else Some (s\<lparr>handlers := handlers s @ [\<lparr>at = LLock 0, local_n = 0\<rparr>],
                    main_at := if length (handlers s) = 1 then MIds else MCreate\<rparr>)
    | MIds \<Rightarrow> Some (s\<lparr>main_at := MJoin 0\<rparr>)
    | MJoin t \<Rightarrow>
        if at (handlers s ! t) = LEnd then Some (s\<lparr>main_at := if t = 0 then MJoin 1 else MPrint\<rparr>) else None
    | MPrint \<Rightarrow> Some (s\<lparr>printed := Some (shared_i s), main_at := MReturn 0\<rparr>)
    | MReturn r \<Rightarrow> None)"

datatype laction = LMain bool | LThread nat

definition lexec :: "laction \<Rightarrow> counter \<Rightarrow> counter option" where
  "lexec a s = (case main_at s of
      MReturn r \<Rightarrow> None
    | _ \<Rightarrow> (case a of LMain ok \<Rightarrow> lock_main ok s | LThread t \<Rightarrow> threadHandler t s))"

definition linit :: "counter \<Rightarrow> bool" where
  "linit s \<longleftrightarrow> s = \<lparr>shared_i = 0, mutex = None, handlers = [], main_at = MCreate, printed = None\<rparr>"

abbreviation lock_reach :: "counter \<Rightarrow> bool" where
  "lock_reach \<equiv> reach linit (exec_step lexec)"

text \<open>The rounds a handler has completed, counting the one whose sum is stored.\<close>

definition rounds :: "handler \<Rightarrow> nat" where
  "rounds h = (case at h of
      LLock k \<Rightarrow> k | LRead k \<Rightarrow> k | LInc k \<Rightarrow> k | LWrite k \<Rightarrow> k | LUnlock k \<Rightarrow> k + 1 | LEnd \<Rightarrow> 2000)"

definition inside :: "handler \<Rightarrow> bool" where
  "inside h = (case at h of LRead _ \<Rightarrow> True | LInc _ \<Rightarrow> True | LWrite _ \<Rightarrow> True | LUnlock _ \<Rightarrow> True | _ \<Rightarrow> False)"

definition in_bounds :: "handler \<Rightarrow> bool" where
  "in_bounds h = (case at h of LLock k \<Rightarrow> k \<le> 2000 | LRead k \<Rightarrow> k < 2000 | LInc k \<Rightarrow> k < 2000 | LWrite k \<Rightarrow> k < 2000
     | LUnlock k \<Rightarrow> k < 2000 | LEnd \<Rightarrow> True)"

definition copied :: "int \<Rightarrow> handler \<Rightarrow> bool" where
  "copied i h = (case at h of LInc _ \<Rightarrow> local_n h = i | LWrite _ \<Rightarrow> local_n h = i + 1 | _ \<Rightarrow> True)"

definition joined :: "counter \<Rightarrow> bool" where
  \<comment> \<open>what \<^verbatim>\<open>main\<close> has waited for\<close>
  "joined s = (case main_at s of
      MCreate \<Rightarrow> length (handlers s) < 2
    | MIds \<Rightarrow> length (handlers s) = 2
    | MJoin t \<Rightarrow> length (handlers s) = 2 \<and> t < 2 \<and> (0 < t \<longrightarrow> at (handlers s ! 0) = LEnd)
    | MPrint \<Rightarrow> length (handlers s) = 2 \<and> at (handlers s ! 0) = LEnd \<and> at (handlers s ! 1) = LEnd
    | MReturn r \<Rightarrow> True)"

definition linv :: "counter \<Rightarrow> bool" where
  "linv s \<longleftrightarrow> shared_i s = int (sum_list (map rounds (handlers s)))
     \<and> (\<forall>t < length (handlers s). (inside (handlers s ! t) \<longleftrightarrow> mutex s = Some t)
          \<and> in_bounds (handlers s ! t) \<and> copied (shared_i s) (handlers s ! t))
     \<and> joined s \<and> (case printed s of None \<Rightarrow> True | Some v \<Rightarrow> v = 4000)
     \<and> (\<forall>t. mutex s = Some t \<longrightarrow> t < length (handlers s))"

lemma sum_rounds_update:
  assumes "t < length hs"
  shows "sum_list (map rounds (hs[t := h])) + rounds (hs ! t) = sum_list (map rounds hs) + rounds h"
proof -
  have "sum_list (map rounds hs) = sum_list (map rounds (take t hs @ hs ! t # drop (Suc t) hs))"
    using id_take_nth_drop [OF assms] by simp
  then show ?thesis using assms by (simp add: upd_conv_take_nth_drop)
qed

lemma same_mutex [simp]: "mutex s = m \<Longrightarrow> s\<lparr>mutex := m\<rparr> = s"
  by auto

lemma not_inside_copied: "\<not> inside h \<Longrightarrow> copied i h"
  by (auto simp: inside_def copied_def split: hpoint.splits)

text \<open>A step of handler \<open>t\<close> to \<open>h\<close>, with the mutex \<open>m\<close> and the counter \<open>i\<close> after it, keeps the invariant when the
  sums agree and \<open>t\<close> plays by the rules of the mutex.\<close>

lemma linv_handler:
  assumes inv: "linv s" and t: "t < length (handlers s)" and old: "at (handlers s ! t) \<noteq> LEnd"
    and sum: "i + int (rounds (handlers s ! t)) = shared_i s + int (rounds h)"
    and mutex: "m = mutex s \<or> mutex s = None \<and> m = Some t \<or> mutex s = Some t \<and> m = None"
    and h: "inside h \<longleftrightarrow> m = Some t" "in_bounds h" "copied i h"
    and i: "i = shared_i s \<or> mutex s = Some t"
  shows "linv (set_handler t h (s\<lparr>mutex := m, shared_i := i\<rparr>))"
proof -
  let ?hs = "(handlers s)[t := h]"
  have all: "(inside (?hs ! u) \<longleftrightarrow> m = Some u) \<and> in_bounds (?hs ! u) \<and> copied i (?hs ! u)"
    if "u < length (handlers s)" for u
  proof (cases "u = t")
    case False
    with inv that have u: "inside (handlers s ! u) \<longleftrightarrow> mutex s = Some u" "in_bounds (handlers s ! u)"
      "copied (shared_i s) (handlers s ! u)" by (auto simp: linv_def)
    with False mutex i show ?thesis by (auto intro: not_inside_copied)
  qed (use t h in auto)
  moreover have "i = int (sum_list (map rounds ?hs))"
    using sum_rounds_update [OF t, of h] sum inv by (simp add: linv_def)
  moreover have "at (?hs ! u) = LEnd" if "at (handlers s ! u) = LEnd" for u
    using that old by (metis nth_list_update_neq)
  then have "joined (set_handler t h (s\<lparr>mutex := m, shared_i := i\<rparr>))"
    using inv by (auto simp: linv_def joined_def set_handler_def split: mpoint.splits)
  ultimately show ?thesis using inv t mutex by (auto simp: linv_def set_handler_def)
qed

lemma linv_thread:
  assumes inv: "linv s" and "threadHandler t s = Some s'"
  shows "linv s'"
proof -
  let ?h = "handlers s ! t"
  have t: "t < length (handlers s)" using assms(2) by (auto simp: threadHandler_def split: if_splits)
  have old: "in_bounds ?h" "copied (shared_i s) ?h" "inside ?h \<longleftrightarrow> mutex s = Some t"
    using inv t by (auto simp: linv_def)
  have step: "\<exists>h m i. s' = set_handler t h (s\<lparr>mutex := m, shared_i := i\<rparr>) \<and> at ?h \<noteq> LEnd
      \<and> i + int (rounds ?h) = shared_i s + int (rounds h)
      \<and> (m = mutex s \<or> mutex s = None \<and> m = Some t \<or> mutex s = Some t \<and> m = None)
      \<and> (inside h \<longleftrightarrow> m = Some t) \<and> in_bounds h \<and> copied i h \<and> (i = shared_i s \<or> mutex s = Some t)"
  proof (cases "at ?h")
    case (LLock k)
    show ?thesis
    proof (cases "k < 2000")
      case True
      with LLock assms(2) t show ?thesis
        by (intro exI [of _ "?h\<lparr>at := LRead k\<rparr>"] exI [of _ "Some t"] exI [of _ "shared_i s"])
          (auto simp: threadHandler_def rounds_def inside_def in_bounds_def copied_def split: if_splits)
    next
      case False
      with LLock assms(2) t old show ?thesis
        by (intro exI [of _ "?h\<lparr>at := LEnd\<rparr>"] exI [of _ "mutex s"] exI [of _ "shared_i s"])
          (auto simp: threadHandler_def rounds_def inside_def in_bounds_def copied_def)
    qed
  next
    case (LRead k)
    with assms(2) t old show ?thesis
      by (intro exI [of _ "?h\<lparr>at := LInc k, local_n := shared_i s\<rparr>"] exI [of _ "mutex s"] exI [of _ "shared_i s"])
        (auto simp: threadHandler_def rounds_def inside_def in_bounds_def copied_def)
  next
    case (LInc k)
    with assms(2) t old show ?thesis
      by (intro exI [of _ "?h\<lparr>at := LWrite k, local_n := local_n ?h + 1\<rparr>"] exI [of _ "mutex s"] exI [of _ "shared_i s"])
        (auto simp: threadHandler_def rounds_def inside_def in_bounds_def copied_def)
  next
    case (LWrite k)
    with assms(2) t old show ?thesis
      by (intro exI [of _ "?h\<lparr>at := LUnlock k\<rparr>"] exI [of _ "mutex s"] exI [of _ "local_n ?h"])
        (auto simp: threadHandler_def rounds_def inside_def in_bounds_def copied_def)
  next
    case (LUnlock k)
    with assms(2) t old show ?thesis
      by (intro exI [of _ "?h\<lparr>at := LLock (k + 1)\<rparr>"] exI [of _ None] exI [of _ "shared_i s"])
        (auto simp: threadHandler_def rounds_def inside_def in_bounds_def copied_def)
  next
    case LEnd
    with assms(2) t show ?thesis by (simp add: threadHandler_def)
  qed
  then show ?thesis using linv_handler [OF inv t] by blast
qed

lemma linv_main:
  assumes inv: "linv s" and "lock_main ok s = Some s'"
  shows "linv s'"
proof (cases "main_at s")
  case MCreate
  show ?thesis
  proof (cases ok)
    case True
    with MCreate assms(2) have s': "s' = s\<lparr>handlers := handlers s @ [\<lparr>at = LLock 0, local_n = 0\<rparr>],
        main_at := if length (handlers s) = 1 then MIds else MCreate\<rparr>" by (simp add: lock_main_def)
    let ?h = "\<lparr>at = LLock 0, local_n = 0\<rparr>"
    have new: "rounds ?h = 0" "\<not> inside ?h" "in_bounds ?h" "copied i ?h" for i
      by (simp_all add: rounds_def inside_def in_bounds_def copied_def)
    have l: "length (handlers s) < 2" using inv MCreate by (simp add: linv_def joined_def)
    then have "joined s'" unfolding s' by (auto simp: joined_def less_2_cases_iff)
    moreover have "(inside ((handlers s @ [?h]) ! t) \<longleftrightarrow> mutex s = Some t) \<and> in_bounds ((handlers s @ [?h]) ! t)
        \<and> copied (shared_i s) ((handlers s @ [?h]) ! t)" if "t < Suc (length (handlers s))" for t
    proof (cases "t < length (handlers s)")
      case True
      then have "(handlers s @ [?h]) ! t = handlers s ! t" by (simp add: nth_append)
      with inv True show ?thesis unfolding linv_def by metis
    next
      case False
      with that have "t = length (handlers s)" by simp
      with inv new show ?thesis by (auto simp: linv_def nth_append)
    qed
    ultimately show ?thesis using inv new(1) unfolding linv_def s' by (auto simp: less_Suc_eq)
  qed (use MCreate assms in \<open>auto simp: lock_main_def linv_def joined_def\<close>)
next
  case MPrint
  then have l: "length (handlers s) = 2" "at (handlers s ! 0) = LEnd" "at (handlers s ! 1) = LEnd"
    using inv by (simp_all add: linv_def joined_def)
  then obtain a b where "handlers s = [a, b]" by (auto simp: length_Suc_conv numeral_2_eq_2)
  with l inv have "shared_i s = 4000" by (simp add: linv_def rounds_def)
  with MPrint assms show ?thesis by (auto simp: lock_main_def linv_def joined_def)
qed (use assms in \<open>auto simp: lock_main_def linv_def joined_def less_2_cases_iff split: if_splits\<close>)

interpretation counter: invariant_system linit "exec_step lexec" linv
proof
  show "linv s" if "linit s" for s using that by (simp add: linit_def linv_def joined_def)
  show "linv s'" if "linv s" "exec_step lexec s s'" for s s'
  proof -
    from that(2) obtain a where "lexec a s = Some s'" by (auto simp: exec_step_def)
    then have "(\<exists>ok. lock_main ok s = Some s') \<or> (\<exists>t. threadHandler t s = Some s')"
      by (cases a) (auto simp: lexec_def split: mpoint.splits)
    then show ?thesis using linv_thread [OF that(1)] linv_main [OF that(1)] by blast
  qed
qed

text \<open>C30: what the two threads of \<^verbatim>\<open>thread_lock.c\<close> compute under the mutex does not depend on the schedule: whatever
  the interleaving, a run that prints prints 4000, twice the number of rounds, although each
  increment is a read, an addition and a write.\<close>

theorem lock_counter_exact:
  assumes "lock_reach s" and "printed s = Some v"
  shows "v = 4000"
  using counter.reach_inv [OF assms(1)] assms(2) by (simp add: linv_def)

definition one_thread :: "nat \<Rightarrow> laction list" where
  \<comment> \<open>\<open>n\<close> rounds of handler \<open>t\<close> on its own\<close>
  "one_thread t = replicate 5 (LThread t)"

definition counting :: "nat \<Rightarrow> nat \<Rightarrow> counter \<Rightarrow> bool" where
  "counting j k s \<longleftrightarrow> main_at s = MIds \<and> mutex s = None \<and> map at (handlers s) = [LLock j, LLock k]"

lemma counting_step:
  assumes "counting j k s" and "lock_reach s"
  shows "j < 2000 \<Longrightarrow> \<exists>s'. counting (Suc j) k s' \<and> lock_reach s'"
    and "k < 2000 \<Longrightarrow> \<exists>s'. counting j (Suc k) s' \<and> lock_reach s'"
proof -
  obtain a b where h: "handlers s = [a, b]" "at a = LLock j" "at b = LLock k"
    using assms(1) by (auto simp: counting_def map_eq_Cons_conv)
  show "\<exists>s'. counting (Suc j) k s' \<and> lock_reach s'" if "j < 2000"
  proof -
    have "\<exists>s'. runs lexec (one_thread 0) s = Some s' \<and> counting (Suc j) k s'"
      using assms(1) h that by (simp add: one_thread_def lexec_def threadHandler_def set_handler_def counting_def eval_nat_numeral Let_def)
    then show ?thesis using assms(2) by (blast intro: runs_reach)
  qed
  show "\<exists>s'. counting j (Suc k) s' \<and> lock_reach s'" if "k < 2000"
  proof -
    have "\<exists>s'. runs lexec (one_thread 1) s = Some s' \<and> counting j (Suc k) s'"
      using assms(1) h that by (simp add: one_thread_def lexec_def threadHandler_def set_handler_def counting_def eval_nat_numeral Let_def)
    then show ?thesis using assms(2) by (blast intro: runs_reach)
  qed
qed

lemma counting_reachable: "j \<le> 2000 \<Longrightarrow> k \<le> 2000 \<Longrightarrow> \<exists>s. counting j k s \<and> lock_reach s"
proof (induction k)
  case 0
  then show ?case
  proof (induction j)
    case 0
    let ?s = "\<lparr>shared_i = 0, mutex = None, handlers = [], main_at = MCreate, printed = None\<rparr>"
    have "\<exists>s'. runs lexec [LMain True, LMain True] ?s = Some s' \<and> counting 0 0 s'"
      by (simp add: lexec_def lock_main_def counting_def)
    moreover have "lock_reach ?s" by (rule reach_init) (simp add: linit_def)
    ultimately show ?case by (blast intro: runs_reach)
  qed (use counting_step(1) in \<open>auto simp: Suc_le_eq\<close>)
qed (use counting_step(2) in \<open>auto simp: Suc_le_eq\<close>)

theorem lock_counter_exact_witness: "\<exists>s. printed s = Some 4000 \<and> lock_reach s"
proof -
  obtain s where s: "counting 2000 2000 s" "lock_reach s" using counting_reachable by blast
  then obtain a b where "handlers s = [a, b]" "at a = LLock 2000" "at b = LLock 2000"
    by (auto simp: counting_def map_eq_Cons_conv)
  with s(1) have "\<exists>s' v. runs lexec [LThread 0, LThread 1, LMain True, LMain True, LMain True, LMain True] s = Some s'
      \<and> printed s' = Some v"
    by (simp add: lexec_def threadHandler_def lock_main_def set_handler_def counting_def Let_def)
  with s(2) obtain s' v where "lock_reach s'" "printed s' = Some v" by (blast intro: runs_reach)
  then show ?thesis using lock_counter_exact by blast
qed

section \<open>\<^verbatim>\<open>thread_cond.c\<close>\<close>

text \<open>The list is its data, from \<^verbatim>\<open>head\<close> on. The producer is at the allocation, at the lock, at the push, at
  the unlock, at the signal; the consumer at the lock, at \<^verbatim>\<open>if(head == NULL)\<close>, blocked, taking the
  mutex again, at the accesses to \<^verbatim>\<open>head\<close>, at the unlock.\<close>

datatype ppoint = PMake | PLock int | PPush int | PUnlock | PSignal
datatype cpoint = CLock | CTest | CWait | CRelock | CTake | CUnlock

datatype role2 = Producer | Consumer

record condlist =
  stack :: "int list"
  cmutex :: "role2 option"
  prod_at :: ppoint
  cons_at :: cpoint
  pushed :: "int list"     \<comment> \<open>the history of the list\<close>
  popped :: "int list"
  null_read :: bool        \<comment> \<open>\<^verbatim>\<open>head->data\<close> with a null \<^verbatim>\<open>head\<close>; the run ends there\<close>

definition cond_produce :: "condlist \<Rightarrow> condlist option" where
  "cond_produce s = (case prod_at s of
      PMake \<Rightarrow> None
    | PLock d \<Rightarrow> if cmutex s = None then Some (s\<lparr>cmutex := Some Producer, prod_at := PPush d\<rparr>) else None
    | PPush d \<Rightarrow> Some (s\<lparr>stack := d # stack s, pushed := pushed s @ [d], prod_at := PUnlock\<rparr>)
    | PUnlock \<Rightarrow> Some (s\<lparr>cmutex := None, prod_at := PSignal\<rparr>)
    | PSignal \<Rightarrow> Some (s\<lparr>prod_at := PMake, cons_at := (if cons_at s = CWait then CRelock else cons_at s)\<rparr>))"

definition cond_consume :: "condlist \<Rightarrow> condlist option" where
  "cond_consume s = (case cons_at s of
      CLock \<Rightarrow> if cmutex s = None then Some (s\<lparr>cmutex := Some Consumer, cons_at := CTest\<rparr>) else None
    | CTest \<Rightarrow> Some (if stack s = [] then s\<lparr>cmutex := None, cons_at := CWait\<rparr> else s\<lparr>cons_at := CTake\<rparr>)
    | CWait \<Rightarrow> None
    | CRelock \<Rightarrow> if cmutex s = None then Some (s\<lparr>cmutex := Some Consumer, cons_at := CTake\<rparr>) else None
    | CTake \<Rightarrow>
        (case stack s of
           [] \<Rightarrow> Some (s\<lparr>null_read := True\<rparr>)
         | d # ds \<Rightarrow> Some (s\<lparr>stack := ds, popped := popped s @ [d], cons_at := CUnlock\<rparr>))
    | CUnlock \<Rightarrow> Some (s\<lparr>cmutex := None, cons_at := CLock\<rparr>))"

datatype caction =
    Make int          \<comment> \<open>the value of \<^verbatim>\<open>rand()%3\<close>\<close>
  | Prod | Cons
  | Unsignalled       \<comment> \<open>\<^verbatim>\<open>pthread_cond_wait\<close> returns without a signal\<close>

definition cexec :: "caction \<Rightarrow> condlist \<Rightarrow> condlist option" where
  "cexec a s =
     (if null_read s then None
      else (case a of
          Make d \<Rightarrow> if prod_at s = PMake \<and> 0 \<le> d \<and> d < 3 then Some (s\<lparr>prod_at := PLock d\<rparr>) else None
        | Prod \<Rightarrow> cond_produce s
        | Cons \<Rightarrow> cond_consume s
        | Unsignalled \<Rightarrow> if cons_at s = CWait then Some (s\<lparr>cons_at := CRelock\<rparr>) else None))"

definition cstart :: condlist where
  "cstart = \<lparr>stack = [], cmutex = None, prod_at = PMake, cons_at = CLock, pushed = [], popped = [], null_read = False\<rparr>"

abbreviation cond_reach :: "condlist \<Rightarrow> bool" where
  "cond_reach \<equiv> reach (\<lambda>s. s = cstart) (exec_step cexec)"

definition cinv :: "condlist \<Rightarrow> bool" where
  "cinv s \<longleftrightarrow> mset (pushed s) = mset (popped s) + mset (stack s)
     \<and> (cmutex s = Some Producer \<longleftrightarrow> (case prod_at s of PPush _ \<Rightarrow> True | PUnlock \<Rightarrow> True | _ \<Rightarrow> False))
     \<and> (cmutex s = Some Consumer \<longleftrightarrow> cons_at s \<in> {CTest, CTake, CUnlock})
     \<and> set (pushed s) \<subseteq> {0, 1, 2}
     \<and> (case prod_at s of PLock d \<Rightarrow> d \<in> {0, 1, 2} | PPush d \<Rightarrow> d \<in> {0, 1, 2} | _ \<Rightarrow> True)"

interpretation condlist: invariant_system "\<lambda>s. s = cstart" "exec_step cexec" cinv
proof
  show "cinv s" if "s = cstart" for s using that by (simp add: cstart_def cinv_def)
  show "cinv s'" if "cinv s" "exec_step cexec s s'" for s s'
  proof -
    from that(2) obtain a where a: "cexec a s = Some s'" by (auto simp: exec_step_def)
    show ?thesis
    proof (cases a)
      case (Make d)
      with a that(1) show ?thesis by (auto simp: cexec_def cinv_def split: if_splits)
    next
      case Prod
      with a that(1) show ?thesis
        by (cases "prod_at s") (auto simp: cexec_def cinv_def cond_produce_def split: if_splits)
    next
      case Cons
      with a that(1) show ?thesis
        by (cases "cons_at s")
          (auto simp: cexec_def cinv_def cond_consume_def split: if_splits list.splits)
    next
      case Unsignalled
      with a that(1) show ?thesis by (auto simp: cexec_def cinv_def split: if_splits)
    qed
  qed
qed

text \<open>The list of \<^verbatim>\<open>thread_cond.c\<close> loses and duplicates nothing: in every interleaving the values pushed are the
  values popped and those still in the list, and the two threads are never both inside their critical
  sections.\<close>

theorem cond_list_conserves:
  assumes "cond_reach s"
  shows "mset (pushed s) = mset (popped s) + mset (stack s) \<and> set (popped s) \<subseteq> {0, 1, 2}
     \<and> \<not> (cons_at s \<in> {CTest, CTake, CUnlock} \<and> (prod_at s = PUnlock \<or> (\<exists>d. prod_at s = PPush d)))"
proof -
  have inv: "cinv s" by (rule condlist.reach_inv [OF assms])
  then have "set (popped s) \<subseteq> set (pushed s)"
    unfolding cinv_def by (metis set_mset_mset set_mset_union sup_ge1)
  with inv have "set (popped s) \<subseteq> {0, 1, 2}" by (auto simp: cinv_def)
  with inv show ?thesis by (auto simp: cinv_def)
qed

definition stale_signal :: "caction list" where
  \<comment> \<open>the consumer pops the first node before the producer signals it, and blocks again\<close>
  "stale_signal = [Make 2, Prod, Prod, Prod, Cons, Cons, Cons, Cons, Cons, Cons, Prod, Cons, Cons]"

lemma stale_signal_runs:
  "map_option (\<lambda>s. (null_read s, pushed s, popped s)) (runs cexec stale_signal cstart) = Some (True, [2], [2])"
  by code_simp

theorem cond_list_conserves_witness:
  "\<exists>s :: condlist. pushed s = [2] \<and> mset (pushed s) = mset (popped s) + mset (stack s)"
proof -
  obtain s where "runs cexec stale_signal cstart = Some s" "pushed s = [2]" using stale_signal_runs by auto
  moreover have "cond_reach cstart" by (rule reach_init) simp
  ultimately have "cond_reach s" by (blast intro: runs_reach)
  with \<open>pushed s = [2]\<close> show ?thesis using cond_list_conserves by blast
qed

text \<open>\<^verbatim>\<open>if(head == NULL)\<close> should be a \<^verbatim>\<open>while\<close>: the producer signals after it has unlocked, so the consumer can take
  the node first, block on the empty list, and be woken by the signal for the node it already has. It
  then reads through a null \<^verbatim>\<open>head\<close>. No spurious wake-up is needed.\<close>

theorem cond_stale_signal:
  "\<exists>as s. Unsignalled \<notin> set as \<and> runs cexec as cstart = Some s \<and> null_read s \<and> cond_reach s"
proof -
  obtain s where s: "runs cexec stale_signal cstart = Some s" "null_read s" using stale_signal_runs by auto
  moreover have "cond_reach cstart" by (rule reach_init) simp
  ultimately have "cond_reach s" by (blast intro: runs_reach)
  moreover have "Unsignalled \<notin> set stale_signal" by (simp add: stale_signal_def)
  ultimately show ?thesis using s by blast
qed

section \<open>\<^verbatim>\<open>thread_sem.c\<close>\<close>

text \<open>Here the list is a heap: nodes by address, with their \<^verbatim>\<open>next\<close>. Two counting semaphores, 5 and 0 at the
  start, and no mutex: \<^verbatim>\<open>pNode->next = head\<close>, \<^verbatim>\<open>head = pNode\<close> of the producer and \<^verbatim>\<open>pNode = head\<close>,
  \<^verbatim>\<open>head = head->next\<close> of the consumer (a read, then a write) are actions of their own.\<close>

record snode =
  sdata :: int
  snext :: "nat option"
  sfreed :: bool

datatype sprod = SMake | SWaitP nat | SLink nat | SHead nat | SPost
datatype scons = SWaitC | SPrint | STake | SNext nat | SStore nat "nat option" | SPostP nat | SFree nat

record semlist =
  nodes :: "snode list"
  head :: "nat option"
  sem_produce :: nat
  sem_consumer :: nat
  sprod_at :: sprod
  scons_at :: scons
  consumed :: "int list"
  dangling :: bool        \<comment> \<open>a node was read that had been freed, or a null \<^verbatim>\<open>head\<close>; the run ends there\<close>

definition live_node :: "semlist \<Rightarrow> nat option \<Rightarrow> nat option" where
  \<comment> \<open>an address that may be read\<close>
  "live_node s p = (case p of
      None \<Rightarrow> None
    | Some k \<Rightarrow> if k < length (nodes s) \<and> \<not> sfreed (nodes s ! k) then Some k else None)"

definition upd_node :: "nat \<Rightarrow> (snode \<Rightarrow> snode) \<Rightarrow> semlist \<Rightarrow> semlist" where
  "upd_node k f s = s\<lparr>nodes := (nodes s)[k := f (nodes s ! k)]\<rparr>"

definition sem_make :: "int \<Rightarrow> semlist \<Rightarrow> semlist option" where
  "sem_make d s =
     (if sprod_at s = SMake \<and> 0 \<le> d \<and> d < 3
      then Some (s\<lparr>nodes := nodes s @ [\<lparr>sdata = d, snext = None, sfreed = False\<rparr>],
                  sprod_at := SWaitP (length (nodes s))\<rparr>)
      else None)"

definition sem_produce_step :: "semlist \<Rightarrow> semlist option" where
  "sem_produce_step s = (case sprod_at s of
      SMake \<Rightarrow> None
    | SWaitP k \<Rightarrow>
        if 0 < sem_produce s then Some (s\<lparr>sem_produce := sem_produce s - 1, sprod_at := SLink k\<rparr>) else None
    | SLink k \<Rightarrow> Some ((upd_node k (\<lambda>n. n\<lparr>snext := head s\<rparr>) s)\<lparr>sprod_at := SHead k\<rparr>)
    | SHead k \<Rightarrow> Some (s\<lparr>head := Some k, sprod_at := SPost\<rparr>)
    | SPost \<Rightarrow> Some (s\<lparr>sem_consumer := sem_consumer s + 1, sprod_at := SMake\<rparr>))"

definition sem_consume_step :: "semlist \<Rightarrow> semlist option" where
  "sem_consume_step s = (case scons_at s of
      SWaitC \<Rightarrow>
        if 0 < sem_consumer s then Some (s\<lparr>sem_consumer := sem_consumer s - 1, scons_at := SPrint\<rparr>) else None
    | SPrint \<Rightarrow>
        (case live_node s (head s) of
           None \<Rightarrow> Some (s\<lparr>dangling := True\<rparr>)
         | Some k \<Rightarrow> Some (s\<lparr>consumed := consumed s @ [sdata (nodes s ! k)], scons_at := STake\<rparr>))
    | STake \<Rightarrow>
        (case head s of
           None \<Rightarrow> Some (s\<lparr>dangling := True\<rparr>)
         | Some p \<Rightarrow> Some (s\<lparr>scons_at := SNext p\<rparr>))
    | SNext p \<Rightarrow>
        (case live_node s (head s) of
           None \<Rightarrow> Some (s\<lparr>dangling := True\<rparr>)
         | Some k \<Rightarrow> Some (s\<lparr>scons_at := SStore p (snext (nodes s ! k))\<rparr>))
    | SStore p nx \<Rightarrow> Some (s\<lparr>head := nx, scons_at := SPostP p\<rparr>)
    | SPostP p \<Rightarrow> Some (s\<lparr>sem_produce := sem_produce s + 1, scons_at := SFree p\<rparr>)
    | SFree p \<Rightarrow>
        (case live_node s (Some p) of
           None \<Rightarrow> Some (s\<lparr>dangling := True\<rparr>)
         | Some k \<Rightarrow> Some ((upd_node k (\<lambda>n. n\<lparr>sfreed := True\<rparr>) s)\<lparr>scons_at := SWaitC\<rparr>)))"

definition sexec :: "caction \<Rightarrow> semlist \<Rightarrow> semlist option" where
  "sexec a s =
     (if dangling s then None
      else (case a of
          Make d \<Rightarrow> sem_make d s
        | Prod \<Rightarrow> sem_produce_step s
        | Cons \<Rightarrow> sem_consume_step s
        | Unsignalled \<Rightarrow> None))"

definition sstart :: semlist where
  "sstart = \<lparr>nodes = [], head = None, sem_produce = 5, sem_consumer = 0, sprod_at = SMake, scons_at = SWaitC,
     consumed = [], dangling = False\<rparr>"

abbreviation sem_reach :: "semlist \<Rightarrow> bool" where
  "sem_reach \<equiv> reach (\<lambda>s. s = sstart) (exec_step sexec)"

definition between :: "semlist \<Rightarrow> nat" where
  \<comment> \<open>the tokens a thread has taken and not given back\<close>
  "between s = (case sprod_at s of SLink _ \<Rightarrow> 1 | SHead _ \<Rightarrow> 1 | SPost \<Rightarrow> 1 | _ \<Rightarrow> 0)
     + (case scons_at s of SWaitC \<Rightarrow> 0 | SFree _ \<Rightarrow> 0 | _ \<Rightarrow> 1)"

definition sinv :: "semlist \<Rightarrow> bool" where
  "sinv s \<longleftrightarrow> sem_produce s + sem_consumer s + between s = 5"

interpretation semlist: invariant_system "\<lambda>s. s = sstart" "exec_step sexec" sinv
proof
  show "sinv s" if "s = sstart" for s using that by (simp add: sstart_def sinv_def between_def)
  show "sinv s'" if "sinv s" "exec_step sexec s s'" for s s'
  proof -
    from that(2) obtain a where a: "sexec a s = Some s'" by (auto simp: exec_step_def)
    show ?thesis
    proof (cases a)
      case (Make d)
      with a that(1) show ?thesis by (auto simp: sexec_def sinv_def between_def sem_make_def split: if_splits)
    next
      case Prod
      with a that(1) show ?thesis
        by (cases "sprod_at s")
          (auto simp: sexec_def sinv_def between_def sem_produce_step_def upd_node_def split: if_splits)
    next
      case Cons
      with a that(1) show ?thesis
        by (cases "scons_at s")
          (auto simp: sexec_def sinv_def between_def sem_consume_step_def upd_node_def split: if_splits option.splits)
    qed (use a in \<open>simp add: sexec_def split: if_splits\<close>)
  qed
qed

text \<open>The two semaphores of \<^verbatim>\<open>thread_sem.c\<close> always share five tokens between them and the threads that hold one,
  so the consumer is never more than five nodes behind.\<close>

theorem sem_tokens:
  assumes "sem_reach s"
  shows "sem_produce s + sem_consumer s + between s = 5 \<and> sem_consumer s \<le> 5"
  using semlist.reach_inv [OF assms] by (simp add: sinv_def)

definition sem_race :: "caction list" where
  \<comment> \<open>the producer puts node 1 in front of node 0 while the consumer has read the successor of node 0\<close>
  "sem_race = [Make 0, Prod, Prod, Prod, Prod, Cons, Cons, Cons, Cons, Make 1, Prod, Prod, Prod, Prod,
     Cons, Cons, Cons, Cons, Cons]"

lemma sem_race_runs:
  "map_option (\<lambda>s. (dangling s, head s, consumed s, map sdata (nodes s), map sfreed (nodes s)))
     (runs sexec sem_race sstart) = Some (True, None, [0], [0, 1], [True, False])"
  by code_simp

lemma sem_race_reach:
  "\<exists>s. sem_reach s \<and> dangling s \<and> head s = None \<and> consumed s = [0] \<and> map sdata (nodes s) = [0, 1]
     \<and> map sfreed (nodes s) = [True, False]"
proof -
  obtain s where r: "runs sexec sem_race sstart = Some s"
    and "(dangling s, head s, consumed s, map sdata (nodes s), map sfreed (nodes s))
      = (True, None, [0], [0, 1], [True, False])"
    using sem_race_runs unfolding map_option_eq_Some by (elim exE conjE) (rule that)
  then have s: "dangling s" "head s = None" "consumed s = [0]" "map sdata (nodes s) = [0, 1]"
    "map sfreed (nodes s) = [True, False]" by (simp_all only: prod.inject)
  have "sem_reach sstart" by (rule reach_init) (rule refl)
  from runs_reach [OF this r] show ?thesis by (intro exI [of _ s] conjI s)
qed

theorem sem_tokens_witness: "\<exists>s :: semlist. dangling s \<and> sem_produce s + sem_consumer s + between s = 5"
  using sem_race_reach sem_tokens by (elim exE conjE) (rule exI, rule conjI, assumption, erule sem_tokens [THEN conjunct1])

text \<open>But semaphores are not a mutex: in some interleaving the producer's second node is lost, never consumed
  and out of reach of \<^verbatim>\<open>head\<close>, and the consumer, which the semaphore tells there is one, reads through a
  null \<^verbatim>\<open>head\<close>.\<close>

theorem sem_loses_node:
  "\<exists>s. sem_reach s \<and> dangling s \<and> head s = None \<and> consumed s = [0] \<and> map sdata (nodes s) = [0, 1]
     \<and> map sfreed (nodes s) = [True, False]"
  by (rule sem_race_reach)

end
