(* ===== verification/RwLock.thy ===== *)
theory RwLock
  imports Prelude
begin

text \<open>
  \<^verbatim>\<open>linux08/thread_readLock.c\<close>: four writers and four readers of one counter under a read-write lock.
  A thread is a program point and its local \<^verbatim>\<open>i\<close>; the state has the counter, who holds the lock, and
  what was printed. \<^verbatim>\<open>main\<close> creates the threads and then waits for threads that never end. The counter is a
  32-bit \<^verbatim>\<open>int\<close>: incrementing \<^verbatim>\<open>INT_MAX\<close> is undefined, and sets the flag \<open>overflowed\<close>, behind which nothing is said.
\<close>

section \<open>The program\<close>

datatype rwpoint =
    WLock | WLoad | WInc | WStore | WPrint | WSleep | WUnlock
  | RLock | RLoad | RPrint | RUnlock | RSleep

record rwthread =
  rwpc :: rwpoint
  reg :: int

record rwstate =
  number :: int
  overflowed :: bool                            \<comment> \<open>\<^verbatim>\<open>i++\<close> was done on \<^verbatim>\<open>INT_MAX\<close>\<close>
  wholder :: "nat option"
  rholders :: "nat set"
  rthreads :: "rwthread option list"          \<comment> \<open>\<open>None\<close>: its creation failed\<close>
  printed :: "(nat \<times> bool \<times> int) list"         \<comment> \<open>thread, writer or reader, value\<close>

definition INT_MAX :: int where "INT_MAX = 2147483647"

definition set_rw :: "nat \<Rightarrow> rwthread \<Rightarrow> rwstate \<Rightarrow> rwstate" where
  "set_rw t h s = s\<lparr>rthreads := (rthreads s)[t := Some h]\<rparr>"

definition thread_write :: "nat \<Rightarrow> rwthread \<Rightarrow> rwstate \<Rightarrow> rwstate option" where
  "thread_write t h s = (case rwpc h of
      WLock \<Rightarrow>
        if wholder s = None \<and> rholders s = {}
        then Some (set_rw t (h\<lparr>rwpc := WLoad\<rparr>) (s\<lparr>wholder := Some t\<rparr>)) else None
    | WLoad \<Rightarrow> Some (set_rw t (h\<lparr>rwpc := WInc, reg := number s\<rparr>) s)
    | WInc \<Rightarrow>
        if reg h = INT_MAX then Some (s\<lparr>overflowed := True\<rparr>)
        else Some (set_rw t (h\<lparr>rwpc := WStore, reg := reg h + 1\<rparr>) s)
    | WStore \<Rightarrow> Some (set_rw t (h\<lparr>rwpc := WPrint\<rparr>) (s\<lparr>number := reg h\<rparr>))
    | WPrint \<Rightarrow> Some (set_rw t (h\<lparr>rwpc := WSleep\<rparr>) (s\<lparr>printed := printed s @ [(t, True, reg h)]\<rparr>))
    | WSleep \<Rightarrow> Some (set_rw t (h\<lparr>rwpc := WUnlock\<rparr>) s)
    | WUnlock \<Rightarrow> Some (set_rw t (h\<lparr>rwpc := WLock\<rparr>) (s\<lparr>wholder := None\<rparr>))
    | _ \<Rightarrow> None)"

definition thread_read :: "nat \<Rightarrow> rwthread \<Rightarrow> rwstate \<Rightarrow> rwstate option" where
  "thread_read t h s = (case rwpc h of
      RLock \<Rightarrow>
        if wholder s = None
        then Some (set_rw t (h\<lparr>rwpc := RLoad\<rparr>) (s\<lparr>rholders := insert t (rholders s)\<rparr>)) else None
    | RLoad \<Rightarrow> Some (set_rw t (h\<lparr>rwpc := RPrint, reg := number s\<rparr>) s)
    | RPrint \<Rightarrow> Some (set_rw t (h\<lparr>rwpc := RUnlock\<rparr>) (s\<lparr>printed := printed s @ [(t, False, reg h)]\<rparr>))
    | RUnlock \<Rightarrow> Some (set_rw t (h\<lparr>rwpc := RSleep\<rparr>) (s\<lparr>rholders := rholders s - {t}\<rparr>))
    | RSleep \<Rightarrow> Some (set_rw t (h\<lparr>rwpc := RLock\<rparr>) s)
    | _ \<Rightarrow> None)"

definition rw_create :: "bool \<Rightarrow> rwstate \<Rightarrow> rwstate option" where
  \<comment> \<open>the next of the eight \<^verbatim>\<open>pthread_create\<close>s of \<^verbatim>\<open>main\<close>; a failure is printed and passed over\<close>
  "rw_create ok s =
     (let k = length (rthreads s) in
      if k < 8 then
        Some (s\<lparr>rthreads := rthreads s @
          [if ok then Some \<lparr>rwpc = (if k < 4 then WLock else RLock), reg = 0\<rparr> else None]\<rparr>)
      else None)"

datatype rwaction = Create bool | Run nat

definition rwexec :: "rwaction \<Rightarrow> rwstate \<Rightarrow> rwstate option" where
  "rwexec a s = (if overflowed s then None else case a of
      Create ok \<Rightarrow> rw_create ok s
    | Run t \<Rightarrow>
        if t < length (rthreads s) then
          (case rthreads s ! t of
             None \<Rightarrow> None
           | Some h \<Rightarrow> if t < 4 then thread_write t h s else thread_read t h s)
        else None)"

definition rwstart :: rwstate where
  "rwstart = \<lparr>number = 0, overflowed = False, wholder = None, rholders = {}, rthreads = [], printed = []\<rparr>"

abbreviation rw_reach :: "rwstate \<Rightarrow> bool" where
  "rw_reach \<equiv> reach (\<lambda>s. s = rwstart) (exec_step rwexec)"

section \<open>The lock keeps the counter exact\<close>

fun prints_ok :: "int \<Rightarrow> (nat \<times> bool \<times> int) list \<Rightarrow> bool" where
  \<comment> \<open>with \<open>c\<close> increments before: every writer prints the next number, every reader the current one\<close>
  "prints_ok c [] = True"
| "prints_ok c ((t, w, v) # ps) = (if w then v = c + 1 \<and> prints_ok (c + 1) ps else v = c \<and> prints_ok c ps)"

definition writes :: "(nat \<times> bool \<times> int) list \<Rightarrow> int" where
  "writes ps = int (length (filter (\<lambda>(t, w, v). w) ps))"

lemma prints_ok_snoc:
  "prints_ok c (ps @ [(t, w, v)]) \<longleftrightarrow> prints_ok c ps \<and> v = c + writes ps + (if w then 1 else 0)"
  by (induction c ps rule: prints_ok.induct) (auto simp: writes_def)

lemma writes_snoc: "writes (ps @ [(t, w, v)]) = writes ps + (if w then 1 else 0)"
  by (simp add: writes_def)

definition rw_thread :: "rwstate \<Rightarrow> nat \<Rightarrow> rwthread option" where
  "rw_thread s t = (if t < length (rthreads s) then rthreads s ! t else None)"

text \<open>What each thread may rely on at its program point.\<close>

definition at_point :: "rwstate \<Rightarrow> nat \<Rightarrow> rwthread \<Rightarrow> bool" where
  "at_point s t h = (case rwpc h of
      WLock \<Rightarrow> t < 4 \<and> wholder s \<noteq> Some t
    | WLoad \<Rightarrow> t < 4 \<and> wholder s = Some t \<and> writes (printed s) = number s
    | WInc \<Rightarrow> t < 4 \<and> wholder s = Some t \<and> writes (printed s) = number s \<and> reg h = number s
    | WStore \<Rightarrow> t < 4 \<and> wholder s = Some t \<and> writes (printed s) = number s \<and> reg h = number s + 1 \<and> reg h \<le> INT_MAX
    | WPrint \<Rightarrow> t < 4 \<and> wholder s = Some t \<and> writes (printed s) + 1 = number s \<and> reg h = number s
    | WSleep \<Rightarrow> t < 4 \<and> wholder s = Some t \<and> writes (printed s) = number s
    | WUnlock \<Rightarrow> t < 4 \<and> wholder s = Some t \<and> writes (printed s) = number s
    | RLock \<Rightarrow> 4 \<le> t \<and> t \<notin> rholders s
    | RLoad \<Rightarrow> 4 \<le> t \<and> t \<in> rholders s
    | RPrint \<Rightarrow> 4 \<le> t \<and> t \<in> rholders s \<and> reg h = number s
    | RUnlock \<Rightarrow> 4 \<le> t \<and> t \<in> rholders s
    | RSleep \<Rightarrow> 4 \<le> t \<and> t \<notin> rholders s)"

definition rwinv :: "rwstate \<Rightarrow> bool" where
  "rwinv s \<longleftrightarrow> (\<forall>t h. rw_thread s t = Some h \<longrightarrow> at_point s t h)
     \<and> (wholder s = None \<longrightarrow> writes (printed s) = number s)
     \<and> (wholder s \<noteq> None \<longrightarrow> rholders s = {})
     \<and> (\<forall>t. wholder s = Some t \<longrightarrow> t < 4 \<and> t < length (rthreads s))
     \<and> (\<forall>t \<in> rholders s. 4 \<le> t \<and> t < length (rthreads s))
     \<and> prints_ok 0 (printed s) \<and> length (rthreads s) \<le> 8
     \<and> number s \<le> INT_MAX \<and> (overflowed s \<longrightarrow> writes (printed s) = INT_MAX)"

lemma rwinvD:
  assumes "rwinv s" and "rw_thread s t = Some h"
  shows "at_point s t h" and "t < length (rthreads s)"
  using assms by (auto simp: rwinv_def rw_thread_def split: if_splits)

lemma rw_thread_set:
  "t < length (rthreads s) \<Longrightarrow>
     rw_thread (set_rw t h s) u = (if u = t then Some h else rw_thread s u)"
  by (simp add: rw_thread_def set_rw_def nth_list_update)

lemma rw_thread_upd [simp]:
  "rw_thread (s\<lparr>number := n\<rparr>) u = rw_thread s u" "rw_thread (s\<lparr>wholder := x\<rparr>) u = rw_thread s u"
  "rw_thread (s\<lparr>rholders := r\<rparr>) u = rw_thread s u" "rw_thread (s\<lparr>printed := p\<rparr>) u = rw_thread s u"
  by (simp_all add: rw_thread_def)

lemma set_rw_simps [simp]:
  "number (set_rw t h s) = number s" "wholder (set_rw t h s) = wholder s"
  "rholders (set_rw t h s) = rholders s" "printed (set_rw t h s) = printed s"
  "length (rthreads (set_rw t h s)) = length (rthreads s)" "overflowed (set_rw t h s) = overflowed s"
  by (simp_all add: set_rw_def)

text \<open>A step of thread \<open>t\<close> keeps what the others rely on: they are outside when it writes.\<close>

lemma rwinv_set:
  assumes "rwinv s" and "t < length (rthreads s)" and "at_point s' t h"
    and "\<And>u g. u \<noteq> t \<Longrightarrow> rw_thread s u = Some g \<Longrightarrow> at_point s u g \<Longrightarrow> at_point s' u g"
    and "rthreads s' = rthreads s"
    and "wholder s' = None \<Longrightarrow> writes (printed s') = number s'" and "wholder s' \<noteq> None \<Longrightarrow> rholders s' = {}"
    and "\<And>u. wholder s' = Some u \<Longrightarrow> u < 4 \<and> u < length (rthreads s)"
    and "\<And>u. u \<in> rholders s' \<Longrightarrow> 4 \<le> u \<and> u < length (rthreads s)"
    and "prints_ok 0 (printed s')" and "number s' \<le> INT_MAX" and "\<not> overflowed s'"
  shows "rwinv (set_rw t h s')"
proof -
  have pt: "at_point (set_rw t k s') u g = at_point s' u g" for k u g
    by (cases "rwpc g") (simp_all add: at_point_def)
  have "rw_thread s' u = rw_thread s u" for u using assms(5) by (simp add: rw_thread_def)
  with assms pt show ?thesis
    unfolding rwinv_def by (auto simp: rw_thread_set split: if_splits)
qed

lemma rwinv_overflow:
  assumes "rwinv s" and "writes (printed s) = INT_MAX"
  shows "rwinv (s\<lparr>overflowed := True\<rparr>)"
proof -
  have "at_point (s\<lparr>overflowed := True\<rparr>) u g = at_point s u g" for u g by (cases "rwpc g") (simp_all add: at_point_def)
  with assms show ?thesis by (simp add: rwinv_def rw_thread_def)
qed

lemma rwinv_write:
  assumes inv: "rwinv s" and go: "\<not> overflowed s" and h: "rw_thread s t = Some h" and s': "thread_write t h s = Some s'"
  shows "rwinv s'"
proof (cases "rwpc h = WInc \<and> reg h = INT_MAX")
  case True
  with rwinvD(1) [OF inv h] s' have "writes (printed s) = INT_MAX" "s' = s\<lparr>overflowed := True\<rparr>"
    by (auto simp: at_point_def thread_write_def)
  with inv show ?thesis by (simp add: rwinv_overflow)
next
  case False
  note pt = rwinvD [OF inv h]
  show ?thesis
    using s' pt(1) False
    by (cases "rwpc h"; simp add: thread_write_def at_point_def split: if_splits; hypsubst;
        intro rwinv_set [OF inv pt(2)])
      (use inv go pt(2) in \<open>auto simp: rwinv_def at_point_def writes_snoc prints_ok_snoc split: rwpoint.splits\<close>)
qed

lemma rwinv_read:
  assumes inv: "rwinv s" and go: "\<not> overflowed s" and h: "rw_thread s t = Some h" and s': "thread_read t h s = Some s'"
  shows "rwinv s'"
proof -
  note pt = rwinvD [OF inv h]
  show ?thesis
    using s' pt(1)
    by (cases "rwpc h"; simp add: thread_read_def at_point_def split: if_splits; hypsubst;
        intro rwinv_set [OF inv pt(2)])
      (use inv go pt(2) in \<open>auto simp: rwinv_def at_point_def writes_snoc prints_ok_snoc split: rwpoint.splits\<close>)
qed

lemma rwinv_create:
  assumes inv: "rwinv s" and s': "rw_create ok s = Some s'"
  shows "rwinv s'"
proof -
  let ?h = "if ok then Some \<lparr>rwpc = (if length (rthreads s) < 4 then WLock else RLock), reg = 0\<rparr> else None"
  from s' have s': "s' = s\<lparr>rthreads := rthreads s @ [?h]\<rparr>" and k: "length (rthreads s) < 8"
    by (auto simp: rw_create_def Let_def split: if_splits)
  have th: "rw_thread s' u = (if u = length (rthreads s) then ?h else rw_thread s u)" for u
    by (auto simp: s' rw_thread_def nth_append)
  have pt: "at_point s' u g = at_point s u g" for u g by (cases "rwpc g") (simp_all add: at_point_def s')
  have new: "wholder s \<noteq> Some (length (rthreads s))" "length (rthreads s) \<notin> rholders s"
    using inv by (auto simp: rwinv_def)
  have "at_point s' u g" if "rw_thread s' u = Some g" for u g
    using that inv new by (auto simp: th pt rwinv_def split: if_splits) (auto simp: at_point_def)
  with inv k show ?thesis by (auto simp: rwinv_def s')
qed

interpretation rw: invariant_system "\<lambda>s. s = rwstart" "exec_step rwexec" rwinv
proof
  show "rwinv s" if "s = rwstart" for s
    using that by (simp add: rwstart_def rwinv_def rw_thread_def writes_def INT_MAX_def)
  show "rwinv s'" if inv: "rwinv s" and "exec_step rwexec s s'" for s s'
  proof -
    from that(2) obtain a where a: "rwexec a s = Some s'" by (auto simp: exec_step_def)
    then have go: "\<not> overflowed s" by (auto simp: rwexec_def)
    show ?thesis
    proof (cases a)
      case (Create ok)
      with a inv go show ?thesis by (auto simp: rwexec_def intro: rwinv_create)
    next
      case (Run t)
      with a inv go show ?thesis
        by (auto simp: rwexec_def rw_thread_def split: if_splits option.splits
            intro: rwinv_write [of s t] rwinv_read [of s t])
    qed
  qed
qed

text \<open>C22: in every interleaving of \<^verbatim>\<open>thread_readLock.c\<close>, with any of the creations failing, the writers together
  print 1, 2, 3, ... without a gap or a repetition up to \<^verbatim>\<open>INT_MAX\<close>, and every reader prints the number the last writer
  stored; while a writer holds the lock nobody else does; and the increment overflows only after \<^verbatim>\<open>INT_MAX\<close> was printed.\<close>

theorem rw_prints_in_order:
  assumes "rw_reach s"
  shows "prints_ok 0 (printed s) \<and> (wholder s = None \<or> rholders s = {})
    \<and> number s \<le> INT_MAX \<and> (overflowed s \<longrightarrow> writes (printed s) = INT_MAX)"
  using rw.reach_inv [OF assms] by (auto simp: rwinv_def)

theorem rw_prints_in_order_witness:
  "\<exists>s :: rwstate. printed s = [(1, True, 1), (5, False, 1), (0, True, 2)] \<and> prints_ok 0 (printed s)"
proof -
  let ?as = "replicate 8 (Create True) @ replicate 7 (Run 1) @ replicate 4 (Run 5) @ replicate 5 (Run 0)"
  have "map_option printed (runs rwexec ?as rwstart) = Some [(1, True, 1), (5, False, 1), (0, True, 2)]"
    by code_simp
  then obtain s where s: "runs rwexec ?as rwstart = Some s" "printed s = [(1, True, 1), (5, False, 1), (0, True, 2)]"
    by auto
  from runs_reach [OF reach_init s(1)] have "rw_reach s" by simp
  from rw_prints_in_order [OF this] s(2) show ?thesis by blast
qed

end
