(* ===== verification/SigChild.thy ===== *)
theory SigChild
  imports Prelude
begin

text \<open>
  \<^verbatim>\<open>sigchild.c\<close>, \<^verbatim>\<open>sigchildBug.c\<close> and \<^verbatim>\<open>sigchildReally.c\<close> of \<^verbatim>\<open>linux07\<close>: a parent of three children that
  collects them in its handler of \<^verbatim>\<open>SIGCHLD\<close>. The state has what the kernel keeps for the parent: its
  children, whether the signal is pending (standard signals do not queue), whether it is blocked, and
  where the parent and its handler are. The signal is blocked while its handler runs.
\<close>

section \<open>The programs\<close>

datatype kid = Running | Zombie | Reaped

datatype hstate =
    HIdle
  | HCall            \<comment> \<open>at \<^verbatim>\<open>waitpid(-1,NULL,WNOHANG)\<close>\<close>
  | HResult int      \<comment> \<open>at the tests of its result\<close>
  | HSleep           \<comment> \<open>at the \<^verbatim>\<open>sleep(5)\<close> of \<^verbatim>\<open>sigchildBug.c\<close>\<close>

datatype pstate =
    PFork nat        \<comment> \<open>in the loop with this \<open>i\<close>\<close>
  | PSleep           \<comment> \<open>\<^verbatim>\<open>sigchildReally.c\<close>: at the \<^verbatim>\<open>sleep(5)\<close> before the signal is unblocked\<close>
  | PRest            \<comment> \<open>in the final \<^verbatim>\<open>while(1) sleep(1)\<close>\<close>
  | PExit int

datatype variant = Plain | Bug | Really

record family =
  kids :: "kid list"
  sig_pending :: bool
  sig_blocked :: bool
  handler_at :: hstate
  parent_at :: pstate

definition waitpid_result :: "nat option \<Rightarrow> family \<Rightarrow> (int \<times> family) option" where
  \<comment> \<open>the kernel picks a zombie if there is one; 0 with only running children, -1 with none; the pid of
    child \<open>k\<close> is \<open>k + 1\<close>\<close>
  "waitpid_result c s = (case c of
      Some k \<Rightarrow>
        if k < length (kids s) \<and> kids s ! k = Zombie
        then Some (int k + 1, s\<lparr>kids := (kids s)[k := Reaped]\<rparr>) else None
    | None \<Rightarrow>
        if Zombie \<in> set (kids s) then None
        else Some (if Running \<in> set (kids s) then 0 else -1, s))"

definition sighandler :: "variant \<Rightarrow> nat option \<Rightarrow> family \<Rightarrow> family option" where
  "sighandler v c s = (case handler_at s of
      HIdle \<Rightarrow> None
    | HCall \<Rightarrow> map_option (\<lambda>(r, s). s\<lparr>handler_at := HResult r\<rparr>) (waitpid_result c s)
    | HResult r \<Rightarrow>
        Some (s\<lparr>handler_at := (case v of
            Plain \<Rightarrow> HIdle
          | Bug \<Rightarrow> HSleep
          | Really \<Rightarrow> if 0 < r then HCall else HIdle)\<rparr>)
    | HSleep \<Rightarrow> Some (s\<lparr>handler_at := HIdle\<rparr>))"

definition parent :: "variant \<Rightarrow> bool \<Rightarrow> family \<Rightarrow> family option" where
  \<comment> \<open>\<open>ok\<close>: whether \<^verbatim>\<open>fork\<close> succeeds\<close>
  "parent v ok s = (case parent_at s of
      PFork i \<Rightarrow>
        if i < 3 then
          if ok then Some (s\<lparr>kids := kids s @ [Running], parent_at := PFork (i + 1)\<rparr>)
          else Some (s\<lparr>parent_at := PExit (-1)\<rparr>)
        else Some (s\<lparr>parent_at := (if v = Really then PSleep else PRest)\<rparr>)
    | PSleep \<Rightarrow> Some (s\<lparr>sig_blocked := False, parent_at := PRest\<rparr>)
    | PRest \<Rightarrow> None
    | PExit r \<Rightarrow> None)"

datatype faction =
    Parent bool
  | Exit nat                 \<comment> \<open>child \<open>k\<close> ends: a zombie, and the signal is generated\<close>
  | Deliver
  | Handler "nat option"     \<comment> \<open>a step of the handler, and the zombie \<^verbatim>\<open>waitpid\<close> takes\<close>

definition fexec :: "variant \<Rightarrow> faction \<Rightarrow> family \<Rightarrow> family option" where
  \<comment> \<open>the parent does nothing else while its handler runs\<close>
  "fexec v a s = (case parent_at s of
      PExit r \<Rightarrow> None
    | _ \<Rightarrow>
        (case a of
           Parent ok \<Rightarrow> if handler_at s = HIdle then parent v ok s else None
         | Exit k \<Rightarrow>
             if k < length (kids s) \<and> kids s ! k = Running
             then Some (s\<lparr>kids := (kids s)[k := Zombie], sig_pending := True\<rparr>) else None
         | Deliver \<Rightarrow>
             if sig_pending s \<and> \<not> sig_blocked s \<and> handler_at s = HIdle
             then Some (s\<lparr>sig_pending := False, handler_at := HCall\<rparr>) else None
         | Handler c \<Rightarrow> sighandler v c s))"

definition fstart :: "variant \<Rightarrow> family" where
  "fstart v = \<lparr>kids = [], sig_pending = False, sig_blocked = (v = Really), handler_at = HIdle, parent_at = PFork 0\<rparr>"

definition sigchild :: "faction \<Rightarrow> family \<Rightarrow> family option" where
  "sigchild = fexec Plain"

definition sigchildBug :: "faction \<Rightarrow> family \<Rightarrow> family option" where
  "sigchildBug = fexec Bug"

abbreviation family_reach :: "variant \<Rightarrow> family \<Rightarrow> bool" where
  "family_reach v \<equiv> reach (\<lambda>s. s = fstart v) (exec_step (fexec v))"

section \<open>The loop in the handler leaves no zombie behind\<close>

text \<open>A zombie is announced: the signal is pending, or the handler will call \<^verbatim>\<open>waitpid\<close> again.\<close>

definition announced :: "family \<Rightarrow> bool" where
  "announced s \<longleftrightarrow> sig_pending s \<or> handler_at s = HCall \<or> (\<exists>r > 0. handler_at s = HResult r)"

definition finv :: "family \<Rightarrow> bool" where
  "finv s \<longleftrightarrow> (Zombie \<in> set (kids s) \<longrightarrow> announced s) \<and> handler_at s \<noteq> HSleep
     \<and> (\<forall>i. parent_at s = PFork i \<longrightarrow> length (kids s) = i) \<and> length (kids s) \<le> 3
     \<and> (\<forall>i. parent_at s = PFork i \<longrightarrow> i \<le> 3)"

lemma zombie_update: "Zombie \<in> set (ks[k := x]) \<Longrightarrow> x \<noteq> Zombie \<Longrightarrow> Zombie \<in> set ks"
  using set_update_subset_insert [of ks k x] by auto

lemma finv_handler:
  assumes "finv s" and "sighandler Really c s = Some s'"
  shows "finv s'"
proof (cases "handler_at s")
  case HCall
  show ?thesis
  proof (cases c)
    case None
    with HCall assms show ?thesis
      by (auto simp: sighandler_def waitpid_result_def finv_def announced_def split: if_splits)
  next
    case (Some k)
    with HCall assms show ?thesis
      by (auto simp: sighandler_def waitpid_result_def finv_def announced_def split: if_splits dest: zombie_update)
  qed
qed (use assms in \<open>auto simp: sighandler_def finv_def announced_def split: if_splits\<close>)

lemma finv_parent:
  assumes "finv s" and "parent Really ok s = Some s'"
  shows "finv s'"
  using assms by (cases "parent_at s") (auto simp: parent_def finv_def announced_def split: if_splits)

interpretation family: invariant_system "\<lambda>s. s = fstart Really" "exec_step (fexec Really)" finv
proof
  show "finv s" if "s = fstart Really" for s using that by (simp add: fstart_def finv_def)
  show "finv s'" if inv: "finv s" and "exec_step (fexec Really) s s'" for s s'
  proof -
    from that(2) obtain a where a: "fexec Really a s = Some s'" by (auto simp: exec_step_def)
    show ?thesis
    proof (cases a)
      case (Parent ok)
      with a have "parent Really ok s = Some s'" by (auto simp: fexec_def split: pstate.splits if_splits)
      with inv show ?thesis by (rule finv_parent)
    next
      case (Handler c)
      with a have "sighandler Really c s = Some s'" by (auto simp: fexec_def split: pstate.splits)
      with inv show ?thesis by (rule finv_handler)
    qed (use a inv in \<open>auto simp: fexec_def finv_def announced_def split: pstate.splits if_splits\<close>)
  qed
qed

text \<open>C23: in \<^verbatim>\<open>sigchildReally.c\<close>, whose handler calls \<^verbatim>\<open>waitpid\<close> until it has no more to give, a child that ended is
  never forgotten: whenever the parent is back in its final loop with no signal pending, every child that
  has ended has been collected, however the signals were merged.\<close>

theorem sigchild_drains:
  assumes "family_reach Really s" and "handler_at s = HIdle" and "\<not> sig_pending s"
  shows "Zombie \<notin> set (kids s) \<and> length (kids s) \<le> 3"
  using family.reach_inv [OF assms(1)] assms(2,3) by (auto simp: finv_def announced_def)

section \<open>The handler without the loop loses children\<close>

definition burst :: "variant \<Rightarrow> faction list" where
  \<comment> \<open>all children end before the first signal is delivered\<close>
  "burst v = [Parent True, Parent True, Parent True, Parent True, Exit 0, Exit 1, Exit 2]
     @ (if v = Really then [Parent True] else [])
     @ Deliver # Handler (Some 0) # (case v of
         Plain \<Rightarrow> [Handler None]
       | Bug \<Rightarrow> [Handler None, Handler None]
       | Really \<Rightarrow> [Handler None, Handler (Some 1), Handler None, Handler (Some 2), Handler None, Handler None, Handler None])"

lemma burst_runs:
  "\<forall>v \<in> {Plain, Bug}. runs (fexec v) (burst v) (fstart v)
     = Some \<lparr>kids = [Reaped, Zombie, Zombie], sig_pending = False, sig_blocked = False, handler_at = HIdle, parent_at = PRest\<rparr>"
  "runs (fexec Really) (burst Really) (fstart Really)
     = Some \<lparr>kids = [Reaped, Reaped, Reaped], sig_pending = False, sig_blocked = False, handler_at = HIdle, parent_at = PRest\<rparr>"
  by code_simp+

lemma burst_reach:
  "family_reach v (fstart v)" by (rule reach_init) simp

theorem sigchild_drains_witness:
  "\<exists>s :: family. kids s = [Reaped, Reaped, Reaped] \<and> Zombie \<notin> set (kids s) \<and> length (kids s) \<le> 3"
proof -
  let ?s = "\<lparr>kids = [Reaped, Reaped, Reaped], sig_pending = False, sig_blocked = False, handler_at = HIdle, parent_at = PRest\<rparr>"
  have "family_reach Really ?s" by (rule runs_reach [OF burst_reach burst_runs(2)])
  from sigchild_drains [OF this] show ?thesis by (intro exI [of _ ?s]) simp
qed

text \<open>\<^verbatim>\<open>sigchild.c\<close> and \<^verbatim>\<open>sigchildBug.c\<close>, whose handlers call \<^verbatim>\<open>waitpid\<close> once, lose children: the signals of three
  children that end close together are merged into one, one child is collected, and the parent is left
  with two zombies, no signal pending and nothing more that can happen.\<close>

theorem sigchild_loses:
  "v \<in> {Plain, Bug} \<Longrightarrow> \<exists>s. family_reach v s \<and> kids s = [Reaped, Zombie, Zombie]
     \<and> {a. fexec v a s \<noteq> None} = {}"
proof -
  assume v: "v \<in> {Plain, Bug}"
  let ?s = "\<lparr>kids = [Reaped, Zombie, Zombie], sig_pending = False, sig_blocked = False, handler_at = HIdle, parent_at = PRest\<rparr>"
  have "family_reach v ?s" using v burst_runs(1) by (blast intro: runs_reach [OF burst_reach])
  moreover have "fexec v a ?s = None" for a
    by (cases a) (auto simp: fexec_def parent_def sighandler_def less_Suc_eq numeral_3_eq_3 nth_Cons' split: if_splits)
  ultimately show ?thesis by (intro exI [of _ ?s]) simp
qed

theorem sigchild_loses_witness:
  "\<exists>s. family_reach Plain s \<and> kids s = [Reaped, Zombie, Zombie]"
  using sigchild_loses [of Plain] by auto

end
