(* ===== verification/Explore.thy ===== *)
theory Explore
  imports Prelude
begin

text \<open>
  All maximal runs of a transition system whose enabled actions can be listed. \<open>outcomes n s\<close> collects
  the states in which a run from \<open>s\<close> ends, provided every run ends within less than \<open>n\<close> steps; then
  what a program made of such processes can do is a finite set that is computed.
\<close>

definition succs :: "('a \<Rightarrow> 's \<Rightarrow> 's option) \<Rightarrow> ('s \<Rightarrow> 'a list) \<Rightarrow> 's \<Rightarrow> 's list" where
  "succs ex acts s = concat (map (\<lambda>a. case ex a s of None \<Rightarrow> [] | Some t \<Rightarrow> [t]) (acts s))"

primrec outcomes :: "('a \<Rightarrow> 's \<Rightarrow> 's option) \<Rightarrow> ('s \<Rightarrow> 'a list) \<Rightarrow> nat \<Rightarrow> 's \<Rightarrow> 's list option" where
  "outcomes ex acts 0 s = None"
| "outcomes ex acts (Suc n) s =
     (case succs ex acts s of
        [] \<Rightarrow> Some [s]
      | t # ts \<Rightarrow> map_option concat (those (map (outcomes ex acts n) (t # ts))))"

definition stuck :: "('a \<Rightarrow> 's \<Rightarrow> 's option) \<Rightarrow> 's \<Rightarrow> bool" where
  "stuck ex s \<longleftrightarrow> (\<forall>a. ex a s = None)"

definition ends :: "('a \<Rightarrow> 's \<Rightarrow> 's option) \<Rightarrow> 's \<Rightarrow> 's set" where
  \<comment> \<open>where the maximal runs from \<open>s\<close> end\<close>
  "ends ex s = {t. reach (\<lambda>u. u = s) (exec_step ex) t \<and> stuck ex t}"

lemma those_Some: "those xs = Some ys \<longleftrightarrow> xs = map Some ys"
  by (induction xs arbitrary: ys) (auto split: option.splits)

lemma reach_trans: "reach (\<lambda>u. u = s) st t \<Longrightarrow> reach (\<lambda>u. u = r) st s \<Longrightarrow> reach (\<lambda>u. u = r) st t"
  by (induction rule: reach.induct) (auto intro: reach_step)

lemma reach_one: "st s t \<Longrightarrow> reach (\<lambda>u. u = s) st t"
  by (rule reach_step [OF reach_init]) simp

lemma reach_head:
  "reach (\<lambda>u. u = s) st t \<Longrightarrow> t = s \<or> (\<exists>u. st s u \<and> reach (\<lambda>v. v = u) st t)"
proof (induction rule: reach.induct)
  case (reach_step t v)
  then show ?case
  proof (elim disjE exE conjE)
    assume "t = s"
    with reach_step(2) show ?thesis by (blast intro: reach_init)
  next
    fix u assume "st s u" "reach (\<lambda>v. v = u) st t"
    with reach_step(2) show ?thesis by (blast intro: reach.reach_step)
  qed
qed simp

lemma union_results:
  assumes "\<And>u ts. f u = Some ts \<Longrightarrow> e u = set ts"
  shows "map f us = map Some tss \<Longrightarrow> (\<Union>v \<in> set us. e v) = set (concat tss)"
proof (induction us arbitrary: tss)
  case (Cons u us)
  then obtain t ts where "tss = t # ts" "f u = Some t" "map f us = map Some ts" by auto
  with Cons.IH assms show ?case by auto
qed simp

locale listed_system =
  fixes ex :: "'a \<Rightarrow> 's \<Rightarrow> 's option" and acts :: "'s \<Rightarrow> 'a list"
  assumes listed: "ex a s = Some t \<Longrightarrow> a \<in> set (acts s)"
begin

lemma set_succs: "set (succs ex acts s) = {t. exec_step ex s t}"
  by (force simp: succs_def exec_step_def split: option.splits dest: listed)

lemma stuck_succs: "stuck ex s \<longleftrightarrow> succs ex acts s = []"
proof -
  have "succs ex acts s = [] \<longleftrightarrow> {t. exec_step ex s t} = {}" using set_succs [of s] by (metis set_empty)
  moreover have "stuck ex s \<longleftrightarrow> {t. exec_step ex s t} = {}"
    by (auto simp: stuck_def exec_step_def) (metis not_None_eq)
  ultimately show ?thesis by blast
qed

lemma ends_stuck:
  assumes "stuck ex s" shows "ends ex s = {s}"
proof -
  have "reach (\<lambda>u. u = s) (exec_step ex) s" by (rule reach_init) simp
  moreover have "t = s" if "reach (\<lambda>u. u = s) (exec_step ex) t" for t
    using reach_head [OF that] assms by (simp add: stuck_def exec_step_def)
  ultimately show ?thesis using assms unfolding ends_def by blast
qed

lemma ends_step:
  assumes "\<not> stuck ex s"
  shows "ends ex s = (\<Union>u \<in> {u. exec_step ex s u}. ends ex u)"
proof (intro set_eqI iffI)
  fix t assume "t \<in> ends ex s"
  then have r: "reach (\<lambda>u. u = s) (exec_step ex) t" and t: "stuck ex t" by (simp_all add: ends_def)
  with reach_head [OF r] assms obtain u where "exec_step ex s u" "reach (\<lambda>v. v = u) (exec_step ex) t" by blast
  with t show "t \<in> (\<Union>u \<in> {u. exec_step ex s u}. ends ex u)" by (auto simp: ends_def)
next
  fix t assume "t \<in> (\<Union>u \<in> {u. exec_step ex s u}. ends ex u)"
  then show "t \<in> ends ex s" by (auto simp: ends_def intro: reach_trans reach_one)
qed

lemma outcomes_ends: "outcomes ex acts n s = Some ts \<Longrightarrow> ends ex s = set ts"
proof (induction n arbitrary: s ts)
  case (Suc n)
  show ?case
  proof (cases "succs ex acts s")
    case Nil
    then have "stuck ex s" by (simp add: stuck_succs)
    then have "ends ex s = {s}" by (rule ends_stuck)
    moreover have "ts = [s]" using Nil Suc.prems by simp
    ultimately show ?thesis by simp
  next
    case (Cons u us)
    with Suc.prems obtain tss where tss: "map (outcomes ex acts n) (u # us) = map Some tss" "ts = concat tss"
      by (auto simp: those_Some simp del: list.map)
    have "(\<Union>v \<in> set (u # us). ends ex v) = set (concat tss)"
      using Suc.IH tss(1) by (rule union_results)
    moreover have "\<not> stuck ex s" using Cons by (simp add: stuck_succs)
    moreover have "{t. exec_step ex s t} = set (u # us)" using set_succs [of s] Cons by simp
    ultimately show ?thesis using tss(2) ends_step [of s] by simp
  qed
qed simp

text \<open>And no run is as long as \<open>n\<close> steps.\<close>

lemma outcomes_bounded:
  "outcomes ex acts n s = Some ts \<Longrightarrow> n \<le> length as \<Longrightarrow> runs ex as s = None"
proof (induction n arbitrary: s ts as)
  case (Suc n)
  then obtain a as' where as: "as = a # as'" "n \<le> length as'" by (cases as) auto
  show ?case
  proof (cases "ex a s")
    case (Some u)
    then have u: "u \<in> set (succs ex acts s)" using set_succs by (auto simp: exec_step_def)
    then obtain v vs where "succs ex acts s = v # vs" by (cases "succs ex acts s") auto
    with Suc.prems(1) obtain tss where "map (outcomes ex acts n) (succs ex acts s) = map Some tss"
      by (auto simp: those_Some simp del: list.map)
    with u obtain us where "outcomes ex acts n u = Some us" by (metis image_iff image_set)
    with Suc.IH as(2) Some show ?thesis by (simp add: as(1))
  qed (simp add: as(1))
qed simp

end

end
