(* ===== verification/Pipes.thy ===== *)
theory Pipes
  imports Posix Explore
begin

text \<open>
  The exercises on pipes: \<^verbatim>\<open>pipe.c\<close>, \<^verbatim>\<open>pipeSize.c\<close>, \<^verbatim>\<open>pipe_block.c\<close>, \<^verbatim>\<open>pipe_behavior.c\<close>, \<^verbatim>\<open>fifo.c\<close> and
  \<^verbatim>\<open>fifoWrite.c\<close> of \<^verbatim>\<open>linux06\<close>, and \<^verbatim>\<open>signal.c\<close> of \<^verbatim>\<open>linux07\<close>. Each is straight-line code of one process
  that may become two, which share one pipe: the programs are lists of operations, and the kernel's part
  (who runs next, whether \<^verbatim>\<open>pipe\<close>, \<^verbatim>\<open>fork\<close>, \<^verbatim>\<open>open\<close> succeed) is the action of a step. What a program can do is
  the set of its maximal runs, computed by \<open>outcomes\<close>.
\<close>

section \<open>Processes and a pipe\<close>

datatype pop =
    Pipe string                   \<comment> \<open>\<^verbatim>\<open>pipe(fd)\<close>, or -1 reported and returned\<close>
  | Fork "pop list" "pop list"    \<comment> \<open>what the parent does, what the child does\<close>
  | IfMissing "pop list"          \<comment> \<open>\<^verbatim>\<open>if(access(...) != 0)\<close>\<close>
  | Mkfifo
  | OpenRW
  | SigPipe                       \<comment> \<open>\<^verbatim>\<open>signal(SIGPIPE,signhandle)\<close>\<close>
  | CloseR | CloseW
  | Sleep nat
  | Write string
  | Read                          \<comment> \<open>into the zeroed \<^verbatim>\<open>buf[1024]\<close>\<close>
  | Nonblock
  | Wait
  | Say string "arg list"
  | SayErr string
  | SayBuf string bool            \<comment> \<open>with the result of the \<^verbatim>\<open>read\<close> or without\<close>
  | Leave int

datatype ending = Alive | Exited int | Killed int

record proc =
  todo :: "pop list"
  rend :: bool
  wend :: bool
  handles :: bool                 \<comment> \<open>a handler for \<^verbatim>\<open>SIGPIPE\<close> is installed\<close>
  got :: "string option"          \<comment> \<open>what the \<^verbatim>\<open>read\<close> delivered, \<open>None\<close> for -1\<close>
  outp :: "event list"
  ending :: ending

record psys =
  pdata :: string
  nonblk :: bool
  procs :: "proc list"

definition holds_r :: "proc \<Rightarrow> bool" where
  "holds_r p \<longleftrightarrow> ending p = Alive \<and> rend p"

definition holds_w :: "proc \<Rightarrow> bool" where
  "holds_w p \<longleftrightarrow> ending p = Alive \<and> wend p"

definition shown :: "string option \<Rightarrow> string" where
  \<comment> \<open>the string in the zeroed buffer after a \<^verbatim>\<open>read\<close>\<close>
  "shown r = (case r of None \<Rightarrow> [] | Some bs \<Rightarrow> takeWhile (\<lambda>c. c \<noteq> NUL) bs)"

lemma shown_cstring:
  "rlen r < 1024 \<Longrightarrow> cstring (rbuf (zbuf 1024) r) = Some (shown r)"
  by (cases r) (simp_all add: shown_def cstring_fill)

definition msg_exited :: string where
  "msg_exited = [CHR 0xE6, CHR 0xAD, CHR 0xA3, CHR 0xE5, CHR 0xB8, CHR 0xB8,
      CHR 0xE9, CHR 0x80, CHR 0x80, CHR 0xE5, CHR 0x87, CHR 0xBA, CHR 0xE8, CHR 0xBF, CHR 0x9B, CHR 0xE7, CHR 0xA8, CHR 0x8B]
     @ ''  status == [%d]'' @ [LF]"

definition msg_killed :: string where
  "msg_killed = [CHR 0xE5, CHR 0xBC, CHR 0x82, CHR 0xE5, CHR 0xB8, CHR 0xB8,
      CHR 0xE9, CHR 0x80, CHR 0x80, CHR 0xE5, CHR 0x87, CHR 0xBA, CHR 0xE8, CHR 0xBF, CHR 0x9B, CHR 0xE7, CHR 0xA8, CHR 0x8B]
     @ ''  status == [%d]'' @ [LF]"

definition say :: "event \<Rightarrow> proc \<Rightarrow> proc" where
  "say e p = p\<lparr>outp := outp p @ [e]\<rparr>"

definition put_proc :: "nat \<Rightarrow> proc \<Rightarrow> psys \<Rightarrow> psys" where
  "put_proc k p s = s\<lparr>procs := (procs s)[k := p]\<rparr>"

definition pipe_write :: "nat \<Rightarrow> string \<Rightarrow> proc \<Rightarrow> psys \<Rightarrow> psys" where
  \<comment> \<open>without a reader the writer gets \<^verbatim>\<open>SIGPIPE\<close>\<close>
  "pipe_write k bs p s =
     (if \<not> wend p then put_proc k p s
      else if list_ex holds_r (procs s) then put_proc k p (s\<lparr>pdata := pdata s @ bs\<rparr>)
      else if handles p then put_proc k (say (Print (''signId == [%d]'' @ [LF]) [AI 13]) p) s
      else put_proc k (p\<lparr>ending := Killed 13\<rparr>) s)"

definition pipe_read :: "nat \<Rightarrow> proc \<Rightarrow> psys \<Rightarrow> psys option" where
  "pipe_read k p s =
     (if \<not> rend p then Some (put_proc k (p\<lparr>got := None\<rparr>) s)
      else if pdata s \<noteq> [] then
        Some (put_proc k (p\<lparr>got := Some (take 1024 (pdata s))\<rparr>) (s\<lparr>pdata := drop 1024 (pdata s)\<rparr>))
      else if \<not> list_ex holds_w (procs s) then Some (put_proc k (p\<lparr>got := Some []\<rparr>) s)
      else if nonblk s then Some (put_proc k (p\<lparr>got := None\<rparr>) s)
      else None)"

definition wait_child :: "nat \<Rightarrow> proc \<Rightarrow> psys \<Rightarrow> psys option" where
  \<comment> \<open>\<^verbatim>\<open>wait(&status)\<close> and the report on \<^verbatim>\<open>status\<close>; the only child is process 1\<close>
  "wait_child k p s = (case ending (procs s ! 1) of
      Alive \<Rightarrow> None
    | Exited r \<Rightarrow> Some (put_proc k (say (Print msg_exited [AI (r mod 256)]) p) s)
    | Killed sig \<Rightarrow> Some (put_proc k (say (Print msg_killed [AI sig]) p) s))"

definition pstep :: "nat \<Rightarrow> bool \<Rightarrow> pop \<Rightarrow> proc \<Rightarrow> psys \<Rightarrow> psys option" where
  \<comment> \<open>process \<open>k\<close> does one operation; \<open>p\<close> is its state without it. \<open>ok\<close>: success of the calls that can fail\<close>
  "pstep k ok x p s = (case x of
      Pipe m \<Rightarrow> Some (put_proc k (if ok then p\<lparr>rend := True, wend := True\<rparr>
                               else p\<lparr>todo := [SayErr m, Leave (-1)]\<rparr>) s)
    | Fork a b \<Rightarrow>
        Some (if ok then (put_proc k (p\<lparr>todo := a @ todo p\<rparr>) s)
                \<lparr>procs := (procs s)[k := p\<lparr>todo := a @ todo p\<rparr>] @ [p\<lparr>todo := b @ todo p, outp := []\<rparr>]\<rparr>
              else put_proc k p s)
    | IfMissing a \<Rightarrow> Some (put_proc k (if ok then p else p\<lparr>todo := a @ todo p\<rparr>) s)
    | Mkfifo \<Rightarrow> Some (put_proc k (if ok then p else say (Perror ''mkfife error'') p) s)
    | OpenRW \<Rightarrow> Some (put_proc k (if ok then p\<lparr>rend := True, wend := True\<rparr> else say (Perror ''open error'') p) s)
    | _ \<Rightarrow>
        if \<not> ok then None
        else (case x of
            SigPipe \<Rightarrow> Some (put_proc k (p\<lparr>handles := True\<rparr>) s)
          | CloseR \<Rightarrow> Some (put_proc k (p\<lparr>rend := False\<rparr>) s)
          | CloseW \<Rightarrow> Some (put_proc k (p\<lparr>wend := False\<rparr>) s)
          | Sleep n \<Rightarrow> Some (put_proc k p s)
          | Write bs \<Rightarrow> Some (pipe_write k bs p s)
          | Read \<Rightarrow> pipe_read k p s
          | Nonblock \<Rightarrow> Some (put_proc k p (s\<lparr>nonblk := True\<rparr>))
          | Wait \<Rightarrow> wait_child k p s
          | Say f xs \<Rightarrow> Some (put_proc k (say (Print f xs) p) s)
          | SayErr m \<Rightarrow> Some (put_proc k (say (Perror m) p) s)
          | SayBuf f withres \<Rightarrow>
              Some (put_proc k (say (Print f ((if withres then [AI (rlen (got p))] else []) @ [AS (shown (got p))])) p) s)
          | Leave r \<Rightarrow> Some (put_proc k (p\<lparr>ending := Exited r\<rparr>) s)
          | _ \<Rightarrow> None))"

definition pipexec :: "nat \<times> bool \<Rightarrow> psys \<Rightarrow> psys option" where
  "pipexec a s = (case a of (k, ok) \<Rightarrow>
     if k < length (procs s) \<and> ending (procs s ! k) = Alive then
       let p = procs s ! k in
       (case todo p of
          [] \<Rightarrow> if ok then Some (put_proc k (p\<lparr>ending := Exited 0\<rparr>) s) else None
        | x # xs \<Rightarrow> pstep k ok x (p\<lparr>todo := xs\<rparr>) s)
     else None)"

definition pstart :: "pop list \<Rightarrow> psys" where
  "pstart prog = \<lparr>pdata = [], nonblk = False, procs =
     [\<lparr>todo = prog, rend = False, wend = False, handles = False, got = None, outp = [], ending = Alive\<rparr>]\<rparr>"

definition pmoves :: "psys \<Rightarrow> (nat \<times> bool) list" where
  "pmoves s = concat (map (\<lambda>k. [(k, True), (k, False)]) [0..<length (procs s)])"

interpretation pipes: listed_system pipexec pmoves
proof
  fix a s t
  assume "pipexec a s = Some t"
  then have "fst a < length (procs s)" by (cases a) (simp add: pipexec_def split: if_splits)
  then show "a \<in> set (pmoves s)" by (cases a; cases "snd a") (auto simp: pmoves_def)
qed

section \<open>The programs\<close>

definition pipe_main :: "pop list" where
  "pipe_main = [Pipe ''pipe fail'', Fork [CloseR, Sleep 5, Write ''hellow'']
     [CloseW, Read, SayBuf (''this is child ,buf == [%s]'' @ [LF]) False]]"

definition PIPE_BUF :: int where
  \<comment> \<open>what \<^verbatim>\<open>fpathconf(fd,_PC_PIPE_BUF)\<close> returns\<close>
  "PIPE_BUF = 4096"

definition pipe_size_main :: "pop list" where
  "pipe_size_main = [Pipe ''pipe fail'', Fork
     [CloseR, Sleep 5, Write ''hellow'', Say (''pipe size = [%ld]'' @ [LF]) [AI PIPE_BUF]]
     [CloseW, Read, SayBuf (''this is child ,buf == [%s]'' @ [LF]) False, Say (''pipe size = [%ld]'' @ [LF]) [AI PIPE_BUF]]]"

definition pipe_block_main :: "pop list" where
  "pipe_block_main = [Pipe ''pipe fail'', Fork [CloseR, CloseW]
     [CloseW, Nonblock, Read, SayBuf (''this is child,res = [%d],buf == [%s]'' @ [LF]) True]]"

definition pipe_behavior_main :: "pop list" where
  "pipe_behavior_main = [Pipe ''pipe fail'', CloseR, Write ''hello'', SayErr ''write error'']"

definition signal_main :: "pop list" where
  \<comment> \<open>five of the six bytes of \<^verbatim>\<open>"helllo"\<close>\<close>
  "signal_main = [Pipe ''pipe error'', SigPipe, CloseR, Write ''helll'']"

definition fifo_main :: "pop list" where
  "fifo_main = [IfMissing [Mkfifo], OpenRW, Fork
     [Write ''hellow'', Wait]
     [Sleep 1, Read, SayBuf (''mkfile  == [%s]'' @ [LF]) False]]"

definition fifo_write_main :: "pop list" where
  \<comment> \<open>\<^verbatim>\<open>fifoWrite.c\<close> is the same text as \<^verbatim>\<open>fifo.c\<close>\<close>
  "fifo_write_main = fifo_main"

abbreviation report :: "psys \<Rightarrow> (event list \<times> ending) list" where
  "report s \<equiv> map (\<lambda>p. (outp p, ending p)) (procs s)"

text \<open>Running every interleaving.\<close>

definition reports :: "pop list \<Rightarrow> (event list \<times> ending) list list option" where
  "reports prog = map_option (map report) (outcomes pipexec pmoves 20 (pstart prog))"

lemma reports_ends:
  assumes "map_option remdups (reports prog) = Some rs"
  shows "report ` ends pipexec (pstart prog) = set rs"
proof -
  obtain ts where ts: "outcomes pipexec pmoves 20 (pstart prog) = Some ts" "rs = remdups (map report ts)"
    using assms by (auto simp: reports_def)
  show ?thesis by (simp add: ts(2) pipes.outcomes_ends [OF ts(1)])
qed

lemma reports_bounded: "reports prog \<noteq> None \<Longrightarrow> runs pipexec as (pstart prog) \<noteq> None \<Longrightarrow> length as < 20"
  using pipes.outcomes_bounded [of 20 "pstart prog" _ as] by (force simp: reports_def not_less [symmetric])

lemma reports_programs:
  "map_option remdups (reports pipe_main) = Some
     [[([], Exited 0), ([Print (''this is child ,buf == [%s]'' @ [LF]) [AS ''hellow'']], Exited 0)],
      [([], Exited 0)], [([Perror ''pipe fail''], Exited (-1))]]"
  "map_option remdups (reports pipe_size_main) = Some
     [[([Print (''pipe size = [%ld]'' @ [LF]) [AI 4096]], Exited 0),
       ([Print (''this is child ,buf == [%s]'' @ [LF]) [AS ''hellow''],
         Print (''pipe size = [%ld]'' @ [LF]) [AI 4096]], Exited 0)],
      [([], Exited 0)], [([Perror ''pipe fail''], Exited (-1))]]"
  "map_option remdups (reports pipe_block_main) = Some
     [[([], Exited 0), ([Print (''this is child,res = [%d],buf == [%s]'' @ [LF]) [AI 0, AS []]], Exited 0)],
      [([], Exited 0), ([Print (''this is child,res = [%d],buf == [%s]'' @ [LF]) [AI (-1), AS []]], Exited 0)],
      [([], Exited 0)], [([Perror ''pipe fail''], Exited (-1))]]"
  "map_option remdups (reports pipe_behavior_main) = Some
     [[([], Killed 13)], [([Perror ''pipe fail''], Exited (-1))]]"
  "map_option remdups (reports signal_main) = Some
     [[([Print (''signId == [%d]'' @ [LF]) [AI 13]], Exited 0)], [([Perror ''pipe error''], Exited (-1))]]"
  by code_simp+

section \<open>What the programs can do\<close>

text \<open>Every run of \<^verbatim>\<open>pipe.c\<close> ends after fewer than 20 steps, in one of three ways: the pipe could not be made; \<^verbatim>\<open>fork\<close> failed and
  nothing was printed; or the child printed the whole message of its parent, whoever ran first.\<close>

theorem pipe_delivers:
  "(\<forall>as. runs pipexec as (pstart pipe_main) \<noteq> None \<longrightarrow> length as < 20) \<and> report ` ends pipexec (pstart pipe_main) =
     {[([], Exited 0), ([Print (''this is child ,buf == [%s]'' @ [LF]) [AS ''hellow'']], Exited 0)],
      [([], Exited 0)], [([Perror ''pipe fail''], Exited (-1))]}"
  using reports_bounded [of pipe_main] reports_programs(1) by (auto simp: reports_ends [OF reports_programs(1)])

text \<open>The child of \<^verbatim>\<open>pipe_block.c\<close>, which does not wait for its parent, sees an end of file or a failed
  \<^verbatim>\<open>read\<close>, as the parent has closed its end of the pipe before or not.\<close>

theorem pipe_block_races:
  "report ` ends pipexec (pstart pipe_block_main) =
     {[([], Exited 0), ([Print (''this is child,res = [%d],buf == [%s]'' @ [LF]) [AI 0, AS []]], Exited 0)],
      [([], Exited 0), ([Print (''this is child,res = [%d],buf == [%s]'' @ [LF]) [AI (-1), AS []]], Exited 0)],
      [([], Exited 0)], [([Perror ''pipe fail''], Exited (-1))]}"
  by (simp add: reports_ends [OF reports_programs(3)])

text \<open>A \<^verbatim>\<open>write\<close> to a pipe nobody reads kills the process before it can report an error, as in
  \<^verbatim>\<open>pipe_behavior.c\<close>, unless it handles the signal, as \<^verbatim>\<open>signal.c\<close> does.\<close>

theorem pipe_behavior_killed:
  "report ` ends pipexec (pstart pipe_behavior_main) =
     {[([], Killed 13)], [([Perror ''pipe fail''], Exited (-1))]}"
  by (simp add: reports_ends [OF reports_programs(4)])

theorem signal_handled:
  "report ` ends pipexec (pstart signal_main) =
     {[([Print (''signId == [%d]'' @ [LF]) [AI 13]], Exited 0)], [([Perror ''pipe error''], Exited (-1))]}"
  by (simp add: reports_ends [OF reports_programs(5)])

lemma fifo_reports:
  "map_option (\<lambda>rs. list_all (\<lambda>r. list_all (\<lambda>(es, e). e = Exited 0) r
        \<and> (length r = 2 \<longrightarrow> last (fst (r ! 0)) = Print msg_exited [AI 0]
            \<and> fst (r ! 1) = [Print (''mkfile  == [%s]'' @ [LF])
                  [AS (if Perror ''open error'' \<in> set (fst (r ! 0)) then [] else ''hellow'')]])) rs)
     (reports fifo_main) = Some True"
  by code_simp

text \<open>A run of \<^verbatim>\<open>fifo.c\<close> that has ended: when there are two processes the child prints the message, or an empty one if
  the file could not be opened, and the parent reports the child's exit after it.\<close>

theorem fifo_delivers:
  assumes "t \<in> ends pipexec (pstart fifo_main)" and "length (procs t) = 2"
  shows "outp (procs t ! 1) = [Print (''mkfile  == [%s]'' @ [LF])
           [AS (if Perror ''open error'' \<in> set (outp (procs t ! 0)) then [] else ''hellow'')]]
     \<and> last (outp (procs t ! 0)) = Print msg_exited [AI 0]"
proof -
  obtain ts where ts: "outcomes pipexec pmoves 20 (pstart fifo_main) = Some ts"
    using fifo_reports by (auto simp: reports_def)
  with assms(1) have "t \<in> set ts" by (simp add: pipes.outcomes_ends)
  then show ?thesis
    using fifo_reports assms(2) by (auto simp: reports_def ts list_all_iff)
qed

end

