(* ===== verification/Files.thy ===== *)
theory Files
  imports Posix
begin

text \<open>
  The exercises on files: \<^verbatim>\<open>dup.c\<close>, \<^verbatim>\<open>fcntl.c\<close>, \<^verbatim>\<open>dup2.c\<close>, \<^verbatim>\<open>dup2_1.c\<close>, \<^verbatim>\<open>fcntl2.c\<close>, \<^verbatim>\<open>lseek01.c\<close>, \<^verbatim>\<open>lseek02.c\<close>
  and \<^verbatim>\<open>open.c\<close> of \<^verbatim>\<open>linux03/fileDemo\<close>, \<^verbatim>\<open>mmapRead.c\<close> and \<^verbatim>\<open>mmapWrite.c\<close> of \<^verbatim>\<open>linux06\<close>. What they show is the
  sharing between descriptors, so the state has all three levels: descriptors point to open file
  descriptions, which have the offset and the append flag, and these name files, which have contents.
  The terminal is a file too: its contents are what was printed. Reads and writes are whole.
\<close>

section \<open>Descriptors, descriptions, files\<close>

record ofile =
  fname :: string
  off :: nat
  appends :: bool

record fstate =
  disk :: "string \<Rightarrow> string option"
  ofs :: "ofile list"
  fdt :: "nat option list"      \<comment> \<open>descriptor to index in \<open>ofs\<close>\<close>
  errs :: "string list"         \<comment> \<open>what \<^verbatim>\<open>perror\<close> reported\<close>

definition tty :: string where
  "tty = ''/dev/tty''"

definition fstart :: "(string \<Rightarrow> string option) \<Rightarrow> fstate" where
  \<comment> \<open>the process a shell starts\<close>
  "fstart d = \<lparr>disk = d(tty := Some []), ofs = [\<lparr>fname = tty, off = 0, appends = True\<rparr>],
     fdt = [Some 0, Some 0, Some 0], errs = []\<rparr>"

definition fd_at :: "fstate \<Rightarrow> int \<Rightarrow> nat option" where
  "fd_at s fd = (if 0 \<le> fd \<and> nat fd < length (fdt s) then fdt s ! nat fd else None)"

definition contents :: "fstate \<Rightarrow> nat \<Rightarrow> string" where
  "contents s i = (case disk s (fname (ofs s ! i)) of None \<Rightarrow> [] | Some c \<Rightarrow> c)"

primrec lowest_free :: "nat option list \<Rightarrow> nat" where
  "lowest_free [] = 0"
| "lowest_free (x # xs) = (if x = None then 0 else Suc (lowest_free xs))"

definition set_fd :: "nat \<Rightarrow> nat option \<Rightarrow> fstate \<Rightarrow> fstate" where
  "set_fd fd x s =
     s\<lparr>fdt := (if fd < length (fdt s) then (fdt s)[fd := x]
              else fdt s @ replicate (fd - length (fdt s)) None @ [x])\<rparr>"

definition f_open :: "string \<Rightarrow> bool \<Rightarrow> bool \<Rightarrow> bool \<Rightarrow> fstate \<Rightarrow> int \<times> fstate" where
  \<comment> \<open>\<open>creat\<close>, \<open>app\<close>: the flags; \<open>ok\<close>: nothing else keeps the file from being opened\<close>
  "f_open name creat app ok s =
     (if \<not> ok \<or> disk s name = None \<and> \<not> creat then (-1, s)
      else
        let fd = lowest_free (fdt s);
            s = (if disk s name = None then s\<lparr>disk := (disk s)(name := Some [])\<rparr> else s)
        in (int fd, set_fd fd (Some (length (ofs s)))
              (s\<lparr>ofs := ofs s @ [\<lparr>fname = name, off = 0, appends = app\<rparr>]\<rparr>)))"

definition overlay :: "nat \<Rightarrow> string \<Rightarrow> string \<Rightarrow> string" where
  \<comment> \<open>\<open>c\<close> with \<open>bs\<close> written at \<open>pos\<close>; a gap is filled with zeros\<close>
  "overlay pos bs c = take pos c @ zbuf (pos - length c) @ bs @ drop (pos + length bs) c"

definition f_write :: "int \<Rightarrow> string \<Rightarrow> fstate \<Rightarrow> int \<times> fstate" where
  "f_write fd bs s = (case fd_at s fd of
      None \<Rightarrow> (-1, s)
    | Some i \<Rightarrow>
        let h = ofs s ! i; c = contents s i; pos = (if appends h then length c else off h) in
        (int (length bs),
         s\<lparr>disk := (disk s)(fname h := Some (overlay pos bs c)),
           ofs := (ofs s)[i := h\<lparr>off := pos + length bs\<rparr>]\<rparr>))"

definition f_read :: "int \<Rightarrow> nat \<Rightarrow> fstate \<Rightarrow> string option \<times> fstate" where
  "f_read fd n s = (case fd_at s fd of
      None \<Rightarrow> (None, s)
    | Some i \<Rightarrow>
        let h = ofs s ! i; bs = take n (drop (off h) (contents s i)) in
        (Some bs, s\<lparr>ofs := (ofs s)[i := h\<lparr>off := off h + length bs\<rparr>]\<rparr>))"

definition f_seek :: "int \<Rightarrow> nat \<Rightarrow> fstate \<Rightarrow> int \<times> fstate" where
  \<comment> \<open>\<^verbatim>\<open>lseek(fd,n,SEEK_SET)\<close>\<close>
  "f_seek fd n s = (case fd_at s fd of
      None \<Rightarrow> (-1, s)
    | Some i \<Rightarrow> (int n, s\<lparr>ofs := (ofs s)[i := (ofs s ! i)\<lparr>off := n\<rparr>]\<rparr>))"

definition f_seek_end :: "int \<Rightarrow> fstate \<Rightarrow> int \<times> fstate" where
  \<comment> \<open>\<^verbatim>\<open>lseek(fd,0,SEEK_END)\<close>\<close>
  "f_seek_end fd s = (case fd_at s fd of
      None \<Rightarrow> (-1, s)
    | Some i \<Rightarrow> f_seek fd (length (contents s i)) s)"

definition f_dup :: "int \<Rightarrow> fstate \<Rightarrow> int \<times> fstate" where
  \<comment> \<open>\<^verbatim>\<open>dup(fd)\<close> and \<^verbatim>\<open>fcntl(fd,F_DUPFD,0)\<close>\<close>
  "f_dup fd s = (case fd_at s fd of
      None \<Rightarrow> (-1, s)
    | Some i \<Rightarrow> let k = lowest_free (fdt s) in (int k, set_fd k (Some i) s))"

definition f_dup2 :: "int \<Rightarrow> int \<Rightarrow> fstate \<Rightarrow> int \<times> fstate" where
  "f_dup2 old new s = (case fd_at s old of
      None \<Rightarrow> (-1, s)
    | Some i \<Rightarrow> if new < 0 then (-1, s) else (new, set_fd (nat new) (Some i) s))"

definition f_close :: "int \<Rightarrow> fstate \<Rightarrow> int \<times> fstate" where
  "f_close fd s = (case fd_at s fd of None \<Rightarrow> (-1, s) | Some i \<Rightarrow> (0, set_fd (nat fd) None s))"

definition f_set_append :: "int \<Rightarrow> fstate \<Rightarrow> int \<times> fstate" where
  \<comment> \<open>\<^verbatim>\<open>fcntl(fd,F_SETFL,fcntl(fd,F_GETFL,0) | O_APPEND)\<close>\<close>
  "f_set_append fd s = (case fd_at s fd of
      None \<Rightarrow> (-1, s)
    | Some i \<Rightarrow> (0, s\<lparr>ofs := (ofs s)[i := (ofs s ! i)\<lparr>appends := True\<rparr>]\<rparr>))"

definition f_print :: "string \<Rightarrow> fstate \<Rightarrow> fstate" where
  \<comment> \<open>\<^verbatim>\<open>printf\<close>, flushed to descriptor 1\<close>
  "f_print text s = snd (f_write 1 text s)"

definition f_error :: "string \<Rightarrow> fstate \<Rightarrow> fstate" where
  "f_error m s = s\<lparr>errs := errs s @ [m]\<rparr>"

section \<open>The programs\<close>

text \<open>Each yields the value \<^verbatim>\<open>main\<close> returns, or \<open>None\<close> when it reads a string that has no end, and the state. The
  texts of a shared description are written with the offset shared too.\<close>

definition show_buf :: "string \<Rightarrow> string option \<Rightarrow> string \<Rightarrow> fstate \<Rightarrow> (fstate \<Rightarrow> int option \<times> fstate) \<Rightarrow> int option \<times> fstate" where
  \<comment> \<open>\<^verbatim>\<open>printf\<close> of the buffer after a \<^verbatim>\<open>read\<close> between two texts, and what follows\<close>
  "show_buf a r b s k = (case cstring (rbuf (zbuf 1024) r) of
      None \<Rightarrow> (None, s)
    | Some str \<Rightarrow> k (f_print (a @ str @ b) s))"

definition dup_main :: "string \<Rightarrow> bool \<Rightarrow> fstate \<Rightarrow> int option \<times> fstate" where
  "dup_main name ok s =
     (case f_open name False True ok s of (ft1, s) \<Rightarrow>
      if ft1 < 0 then (Some (-1), f_error ''open error'' s)
      else
        case f_write ft1 ''hello world'' s of (_, s) \<Rightarrow>
        case f_dup ft1 s of (ft2, s) \<Rightarrow>
        case f_seek ft2 0 s of (_, s) \<Rightarrow>
        case f_read ft2 1024 s of (r, s) \<Rightarrow>
        show_buf ''['' r ('']'' @ [LF])
          (f_print (''ft1=['' @ dec_int ft1 @ ''],ft2=['' @ dec_int ft2 @ '']'' @ [LF]) s) (\<lambda>s.
        case f_close ft1 s of (_, s) \<Rightarrow>
        case f_close ft2 s of (_, s) \<Rightarrow> (Some 0, s)))"

definition fcntl_main :: "string \<Rightarrow> bool \<Rightarrow> fstate \<Rightarrow> int option \<times> fstate" where
  \<comment> \<open>\<^verbatim>\<open>fcntl.c\<close>: the same with \<^verbatim>\<open>F_DUPFD\<close>\<close>
  "fcntl_main = dup_main"

definition dup2_main :: "string \<Rightarrow> string \<Rightarrow> bool \<Rightarrow> bool \<Rightarrow> fstate \<Rightarrow> int option \<times> fstate" where
  "dup2_main old new ok1 ok2 s =
     (case f_open old True False ok1 s of (oldfile, s) \<Rightarrow>
      if oldfile < 0 then (Some (-1), f_error ''open oldfile error'' s)
      else case f_open new True False ok2 s of (newfile, s) \<Rightarrow>
      if newfile < 0 then (Some (-1), f_error ''open newfile error'' s)
      else
        case f_dup2 oldfile newfile s of (_, s) \<Rightarrow>
        case f_write newfile ''sgyt come'' s of (_, s) \<Rightarrow>
        case f_seek newfile 0 s of (_, s) \<Rightarrow>
        case f_read oldfile 1024 s of (r, s) \<Rightarrow>
        show_buf ''read ['' r '']'' s (\<lambda>s.
        case f_close oldfile s of (_, s) \<Rightarrow>
        case f_close newfile s of (_, s) \<Rightarrow> (Some 0, s)))"

definition dup2_1_main :: "string \<Rightarrow> bool \<Rightarrow> fstate \<Rightarrow> int option \<times> fstate" where
  "dup2_1_main name ok s =
     (case f_open name True False ok s of (oldfile, s) \<Rightarrow>
      if oldfile < 0 then (Some (-1), f_error ''open oldfile error'' s)
      else
        case f_dup2 oldfile 1 s of (_, s) \<Rightarrow>
        case f_close oldfile (f_print ''STDOUT_FILENO IS OUT'' s) of (_, s) \<Rightarrow> (Some 0, s))"

definition fcntl2_main :: "string \<Rightarrow> bool \<Rightarrow> fstate \<Rightarrow> int option \<times> fstate" where
  "fcntl2_main name ok s =
     (case f_open name False False ok s of (ft1, s) \<Rightarrow>
      if ft1 < 0 then (Some (-1), f_error ''open error'' s)
      else
        case f_set_append ft1 s of (_, s) \<Rightarrow>
        case f_write ft1 ''sgyt ok'' s of (_, s) \<Rightarrow>
        case f_close ft1 s of (_, s) \<Rightarrow> (Some 0, s))"

definition lseek01_main :: "bool \<Rightarrow> fstate \<Rightarrow> int option \<times> fstate" where
  "lseek01_main ok s =
     (case f_open ''./test.log'' True False ok s of (ft, s) \<Rightarrow>
      case f_seek_end ft s of (sz, s) \<Rightarrow>
      (Some 0, f_print (''fileSize=['' @ dec_int sz @ '']'' @ [LF]) s))"

definition lseek02_main :: "bool \<Rightarrow> fstate \<Rightarrow> int option \<times> fstate" where
  "lseek02_main ok s =
     (case f_open ''./test.log'' True False ok s of (ft, s) \<Rightarrow>
      case f_seek ft 100 s of (_, s) \<Rightarrow>
      case f_write ft ''H'' s of (_, s) \<Rightarrow>
      case f_close ft s of (_, s) \<Rightarrow> (Some 0, s))"

definition open_main :: "bool \<Rightarrow> fstate \<Rightarrow> int option \<times> fstate" where
  \<comment> \<open>\<^verbatim>\<open>strlen("hellow world")\<close> bytes of \<^verbatim>\<open>"hello world"\<close>: the terminator too; the \<^verbatim>\<open>read\<close> is of a closed descriptor\<close>
  "open_main ok s =
     (case f_open ''./test.log'' True False ok s of (fd, s) \<Rightarrow>
      if fd < 0 then (Some (-1), f_error ''open error'' s)
      else
        case f_write fd (''hello world'' @ [NUL]) s of (_, s) \<Rightarrow>
        case f_close fd s of (_, s) \<Rightarrow>
        case f_read fd 1024 s of (r, s) \<Rightarrow>
        show_buf [] r [] s (\<lambda>s. case f_close fd s of (_, s) \<Rightarrow> (Some 0, s)))"

definition mmap_ok :: "int \<Rightarrow> bool \<Rightarrow> bool" where
  \<comment> \<open>no empty mapping can be made\<close>
  "mmap_ok sz okm \<longleftrightarrow> okm \<and> 0 < sz"

definition mmap_write_main :: "bool \<Rightarrow> bool \<Rightarrow> fstate \<Rightarrow> int option \<times> fstate" where
  "mmap_write_main ok okm s =
     (case f_open ''mmapfile'' False False ok s of (fd, s) \<Rightarrow>
      if fd < 0 then (Some (-1), f_error ''open file error'' s)
      else case f_seek_end fd s of (sz, s) \<Rightarrow>
      if \<not> mmap_ok sz okm then (Some (-1), f_error ''mmap error'' s)
      else
        case f_seek fd 0 s of (_, s) \<Rightarrow>
        case f_write fd ''hello'' s of (_, s) \<Rightarrow> (Some 0, s))"

definition mmap_read_main :: "bool \<Rightarrow> bool \<Rightarrow> fstate \<Rightarrow> int option \<times> fstate" where
  "mmap_read_main ok okm s =
     (case f_open ''mmapfile'' False False ok s of (fd, s) \<Rightarrow>
      if fd < 0 then (Some (-1), f_error ''open file error'' s)
      else case f_seek_end fd s of (sz, s) \<Rightarrow>
      if \<not> mmap_ok sz okm then (Some (-1), f_error ''mmap error'' s)
      else
        case f_seek fd 0 s of (_, s) \<Rightarrow>
        case f_read fd 1024 s of (r, s) \<Rightarrow>
        show_buf (''res == ['' @ dec_int (rlen r) @ ''],buf == ['') r '']'' s (\<lambda>s. (Some 0, s)))"

text \<open>\<^verbatim>\<open>mmap.c\<close> forks after the mapping: parent and child go on with one description. Until the parent waits for the
  child each makes two calls; \<open>order\<close> is how the four fall.\<close>

datatype mmop = PSeek | PWrite | CSeek | CRead

definition mm_step :: "int \<Rightarrow> mmop \<Rightarrow> string option \<times> fstate \<Rightarrow> string option \<times> fstate" where
  \<comment> \<open>with what the child has read\<close>
  "mm_step fd x q = (case q of (r, s) \<Rightarrow> case x of
      PSeek \<Rightarrow> (r, snd (f_seek fd 0 s))
    | PWrite \<Rightarrow> (r, snd (f_write fd ''hello'' s))
    | CSeek \<Rightarrow> (r, snd (f_seek fd 0 s))
    | CRead \<Rightarrow> f_read fd 1024 s)"

definition mmap_fork_main :: "bool \<Rightarrow> bool \<Rightarrow> bool \<Rightarrow> mmop list \<Rightarrow> fstate \<Rightarrow> int option \<times> string option \<times> fstate" where
  \<comment> \<open>the value the parent returns, what the child read, and the state before the child prints\<close>
  "mmap_fork_main ok okm okf order s =
     (case f_open ''mmapfile'' False False ok s of (fd, s) \<Rightarrow>
      if fd < 0 then (Some (-1), None, f_error ''open file error'' s)
      else case f_seek_end fd s of (sz, s) \<Rightarrow>
      if \<not> mmap_ok sz okm then (Some (-1), None, f_error ''mmap error'' s)
      else if \<not> okf then (Some (-1), None, f_error ''fork error'' s)
      else
        case foldl (\<lambda>q x. mm_step fd x q) (None, s) order of (r, s) \<Rightarrow> (Some 0, r, s))"

section \<open>The tables stay consistent\<close>

text \<open>Every descriptor in use leads to a description, and every description to a file that exists.\<close>

definition files_ok :: "fstate \<Rightarrow> bool" where
  "files_ok s \<longleftrightarrow> (\<forall>i. Some i \<in> set (fdt s) \<longrightarrow> i < length (ofs s))
     \<and> (\<forall>h \<in> set (ofs s). disk s (fname h) \<noteq> None)"

lemma fd_at_ok: "files_ok s \<Longrightarrow> fd_at s fd = Some i \<Longrightarrow> i < length (ofs s)"
  by (auto simp: files_ok_def fd_at_def split: if_splits dest: nth_mem [of "nat fd" "fdt s"])

lemma files_ok_set_fd:
  assumes "files_ok s" and "\<And>i. x = Some i \<Longrightarrow> i < length (ofs s)"
  shows "files_ok (set_fd k x s)"
proof -
  have "set (fdt (set_fd k x s)) \<subseteq> insert x (insert None (set (fdt s)))"
    using set_update_subset_insert [of "fdt s" k x] by (auto simp: set_fd_def)
  with assms show ?thesis by (auto simp: files_ok_def set_fd_def split: if_splits)
qed

lemma files_ok_ofs:
  "files_ok s \<Longrightarrow> disk s (fname h) \<noteq> None \<Longrightarrow> files_ok (s\<lparr>ofs := (ofs s)[i := h]\<rparr>)"
  using set_update_subset_insert [of "ofs s" i h] by (auto simp: files_ok_def)

lemma files_ok_disk: "files_ok s \<Longrightarrow> files_ok (s\<lparr>disk := (disk s)(f := Some c)\<rparr>)"
  by (auto simp: files_ok_def)

lemma files_ok_name: "files_ok s \<Longrightarrow> fd_at s fd = Some i \<Longrightarrow> disk s (fname (ofs s ! i)) \<noteq> None"
  using fd_at_ok [of s fd i] by (auto simp: files_ok_def)

theorem file_calls_keep_tables:
  assumes "files_ok s"
  shows "files_ok (snd (f_open name creat app ok s)) \<and> files_ok (snd (f_write fd bs s))
     \<and> files_ok (snd (f_read fd n s)) \<and> files_ok (snd (f_seek fd n s)) \<and> files_ok (snd (f_seek_end fd s))
     \<and> files_ok (snd (f_dup fd s)) \<and> files_ok (snd (f_dup2 fd fd' s)) \<and> files_ok (snd (f_close fd s))
     \<and> files_ok (snd (f_set_append fd s))"
proof (intro conjI)
  have opened: "files_ok (set_fd k (Some (length (ofs s))) (t\<lparr>ofs := ofs s @ [\<lparr>fname = name, off = 0, appends = app\<rparr>]\<rparr>))"
    if "files_ok t" "disk t name \<noteq> None" "ofs t = ofs s" for k t
    using that by (intro files_ok_set_fd) (auto simp: files_ok_def)
  show "files_ok (snd (f_open name creat app ok s))"
    using assms by (auto simp: f_open_def Let_def intro!: opened files_ok_disk)
  show "files_ok (snd (f_write fd bs s))"
    using files_ok_ofs [OF files_ok_disk [OF assms]] assms
    by (auto simp: f_write_def Let_def split: option.splits)
  show "files_ok (snd (f_read fd n s))" "files_ok (snd (f_seek fd n s))" "files_ok (snd (f_seek_end fd s))"
    "files_ok (snd (f_set_append fd s))"
    using assms files_ok_ofs [OF assms] files_ok_name [OF assms]
    by (auto simp: f_read_def f_seek_def f_seek_end_def f_set_append_def Let_def split: option.splits)
  show "files_ok (snd (f_dup fd s))" "files_ok (snd (f_dup2 fd fd' s))" "files_ok (snd (f_close fd s))"
    using assms
    by (auto simp: f_dup_def f_dup2_def f_close_def Let_def split: option.splits intro!: files_ok_set_fd fd_at_ok)
qed

section \<open>What the programs do\<close>

lemmas file_calls = f_open_def f_write_def f_read_def f_seek_def f_seek_end_def f_dup_def f_dup2_def f_close_def
  f_set_append_def f_print_def fd_at_def set_fd_def contents_def overlay_def Let_def

lemma five: "Suc (Suc (Suc (Suc (Suc 0)))) = 5"
  by simp

lemma dec_digits: "dec_int 3 = ''3''" "dec_int 4 = ''4''"
  by code_simp+

text \<open>\<^verbatim>\<open>dup.c\<close>: the copy of a descriptor shares the offset and the file, so that what was appended through the
  first is read back, with all that was in the file before, through the second once it is rewound.\<close>

theorem dup_shares_offset:
  assumes "d name = Some c" and "name \<noteq> tty" and "length c + 11 < 1024"
  shows "case dup_main name True (fstart d) of (r, s) \<Rightarrow> r = Some 0
     \<and> disk s name = Some (c @ ''hello world'')
     \<and> disk s tty = Some (''ft1=[3],ft2=[4]'' @ [LF] @ ''['' @ takeWhile (\<lambda>x. x \<noteq> NUL) (c @ ''hello world'') @ '']'' @ [LF])
     \<and> fdt s = [Some 0, Some 0, Some 0, None, None]"
  using assms
  by (simp add: dup_main_def fstart_def file_calls show_buf_def cstring_fill dec_digits)

theorem dup_shares_offset_witness:
  "case dup_main ''log'' True (fstart [''log'' \<mapsto> ''a'']) of (r, s) \<Rightarrow> disk s ''log'' = Some ''ahello world''"
  using dup_shares_offset [of "[''log'' \<mapsto> ''a'']" "''log''" "''a''"] by (simp add: tty_def split: prod.splits)

text \<open>\<^verbatim>\<open>dup2.c\<close> writes into the first file only: the second is opened, and created if need be, but its
  descriptor is taken over before anything is written.\<close>

theorem dup2_takes_over:
  assumes "d old = Some c" and "old \<noteq> tty" and "new \<noteq> tty" and "new \<noteq> old" and "length c < 1024"
  shows "case dup2_main old new True True (fstart d) of (r, s) \<Rightarrow> r = Some 0
     \<and> disk s old = Some (''sgyt come'' @ drop 9 c)
     \<and> disk s new = (case d new of None \<Rightarrow> Some [] | Some c' \<Rightarrow> Some c')
     \<and> disk s tty = Some (''read ['' @ takeWhile (\<lambda>x. x \<noteq> NUL) (''sgyt come'' @ drop 9 c) @ '']'')"
  using assms
  by (cases "d new") (auto simp: dup2_main_def fstart_def file_calls show_buf_def cstring_fill five)

theorem lseek02_leaves_hole:
  assumes "d ''./test.log'' = Some c"
  shows "disk (snd (lseek02_main True (fstart d))) ''./test.log'' =
     Some (take 100 c @ zbuf (100 - length c) @ ''H'' @ drop 101 c)"
  using assms by (simp add: lseek02_main_def fstart_def file_calls tty_def)

theorem dup2_1_redirects:
  assumes "d name = None" and "name \<noteq> tty"
  shows "case dup2_1_main name True (fstart d) of (r, s) \<Rightarrow>
     disk s name = Some ''STDOUT_FILENO IS OUT'' \<and> disk s tty = Some []"
  using assms by (simp add: dup2_1_main_def fstart_def file_calls)

theorem fcntl2_appends:
  assumes "d name = Some c" and "name \<noteq> tty"
  shows "disk (snd (fcntl2_main name True (fstart d))) name = Some (c @ ''sgyt ok'')"
  using assms by (simp add: fcntl2_main_def fstart_def file_calls)

theorem open_writes_terminator:
  assumes "d ''./test.log'' = None"
  shows "case open_main True (fstart d) of (r, s) \<Rightarrow> r = Some 0
     \<and> disk s ''./test.log'' = Some (''hello world'' @ [NUL]) \<and> disk s tty = Some []"
  using assms by (simp add: open_main_def fstart_def file_calls show_buf_def tty_def)

lemma mmap_read_prints:
  assumes "d ''mmapfile'' = Some e" and "e \<noteq> []" and "length e < 1024"
  shows "case mmap_read_main True True (fstart d) of (r, s) \<Rightarrow> r = Some 0 \<and> disk s ''mmapfile'' = Some e
     \<and> disk s tty = Some (''res == ['' @ dec_int (int (length e)) @ ''],buf == ['' @ takeWhile (\<lambda>x. x \<noteq> NUL) e @ '']'')"
  using assms by (simp add: mmap_read_main_def mmap_ok_def fstart_def file_calls tty_def show_buf_def cstring_fill)

lemma mmap_write_writes:
  assumes "d ''mmapfile'' = Some c" and "c \<noteq> []"
  shows "case mmap_write_main True True (fstart d) of (r, s) \<Rightarrow>
     r = Some 0 \<and> disk s ''mmapfile'' = Some (''hello'' @ drop 5 c)"
  using assms by (simp add: mmap_write_main_def mmap_ok_def fstart_def file_calls tty_def five)

lemma mmap_empty:
  assumes "d ''mmapfile'' = Some []"
  shows "fst (mmap_write_main True True (fstart d)) = Some (-1)"
    and "disk (snd (mmap_write_main True True (fstart d))) = d(tty \<mapsto> [])"
    and "fst (mmap_read_main True True (fstart d)) = Some (-1)"
    and "disk (snd (mmap_read_main True True (fstart d))) = d(tty \<mapsto> [])"
  using assms
  by (simp_all add: mmap_write_main_def mmap_read_main_def mmap_ok_def fstart_def file_calls tty_def f_error_def)

text \<open>what \<^verbatim>\<open>mmapWrite.c\<close> puts into a file that is not empty, \<^verbatim>\<open>mmapRead.c\<close> run after it prints, followed by
  the rest of what was there; the mapping both make plays no part in it. An empty file stays empty.\<close>

theorem mmap_roundtrip:
  assumes "d ''mmapfile'' = Some c" and "length c < 1024"
  shows "case mmap_write_main True True (fstart d) of (r, s) \<Rightarrow>
     (case mmap_read_main True True (fstart (disk s)) of (r', s') \<Rightarrow>
        disk s' ''mmapfile'' = Some (if c = [] then [] else ''hello'' @ drop 5 c)
      \<and> disk s' tty = Some (if c = [] then []
           else ''res == ['' @ dec_int (max 5 (int (length c))) @ ''],buf == ['' @
             ''hello'' @ takeWhile (\<lambda>x. x \<noteq> NUL) (drop 5 c) @ '']'')
      \<and> r = r' \<and> r = Some (if c = [] then -1 else 0))"
proof (cases "c = []")
  case True
  with assms have d: "d ''mmapfile'' = Some []" and d': "(d(tty \<mapsto> [])) ''mmapfile'' = Some []"
    by (simp_all add: tty_def)
  show ?thesis
    using mmap_empty(1,2) [of d] mmap_empty(3,4) [of "d(tty \<mapsto> [])"] d d' True
    by (simp add: case_prod_beta)
next
  case False
  obtain r s where w: "mmap_write_main True True (fstart d) = (r, s)" by fastforce
  with mmap_write_writes [of d, OF assms(1) False] have s: "r = Some 0" "disk s ''mmapfile'' = Some (''hello'' @ drop 5 c)"
    by simp_all
  obtain r' s' where w': "mmap_read_main True True (fstart (disk s)) = (r', s')" by fastforce
  have l: "int (length (''hello'' @ drop 5 c)) = max 5 (int (length c))"
    and t: "takeWhile (\<lambda>x. x \<noteq> NUL) (''hello'' @ drop 5 c) = ''hello'' @ takeWhile (\<lambda>x. x \<noteq> NUL) (drop 5 c)"
    by simp_all
  have ne: "''hello'' @ drop 5 c \<noteq> []" and le: "length (''hello'' @ drop 5 c) < 1024" using assms(2) by simp_all
  show ?thesis
    using mmap_read_prints [of "disk s", OF s(2) ne le] False unfolding w w' prod.case l t by (simp only: if_False s(1) append_assoc simp_thms)
qed

theorem mmap_roundtrip_witness:
  "case mmap_write_main True True (fstart [''mmapfile'' \<mapsto> ''Jelly fish'']) of (r, s) \<Rightarrow>
     disk (snd (mmap_read_main True True (fstart (disk s)))) ''mmapfile'' = Some ''hello fish''"
  using mmap_roundtrip [of "[''mmapfile'' \<mapsto> ''Jelly fish'']" "''Jelly fish''"] by (simp split: prod.splits)

text \<open>\<^verbatim>\<open>mmap.c\<close>: with the offset shared, four things can happen to a file with contents \<open>c\<close>, among them that
  the child reads from behind the parent's text and that the parent writes at the end of the file. Only the \<^verbatim>\<open>sleep\<close> of the child makes
  the intended one likely.\<close>

lemma mmap_orders:
  "shuffles [PSeek, PWrite] [CSeek, CRead] =
     {[PSeek, PWrite, CSeek, CRead], [PSeek, CSeek, PWrite, CRead], [PSeek, CSeek, CRead, PWrite],
      [CSeek, PSeek, PWrite, CRead], [CSeek, PSeek, CRead, PWrite], [CSeek, CRead, PSeek, PWrite]}"
  by auto

theorem mmap_fork_races:
  assumes "d ''mmapfile'' = Some c" and "c \<noteq> []" and "length c < 1024"
  shows "(\<lambda>order. case mmap_fork_main True True True order (fstart d) of (r, got, s) \<Rightarrow> (got, disk s ''mmapfile''))
       ` shuffles [PSeek, PWrite] [CSeek, CRead]
     = {(Some (''hello'' @ drop 5 c), Some (''hello'' @ drop 5 c)), (Some (drop 5 c), Some (''hello'' @ drop 5 c)),
        (Some c, Some (c @ ''hello'')), (Some c, Some (''hello'' @ drop 5 c))}"
  using assms unfolding mmap_orders
  by (simp add: mmap_fork_main_def mmap_ok_def mm_step_def fstart_def file_calls tty_def five insert_commute)

end
