(* ===== verification/Basics.thy ===== *)
theory Basics
  imports Logic
begin

text \<open>
  The first exercises: \<^verbatim>\<open>linux01/main.c\<close>, \<^verbatim>\<open>linux03/main.c\<close> with its functions (copied unchanged into five
  directories), \<^verbatim>\<open>testDemo.c\<close>, and the programs on directories and file types of \<^verbatim>\<open>linux03\<close>.
\<close>

section \<open>\<^verbatim>\<open>sum\<close>\<close>

text \<open>An \<^verbatim>\<open>int\<close> that overflows is undefined behaviour, \<open>None\<close>.\<close>

definition INT_MAX :: int where
  "INT_MAX = 2147483647"

function sum_loop :: "int \<Rightarrow> int \<Rightarrow> int \<Rightarrow> int option" where
  "sum_loop len i s =
     (if i < len then (if s + i \<le> INT_MAX then sum_loop len (i + 1) (s + i) else None) else Some s)"
  by auto
termination by (relation "measure (\<lambda>(len, i, s). nat (len - i))") auto

declare sum_loop.simps [simp del]

definition sum_main :: "int \<Rightarrow> int option" where
  "sum_main len = sum_loop len 0 0"

lemma sum_loop_result:
  assumes "0 \<le> i" and "i \<le> len" and "len \<le> 65536" and "2 * s = i * (i - 1)"
  shows "sum_loop len i s = Some (len * (len - 1) div 2)"
  using assms
proof (induction len i s rule: sum_loop.induct)
  case (1 len i s)
  show ?case
  proof (cases "i < len")
    case True
    have nx: "2 * (s + i) = (i + 1) * ((i + 1) - 1)" using "1.prems"(4) by (simp add: algebra_simps)
    have "(i + 1) * i \<le> 65536 * 65535" using True "1.prems" by (intro mult_mono) auto
    then have "s + i \<le> INT_MAX" using nx by (simp add: INT_MAX_def)
    with True "1.prems" nx "1.IH" show ?thesis by (subst sum_loop.simps) simp
  next
    case False
    then have "i = len" using "1.prems" by simp
    with "1.prems" show ?thesis by (subst sum_loop.simps) auto
  qed
qed

lemma sum_loop_overflow:
  assumes "0 \<le> i" and "i \<le> 65536" and "65536 < len" and "2 * s = i * (i - 1)"
  shows "sum_loop len i s = None"
  using assms
proof (induction len i s rule: sum_loop.induct)
  case (1 len i s)
  show ?case
  proof (cases "i = 65536")
    case True
    with "1.prems" show ?thesis by (subst sum_loop.simps) (simp add: INT_MAX_def)
  next
    case False
    have "2 * (s + i) = (i + 1) * ((i + 1) - 1)" using "1.prems"(4) by (simp add: algebra_simps)
    with False "1.prems" "1.IH" show ?thesis by (subst sum_loop.simps) simp
  qed
qed

text \<open>\<^verbatim>\<open>sum(len)\<close> is the sum of the numbers below \<open>len\<close>, and overflows exactly when \<open>len\<close> exceeds 65536.\<close>

theorem sum_closed_form:
  "sum_main len = (if len \<le> 65536 then Some (if len \<le> 0 then 0 else len * (len - 1) div 2) else None)"
proof (cases "len \<le> 0")
  case True
  then show ?thesis by (simp add: sum_main_def sum_loop.simps)
next
  case False
  then show ?thesis
    using sum_loop_result [of 0 len 0] sum_loop_overflow [of 0 len 0] by (simp add: sum_main_def)
qed

section \<open>The \<^verbatim>\<open>main\<close>s that use it\<close>

primrec print_argv :: "nat \<Rightarrow> string list \<Rightarrow> unit prog" where
  "print_argv i [] = ret ()"
| "print_argv i (a # as) = thn (printf (''[%d]:[%s]'' @ [LF]) [AI (int i), AS a]) (print_argv (Suc i) as)"

definition fun1 :: "unit prog" where
  "fun1 = printf ''this is fun1'' []"

definition fun2 :: "unit prog" where
  "fun2 = printf ''this is fun2'' []"

definition first_main :: "int prog" where
  \<comment> \<open>\<^verbatim>\<open>linux01/main.c\<close>\<close>
  "first_main = thn (printf ''this is main'' []) (thn fun1 (thn fun2 (ret 0)))"

definition argv_main :: "string list \<Rightarrow> int prog" where
  \<comment> \<open>\<^verbatim>\<open>linux03/main.c\<close>\<close>
  "argv_main argv =
     thn (printf (''this is main!'' @ [LF]) [])
    (thn (print_argv 0 argv) (thn fun1 (thn fun2
    (case sum_main 10 of
       None \<Rightarrow> fault_p OutOfBounds
     | Some n \<Rightarrow> thn (printf (''sum(10)==[%d]'' @ [LF]) [AI n]) (ret 0)))))"

definition test_demo_main :: "string list \<Rightarrow> int prog" where
  "test_demo_main argv = thn (print_argv 0 argv) (ret 0)"

lemma print_argv_trace:
  "print_argv i as w = (Val (), w\<lparr>trace := trace w @ map (\<lambda>(k, a). Print (''[%d]:[%s]'' @ [LF]) [AI (int k), AS a]) (enumerate i as)\<rparr>)"
  by (induction as arbitrary: i w) (simp_all add: exec)

theorem argv_main_output:
  "\<exists>w'. argv_main argv w = (Val 0, w') \<and> trace w' = trace w @ [Print (''this is main!'' @ [LF]) []]
     @ map (\<lambda>(k, a). Print (''[%d]:[%s]'' @ [LF]) [AI (int k), AS a]) (enumerate 0 argv)
     @ [Print ''this is fun1'' [], Print ''this is fun2'' [], Print (''sum(10)==[%d]'' @ [LF]) [AI 45]]"
  by (simp add: argv_main_def exec print_argv_trace fun1_def fun2_def sum_closed_form)

section \<open>Directories\<close>

definition bytes_name :: string where
  "bytes_name = [CHR 0xE6, CHR 0x96, CHR 0x87, CHR 0xE4, CHR 0xBB, CHR 0xB6, CHR 0xE5, CHR 0x90, CHR 0x8D, CHR 0xE8, CHR 0xAF, CHR 0x8D]"

fun type_text :: "ftype \<Rightarrow> string" where
  "type_text FReg = [CHR 0xE6, CHR 0x99, CHR 0xAE, CHR 0xE9, CHR 0x80, CHR 0x9A, CHR 0xE8, CHR 0xBD, CHR 0xAF, CHR 0xE4, CHR 0xBB, CHR 0xB6]"
| "type_text FDir = [CHR 0xE7, CHR 0x9B, CHR 0xAE, CHR 0xE5, CHR 0xBD, CHR 0x95, CHR 0xE6, CHR 0x96, CHR 0x87, CHR 0xE4, CHR 0xBB, CHR 0xB6]"
| "type_text FLnk = [CHR 0xE9, CHR 0x93, CHR 0xBE, CHR 0xE6, CHR 0x8E, CHR 0xA5, CHR 0xE6, CHR 0x96, CHR 0x87, CHR 0xE4, CHR 0xBB, CHR 0xB6]"
| "type_text FOther = [CHR 0xE5, CHR 0x85, CHR 0xB6, CHR 0xE4, CHR 0xBB, CHR 0x96, CHR 0xE6, CHR 0x96, CHR 0x87, CHR 0xE4, CHR 0xBB, CHR 0xB6]"

fun dec_dir :: "reply \<Rightarrow> (errno option \<times> (string \<times> ftype) list option) option" where
  "dec_dir (RDir es) = Some (None, Some es)"
| "dec_dir (RFail e) = Some (Some e, None)"
| "dec_dir _ = None"

primrec print_entries :: "(string \<times> ftype) list \<Rightarrow> unit prog" where
  \<comment> \<open>the \<^verbatim>\<open>readdir\<close> loop\<close>
  "print_entries [] = ret ()"
| "print_entries (e # es) =
     (case e of (name, ty) \<Rightarrow>
        if name = ''.'' \<or> name = ''..'' then print_entries es
        else thn (printf (bytes_name @ ''[%s]'' @ [LF]) [AS name]) (thn (printf (type_text ty) []) (print_entries es)))"

definition dir_main :: "string list \<Rightarrow> int prog" where
  \<comment> \<open>\<^verbatim>\<open>argv[1]\<close> is not checked\<close>
  "dir_main argv =
     (if length argv < 2 then fault_p NullPointer
      else bnd (call (KApi ''opendir'' [AS (argv ! 1)]) dec_dir) (\<lambda>es. case es of
          None \<Rightarrow> thn (printf ''open dir error'' []) (ret (-1))
        | Some es \<Rightarrow> thn (print_entries es) (bnd (sys_int (KApi ''closedir'' [])) (\<lambda>_. ret 0))))"

primrec print_names :: "string list \<Rightarrow> unit prog" where
  "print_names [] = ret ()"
| "print_names (n # ns) = thn (printf (''%s'' @ [LF]) [AS n]) (print_names ns)"

definition scandir_main :: "string list \<Rightarrow> int prog" where
  \<comment> \<open>\<^verbatim>\<open>scandir\<close> delivers the entries in alphabetical order; \<^verbatim>\<open>while(n--)\<close> goes through them from the end\<close>
  "scandir_main argv =
     (if length argv < 2 then fault_p NullPointer
      else bnd (call (KScandir (argv ! 1)) dec_dir) (\<lambda>es. case es of
          None \<Rightarrow> thn (perror (''scandir error'' @ [LF])) (exit_p 1)
        | Some es \<Rightarrow> thn (print_names (rev (map fst es))) (exit_p 0)))"

lemma print_names_trace:
  "print_names ns w = (Val (), w\<lparr>trace := trace w @ map (\<lambda>n. Print (''%s'' @ [LF]) [AS n]) ns\<rparr>)"
  by (induction ns arbitrary: w) (simp_all add: exec)

theorem scandir_reverses:
  "\<exists>w'. scandir_main [p, d] (start [RDir es]) = (Stop (SExit 0), w')
     \<and> trace w' = Ev (KScandir d) (RDir es) # map (\<lambda>n. Print (''%s'' @ [LF]) [AS n]) (rev (map fst es))"
  by (simp add: scandir_main_def exec call_def print_names_trace step_world_def start_def)

definition block_read_main :: "unit prog" where
  "block_read_main =
     bnd (sys_read 0 1024) (\<lambda>r.
     bnd (c_str (rbuf (zbuf 1024) r)) (\<lambda>str. printf (''buf = [%s]'' @ [LF]) [AS str]))"

section \<open>File types\<close>

definition S_IFMT :: "32 word" where "S_IFMT = 0xF000"
definition S_IFIFO :: "32 word" where "S_IFIFO = 0x1000"
definition S_IFCHR :: "32 word" where "S_IFCHR = 0x2000"
definition S_IFDIR :: "32 word" where "S_IFDIR = 0x4000"
definition S_IFBLK :: "32 word" where "S_IFBLK = 0x6000"
definition S_IFREG :: "32 word" where "S_IFREG = 0x8000"
definition S_IFLNK :: "32 word" where "S_IFLNK = 0xA000"
definition S_IFSOCK :: "32 word" where "S_IFSOCK = 0xC000"
definition S_IXOTH :: "32 word" where "S_IXOTH = 1"

definition S_ISREG :: "32 word \<Rightarrow> bool" where
  "S_ISREG m \<longleftrightarrow> m AND S_IFMT = S_IFREG"

fun dec_stat :: "reply \<Rightarrow> (errno option \<times> (32 word \<times> int \<times> int \<times> int) option) option" where
  "dec_stat (RMode m sz uid gid) = Some (None, Some (m, sz, uid, gid))"
| "dec_stat (RFail e) = Some (Some e, None)"
| "dec_stat _ = None"

definition print_stat :: "int \<Rightarrow> int \<Rightarrow> int \<Rightarrow> unit prog" where
  "print_stat sz uid gid =
     printf (''file_size = [%d],file_uid = [%d],file_gid=[%d]'' @ [LF]) [AI sz, AI uid, AI gid]"

definition lstat_text :: "32 word \<Rightarrow> string" where
  \<comment> \<open>the two tests of \<^verbatim>\<open>lstat.c\<close>, which mask with the type they look for\<close>
  "lstat_text m =
     (if m AND S_IFLNK = S_IFLNK then ''this is link file'' @ [LF]
      else if m AND S_IFREG = S_IFREG then ''this is reg file'' @ [LF]
      else [])"

definition lstat_main :: "string list \<Rightarrow> int prog" where
  \<comment> \<open>a failure leaves \<^verbatim>\<open>st\<close> as it was on the stack\<close>
  "lstat_main argv =
     (if length argv < 2 then fault_p Uninitialised
      else bnd (call (KApi ''lstat'' [AS (argv ! 1)]) dec_stat) (\<lambda>x. case x of
          None \<Rightarrow> fault_p Uninitialised
        | Some (m, sz, uid, gid) \<Rightarrow>
            thn (print_stat sz uid gid)
           (thn (if lstat_text m = [] then ret () else printf (lstat_text m) []) (ret 0))))"

definition stat_main :: "string list \<Rightarrow> int prog" where
  "stat_main argv =
     (if argv = [] then fault_p Uninitialised
      else bnd (call (KApi ''stat'' [AS (argv ! 0)]) dec_stat) (\<lambda>x. case x of
          None \<Rightarrow> fault_p Uninitialised
        | Some (m, sz, uid, gid) \<Rightarrow> thn (print_stat sz uid gid) (ret 0)))"

definition stat_limit_main :: "string list \<Rightarrow> int prog" where
  "stat_limit_main argv =
     (if argv = [] then fault_p Uninitialised
      else bnd (call (KApi ''stat'' [AS (argv ! 0)]) dec_stat) (\<lambda>x. case x of
          None \<Rightarrow> fault_p Uninitialised
        | Some (m, sz, uid, gid) \<Rightarrow>
            thn (if m AND S_IXOTH \<noteq> 0 then printf (''other have s_ixoth'' @ [LF]) [] else ret ())
           (thn (if S_ISREG m then printf (''file is reg'' @ [LF]) [] else ret ()) (ret 0))))"

definition file_types :: "32 word list" where
  "file_types = [S_IFIFO, S_IFCHR, S_IFDIR, S_IFBLK, S_IFREG, S_IFLNK, S_IFSOCK]"

text \<open>Whatever the permission bits, \<^verbatim>\<open>lstat.c\<close> names links and regular files for what they are and calls no
  directory, device or fifo so; but it takes a socket for a regular file.\<close>

theorem lstat_text_types:
  "map (\<lambda>t. lstat_text (t OR (perm AND 0xFFF))) file_types =
     [[], [], [], [], ''this is reg file'' @ [LF], ''this is link file'' @ [LF], ''this is reg file'' @ [LF]]"
proof -
  have "(t OR (perm AND 0xFFF)) AND k = t AND k" if "k AND 0xFFF = 0" for t k :: "32 word"
    using that by (simp add: bit_eq_iff bit_simps) blast
  then have "(t OR (perm AND 0xFFF)) AND S_IFLNK = t AND S_IFLNK"
    and "(t OR (perm AND 0xFFF)) AND S_IFREG = t AND S_IFREG" for t :: "32 word"
    by (simp_all add: S_IFLNK_def S_IFREG_def)
  then show ?thesis
    by (simp add: file_types_def lstat_text_def)
      (simp add: S_IFIFO_def S_IFCHR_def S_IFDIR_def S_IFBLK_def S_IFREG_def S_IFLNK_def S_IFSOCK_def)
qed

end
