(* ===== verification/Procs.thy ===== *)
theory Procs
  imports Logic
begin

text \<open>
  The exercises on processes of \<^verbatim>\<open>linux-progress\<close>: \<^verbatim>\<open>fork.c\<close>, \<^verbatim>\<open>fork1.c\<close>, \<^verbatim>\<open>zomble.c\<close>, \<^verbatim>\<open>fork-leep.c\<close>,
  \<^verbatim>\<open>execl.c\<close>, \<^verbatim>\<open>wait.c\<close>, \<^verbatim>\<open>waitpid.c\<close>, \<^verbatim>\<open>waitpid01.c\<close>; and \<^verbatim>\<open>pipe01.c\<close> of \<^verbatim>\<open>linux06\<close>. A run is that of one
  process: after \<^verbatim>\<open>fork\<close> returned 0 it is the child's. The macros on the status of \<^verbatim>\<open>wait\<close> are those of the C
  library, on 32-bit words.
\<close>

section \<open>Forking\<close>

definition print_ids :: "string \<Rightarrow> arg list \<Rightarrow> unit prog" where
  \<comment> \<open>a line that ends with \<^verbatim>\<open>getpid(),getppid()\<close>\<close>
  "print_ids f xs =
     bnd (sys_int (KApi ''getpid'' [])) (\<lambda>pid.
     bnd (sys_int (KApi ''getppid'' [])) (\<lambda>ppid. printf f (xs @ [AI pid, AI ppid])))"

definition befor_text :: string where
  "befor_text = ''befor fork,pid = [%d],ppid = [%d]'' @ [LF]"

definition after_text :: string where
  "after_text = ''after fork ,pid = [%d],ppid = [%d]'' @ [LF]"

definition father_text :: string where
  "father_text = ''this is father, pid = [%d],ppid = [%d]'' @ [LF]"

definition child_text :: string where
  "child_text = ''this is children,pid = [%d],ppid = [%d]'' @ [LF]"

definition fork_split :: "unit prog \<Rightarrow> unit prog \<Rightarrow> unit prog \<Rightarrow> int prog" where
  \<comment> \<open>\<^verbatim>\<open>fork\<close>, the branches for the parent and the child, and what both do then\<close>
  "fork_split p c rest =
     bnd (sys_int KFork) (\<lambda>id.
       if id < 0 then thn (perror (''fork error'' @ [LF])) (ret (-1))
       else thn (if 0 < id then p else c) (thn rest (ret 0)))"

definition sleep_c :: "nat \<Rightarrow> unit prog" where
  "sleep_c n = bnd (sys_int (KSleep n)) (\<lambda>_. ret ())"

definition fork_main :: "int prog" where
  "fork_main = thn (print_ids befor_text [])
     (fork_split (thn (print_ids father_text []) (sleep_c 1)) (print_ids child_text []) (print_ids after_text []))"

definition zomble_main :: "int prog" where
  "zomble_main = thn (print_ids befor_text [])
     (fork_split (thn (sleep_c 100) (print_ids father_text [])) (print_ids child_text []) (print_ids after_text []))"

definition fork1_main :: "int \<Rightarrow> int prog" where
  \<comment> \<open>\<open>apint\<close>: the global \<^verbatim>\<open>APINT\<close> at \<^verbatim>\<open>fork\<close>; each process has its own afterwards\<close>
  "fork1_main apint = thn (print_ids befor_text [])
     (fork_split
       (thn (print_ids father_text [])
       (let apint = apint + 1 in thn (printf ''father paint = [%d]'' [AI apint]) (sleep_c 1)))
       (thn (print_ids child_text []) (printf (''child apint = [%d]'' @ [LF]) [AI apint]))
       (print_ids after_text []))"

definition exec_p :: "string \<Rightarrow> string list \<Rightarrow> unit prog" where
  \<comment> \<open>\<^verbatim>\<open>execlp\<close>: this program goes on only when it fails\<close>
  "exec_p path args =
     bnd (sys_int (KApi ''execlp'' (map AS (path # args)))) (\<lambda>r. if r < 0 then ret () else halt SBlocked)"

definition execl_main :: "int prog" where
  "execl_main = thn (print_ids befor_text [])
     (fork_split (thn (print_ids father_text []) (sleep_c 1))
       (thn (print_ids child_text [])
       (thn (exec_p ''/opt/linuxCDemo/linux-C-study/linux-progress/testDemo'' [''testDemo'', ''Hello'', ''World'', ''ni mei''])
            (perror ''execl error'')))
       (print_ids after_text []))"

definition pipe01_main :: "int prog" where
  \<comment> \<open>\<^verbatim>\<open>ps aux | grep bash\<close>; the descriptors of the pipe are 3 and 4\<close>
  "pipe01_main =
     bnd (sys_int (KApi ''pipe'' [])) (\<lambda>result.
       if result = -1 then thn (perror ''pipe fail'') (ret (-1))
       else
         bnd (sys_int KFork) (\<lambda>pid.
         thn (if 0 < pid then
                bnd (sys_int (KClose 3)) (\<lambda>_.
                bnd (sys_int (KApi ''dup2'' [AI 4, AI 1])) (\<lambda>_.
                thn (exec_p ''ps'' [''ps'', ''aux'']) (perror ''execpl fail'')))
              else if pid = 0 then
                bnd (sys_int (KClose 4)) (\<lambda>_.
                bnd (sys_int (KApi ''dup2'' [AI 3, AI 0])) (\<lambda>_.
                exec_p ''grep'' [''grep'', ''bash'']))
              else ret ())
             (ret 0)))"

primrec fork_loop :: "nat \<Rightarrow> nat \<Rightarrow> (nat + int) prog" where
  \<comment> \<open>the loop of \<^verbatim>\<open>fork-leep.c\<close> with \<open>k\<close> rounds left: \<open>i\<close> where it ends, or what \<^verbatim>\<open>main\<close> returns\<close>
  "fork_loop 0 i = ret (Inl i)"
| "fork_loop (Suc k) i =
     bnd (sys_int KFork) (\<lambda>id.
       if id < 0 then thn (perror (''fork error'' @ [LF])) (ret (Inr (-1)))
       else if 0 < id then thn (print_ids father_text []) (thn (sleep_c 1) (fork_loop k (Suc i)))
       else thn (print_ids child_text []) (ret (Inl i)))"

definition fork_leep_main :: "int prog" where
  "fork_leep_main =
     bnd (fork_loop 3 0) (\<lambda>x. case x of
         Inr r \<Rightarrow> ret r
       | Inl i \<Rightarrow>
           bnd (sys_int (KApi ''getpid'' [])) (\<lambda>pid.
           thn (printf ''i = [%d],pid = [%d] '' [AI (int i), AI pid]) (ret 0)))"

section \<open>Which process prints which number\<close>

definition forks1 :: "event \<Rightarrow> int list" where
  "forks1 e = (case e of Ev KFork (RInt n) \<Rightarrow> [n] | Ev KFork (RFail e) \<Rightarrow> [-1] | _ \<Rightarrow> [])"

definition forks :: "world \<Rightarrow> int list" where
  \<comment> \<open>what \<^verbatim>\<open>fork\<close> returned to this process, in order\<close>
  "forks w = concat (map forks1 (trace w))"

lemma forks_step [simp]:
  "forks (step_world c r eo w) = forks w @ forks1 (Ev c r)"
  "forks (w\<lparr>trace := trace v @ es\<rparr>) = forks v @ concat (map forks1 es)"
  by (simp_all add: forks_def)

lemma forks1_simps [simp]:
  "forks1 (Print f xs) = []" "forks1 (Perror m) = []" "forks1 (Ev (KApi f ys) r) = []" "forks1 (Ev (KSleep n) r) = []"
  "forks1 (Ev KFork (RInt v)) = [v]" "forks1 (Ev KFork (RFail e)) = [-1]"
  by (simp_all add: forks1_def)

lemma wp_print_ids:
  assumes "E SBlocked w" and "\<And>w'. forks w' = forks w \<Longrightarrow> Q () w'" and "\<And>w'. forks w' = forks w \<Longrightarrow> E SBlocked w'"
  shows "wp (print_ids f xs) Q E w"
  unfolding print_ids_def by (intro wp_intros assms) (simp_all add: forks_def)

lemma wp_sleep_c:
  assumes "E SBlocked w" and "\<And>w'. forks w' = forks w \<Longrightarrow> Q () w'"
  shows "wp (sleep_c n) Q E w"
  unfolding sleep_c_def by (intro wp_intros assms) (simp_all add: forks_def)

definition loop_forks :: "nat \<Rightarrow> nat \<Rightarrow> nat + int \<Rightarrow> int list \<Rightarrow> bool" where
  \<comment> \<open>what the loop with \<open>k\<close> rounds left forked when it ended with \<open>x\<close>\<close>
  "loop_forks k i x fs = (case x of
      Inl j \<Rightarrow> i \<le> j \<and> j \<le> i + k \<and> j - i \<le> length fs \<and> list_all (\<lambda>n. 0 < n) (take (j - i) fs)
        \<and> drop (j - i) fs = (if j = i + k then [] else [0])
    | Inr r \<Rightarrow> r = -1 \<and> fs \<noteq> [] \<and> last fs = -1)"

lemma loop_forks_Cons:
  assumes "loop_forks k (Suc i) x fs" and "0 < n"
  shows "loop_forks (Suc k) i x (n # fs)"
proof (cases x)
  case (Inl j)
  with assms(1) have "Suc i \<le> j" by (simp add: loop_forks_def)
  then have "j - i = Suc (j - Suc i)" by simp
  with assms Inl show ?thesis by (auto simp: loop_forks_def)
qed (use assms in \<open>auto simp: loop_forks_def\<close>)

lemma wp_fork_loop:
  "wp (fork_loop k i) (\<lambda>x w'. \<exists>fs. forks w' = forks w @ fs \<and> loop_forks k i x fs) (\<lambda>s _. s = SBlocked) w"
proof (induction k arbitrary: i w)
  case 0
  show ?case by (simp add: wp_ret loop_forks_def)
next
  case (Suc k)
  have step: "wp (fork_loop k (Suc i)) (\<lambda>x w''. \<exists>fs. forks w'' = forks w @ fs \<and> loop_forks (Suc k) i x fs)
      (\<lambda>s _. s = SBlocked) w'"
    if "forks w' = forks w @ [n]" "0 < n" for w' n
    by (rule wp_conseq [OF Suc.IH]) (use that loop_forks_Cons in \<open>auto simp: that(1)\<close>)
  show ?case
    unfolding fork_loop.simps
    by (intro wp_intros wp_print_ids wp_sleep_c step) (auto simp: loop_forks_def)
qed

text \<open>\<^verbatim>\<open>fork-leep.c\<close>: the process that ends with \<open>i\<close> printed is the parent, of three children, for \<open>i = 3\<close>, and
  otherwise the child of fork number \<open>i\<close>, which forks no more. So a process tree in which no \<^verbatim>\<open>fork\<close> fails has
  four processes that print the numbers 0 to 3.\<close>

theorem fork_leep_roles:
  "wp fork_leep_main
     (\<lambda>r w. if r = 0 then \<exists>i pid. i \<le> 3 \<and> last (trace w) = Print ''i = [%d],pid = [%d] '' [AI (int i), AI pid]
              \<and> list_all (\<lambda>n. 0 < n) (take i (forks w)) \<and> drop i (forks w) = (if i = 3 then [] else [0])
            else r = -1 \<and> forks w \<noteq> [] \<and> last (forks w) = -1)
     (\<lambda>s w. s = SBlocked) (start s)"
proof -
  have "forks (start s) = []" by (simp add: forks_def)
  note loop = wp_fork_loop [of 3 0 "start s", unfolded this]
  show ?thesis
    unfolding fork_leep_main_def
    by (intro wp_intros_eq wp_conseq [OF loop] wp_case_sumI wp_sys_intI) (auto simp: loop_forks_def split: if_splits)
qed

text \<open>\<^verbatim>\<open>fork1.c\<close>: the increment of the parent is not seen by the child.\<close>

lemma fork1_copies:
  "trace (snd (fork1_main 1 (start [RInt 7, RInt 1, RInt k, RInt 7, RInt 1, RInt 0, RInt 7, RInt 1])))
     = (if 0 < k then
          [Ev (KApi ''getpid'' []) (RInt 7), Ev (KApi ''getppid'' []) (RInt 1), Print befor_text [AI 7, AI 1],
           Ev KFork (RInt k), Ev (KApi ''getpid'' []) (RInt 7), Ev (KApi ''getppid'' []) (RInt 1), Print father_text [AI 7, AI 1],
           Print ''father paint = [%d]'' [AI 2], Ev (KSleep 1) (RInt 0),
           Ev (KApi ''getpid'' []) (RInt 7), Ev (KApi ''getppid'' []) (RInt 1), Print after_text [AI 7, AI 1]]
        else if k = 0 then
          [Ev (KApi ''getpid'' []) (RInt 7), Ev (KApi ''getppid'' []) (RInt 1), Print befor_text [AI 7, AI 1],
           Ev KFork (RInt 0), Ev (KApi ''getpid'' []) (RInt 7), Ev (KApi ''getppid'' []) (RInt 1), Print child_text [AI 7, AI 1],
           Print (''child apint = [%d]'' @ [LF]) [AI 1],
           Ev (KApi ''getpid'' []) (RInt 0), Ev (KApi ''getppid'' []) (RInt 7), Print after_text [AI 0, AI 7]]
        else
          [Ev (KApi ''getpid'' []) (RInt 7), Ev (KApi ''getppid'' []) (RInt 1), Print befor_text [AI 7, AI 1]])"
  by (simp add: fork1_main_def fork_split_def print_ids_def sleep_c_def exec start_def step_world_def Let_def)

section \<open>The status of a child\<close>

definition WTERMSIG :: "32 word \<Rightarrow> 32 word" where
  "WTERMSIG st = st AND 0x7F"

definition WIFEXITED :: "32 word \<Rightarrow> bool" where
  "WIFEXITED st \<longleftrightarrow> WTERMSIG st = 0"

definition WEXITSTATUS :: "32 word \<Rightarrow> 32 word" where
  "WEXITSTATUS st = drop_bit 8 (st AND 0xFF00)"

definition WIFSIGNALED :: "32 word \<Rightarrow> bool" where
  \<comment> \<open>\<^verbatim>\<open>((signed char) ((status & 0x7f) + 1) >> 1) > 0\<close>\<close>
  "WIFSIGNALED st \<longleftrightarrow> 0 < sint (ucast (WTERMSIG st + 1) :: 8 word) div 2"

definition exited_text :: string where
  "exited_text = [CHR 0xE6, CHR 0xAD, CHR 0xA3, CHR 0xE5, CHR 0xB8, CHR 0xB8, CHR 0xE9, CHR 0x80, CHR 0x80, CHR 0xE5, CHR 0x87, CHR 0xBA]
     @ '' status == [%d]'' @ [LF]"

definition killed_text :: string where
  "killed_text = [CHR 0xE5, CHR 0xBC, CHR 0x82, CHR 0xE5, CHR 0xB8, CHR 0xB8, CHR 0xE7, CHR 0xBB, CHR 0x88, CHR 0xE6, CHR 0xAD, CHR 0xA2]
     @ '' status == [%d]'' @ [LF]"

definition report_of :: "32 word \<Rightarrow> event option" where
  "report_of st =
     (if WIFEXITED st then Some (Print exited_text [AI (uint (WEXITSTATUS st))])
      else if WIFSIGNALED st then Some (Print killed_text [AI (uint (WTERMSIG st))])
      else None)"

definition report :: "32 word \<Rightarrow> unit prog" where
  "report st = (case report_of st of None \<Rightarrow> ret () | Some e \<Rightarrow> emit e)"

text \<open>How the kernel encodes how a process ended.\<close>

datatype how = ByExit "8 word" | BySignal "7 word" bool   \<comment> \<open>with a core file or without\<close>

definition status_of :: "how \<Rightarrow> 32 word" where
  "status_of h = (case h of
      ByExit e \<Rightarrow> push_bit 8 (ucast e)
    | BySignal n core \<Rightarrow> ucast n OR (if core then 0x80 else 0))"

lemma status_masks:
  "(0x7F :: 32 word) = mask 7" "(0xFF00 :: 32 word) = push_bit 8 (mask 8)" "(0x80 :: 32 word) = push_bit 7 1"
  by (simp_all add: mask_eq_exp_minus_1 push_bit_eq_mult)

lemma term_exit: "WTERMSIG (push_bit 8 (ucast (e :: 8 word))) = 0"
  by (rule bit_word_eqI) (auto simp: WTERMSIG_def status_masks bit_simps)

lemma exit_exit: "WEXITSTATUS (push_bit 8 (ucast (e :: 8 word))) = ucast e"
proof (rule bit_word_eqI)
  fix n
  have "bit e n \<Longrightarrow> n < 8" using bit_imp_le_length [of e n] by simp
  then show "bit (WEXITSTATUS (push_bit 8 (ucast e))) n = bit (ucast e :: 32 word) n"
    by (auto simp: WEXITSTATUS_def status_masks bit_simps)
qed

lemma ucast_7_mask: "ucast n AND 0x7F = (ucast (n :: 7 word) :: 32 word)"
proof (rule bit_word_eqI)
  fix k
  have "bit n k \<Longrightarrow> k < 7" using bit_imp_le_length [of n k] by simp
  then show "bit (ucast n AND 0x7F :: 32 word) k = bit (ucast n :: 32 word) k"
    unfolding status_masks bit_and_iff bit_mask_iff bit_ucast_iff by auto
qed

lemma term_signal: "WTERMSIG (ucast (n :: 7 word) OR (if core then 0x80 else 0)) = ucast n"
  by (simp add: WTERMSIG_def bit.conj_disj_distrib2 ucast_7_mask)

lemma uint_ucast_small:
  "uint (ucast (e :: 8 word) :: 32 word) = uint e" "uint (ucast (n :: 7 word) :: 32 word) = uint n"
  by (simp_all add: unsigned_ucast_eq take_bit_int_eq_self_iff order_less_trans [OF unsigned_less])

lemma ucast_zero: "ucast (n :: 7 word) = (0 :: 32 word) \<longleftrightarrow> n = 0"
  by (metis uint_ucast_small(2) unsigned_0 unsigned_eq_0_iff)

lemma positive_as_signed:
  fixes m :: int
  assumes "0 \<le> m" and "m < 128"
  shows "0 < signed_take_bit 7 (m + 1) div 2 \<longleftrightarrow> m \<noteq> 0 \<and> m \<noteq> 127"
proof (cases "m = 127")
  case False
  with assms have "signed_take_bit 7 (m + 1) = m + 1" by (simp add: signed_take_bit_int_eq_self)
  then show ?thesis using False assms(1) by (simp, presburger)
qed simp

lemma signalled:
  "WIFSIGNALED (ucast (n :: 7 word) OR (if core then 0x80 else 0)) \<longleftrightarrow> n \<noteq> 0 \<and> n \<noteq> 127"
proof -
  have cast: "ucast (word_of_int k :: 32 word) = (word_of_int k :: 8 word)" for k by (transfer, simp)
  have "ucast n + 1 = (word_of_int (uint n + 1) :: 32 word)" by (simp add: unsigned_ucast_eq)
  then have "sint (ucast (ucast n + 1 :: 32 word) :: 8 word) = signed_take_bit 7 (uint n + 1)"
    by (simp only: cast sint_sbintrunc') simp
  moreover have "0 \<le> uint n" "uint n < 128" using unsigned_less [of n, where ?'a = int] by simp_all
  moreover have "uint n = 0 \<longleftrightarrow> n = 0" "uint n = 127 \<longleftrightarrow> n = 127"
    using uint_0_iff [of n] word_uint_eq_iff [of n 127] by simp_all
  ultimately show ?thesis
    using positive_as_signed [of "uint n"] unfolding WIFSIGNALED_def term_signal by simp
qed

text \<open>The report of \<^verbatim>\<open>wait.c\<close>, \<^verbatim>\<open>waitpid.c\<close> and \<^verbatim>\<open>waitpid01.c\<close> gives back what the child passed to \<^verbatim>\<open>exit\<close> (its low
  byte), or the signal that ended it, whether it left a core file or not; the two cases exclude each other.\<close>

theorem report_inverts_status:
  "report_of (status_of h) = (case h of
      ByExit e \<Rightarrow> Some (Print exited_text [AI (uint e)])
    | BySignal n core \<Rightarrow>
        if n = 0 then Some (Print exited_text [AI 0])
        else if n = 127 then None
        else Some (Print killed_text [AI (uint n)]))"
proof (cases h)
  case (ByExit e)
  then show ?thesis
    by (simp add: report_of_def status_of_def WIFEXITED_def term_exit exit_exit uint_ucast_small)
next
  case (BySignal n core)
  show ?thesis
  proof (cases "n = 0")
    case True
    with BySignal show ?thesis
      by (cases core) (simp_all add: report_of_def status_of_def WIFEXITED_def WTERMSIG_def WEXITSTATUS_def)
  next
    case False
    with BySignal show ?thesis
      by (simp add: report_of_def status_of_def WIFEXITED_def term_signal ucast_zero signalled uint_ucast_small)
  qed
qed

section \<open>Waiting\<close>

fun dec_wait :: "reply \<Rightarrow> (errno option \<times> int \<times> 32 word option) option" where
  \<comment> \<open>the child and its status; 0 with \<^verbatim>\<open>WNOHANG\<close> while none has ended; -1\<close>
  "dec_wait (RWait p st) = (if 0 < p then Some (None, p, Some st) else None)"
| "dec_wait (RInt n) = (if n = 0 then Some (None, 0, None) else None)"
| "dec_wait (RFail e) = Some (Some e, -1, None)"
| "dec_wait _ = None"

definition sys_wait :: "int \<Rightarrow> bool \<Rightarrow> (int \<times> 32 word option) prog" where
  \<comment> \<open>\<^verbatim>\<open>waitpid(pid,&status,WNOHANG or 0)\<close>; \<^verbatim>\<open>wait(&status)\<close> is \<^verbatim>\<open>waitpid(-1,&status,0)\<close>\<close>
  "sys_wait pid nohang =
     call (KWaitpid pid) (\<lambda>r. if r = RInt 0 \<and> \<not> nohang then None else dec_wait r)"

lemma wp_sys_waitI [wp_intros]:
  assumes "E SBlocked w"
    and "\<And>p st. 0 < p \<Longrightarrow> Q (p, Some st) (step_world (KWaitpid k) (RWait p st) None w)"
    and "nohang \<Longrightarrow> Q (0, None) (step_world (KWaitpid k) (RInt 0) None w)"
    and "\<And>e. Q (-1, None) (step_world (KWaitpid k) (RFail e) (Some e) w)"
  shows "wp (sys_wait k nohang) Q E w"
  using assms unfolding sys_wait_def by (intro wp_callI) (auto elim!: dec_wait.elims split: if_splits)

lemma eats_sys_wait [tame_intros]: "eats (sys_wait k nohang)"
  by (simp add: sys_wait_def eats_call)

definition waited_text :: string where
  "waited_text = ''this is father,forkId = [%d], pid = [%d], ppid = [%d], waitId = [%d]'' @ [LF]"

definition waiting_child_text :: string where
  "waiting_child_text = ''this is children,forkId = [%d],pid = [%d],ppid = [%d]'' @ [LF]"

definition print_waited :: "int \<Rightarrow> int \<Rightarrow> unit prog" where
  "print_waited k waitid =
     bnd (sys_int (KApi ''getpid'' [])) (\<lambda>pid.
     bnd (sys_int (KApi ''getppid'' [])) (\<lambda>ppid.
       printf waited_text [AI k, AI pid, AI ppid, AI waitid]))"

definition status_value :: "32 word option \<Rightarrow> (32 word \<Rightarrow> 'a prog) \<Rightarrow> 'a prog" where
  \<comment> \<open>\<^verbatim>\<open>status\<close> has a value only when a child was collected\<close>
  "status_value st f = (case st of None \<Rightarrow> fault_p Uninitialised | Some st \<Rightarrow> f st)"

definition wait_once :: "(int \<Rightarrow> int) \<Rightarrow> nat \<Rightarrow> int prog" where
  \<comment> \<open>\<^verbatim>\<open>wait.c\<close> and \<^verbatim>\<open>waitpid.c\<close>: whom to wait for, and how long the child sleeps\<close>
  "wait_once whom n =
     bnd (sys_int KFork) (\<lambda>k.
       if k < 0 then thn (perror (''fork error'' @ [LF])) (ret (-1))
       else if 0 < k then
         bnd (sys_wait (whom k) False) (\<lambda>(waitid, status).
         thn (print_waited k waitid)
        (thn (status_value status report) (ret 0)))
       else thn (print_ids waiting_child_text [AI k]) (thn (sleep_c n) (ret 0)))"

definition wait_main :: "int prog" where
  "wait_main = wait_once (\<lambda>k. -1) 5"

definition waitpid_main :: "int prog" where
  "waitpid_main = wait_once (\<lambda>k. k) 20"

definition reaped_text :: string where
  "reaped_text = [CHR 0xE5, CHR 0xAD, CHR 0x90, CHR 0xE8, CHR 0xBF, CHR 0x9B, CHR 0xE7, CHR 0xA8, CHR 0x8B, CHR 0xE8, CHR 0xA2,
     CHR 0xAB, CHR 0xE5, CHR 0x9B, CHR 0x9E, CHR 0xE6, CHR 0x94, CHR 0xB6, CHR 0xEF, CHR 0xBC, CHR 0x8C] @ ''waitid == [%d]''"

definition all_ended_text :: string where
  "all_ended_text = [CHR 0xE5, CHR 0xAD, CHR 0x90, CHR 0xE7, CHR 0xBA, CHR 0xBF, CHR 0xE7, CHR 0xA8, CHR 0x8B, CHR 0xE7, CHR 0xBB,
     CHR 0x93, CHR 0xE6, CHR 0x9D, CHR 0x9F] @ [LF]"

definition reap_round :: "int \<Rightarrow> unit \<Rightarrow> (unit + unit) prog" where
  "reap_round k _ =
     bnd (sys_wait 0 True) (\<lambda>(waitid, status).
       if waitid = 0 then ret (Inl ())
       else if 0 < waitid then
         thn (printf reaped_text [AI waitid])
        (thn (print_waited k waitid)
        (thn (status_value status report) (ret (Inl ()))))
       else if waitid = -1 then thn (printf all_ended_text []) (ret (Inr ()))
       else ret (Inl ()))"

definition waitpid01_main :: "int prog" where
  "waitpid01_main =
     bnd (sys_int KFork) (\<lambda>k.
       if k < 0 then thn (perror (''fork error'' @ [LF])) (ret (-1))
       else if 0 < k then thn (forever (reap_round k) ()) (ret 0)
       else thn (print_ids waiting_child_text [AI k]) (thn (sleep_c 20) (ret 0)))"

section \<open>Every child is reported once\<close>

definition reap_upd :: "32 word option \<Rightarrow> event \<Rightarrow> 32 word option" where
  \<comment> \<open>the status not yet reported\<close>
  "reap_upd q e = (case e of
      Ev (KWaitpid k) r \<Rightarrow> (case r of RWait p st \<Rightarrow> if report_of st = None then None else Some st | _ \<Rightarrow> None)
    | Print f xs \<Rightarrow> if f \<in> {exited_text, killed_text} then None else q
    | _ \<Rightarrow> q)"

definition reap_chk :: "32 word option \<Rightarrow> event \<Rightarrow> bool" where
  "reap_chk q e = (case e of
      Ev (KWaitpid k) r \<Rightarrow> q = None
    | Print f xs \<Rightarrow>
        if f \<in> {exited_text, killed_text} then (case q of None \<Rightarrow> False | Some st \<Rightarrow> report_of st = Some e)
        else f = all_ended_text \<longrightarrow> q = None
    | _ \<Rightarrow> True)"

abbreviation reap_ok :: "world \<Rightarrow> bool" where
  "reap_ok w \<equiv> safe_trace reap_chk reap_upd None (trace w)"

abbreviation unreported :: "world \<Rightarrow> 32 word option" where
  "unreported w \<equiv> foldl reap_upd None (trace w)"

lemma texts_differ:
  "waited_text \<notin> {exited_text, killed_text, all_ended_text}" "reaped_text \<notin> {exited_text, killed_text, all_ended_text}"
  "waiting_child_text \<notin> {exited_text, killed_text, all_ended_text}" "all_ended_text \<notin> {exited_text, killed_text}"
  by (simp_all add: waited_text_def exited_text_def killed_text_def all_ended_text_def reaped_text_def waiting_child_text_def)

lemma reap_simps [simp]:
  "reap_chk q (Ev KFork r)" "reap_upd q (Ev KFork r) = q" "reap_chk q (Perror m)" "reap_upd q (Perror m) = q"
  "reap_chk q (Ev (KApi f xs) r)" "reap_upd q (Ev (KApi f xs) r) = q"
  "reap_chk q (Ev (KSleep t) r)" "reap_upd q (Ev (KSleep t) r) = q"
  "reap_chk q (Print waited_text xs)" "reap_upd q (Print waited_text xs) = q"
  "reap_chk q (Print reaped_text xs)" "reap_upd q (Print reaped_text xs) = q"
  "reap_chk q (Print waiting_child_text xs)" "reap_upd q (Print waiting_child_text xs) = q"
  "reap_chk q (Print all_ended_text xs) \<longleftrightarrow> q = None" "reap_upd q (Print all_ended_text xs) = q"
  "reap_chk q (Ev (KWaitpid k) r) \<longleftrightarrow> q = None"
  "reap_upd q (Ev (KWaitpid k) (RWait p st)) = (if report_of st = None then None else Some st)"
  "reap_upd q (Ev (KWaitpid k) (RInt n)) = None" "reap_upd q (Ev (KWaitpid k) (RFail e)) = None"
  using texts_differ by (simp_all add: reap_chk_def reap_upd_def)

lemma reap_report [simp]:
  "report_of st = Some e \<Longrightarrow> reap_chk (Some st) e \<and> reap_upd (Some st) e = None"
  by (auto simp: reap_chk_def reap_upd_def report_of_def split: if_splits)

lemma wp_report:
  assumes "report_of st = None \<Longrightarrow> Q () w" and "\<And>e. report_of st = Some e \<Longrightarrow> Q () (w\<lparr>trace := trace w @ [e]\<rparr>)"
  shows "wp (report st) Q E w"
  unfolding report_def by (intro wp_intros assms)

lemma wp_reap_round:
  assumes "reap_ok w \<and> unreported w = None"
  shows "wp (reap_round k u) (\<lambda>x w. reap_ok w \<and> unreported w = None) (\<lambda>s w. reap_ok w \<and> s = SBlocked) w"
  using assms unfolding reap_round_def print_waited_def status_value_def
  by (intro wp_intros wp_report) (auto simp: safe_trace_append)

lemma tame_report [tame_intros]: "tame (report st)"
  unfolding report_def by (intro tame_intros)

lemma eats_reap_round: "eats_round (reap_round k u)"
  unfolding reap_round_def print_waited_def status_value_def
  by (intro eats_sys_wait [THEN eats_bnd1, THEN eats_round_eats] tame_intros; simp)

text \<open>\<^verbatim>\<open>waitpid01.c\<close> reports every child it collects, once, with how it ended, before it asks for the next; it leaves
  the loop only when \<^verbatim>\<open>waitpid\<close> fails, and never reads a status no child has left.\<close>

theorem waitpid01_reports:
  "wp waitpid01_main (\<lambda>r w. reap_ok w \<and> unreported w = None) (\<lambda>s w. reap_ok w \<and> s = SBlocked) (start s)"
proof -
  have loop: "wp (forever (reap_round k) ()) (\<lambda>_ w. reap_ok w \<and> unreported w = None)
      (\<lambda>s w. reap_ok w \<and> s = SBlocked) w" if "reap_ok w \<and> unreported w = None" for k w
    by (rule wp_forever [where I = "\<lambda>_ w. reap_ok w \<and> unreported w = None", OF eats_reap_round that])
      (rule wp_conseq [OF wp_reap_round], auto split: sum.splits)
  show ?thesis
    unfolding waitpid01_main_def print_ids_def sleep_c_def
    by (intro wp_intros wp_conseq [OF loop]) (auto simp: safe_trace_append)
qed

text \<open>\<^verbatim>\<open>wait.c\<close> and \<^verbatim>\<open>waitpid.c\<close> do the same for their only child, but read an uninitialised status when \<^verbatim>\<open>wait\<close> fails.\<close>

theorem wait_once_reports:
  "wp (wait_once whom n) (\<lambda>r w. reap_ok w \<and> unreported w = None)
     (\<lambda>s w. reap_ok w \<and> (s = SBlocked \<or> s = SFault Uninitialised)) (start s)"
  unfolding wait_once_def print_waited_def status_value_def print_ids_def sleep_c_def
  by (intro wp_intros wp_report) (auto simp: safe_trace_append)

end
