(* ===== verification/SigSet.thy ===== *)
theory SigSet
  imports Prelude
begin

text \<open>
  Signals held back: \<^verbatim>\<open>sigset.c\<close>, which blocks two signals and lets them through every tenth round, and
  \<^verbatim>\<open>sigaction.c\<close>, whose two handlers mask each other on one side only. The state has the pending and the blocked
  signals; a signal that is pending already is merged. A signal that can be delivered is, before the program
  goes on.
\<close>

section \<open>\<^verbatim>\<open>sigset.c\<close>\<close>

definition SIGINT :: nat where "SIGINT = 2"
definition SIGQUIT :: nat where "SIGQUIT = 3"

datatype setpc =
    SBlock       \<comment> \<open>at the first \<^verbatim>\<open>sigprocmask\<close>\<close>
  | SShow        \<comment> \<open>at \<^verbatim>\<open>sigpending\<close> and the row of digits\<close>
  | SMask        \<comment> \<open>at \<^verbatim>\<open>if(j++%10 == 0)\<close>\<close>
  | SSleep

record sigs =
  pend :: "nat set"
  mask_now :: "nat set"
  old :: "nat set"          \<comment> \<open>the mask the process was started with\<close>
  round_no :: nat           \<comment> \<open>\<^verbatim>\<open>j\<close>\<close>
  setpc :: setpc
  rows :: "bool list list"
  handled :: "nat list"     \<comment> \<open>what \<^verbatim>\<open>signalhandler\<close> printed\<close>
  noted :: "nat list"       \<comment> \<open>the signals that arrived and were not merged\<close>

datatype sigaction = Arrive nat | Handle nat | Go

definition arrive :: "nat \<Rightarrow> sigs \<Rightarrow> sigs option" where
  "arrive n s =
     (if n \<in> {SIGINT, SIGQUIT} then
        Some (if n \<in> pend s then s else s\<lparr>pend := insert n (pend s), noted := noted s @ [n]\<rparr>)
      else None)"

definition signalhandler :: "nat \<Rightarrow> sigs \<Rightarrow> sigs option" where
  "signalhandler n s =
     (if n \<in> pend s - mask_now s
      then Some (s\<lparr>pend := pend s - {n}, handled := handled s @ [n]\<rparr>) else None)"

definition sigset_main :: "sigs \<Rightarrow> sigs option" where
  "sigset_main s =
     (if pend s - mask_now s \<noteq> {} then None
      else case setpc s of
          SBlock \<Rightarrow> Some (s\<lparr>old := mask_now s, mask_now := mask_now s \<union> {SIGINT, SIGQUIT}, setpc := SShow\<rparr>)
        | SShow \<Rightarrow> Some (s\<lparr>rows := rows s @ [map (\<lambda>i. i \<in> pend s) [1..<31]], setpc := SMask\<rparr>)
        | SMask \<Rightarrow>
            Some (s\<lparr>mask_now := (if round_no s mod 10 = 0 then old s else mask_now s \<union> {SIGINT, SIGQUIT}),
                    round_no := round_no s + 1, setpc := SSleep\<rparr>)
        | SSleep \<Rightarrow> Some (s\<lparr>setpc := SShow\<rparr>))"

definition sigexec :: "sigaction \<Rightarrow> sigs \<Rightarrow> sigs option" where
  "sigexec a s = (case a of Arrive n \<Rightarrow> arrive n s | Handle n \<Rightarrow> signalhandler n s | Go \<Rightarrow> sigset_main s)"

definition sigstart :: sigs where
  "sigstart = \<lparr>pend = {}, mask_now = {}, old = {}, round_no = 1, setpc = SBlock, rows = [], handled = [], noted = []\<rparr>"

abbreviation sig_reach :: "sigs \<Rightarrow> bool" where
  "sig_reach \<equiv> reach (\<lambda>s. s = sigstart) (exec_step sigexec)"

text \<open>A row shows pending signals among the two; after the round that unblocked them there is none.\<close>

definition row_ok :: "nat \<Rightarrow> bool list \<Rightarrow> bool" where
  "row_ok k row \<longleftrightarrow> length row = 30 \<and>
     {i. i < 30 \<and> row ! i} \<subseteq> (if 0 < k \<and> k mod 10 = 0 then {} else {SIGINT - 1, SIGQUIT - 1})"

definition open_now :: "sigs \<Rightarrow> bool" where
  \<comment> \<open>the signals are not blocked\<close>
  "open_now s \<longleftrightarrow> (case setpc s of
      SBlock \<Rightarrow> True
    | SShow \<Rightarrow> 0 < length (rows s) \<and> length (rows s) mod 10 = 0
    | SMask \<Rightarrow> 1 < length (rows s) \<and> length (rows s) mod 10 = 1
    | SSleep \<Rightarrow> length (rows s) mod 10 = 0)"

definition mask_inv :: "sigs \<Rightarrow> bool" where
  "mask_inv s \<longleftrightarrow> old s = {} \<and> mask_now s = (if open_now s then {} else {SIGINT, SIGQUIT})
     \<and> round_no s = (if setpc s \<in> {SShow, SSleep} then Suc (length (rows s)) else if setpc s = SMask then length (rows s) else 1)
     \<and> (setpc s \<in> {SMask, SSleep} \<longrightarrow> rows s \<noteq> []) \<and> (setpc s = SBlock \<longrightarrow> rows s = [])"

definition rows_inv :: "sigs \<Rightarrow> bool" where
  "rows_inv s \<longleftrightarrow> (\<forall>k < length (rows s). row_ok k (rows s ! k))"

definition count_inv :: "sigs \<Rightarrow> bool" where
  \<comment> \<open>a signal that was not merged is pending or was handled, once\<close>
  "count_inv s \<longleftrightarrow> pend s \<subseteq> {SIGINT, SIGQUIT}
     \<and> (\<forall>n. count_list (noted s) n = count_list (handled s) n + (if n \<in> pend s then 1 else 0))"

definition siginv :: "sigs \<Rightarrow> bool" where
  "siginv s \<longleftrightarrow> mask_inv s \<and> rows_inv s \<and> count_inv s"

lemma open_now_upd [simp]:
  "open_now (s\<lparr>pend := p\<rparr>) = open_now s" "open_now (s\<lparr>noted := ns\<rparr>) = open_now s" "open_now (s\<lparr>handled := hs\<rparr>) = open_now s"
  "open_now (s\<lparr>mask_now := m\<rparr>) = open_now s" "open_now (s\<lparr>round_no := j\<rparr>) = open_now s" "open_now (s\<lparr>old := m\<rparr>) = open_now s"
  by (cases "setpc s"; simp add: open_now_def)+

lemma siginv_arrive:
  assumes "siginv s" and "arrive n s = Some s'"
  shows "siginv s'"
proof -
  have "s' = s \<or> n \<notin> pend s \<and> n \<in> {SIGINT, SIGQUIT} \<and> s' = s\<lparr>pend := insert n (pend s), noted := noted s @ [n]\<rparr>"
    using assms(2) by (auto simp: arrive_def split: if_splits)
  with assms(1) show ?thesis
    unfolding siginv_def mask_inv_def rows_inv_def count_inv_def by (elim disjE conjE) simp_all
qed

lemma siginv_handler:
  assumes "siginv s" and "signalhandler n s = Some s'"
  shows "siginv s'"
proof -
  have n: "n \<in> pend s" and s': "s' = s\<lparr>pend := pend s - {n}, handled := handled s @ [n]\<rparr>"
    using assms(2) by (auto simp: signalhandler_def split: if_splits)
  have "count_inv s'"
    using assms(1) n unfolding siginv_def count_inv_def s' by auto
  with assms(1) show ?thesis by (simp add: siginv_def mask_inv_def rows_inv_def s')
qed

lemma row_ok_now:
  assumes "pend s \<subseteq> {SIGINT, SIGQUIT}" and "mask_inv s" and "setpc s = SShow" and "pend s - mask_now s = {}"
  shows "row_ok (length (rows s)) (map (\<lambda>i. i \<in> pend s) [1..<31])"
proof -
  have "{i. i < 30 \<and> map (\<lambda>i. i \<in> pend s) [1..<31] ! i} = {i. i < 30 \<and> Suc i \<in> pend s}" by auto
  moreover have "\<dots> \<subseteq> {SIGINT - 1, SIGQUIT - 1}" using assms(1) by (auto simp: SIGINT_def SIGQUIT_def)
  moreover have "0 < length (rows s) \<Longrightarrow> length (rows s) mod 10 = 0 \<Longrightarrow> pend s = {}"
    using assms(2-4) by (simp add: mask_inv_def open_now_def)
  ultimately show ?thesis by (auto simp: row_ok_def)
qed

lemma mask_inv_main:
  assumes "mask_inv s" and "sigset_main s = Some s'"
  shows "mask_inv s'"
proof (cases "setpc s")
  case SMask
  have "length (rows s) \<noteq> Suc 0 \<or> \<not> 10 dvd length (rows s)" by auto
  with SMask assms show ?thesis
    by (cases "length (rows s)") (auto simp: sigset_main_def mask_inv_def open_now_def split: if_splits)
qed (use assms in \<open>auto simp: sigset_main_def mask_inv_def open_now_def mod_Suc split: if_splits\<close>)

lemma siginv_main:
  assumes "siginv s" and "sigset_main s = Some s'"
  shows "siginv s'"
proof -
  have m: "mask_inv s'" using assms(1) by (intro mask_inv_main [OF _ assms(2)]) (simp add: siginv_def)
  have "count_inv s'"
    using assms by (cases "setpc s") (auto simp: sigset_main_def siginv_def count_inv_def split: if_splits)
  moreover have "rows_inv s'"
  proof (cases "setpc s = SShow")
    case True
    then have "row_ok (length (rows s)) (map (\<lambda>i. i \<in> pend s) [1..<31])"
      using assms by (intro row_ok_now) (auto simp: siginv_def count_inv_def sigset_main_def split: if_splits)
    with assms True show ?thesis
      by (auto simp: sigset_main_def siginv_def rows_inv_def nth_append less_Suc_eq split: if_splits)
  next
    case False
    with assms show ?thesis
      by (cases "setpc s") (auto simp: sigset_main_def siginv_def rows_inv_def split: if_splits)
  qed
  ultimately show ?thesis using m by (simp add: siginv_def)
qed

interpretation sigset: invariant_system "\<lambda>s. s = sigstart" "exec_step sigexec" siginv
proof
  show "siginv s" if "s = sigstart" for s
    using that by (simp add: sigstart_def siginv_def mask_inv_def rows_inv_def count_inv_def open_now_def)
  show "siginv s'" if inv: "siginv s" and st: "exec_step sigexec s s'" for s s'
  proof -
    from st obtain a where a: "sigexec a s = Some s'" by (auto simp: exec_step_def)
    show ?thesis
    proof (cases a)
      case (Arrive n)
      with a have "arrive n s = Some s'" by (simp add: sigexec_def)
      with inv show ?thesis by (rule siginv_arrive)
    next
      case (Handle n)
      with a have "signalhandler n s = Some s'" by (simp add: sigexec_def)
      with inv show ?thesis by (rule siginv_handler)
    next
      case Go
      with a have "sigset_main s = Some s'" by (simp add: sigexec_def)
      with inv show ?thesis by (rule siginv_main)
    qed
  qed
qed

text \<open>In \<^verbatim>\<open>sigset.c\<close> a signal is never lost but for merging with one that is pending, and never handled twice. Each
  row printed has 30 digits, of which only those of the two signals can be 1, and the row after each tenth has none.\<close>

theorem sigset_rows:
  assumes "sig_reach s"
  shows "\<forall>k n. (if k < length (rows s) then row_ok k (rows s ! k) else True)
     \<and> count_list (noted s) n = count_list (handled s) n + (if n \<in> pend s then 1 else 0)"
  using sigset.reach_inv [OF assms] by (auto simp: siginv_def rows_inv_def count_inv_def)

text \<open>A signal that arrives twice while it is blocked is handled once.\<close>

theorem sigset_rows_witness:
  "\<exists>s :: sigs. noted s = [2] \<and> handled s = [2] \<and> length (rows s) = 10 \<and> rows s ! 9 ! 1 \<and> row_ok 9 (rows s ! 9)"
proof -
  let ?as = "Go # Arrive 2 # Arrive 2 # concat (replicate 9 [Go, Go, Go]) @ [Go, Go, Handle 2]"
  have "map_option (\<lambda>s. (noted s, handled s, length (rows s), rows s ! 9 ! 1)) (runs sigexec ?as sigstart)
      = Some ([2], [2], 10, True)"
    by code_simp
  then obtain s where s: "runs sigexec ?as sigstart = Some s"
    "noted s = [2]" "handled s = [2]" "length (rows s) = 10" "rows s ! 9 ! 1" by auto
  have "sig_reach s" by (rule runs_reach [OF reach_init s(1)]) simp
  from sigset_rows [OF this, THEN spec, THEN spec, of 9 2] s(4) have "row_ok 9 (rows s ! 9)" by simp
  with s show ?thesis by blast
qed

section \<open>\<^verbatim>\<open>sigaction.c\<close>\<close>

record nested =
  waiting :: "nat set"
  active :: "nat list"      \<comment> \<open>the running instances of \<^verbatim>\<open>signhandler\<close>, the innermost first\<close>

definition masked_by :: "nat \<Rightarrow> nat set" where
  \<comment> \<open>\<^verbatim>\<open>sa_mask\<close> and the signal itself; \<^verbatim>\<open>signal\<close> masks only the signal\<close>
  "masked_by n = (if n = SIGINT then {SIGINT, SIGQUIT} else {n})"

datatype nestaction = Sent nat | Enter nat | Return

definition nestexec :: "nestaction \<Rightarrow> nested \<Rightarrow> nested option" where
  "nestexec a s = (case a of
      Sent n \<Rightarrow> if n \<in> {SIGINT, SIGQUIT} then Some (s\<lparr>waiting := insert n (waiting s)\<rparr>) else None
    | Enter n \<Rightarrow>
        if n \<in> waiting s \<and> n \<notin> \<Union> (masked_by ` set (active s))
        then Some (s\<lparr>waiting := waiting s - {n}, active := n # active s\<rparr>) else None
    | Return \<Rightarrow> if active s = [] then None else Some (s\<lparr>active := tl (active s)\<rparr>))"

definition neststart :: nested where
  "neststart = \<lparr>waiting = {}, active = []\<rparr>"

definition nestinv :: "nested \<Rightarrow> bool" where
  "nestinv s \<longleftrightarrow> active s \<in> {[], [SIGINT], [SIGQUIT], [SIGINT, SIGQUIT]} \<and> waiting s \<subseteq> {SIGINT, SIGQUIT}"

interpretation nest: invariant_system "\<lambda>s. s = neststart" "exec_step nestexec" nestinv
proof
  show "nestinv s" if "s = neststart" for s using that by (simp add: neststart_def nestinv_def)
  show "nestinv s'" if inv: "nestinv s" and st: "exec_step nestexec s s'" for s s'
  proof -
    from st obtain a where a: "nestexec a s = Some s'" by (auto simp: exec_step_def)
    show ?thesis
      by (cases a)
        (use a inv in \<open>auto simp: nestexec_def nestinv_def masked_by_def SIGINT_def SIGQUIT_def split: if_splits\<close>)
  qed
qed

text \<open>In \<^verbatim>\<open>sigaction.c\<close> the handler of \<^verbatim>\<open>SIGINT\<close> is never interrupted, neither by \<^verbatim>\<open>SIGQUIT\<close> nor by itself, while
  that of \<^verbatim>\<open>SIGQUIT\<close> can be interrupted by \<^verbatim>\<open>SIGINT\<close>, once.\<close>

theorem sigaction_nesting:
  "active ` {s. reach (\<lambda>s. s = neststart) (exec_step nestexec) s} = {[], [SIGINT], [SIGQUIT], [SIGINT, SIGQUIT]}"
proof (intro equalityI subsetI)
  fix x assume "x \<in> active ` {s. reach (\<lambda>s. s = neststart) (exec_step nestexec) s}"
  then show "x \<in> {[], [SIGINT], [SIGQUIT], [SIGINT, SIGQUIT]}"
    using nest.reach_inv by (auto simp: nestinv_def)
next
  have run: "runs nestexec as neststart = Some s \<Longrightarrow> active s \<in> active ` {s. reach (\<lambda>s. s = neststart) (exec_step nestexec) s}"
    for as s by (intro imageI CollectI runs_reach [OF reach_init]) simp_all
  have "runs nestexec [] neststart = Some neststart"
    and "runs nestexec [Sent 2, Enter 2] neststart = Some \<lparr>waiting = {}, active = [2]\<rparr>"
    and "runs nestexec [Sent 3, Enter 3] neststart = Some \<lparr>waiting = {}, active = [3]\<rparr>"
    and "runs nestexec [Sent 3, Enter 3, Sent 2, Enter 2] neststart = Some \<lparr>waiting = {}, active = [2, 3]\<rparr>"
    by (simp_all add: nestexec_def neststart_def masked_by_def SIGINT_def SIGQUIT_def)
  note rs = this [THEN run]
  fix x assume "x \<in> {[], [SIGINT], [SIGQUIT], [SIGINT, SIGQUIT]}"
  then show "x \<in> active ` {s. reach (\<lambda>s. s = neststart) (exec_step nestexec) s}"
    using rs by (elim insertE emptyE) (simp_all add: neststart_def SIGINT_def SIGQUIT_def)
qed

section \<open>\<^verbatim>\<open>alarm.c\<close>\<close>

text \<open>\<^verbatim>\<open>alarm\<close> returns the seconds that were left of the previous one and replaces it; the clock moves in \<^verbatim>\<open>sleep\<close>.\<close>

definition alarm_c :: "nat \<Rightarrow> nat \<Rightarrow> nat \<times> nat" where
  "alarm_c n left = (left, n)"

definition alarm_main :: "nat list" where
  \<comment> \<open>the numbers printed\<close>
  "alarm_main =
     (case alarm_c 6 0 of (sec, left) \<Rightarrow>
      case alarm_c 8 (left - 2) of (sec1, left) \<Rightarrow>
      case alarm_c 0 left of (sec3, left) \<Rightarrow> [sec, sec1, sec3])"

lemma alarm_prints: "alarm_main = [0, 4, 8]"
  by (simp add: alarm_main_def alarm_c_def)

end
