(* ===== verification/MinHeap.thy ===== *)
theory MinHeap
  imports Prelude "HOL-Library.Multiset" "HOL-Library.Product_Lexorder"
begin

text \<open>
  The heap of timeouts of libevent: \<^verbatim>\<open>minheap-internal.h\<close>. Events are addresses; the store \<open>evs\<close> holds what the
  heap uses of a \<^verbatim>\<open>struct event\<close>, its timeout and \<^verbatim>\<open>ev_timeout_pos.min_heap_idx\<close>. An operation that would use
  memory outside the array, or a slot never written, yields \<open>None\<close>. The loops move a hole; the functions \<open>up\<close> and
  \<open>down\<close> on lists, which exchange neighbours, are what they are compared with. A place is stored in an \<^verbatim>\<open>int\<close>, which
  \<open>put_slot\<close> converts, and the number of the right child is an \<^verbatim>\<open>unsigned\<close>, which gives \<open>None\<close> where it would wrap:
  heaps are of fewer than \<open>2 ^ 31\<close> events.
\<close>

section \<open>The code\<close>

record tevent =
  ev_timeout :: "int \<times> int"       \<comment> \<open>\<^verbatim>\<open>tv_sec\<close> and \<^verbatim>\<open>tv_usec\<close>\<close>
  min_heap_idx :: int

record min_heap =
  heap_p :: "nat option list"          \<comment> \<open>the array; a slot not yet written is \<open>None\<close>\<close>
  heap_n :: nat
  heap_a :: nat
  evs :: "nat \<Rightarrow> tevent"

definition slot :: "min_heap \<Rightarrow> nat \<Rightarrow> nat option" where
  "slot s i = (if i < length (heap_p s) then heap_p s ! i else None)"

lemma slot_upd [simp]: "slot (s\<lparr>heap_n := k\<rparr>) i = slot s i"
  by (simp add: slot_def)

definition timercmp_gt :: "int \<times> int \<Rightarrow> int \<times> int \<Rightarrow> bool" where
  "timercmp_gt t u = (if fst t = fst u then snd t > snd u else fst t > fst u)"

definition min_heap_elem_greater :: "min_heap \<Rightarrow> nat \<Rightarrow> nat \<Rightarrow> bool" where
  "min_heap_elem_greater s x y = timercmp_gt (ev_timeout (evs s x)) (ev_timeout (evs s y))"

definition min_heap_ctor :: "(nat \<Rightarrow> tevent) \<Rightarrow> min_heap" where
  "min_heap_ctor es = \<lparr>heap_p = [], heap_n = 0, heap_a = 0, evs = es\<rparr>"

definition set_idx :: "nat \<Rightarrow> int \<Rightarrow> min_heap \<Rightarrow> min_heap" where
  "set_idx e i s = s\<lparr>evs := (evs s)(e := (evs s e)\<lparr>min_heap_idx := i\<rparr>)\<rparr>"

definition min_heap_elem_init :: "nat \<Rightarrow> min_heap \<Rightarrow> min_heap" where
  "min_heap_elem_init e = set_idx e (-1)"

definition min_heap_empty :: "min_heap \<Rightarrow> bool" where
  "min_heap_empty s \<longleftrightarrow> 0 = heap_n s"

definition min_heap_size :: "min_heap \<Rightarrow> nat" where
  "min_heap_size s = heap_n s"

definition min_heap_top :: "min_heap \<Rightarrow> nat option option" where
  \<comment> \<open>the inner \<open>None\<close> is the null pointer\<close>
  "min_heap_top s = (if heap_n s = 0 then Some None else map_option Some (slot s 0))"

definition min_heap_elt_is_top :: "min_heap \<Rightarrow> nat \<Rightarrow> bool" where
  "min_heap_elt_is_top s e \<longleftrightarrow> min_heap_idx (evs s e) = 0"

definition grown :: "nat \<Rightarrow> nat \<Rightarrow> nat" where
  \<comment> \<open>the capacity for \<open>k\<close> when \<open>a\<close> is too small; \<^verbatim>\<open>unsigned\<close>\<close>
  "grown a k = (let a = (if a \<noteq> 0 then (a * 2) mod 2 ^ 32 else 8) in if a < k then k else a)"

definition min_heap_reserve :: "bool \<Rightarrow> min_heap \<Rightarrow> nat \<Rightarrow> int \<times> min_heap" where
  \<comment> \<open>\<open>room\<close>: \<^verbatim>\<open>mm_realloc\<close> succeeds\<close>
  "min_heap_reserve room s k =
     (if heap_a s < k then
        let a' = grown (heap_a s) k
        in if room then (0, s\<lparr>heap_p := heap_p s @ replicate (a' - length (heap_p s)) None, heap_a := a'\<rparr>) else (-1, s)
      else (0, s))"

definition put_slot :: "nat \<Rightarrow> nat \<Rightarrow> min_heap \<Rightarrow> min_heap option" where
  \<comment> \<open>\<^verbatim>\<open>(s->p[i] = e)->ev_timeout_pos.min_heap_idx = i\<close>, of an \<^verbatim>\<open>unsigned\<close> to an \<^verbatim>\<open>int\<close>\<close>
  "put_slot i e s =
     (if i < length (heap_p s) then Some (set_idx e (to_int i) (s\<lparr>heap_p := (heap_p s)[i := Some e]\<rparr>)) else None)"

fun min_heap_shift_up :: "min_heap \<Rightarrow> nat \<Rightarrow> nat \<Rightarrow> min_heap option" where
  "min_heap_shift_up s hole e =
     (if hole = 0 then put_slot hole e s
      else case slot s ((hole - 1) div 2) of
          None \<Rightarrow> None
        | Some x \<Rightarrow>
            if min_heap_elem_greater s x e then
              (case put_slot hole x s of None \<Rightarrow> None | Some s' \<Rightarrow> min_heap_shift_up s' ((hole - 1) div 2) e)
            else put_slot hole e s)"

definition min_child :: "min_heap \<Rightarrow> nat \<Rightarrow> nat option" where
  \<comment> \<open>\<^verbatim>\<open>min_child -= min_child == s->n || min_heap_elem_greater(...)\<close>\<close>
  "min_child s c =
     (if c = heap_n s then Some (c - 1)
      else case (slot s c, slot s (c - 1)) of
          (Some x, Some y) \<Rightarrow> Some (if min_heap_elem_greater s x y then c - 1 else c)
        | _ \<Rightarrow> None)"

lemma min_child_above: "min_child s (2 * (hole + 1)) = Some c \<Longrightarrow> hole < c \<and> c \<le> 2 * (hole + 1)"
  by (auto simp: min_child_def split: if_splits option.splits)

lemma put_slot_heap_n [simp]: "put_slot i x s = Some s' \<Longrightarrow> heap_n s' = heap_n s"
  by (auto simp: put_slot_def set_idx_def split: if_splits)

function min_heap_shift_down :: "min_heap \<Rightarrow> nat \<Rightarrow> nat \<Rightarrow> min_heap option" where
  \<comment> \<open>\<open>None\<close> too where the \<^verbatim>\<open>unsigned\<close> number of the child wraps around\<close>
  "min_heap_shift_down s hole e =
     (if 2 ^ 32 \<le> 2 * (hole + 1) then None
      else if 2 * (hole + 1) \<le> heap_n s then
        (case min_child s (2 * (hole + 1)) of
           None \<Rightarrow> None
         | Some c \<Rightarrow>
             (case slot s c of
                None \<Rightarrow> None
              | Some x \<Rightarrow>
                  if \<not> min_heap_elem_greater s e x then put_slot hole e s
                  else (case put_slot hole x s of None \<Rightarrow> None | Some s' \<Rightarrow> min_heap_shift_down s' c e)))
      else put_slot hole e s)"
  by pat_completeness auto

termination
  by (relation "measure (\<lambda>(s, hole, e). heap_n s - hole)") (auto dest!: min_child_above [simplified])

declare min_heap_shift_up.simps [simp del] min_heap_shift_down.simps [simp del]

definition min_heap_push :: "bool \<Rightarrow> min_heap \<Rightarrow> nat \<Rightarrow> (int \<times> min_heap) option" where
  "min_heap_push room s e =
     (case min_heap_reserve room s ((heap_n s + 1) mod 2 ^ 32) of (r, s) \<Rightarrow>
        if r \<noteq> 0 then Some (-1, s)
        else map_option (\<lambda>s. (0, s)) (min_heap_shift_up (s\<lparr>heap_n := (heap_n s + 1) mod 2 ^ 32\<rparr>) (heap_n s) e))"

definition min_heap_pop :: "min_heap \<Rightarrow> (nat option \<times> min_heap) option" where
  "min_heap_pop s =
     (if heap_n s \<noteq> 0 then
        (case (slot s 0, slot s (heap_n s - 1)) of
           (Some e, Some lst) \<Rightarrow>
             map_option (\<lambda>s. (Some e, set_idx e (-1) s)) (min_heap_shift_down (s\<lparr>heap_n := heap_n s - 1\<rparr>) 0 lst)
         | _ \<Rightarrow> None)
      else Some (None, s))"

definition min_heap_erase :: "min_heap \<Rightarrow> nat \<Rightarrow> (int \<times> min_heap) option" where
  \<comment> \<open>\<open>None\<close> where the index is not one of the array\<close>
  "min_heap_erase s e =
     (let idx = min_heap_idx (evs s e) in
      if idx = -1 then Some (-1, s)
      else if idx < 0 \<or> heap_n s = 0 then None
      else
        case slot s (heap_n s - 1) of None \<Rightarrow> None | Some lst \<Rightarrow>
        let s = s\<lparr>heap_n := heap_n s - 1\<rparr> in
        map_option (\<lambda>s. (0, set_idx e (-1) s))
          (if 0 < idx then
             (case slot s (nat ((idx - 1) div 2)) of None \<Rightarrow> None | Some x \<Rightarrow>
                if min_heap_elem_greater s x lst then min_heap_shift_up s (nat idx) lst
                else min_heap_shift_down s (nat idx) lst)
           else min_heap_shift_down s (nat idx) lst))"

section \<open>Sifting by exchanges\<close>

definition parent :: "nat \<Rightarrow> nat" where
  "parent i = (i - 1) div 2"

definition exchange :: "'e list \<Rightarrow> nat \<Rightarrow> nat \<Rightarrow> 'e list" where
  "exchange xs i j = xs[i := xs ! j, j := xs ! i]"

fun up :: "('e \<Rightarrow> 'k :: linorder) \<Rightarrow> 'e list \<Rightarrow> nat \<Rightarrow> 'e list" where
  "up t xs i =
     (if i \<noteq> 0 \<and> t (xs ! i) < t (xs ! parent i) then up t (exchange xs i (parent i)) ((i - 1) div 2) else xs)"

definition lesser_child :: "('e \<Rightarrow> 'k :: linorder) \<Rightarrow> 'e list \<Rightarrow> nat \<Rightarrow> nat" where
  "lesser_child t xs i =
     (let c = 2 * (i + 1) in if c = length xs \<or> t (xs ! (c - 1)) < t (xs ! c) then c - 1 else c)"

lemma length_exchange [simp]: "length (exchange xs i j) = length xs"
  by (simp add: exchange_def)

lemma lesser_child_above: "i < lesser_child t xs i" "lesser_child t xs i \<le> 2 * i + 2"
  by (auto simp: lesser_child_def Let_def)

function down :: "('e \<Rightarrow> 'k :: linorder) \<Rightarrow> 'e list \<Rightarrow> nat \<Rightarrow> 'e list" where
  "down t xs i =
     (if 2 * (i + 1) \<le> length xs \<and> t (xs ! lesser_child t xs i) < t (xs ! i)
      then down t (exchange xs i (lesser_child t xs i)) (lesser_child t xs i) else xs)"
  by pat_completeness auto

termination
  by (relation "measure (\<lambda>(t, xs, i). length xs - i)")
    (auto intro!: diff_less_mono2 lesser_child_above)

declare up.simps [simp del] down.simps [simp del]

definition heap_ordered :: "('e \<Rightarrow> 'k :: linorder) \<Rightarrow> 'e list \<Rightarrow> bool" where
  "heap_ordered t xs \<longleftrightarrow> (\<forall>i < length xs. 0 < i \<longrightarrow> t (xs ! parent i) \<le> t (xs ! i))"

text \<open>The order but for one place, whose children do not precede its parent.\<close>

definition order_but_above :: "('e \<Rightarrow> 'k :: linorder) \<Rightarrow> 'e list \<Rightarrow> nat \<Rightarrow> bool" where
  "order_but_above t xs k \<longleftrightarrow>
     (\<forall>i < length xs. 0 < i \<longrightarrow> i \<noteq> k \<longrightarrow> t (xs ! parent i) \<le> t (xs ! i))
   \<and> (\<forall>i < length xs. 0 < i \<longrightarrow> parent i = k \<longrightarrow> 0 < k \<longrightarrow> t (xs ! parent k) \<le> t (xs ! i))"

definition order_but_below :: "('e \<Rightarrow> 'k :: linorder) \<Rightarrow> 'e list \<Rightarrow> nat \<Rightarrow> bool" where
  "order_but_below t xs k \<longleftrightarrow>
     (\<forall>i < length xs. 0 < i \<longrightarrow> parent i \<noteq> k \<longrightarrow> t (xs ! parent i) \<le> t (xs ! i))
   \<and> (\<forall>i < length xs. 0 < i \<longrightarrow> parent i = k \<longrightarrow> 0 < k \<longrightarrow> t (xs ! parent k) \<le> t (xs ! i))"

lemma parent_less: "0 < i \<Longrightarrow> parent i < i"
  by (simp add: parent_def)

lemma parent_le: "parent i \<le> i"
  by (simp add: parent_def)

lemma parent_children: "0 < i \<Longrightarrow> parent i = k \<longleftrightarrow> i = 2 * k + 1 \<or> i = 2 * k + 2"
  by (auto simp: parent_def)

lemma nth_exchange:
  "i < length xs \<Longrightarrow> j < length xs \<Longrightarrow> exchange xs i j ! l = (if l = i then xs ! j else if l = j then xs ! i else xs ! l)"
  by (auto simp: exchange_def nth_list_update)

lemma mset_exchange: "i < length xs \<Longrightarrow> j < length xs \<Longrightarrow> mset (exchange xs i j) = mset xs"
  by (simp add: exchange_def mset_swap)

lemma set_exchange: "i < length xs \<Longrightarrow> j < length xs \<Longrightarrow> set (exchange xs i j) = set xs"
  using mset_exchange by (metis set_mset_mset)

lemma distinct_exchange: "i < length xs \<Longrightarrow> j < length xs \<Longrightarrow> distinct (exchange xs i j) = distinct xs"
  by (simp add: exchange_def)

lemma up_keeps: "i < length xs \<Longrightarrow> mset (up t xs i) = mset xs \<and> length (up t xs i) = length xs"
proof (induction t xs i rule: up.induct)
  case (1 t xs i)
  then show ?case
    using parent_le [of i] by (subst (1 2) up.simps) (auto simp: mset_exchange parent_def)
qed

lemma down_keeps: "i < length xs \<Longrightarrow> mset (down t xs i) = mset xs \<and> length (down t xs i) = length xs"
proof (induction t xs i rule: down.induct)
  case (1 t xs i)
  have "lesser_child t xs i < length xs" if "2 * (i + 1) \<le> length xs"
    using that by (auto simp: lesser_child_def Let_def)
  with 1 show ?case by (subst (1 2) down.simps) (auto simp: mset_exchange)
qed

lemma up_order:
  assumes "i < length xs" and "order_but_above t xs i"
  shows "heap_ordered t (up t xs i)"
  using assms
proof (induction t xs i rule: up.induct)
  case (1 t xs i)
  show ?case
  proof (cases "i \<noteq> 0 \<and> t (xs ! i) < t (xs ! parent i)")
    case True
    let ?ys = "exchange xs i (parent i)"
    have p: "parent i < length xs" "parent i \<noteq> i" using True "1.prems"(1) parent_less [of i] by auto
    have "order_but_above t ?ys (parent i)"
      unfolding order_but_above_def
    proof (intro conjI allI impI)
      fix j assume j: "j < length ?ys" "0 < j" "j \<noteq> parent i"
      show "t (?ys ! parent j) \<le> t (?ys ! j)"
        using "1.prems" True p j parent_less [OF j(2)]
        by (auto simp: nth_exchange order_but_above_def intro: order.trans less_imp_le)
    next
      fix j assume j: "j < length ?ys" "0 < j" "parent j = parent i" "0 < parent i"
      have "parent (parent i) < parent i" "parent i < i" using j True parent_less by auto
      moreover have "t (xs ! parent (parent i)) \<le> t (xs ! parent i)"
        using "1.prems" j p True calculation by (simp add: order_but_above_def)
      moreover have "j \<noteq> i \<Longrightarrow> t (xs ! parent j) \<le> t (xs ! j)"
        using "1.prems"(2) j(1,2) unfolding order_but_above_def by (auto simp del: j(3))
      ultimately show "t (?ys ! parent (parent i)) \<le> t (?ys ! j)"
        using "1.prems"(1) p j by (auto simp: nth_exchange intro: order.trans)
    qed
    with 1 True p show ?thesis by (subst up.simps) (simp add: parent_def)
  next
    case False
    then have "heap_ordered t xs" using "1.prems" by (auto simp: heap_ordered_def order_but_above_def not_less)
    with False show ?thesis by (subst up.simps) auto
  qed
qed

lemma lesser_child_least:
  assumes "2 * (i + 1) \<le> length xs" and "0 < j" "parent j = i" "j < length xs"
  shows "t (xs ! lesser_child t xs i) \<le> t (xs ! j)"
proof -
  have "j = 2 * i + 1 \<or> j = 2 * i + 2" using assms parent_children by simp
  with assms show ?thesis by (auto simp: lesser_child_def Let_def)
qed

lemma lesser_child_child:
  assumes "2 * (i + 1) \<le> length xs"
  shows "lesser_child t xs i < length xs" "parent (lesser_child t xs i) = i" "0 < lesser_child t xs i"
  using assms by (auto simp: lesser_child_def Let_def parent_def)

lemma down_order:
  assumes "i < length xs" and "order_but_below t xs i"
  shows "heap_ordered t (down t xs i)"
  using assms
proof (induction t xs i rule: down.induct)
  case (1 t xs i)
  let ?c = "lesser_child t xs i"
  show ?case
  proof (cases "2 * (i + 1) \<le> length xs \<and> t (xs ! ?c) < t (xs ! i)")
    case True
    let ?ys = "exchange xs i ?c"
    have c: "?c < length xs" "parent ?c = i" "0 < ?c" "i \<noteq> ?c"
      using True lesser_child_child [of i xs t] lesser_child_above [where t = t and xs = xs and i = i] by auto
    have "order_but_below t ?ys ?c"
      unfolding order_but_below_def
    proof (intro conjI allI impI)
      fix j assume j: "j < length ?ys" "0 < j" "parent j \<noteq> ?c"
      have "parent j = i \<Longrightarrow> t (xs ! ?c) \<le> t (xs ! j)" using True j by (intro lesser_child_least) auto
      then show "t (?ys ! parent j) \<le> t (?ys ! j)"
        using "1.prems" True c j parent_less [OF j(2)]
        by (auto simp: nth_exchange order_but_below_def)
    next
      fix j assume j: "j < length ?ys" "0 < j" "parent j = ?c" "0 < ?c"
      have "?c < j" using j parent_less by metis
      moreover have "t (xs ! ?c) \<le> t (xs ! j)"
        using "1.prems"(2) [unfolded order_but_below_def, THEN conjunct1, rule_format, of j] j c(4) by simp
      ultimately show "t (?ys ! parent ?c) \<le> t (?ys ! j)"
        using "1.prems"(1) c j lesser_child_above [where t = t and xs = xs and i = i] by (auto simp: nth_exchange)
    qed
    with 1 True c show ?thesis by (subst down.simps) simp
  next
    case False
    have "t (xs ! i) \<le> t (xs ! j)" if "j < length xs" "0 < j" "parent j = i" for j
    proof (cases "2 * (i + 1) \<le> length xs")
      case True
      with False lesser_child_least [OF True that(2,3,1), where t = t] show ?thesis by auto
    next
      case no: False
      have "j = 2 * i + 1 \<or> j = 2 * i + 2" using that parent_children by simp
      with that no show ?thesis by auto
    qed
    then have "heap_ordered t xs" using "1.prems" by (auto simp: heap_ordered_def order_but_below_def)
    with False show ?thesis by (subst down.simps) auto
  qed
qed

section \<open>The code moves a hole, the reference exchanges\<close>

definition slots :: "min_heap \<Rightarrow> nat list" where
  "slots s = map the (take (heap_n s) (heap_p s))"

definition key :: "min_heap \<Rightarrow> nat \<Rightarrow> int \<times> int" where
  "key s e = ev_timeout (evs s e)"

text \<open>The array is \<open>xs\<close>, with \<open>e\<close> in the hole; the events but \<open>e\<close> know their places.\<close>

definition holds :: "min_heap \<Rightarrow> nat list \<Rightarrow> nat option list \<Rightarrow> bool" where
  "holds s xs rest \<longleftrightarrow> heap_p s = map Some xs @ rest \<and> length xs = heap_n s"

definition holding :: "min_heap \<Rightarrow> nat \<Rightarrow> nat \<Rightarrow> nat list \<Rightarrow> nat option list \<Rightarrow> bool" where
  "holding s hole e xs rest \<longleftrightarrow> (heap_p s)[hole := Some e] = map Some xs @ rest \<and> length xs = heap_n s
     \<and> length xs < 2 ^ 31 \<and> hole < length xs \<and> xs ! hole = e \<and> distinct xs
     \<and> (\<forall>i < length xs. i \<noteq> hole \<longrightarrow> min_heap_idx (evs s (xs ! i)) = int i)"

definition placed :: "min_heap \<Rightarrow> nat list \<Rightarrow> bool" where
  "placed s xs \<longleftrightarrow> distinct xs \<and> (\<forall>i < length xs. min_heap_idx (evs s (xs ! i)) = int i)"

lemma elem_greater: "min_heap_elem_greater s x y \<longleftrightarrow> key s y < key s x"
  by (auto simp: min_heap_elem_greater_def timercmp_gt_def key_def less_prod_def)

lemma holding_slot: "holding s hole e xs rest \<Longrightarrow> i < length xs \<Longrightarrow> i \<noteq> hole \<Longrightarrow> slot s i = Some (xs ! i)"
proof -
  assume h: "holding s hole e xs rest" and i: "i < length xs" "i \<noteq> hole"
  then have "(heap_p s)[hole := Some e] ! i = Some (xs ! i)" by (simp add: holding_def nth_append)
  moreover have "length (heap_p s) = length (map Some xs @ rest)"
    using h unfolding holding_def by (metis length_list_update)
  ultimately show ?thesis using i by (simp add: slot_def)
qed

lemma holding_length: "holding s hole e xs rest \<Longrightarrow> hole < length (heap_p s)"
  unfolding holding_def by (metis length_append length_list_update length_map trans_less_add1)

lemma set_idx_simps [simp]:
  "heap_p (set_idx e i s) = heap_p s" "heap_n (set_idx e i s) = heap_n s" "heap_a (set_idx e i s) = heap_a s"
  "key (set_idx e i s) x = key s x"
  by (simp_all add: set_idx_def key_def)

lemma set_idx_evs: "evs (set_idx e i s) x = (if x = e then (evs s e)\<lparr>min_heap_idx := i\<rparr> else evs s x)"
  by (simp add: set_idx_def)

lemma key_upd [simp]: "key (s\<lparr>heap_p := q\<rparr>) = key s" "key (s\<lparr>heap_n := k\<rparr>) = key s" "key (s\<lparr>heap_a := k\<rparr>) = key s"
  by (simp_all add: key_def fun_eq_iff)

text \<open>What the loops do to the state: the rest of it stays.\<close>

definition sifts :: "min_heap \<Rightarrow> nat list \<Rightarrow> nat option list \<Rightarrow> min_heap \<Rightarrow> bool" where
  "sifts s xs rest s' \<longleftrightarrow> holds s' xs rest \<and> placed s' xs \<and> heap_n s' = heap_n s \<and> heap_a s' = heap_a s
     \<and> key s' = key s \<and> (\<forall>x. x \<notin> set xs \<longrightarrow> evs s' x = evs s x)"

lemma put_slot_fills:
  assumes "holding s hole e xs rest"
  shows "\<exists>s'. put_slot hole e s = Some s' \<and> sifts s xs rest s'"
proof -
  have l: "hole < length (heap_p s)" using holding_length [OF assms] .
  have "to_int hole = int hole" using assms by (intro to_int_small) (simp add: holding_def)
  moreover have "placed (set_idx e (int hole) (s\<lparr>heap_p := (heap_p s)[hole := Some e]\<rparr>)) xs"
    using assms by (auto simp: placed_def holding_def set_idx_evs nth_eq_iff_index_eq)
  moreover have "e \<in> set xs" using assms unfolding holding_def by (metis nth_mem)
  ultimately show ?thesis
    using l assms by (auto simp: put_slot_def sifts_def holds_def holding_def set_idx_evs fun_eq_iff)
qed

lemma put_slot_moves:
  assumes "holding s hole e xs rest" and "j < length xs" and "j \<noteq> hole"
  shows "\<exists>s'. put_slot hole (xs ! j) s = Some s' \<and> holding s' j e (exchange xs hole j) rest
     \<and> heap_n s' = heap_n s \<and> heap_a s' = heap_a s \<and> key s' = key s \<and> (\<forall>x. x \<notin> set xs \<longrightarrow> evs s' x = evs s x)"
proof -
  have l: "hole < length (heap_p s)" using holding_length [OF assms(1)] .
  have i: "to_int hole = int hole" using assms by (intro to_int_small) (simp add: holding_def)
  let ?s = "set_idx (xs ! j) (int hole) (s\<lparr>heap_p := (heap_p s)[hole := Some (xs ! j)]\<rparr>)"
  have h: "hole < length xs" "xs ! hole = e" "distinct xs" using assms(1) by (auto simp: holding_def)
  have "(heap_p s)[hole := Some (xs ! j), j := Some e] = ((heap_p s)[hole := Some e])[hole := Some (xs ! j), j := Some e]"
    by simp
  also have "\<dots> = (map Some xs @ rest)[hole := Some (xs ! j), j := Some e]"
    using assms(1) by (simp add: holding_def)
  also have "\<dots> = map Some (exchange xs hole j) @ rest"
    using h assms(2) by (simp add: exchange_def list_update_append map_update)
  finally have "(heap_p ?s)[j := Some e] = map Some (exchange xs hole j) @ rest" by simp
  moreover have "distinct (exchange xs hole j)"
    using h assms(2) by (simp add: distinct_exchange)
  moreover have "min_heap_idx (evs ?s (exchange xs hole j ! i)) = int i" if "i < length xs" "i \<noteq> j" for i
    using that h assms by (auto simp: nth_exchange set_idx_evs holding_def nth_eq_iff_index_eq)
  ultimately have "holding ?s j e (exchange xs hole j) rest"
    using assms(2,3) h assms(1) by (simp add: holding_def nth_exchange)
  moreover have "put_slot hole (xs ! j) s = Some ?s" using l i by (simp add: put_slot_def)
  moreover have "\<forall>x. x \<notin> set xs \<longrightarrow> evs ?s x = evs s x" using assms(2) by (auto simp: set_idx_evs)
  moreover have "key ?s = key s" by (simp add: fun_eq_iff)
  ultimately show ?thesis by (intro exI [of _ ?s]) simp
qed

lemma sifts_trans:
  assumes "sifts s1 ys rest s'" and "set ys = set xs"
    and "heap_n s1 = heap_n s" "heap_a s1 = heap_a s" "key s1 = key s" "\<forall>x. x \<notin> set xs \<longrightarrow> evs s1 x = evs s x"
  shows "sifts s ys rest s'"
  using assms by (simp add: sifts_def)

lemma set_up: "i < length xs \<Longrightarrow> set (up t xs i) = set xs"
  using up_keeps by (metis set_mset_mset)

lemma set_down: "i < length xs \<Longrightarrow> set (down t xs i) = set xs"
  using down_keeps by (metis set_mset_mset)

lemma shift_up_refines:
  assumes "holding s hole e xs rest"
  shows "\<exists>s'. min_heap_shift_up s hole e = Some s' \<and> sifts s (up (key s) xs hole) rest s'"
  using assms
proof (induction s hole e arbitrary: xs rule: min_heap_shift_up.induct)
  case (1 s hole e)
  have h: "hole < length xs" "xs ! hole = e" using "1.prems" by (auto simp: holding_def)
  show ?case
  proof (cases "hole = 0")
    case True
    with put_slot_fills [OF "1.prems"] show ?thesis by (simp add: min_heap_shift_up.simps up.simps)
  next
    case False
    then have j: "parent hole < length xs" "parent hole \<noteq> hole" using h parent_less [of hole] by auto
    have sl: "slot s (parent hole) = Some (xs ! parent hole)" using holding_slot [OF "1.prems" j] .
    show ?thesis
    proof (cases "key s e < key s (xs ! parent hole)")
      case True
      obtain s1 where s1: "put_slot hole (xs ! parent hole) s = Some s1"
        "holding s1 (parent hole) e (exchange xs hole (parent hole)) rest"
        "heap_n s1 = heap_n s" "heap_a s1 = heap_a s" "key s1 = key s" "\<forall>x. x \<notin> set xs \<longrightarrow> evs s1 x = evs s x"
        using put_slot_moves [OF "1.prems" j] by blast
      obtain s' where "min_heap_shift_up s1 (parent hole) e = Some s'"
        "sifts s1 (up (key s1) (exchange xs hole (parent hole)) (parent hole)) rest s'"
        using "1.IH" [of "xs ! parent hole" s1] False sl True s1(1,2) by (auto simp: elem_greater parent_def)
      moreover have "set (up (key s1) (exchange xs hole (parent hole)) (parent hole)) = set xs"
        using h j by (simp add: set_up set_exchange)
      ultimately have "sifts s (up (key s) (exchange xs hole (parent hole)) (parent hole)) rest s'"
        using sifts_trans s1(3-) by metis
      with \<open>min_heap_shift_up s1 _ _ = _\<close> show ?thesis
        using False sl True s1(1) h
        by (subst min_heap_shift_up.simps, subst up.simps) (simp add: elem_greater parent_def)
    next
      case no: False
      with put_slot_fills [OF "1.prems"] show ?thesis
        using False sl h by (subst min_heap_shift_up.simps, subst up.simps) (simp add: elem_greater parent_def)
    qed
  qed
qed

lemma min_child_refines:
  assumes "holding s hole e xs rest" and "2 * (hole + 1) \<le> heap_n s"
  shows "min_child s (2 * (hole + 1)) = Some (lesser_child (key s) xs hole)"
proof (cases "2 * (hole + 1) = heap_n s")
  case True
  with assms(1) show ?thesis by (simp add: min_child_def lesser_child_def holding_def)
next
  case False
  with assms have "slot s (2 * (hole + 1)) = Some (xs ! (2 * (hole + 1)))"
    "slot s (2 * (hole + 1) - 1) = Some (xs ! (2 * (hole + 1) - 1))"
    by (intro holding_slot [OF assms(1)]; simp add: holding_def)+
  with False assms show ?thesis by (simp add: min_child_def lesser_child_def elem_greater holding_def)
qed

lemma shift_down_refines:
  assumes "holding s hole e xs rest"
  shows "\<exists>s'. min_heap_shift_down s hole e = Some s' \<and> sifts s (down (key s) xs hole) rest s'"
  using assms
proof (induction s hole e arbitrary: xs rule: min_heap_shift_down.induct)
  case (1 s hole e)
  have h: "hole < length xs" "xs ! hole = e" "length xs = heap_n s" using "1.prems" by (auto simp: holding_def)
  have nw: "\<not> 2 ^ 32 \<le> 2 * (hole + 1)" using "1.prems" by (simp add: holding_def)
  let ?c = "lesser_child (key s) xs hole"
  show ?case
  proof (cases "2 * (hole + 1) \<le> heap_n s")
    case False
    with put_slot_fills [OF "1.prems"] h nw show ?thesis
      by (subst min_heap_shift_down.simps, subst down.simps) auto
  next
    case True
    then have j: "?c < length xs" "?c \<noteq> hole"
      using h lesser_child_child [of hole xs "key s"] lesser_child_above [where t = "key s" and xs = xs and i = hole] by auto
    have c: "min_child s (2 * (hole + 1)) = Some ?c" by (rule min_child_refines [OF "1.prems" True])
    have sl: "slot s ?c = Some (xs ! ?c)" by (rule holding_slot [OF "1.prems" j])
    show ?thesis
    proof (cases "key s (xs ! ?c) < key s e")
      case less: True
      obtain s1 where s1: "put_slot hole (xs ! ?c) s = Some s1" "holding s1 ?c e (exchange xs hole ?c) rest"
        "heap_n s1 = heap_n s" "heap_a s1 = heap_a s" "key s1 = key s" "\<forall>x. x \<notin> set xs \<longrightarrow> evs s1 x = evs s x"
        using put_slot_moves [OF "1.prems" j] by blast
      obtain s' where s': "min_heap_shift_down s1 ?c e = Some s'"
        "sifts s1 (down (key s1) (exchange xs hole ?c) ?c) rest s'"
        using "1.IH" [OF nw True c sl _ s1(1) s1(2)] less by (auto simp: elem_greater)
      moreover have "set (down (key s1) (exchange xs hole ?c) ?c) = set xs"
        using h j by (simp add: set_down set_exchange)
      ultimately have "sifts s (down (key s) (exchange xs hole ?c) ?c) rest s'"
        using sifts_trans s1(3-) by metis
      with s'(1) True c sl less s1(1) h nw show ?thesis
        by (subst min_heap_shift_down.simps, subst down.simps) (simp add: elem_greater)
    next
      case no: False
      with put_slot_fills [OF "1.prems"] True c sl h nw show ?thesis
        by (subst min_heap_shift_down.simps, subst down.simps) (simp add: elem_greater)
    qed
  qed
qed

section \<open>The operations\<close>

definition heap_ok :: "min_heap \<Rightarrow> bool" where
  "heap_ok s \<longleftrightarrow> holds s (slots s) (drop (heap_n s) (heap_p s)) \<and> placed s (slots s)
     \<and> heap_ordered (key s) (slots s) \<and> length (heap_p s) = heap_a s \<and> heap_n s < 2 ^ 31
     \<and> (\<forall>e. e \<notin> set (slots s) \<longrightarrow> min_heap_idx (evs s e) = -1)"

lemma holds_slots: "holds s xs rest \<Longrightarrow> slots s = xs \<and> drop (heap_n s) (heap_p s) = rest"
  by (simp add: slots_def holds_def)

lemma heap_okD:
  assumes "heap_ok s"
  shows "heap_p s = map Some (slots s) @ drop (heap_n s) (heap_p s)" "length (slots s) = heap_n s"
    "distinct (slots s)" "heap_ordered (key s) (slots s)"
    "i < heap_n s \<Longrightarrow> min_heap_idx (evs s (slots s ! i)) = int i"
    "e \<notin> set (slots s) \<Longrightarrow> min_heap_idx (evs s e) = -1"
    "i < heap_n s \<Longrightarrow> slot s i = Some (slots s ! i)" "heap_n s < 2 ^ 31"
proof -
  show *: "heap_p s = map Some (slots s) @ drop (heap_n s) (heap_p s)" "length (slots s) = heap_n s"
    using assms by (auto simp: heap_ok_def holds_def)
  show "slot s i = Some (slots s ! i)" if "i < heap_n s"
    using that * by (metis (no_types, lifting) length_map nth_append nth_map slot_def length_append trans_less_add1)
qed (use assms in \<open>auto simp: heap_ok_def placed_def holds_def\<close>)

lemma heap_okI:
  assumes "holds s xs rest" and "placed s xs" and "heap_ordered (key s) xs"
    and "length xs + length rest = heap_a s" and "length xs < 2 ^ 31" and "\<And>e. e \<notin> set xs \<Longrightarrow> min_heap_idx (evs s e) = -1"
  shows "heap_ok s \<and> slots s = xs"
  using assms holds_slots [OF assms(1)] by (simp add: heap_ok_def) (simp add: holds_def)

text \<open>The first event is the earliest.\<close>

lemma ordered_root:
  assumes "heap_ordered t xs" and "i < length xs"
  shows "t (xs ! 0) \<le> t (xs ! i)"
  using assms(2)
proof (induction i rule: less_induct)
  case (less i)
  show ?case
  proof (cases "i = 0")
    case False
    then have "t (xs ! 0) \<le> t (xs ! parent i)" using less parent_less [of i] by simp
    moreover have "t (xs ! parent i) \<le> t (xs ! i)" using assms(1) less.prems False by (simp add: heap_ordered_def)
    ultimately show ?thesis by (rule order.trans)
  qed simp
qed

lemma heap_ok_ctor: "\<forall>e. min_heap_idx (es e) = -1 \<Longrightarrow> heap_ok (min_heap_ctor es) \<and> slots (min_heap_ctor es) = []"
  by (simp add: heap_ok_def min_heap_ctor_def slots_def holds_def placed_def heap_ordered_def)

text \<open>Taking the event at place \<open>i\<close> out: the last one goes there and is sifted.\<close>

definition moved_last :: "nat list \<Rightarrow> nat \<Rightarrow> nat list" where
  "moved_last xs i = (butlast xs)[i := last xs]"

lemma moved_last_mset:
  assumes "i < length xs"
  shows "mset (moved_last xs i) = mset xs - {#xs ! i#}" "length (moved_last xs i) = length xs - 1"
proof -
  have xs: "xs = butlast xs @ [last xs]" using assms by (cases xs rule: rev_cases) auto
  show "mset (moved_last xs i) = mset xs - {#xs ! i#}"
  proof (cases "i < length xs - 1")
    case True
    then have i: "butlast xs ! i \<in># mset (butlast xs)" "xs ! i = butlast xs ! i"
      by (simp_all add: nth_butlast) (metis length_butlast nth_butlast nth_mem One_nat_def)
    have "mset xs = add_mset (last xs) (mset (butlast xs))" using arg_cong [OF xs, of mset] by simp
    with i True show ?thesis by (simp add: moved_last_def mset_update)
  next
    case False
    with assms have "i = length xs - 1" and "xs \<noteq> []" by auto
    then have "xs ! i = last xs" by (simp add: last_conv_nth)
    then show ?thesis using False arg_cong [OF xs, of mset] by (simp add: moved_last_def list_update_beyond)
  qed
qed (simp add: moved_last_def)

lemma heap_removed:
  assumes "heap_ok s" and "i < heap_n s" and "e = slots s ! i"
    and "sifts (s\<lparr>heap_n := heap_n s - 1\<rparr>) ys (drop (heap_n s - 1) (heap_p s)) s'"
    and "mset ys = mset (slots s) - {#e#}" and "heap_ordered (key s) ys"
  shows "heap_ok (set_idx e (-1) s') \<and> mset (slots (set_idx e (-1) s')) = mset (slots s) - {#e#}
    \<and> key (set_idx e (-1) s') = key s"
proof -
  note ok = heap_okD [OF assms(1)]
  have e: "e \<in> set (slots s)" using assms(2,3) ok(2) by simp
  have "mset ys = mset (remove1 e (slots s))" using assms(5) by simp
  then have set: "set ys = set (slots s) - {e}" using ok(3) by (metis mset_eq_setD set_remove1_eq)
  have s': "holds s' ys (drop (heap_n s - 1) (heap_p s))" "placed s' ys" "heap_a s' = heap_a s" "key s' = key s"
    "\<And>x. x \<notin> set ys \<Longrightarrow> evs s' x = evs s x"
    using assms(4) by (auto simp: sifts_def)
  have "heap_ok (set_idx e (-1) s') \<and> slots (set_idx e (-1) s') = ys"
  proof (rule heap_okI [where rest = "drop (heap_n s - 1) (heap_p s)"])
    show "holds (set_idx e (-1) s') ys (drop (heap_n s - 1) (heap_p s))" using s'(1) by (simp add: holds_def)
    show "placed (set_idx e (-1) s') ys"
      using s'(2) set by (auto simp: placed_def set_idx_evs)
    show "heap_ordered (key (set_idx e (-1) s')) ys" using assms(6) s'(4) by (simp add: fun_eq_iff heap_ordered_def)
    have "length ys = heap_n s - 1" using s'(1) assms(4) by (simp add: holds_def sifts_def)
    moreover have "length (heap_p s) = heap_a s" using assms(1) by (simp add: heap_ok_def)
    moreover have "heap_n s \<le> length (heap_p s)" using ok(1,2) by (metis le_add1 length_append length_map)
    ultimately show "length ys + length (drop (heap_n s - 1) (heap_p s)) = heap_a (set_idx e (-1) s')"
      using s'(3) by simp
    show "length ys < 2 ^ 31" using \<open>length ys = heap_n s - 1\<close> ok(8) by simp
    show "min_heap_idx (evs (set_idx e (-1) s') x) = -1" if "x \<notin> set ys" for x
    proof (cases "x = e")
      case False
      with that set have "x \<notin> set (slots s)" by blast
      with False that show ?thesis using s'(5) [OF that] ok(6) by (simp add: set_idx_evs)
    qed (simp add: set_idx_evs)
  qed
  with assms(5) s'(4) show ?thesis by (simp add: fun_eq_iff)
qed

lemma heap_p_butlast:
  assumes "heap_ok s"
  shows "heap_p s = map Some (butlast (slots s)) @ drop (heap_n s - 1) (heap_p s)"
proof -
  note ok = heap_okD [OF assms]
  have "take (heap_n s - 1) (map Some (slots s) @ drop (heap_n s) (heap_p s)) = map Some (butlast (slots s))"
    using ok(2) by (simp add: butlast_conv_take take_map)
  then have "take (heap_n s - 1) (heap_p s) = map Some (butlast (slots s))" using ok(1) by metis
  then show ?thesis by (metis append_take_drop_id)
qed

lemma last_not_before: "xs \<noteq> [] \<Longrightarrow> distinct xs \<Longrightarrow> distinct (butlast xs) \<and> last xs \<notin> set (butlast xs)"
  by (cases xs rule: rev_cases) auto

lemma same_idx: "min_heap_idx r = i \<Longrightarrow> r\<lparr>min_heap_idx := i\<rparr> = r"
  by simp

lemma erase_holding:
  assumes "heap_ok s" and "i < heap_n s - 1"
  shows "holding (s\<lparr>heap_n := heap_n s - 1\<rparr>) i (last (slots s)) (moved_last (slots s) i) (drop (heap_n s - 1) (heap_p s))"
proof -
  note ok = heap_okD [OF assms(1)]
  let ?xs = "slots s"
  have ne: "?xs \<noteq> []" using assms(2) ok(2) by auto
  have d: "distinct (butlast ?xs)" "last ?xs \<notin> set (butlast ?xs)" using last_not_before [OF ne ok(3)] by auto
  have "heap_p s = map Some (butlast ?xs) @ drop (heap_n s - 1) (heap_p s)" by (rule heap_p_butlast [OF assms(1)])
  then have "(heap_p s)[i := Some (last ?xs)] = (map Some (butlast ?xs) @ drop (heap_n s - 1) (heap_p s))[i := Some (last ?xs)]"
    by (rule arg_cong)
  also have "\<dots> = map Some (moved_last ?xs i) @ drop (heap_n s - 1) (heap_p s)"
    using assms(2) ok(2) by (simp add: moved_last_def list_update_append map_update)
  finally have p: "(heap_p s)[i := Some (last ?xs)] = map Some (moved_last ?xs i) @ drop (heap_n s - 1) (heap_p s)" .
  have "distinct (moved_last ?xs i)" using d by (auto simp: moved_last_def intro: distinct_list_update)
  moreover have "min_heap_idx (evs s (moved_last ?xs i ! j)) = int j" if "j < heap_n s - 1" "j \<noteq> i" for j
    using that ok(2,5) by (simp add: moved_last_def nth_butlast)
  ultimately show ?thesis
    using p assms(2) ok(2,8) by (simp add: holding_def moved_last_def)
qed

lemma erase_last:
  assumes "heap_ok s" and "0 < heap_n s"
  defines "s1 \<equiv> s\<lparr>heap_n := heap_n s - 1\<rparr>"
  shows "min_heap_shift_down s1 (heap_n s - 1) (last (slots s)) = Some s1"
    and "sifts s1 (butlast (slots s)) (drop (heap_n s - 1) (heap_p s)) s1"
proof -
  note ok = heap_okD [OF assms(1)]
  let ?xs = "slots s" and ?k = "heap_n s - 1"
  have s1: "heap_p s1 = heap_p s" "heap_n s1 = heap_n s - 1" by (simp_all add: s1_def)
  have ne: "?xs \<noteq> []" using assms(2) ok(2) by auto
  have k: "?k < heap_n s" "?xs ! ?k = last ?xs" using assms(2) ok(2) ne by (simp_all add: last_conv_nth)
  have sl: "?k < length (heap_p s)" "heap_p s ! ?k = Some (last ?xs)"
    using ok(7) [OF k(1)] k(2) by (auto simp: slot_def split: if_splits)
  then have p: "(heap_p s)[?k := Some (last ?xs)] = heap_p s" by (metis list_update_id)
  have "min_heap_idx (evs s (last ?xs)) = int ?k" using ok(5) [OF k(1)] k(2) by simp
  moreover have "to_int ?k = int ?k" using ok(8) by (intro to_int_small) simp
  ultimately have "set_idx (last ?xs) (to_int ?k) s1 = s1" by (simp add: set_idx_def s1_def same_idx)
  moreover have "s1\<lparr>heap_p := (heap_p s1)[?k := Some (last ?xs)]\<rparr> = s1"
    using p by (cases s) (simp add: s1_def)
  moreover have "?k < length (heap_p s1)" "\<not> 2 * (?k + 1) \<le> heap_n s1" "\<not> 2 ^ 32 \<le> 2 * (?k + 1)"
    using sl(1) assms(2) ok(8) by (simp_all add: s1_def)
  ultimately show "min_heap_shift_down s1 ?k (last ?xs) = Some s1"
    unfolding min_heap_shift_down.simps [of s1 ?k] put_slot_def by (simp only: if_True if_False)
  have "placed s1 (butlast ?xs)"
    using ok(2,3,5) by (simp add: placed_def distinct_butlast nth_butlast s1_def)
  moreover have "holds s1 (butlast ?xs) (drop ?k (heap_p s))"
    unfolding holds_def s1 length_butlast ok(2) using heap_p_butlast [OF assms(1)] by (rule conjI) (rule refl)
  ultimately show "sifts s1 (butlast ?xs) (drop ?k (heap_p s)) s1" by (simp add: sifts_def s1_def)
qed

text \<open>What each operation does.\<close>

lemma order_moved_last:
  assumes "heap_ordered t xs" and "i < length xs - 1"
  shows "t (last xs) < t (xs ! parent i) \<Longrightarrow> 0 < i \<Longrightarrow> order_but_above t (moved_last xs i) i"
    and "\<not> (0 < i \<and> t (last xs) < t (xs ! parent i)) \<Longrightarrow> order_but_below t (moved_last xs i) i"
proof -
  have nth: "moved_last xs i ! j = (if j = i then last xs else xs ! j)" if "j < length xs - 1" for j
    using that assms(2) by (simp add: moved_last_def nth_list_update nth_butlast)
  have ord: "t (xs ! parent j) \<le> t (xs ! j)" if "j < length xs" "0 < j" for j
    using assms(1) that by (simp add: heap_ordered_def)
  have above: "t (xs ! parent i) \<le> t (xs ! j)" if "j < length xs - 1" "0 < j" "parent j = i" "0 < i" for j
  proof -
    have "t (xs ! i) \<le> t (xs ! j)" using ord [of j] that by simp
    moreover have "t (xs ! parent i) \<le> t (xs ! i)" using ord [of i] that assms(2) by simp
    ultimately show ?thesis by (rule order.trans [rotated])
  qed
  have par: "parent j < length xs - 1" if "j < length xs - 1" for j using that parent_le [of j] by simp
  have len: "length (moved_last xs i) = length xs - 1" by (simp add: moved_last_def)
  have ne: "parent i \<noteq> i" if "0 < i" using parent_less [OF that] by simp
  show "order_but_above t (moved_last xs i) i" if l: "t (last xs) < t (xs ! parent i)" "0 < i"
    unfolding order_but_above_def len
  proof (intro conjI allI impI)
    fix j assume j: "j < length xs - 1" "0 < j" "j \<noteq> i"
    show "t (moved_last xs i ! parent j) \<le> t (moved_last xs i ! j)"
      using nth [OF j(1)] nth [OF par [OF j(1)]] ord [of j] above [OF j(1,2)] l j
      by (cases "parent j = i") auto
  next
    fix j assume j: "j < length xs - 1" "0 < j" "parent j = i" "0 < i"
    then have "j \<noteq> i" using parent_less [of j] by auto
    with j show "t (moved_last xs i ! parent i) \<le> t (moved_last xs i ! j)"
      using nth [OF j(1)] nth [OF par [OF assms(2)]] above [OF j] ne by simp
  qed
  show "order_but_below t (moved_last xs i) i" if l: "\<not> (0 < i \<and> t (last xs) < t (xs ! parent i))"
    unfolding order_but_below_def len
  proof (intro conjI allI impI)
    fix j assume j: "j < length xs - 1" "0 < j" "parent j \<noteq> i"
    show "t (moved_last xs i ! parent j) \<le> t (moved_last xs i ! j)"
      using nth [OF j(1)] nth [OF par [OF j(1)]] ord [of j] l j by (cases "j = i") auto
  next
    fix j assume j: "j < length xs - 1" "0 < j" "parent j = i" "0 < i"
    then have "j \<noteq> i" using parent_less [of j] by auto
    with j show "t (moved_last xs i ! parent i) \<le> t (moved_last xs i ! j)"
      using nth [OF j(1)] nth [OF par [OF assms(2)]] above [OF j] ne by simp
  qed
qed

definition sift_from :: "(nat \<Rightarrow> int \<times> int) \<Rightarrow> nat list \<Rightarrow> nat \<Rightarrow> nat list" where
  \<comment> \<open>what \<^verbatim>\<open>min_heap_erase\<close> leaves, on lists\<close>
  "sift_from t xs i =
     (if i = length xs - 1 then butlast xs
      else if 0 < i \<and> t (last xs) < t (xs ! parent i) then up t (moved_last xs i) i
      else down t (moved_last xs i) i)"

lemma sift_from:
  assumes "heap_ordered t xs" and "i < length xs"
  shows "heap_ordered t (sift_from t xs i)" "mset (sift_from t xs i) = mset xs - {#xs ! i#}"
proof -
  have xs: "xs = butlast xs @ [last xs]" using assms(2) by (cases xs rule: rev_cases) auto
  have ne: "xs \<noteq> []" using assms(2) by auto
  have last: "heap_ordered t (butlast xs)"
    unfolding heap_ordered_def
  proof (intro allI impI)
    fix i assume "i < length (butlast xs)" "0 < i"
    moreover from this have "parent i < length (butlast xs)" using parent_le [of i] by simp
    ultimately show "t (butlast xs ! parent i) \<le> t (butlast xs ! i)"
      using assms(1) by (simp add: heap_ordered_def nth_butlast)
  qed
  have len: "i < length (moved_last xs i)" if "i \<noteq> length xs - 1" using that assms(2) by (simp add: moved_last_def)
  show "heap_ordered t (sift_from t xs i)"
    using order_moved_last [OF assms(1)] last len assms(2) by (auto simp: sift_from_def intro!: up_order down_order)
  have "mset xs = add_mset (last xs) (mset (butlast xs))" using arg_cong [OF xs, of mset] by simp
  then have "mset (butlast xs) = mset xs - {#xs ! i#}" if "i = length xs - 1"
    using that ne by (simp add: last_conv_nth)
  then show "mset (sift_from t xs i) = mset xs - {#xs ! i#}"
    using len moved_last_mset(1) [OF assms(2)] by (auto simp: sift_from_def up_keeps down_keeps)
qed

lemma length_sift_from: "i < length xs \<Longrightarrow> length (sift_from t xs i) = length xs - 1"
  using moved_last_mset(2) [of i xs] by (auto simp: sift_from_def up_keeps down_keeps)

lemma erase_at:
  assumes "heap_ok s" and "i < heap_n s" and "e = slots s ! i"
    and "sifts (s\<lparr>heap_n := heap_n s - 1\<rparr>) (sift_from (key s) (slots s) i) (drop (heap_n s - 1) (heap_p s)) s'"
  shows "heap_ok (set_idx e (-1) s')" "slots (set_idx e (-1) s') = sift_from (key s) (slots s) i"
    "key (set_idx e (-1) s') = key s"
proof -
  note ok = heap_okD [OF assms(1)]
  note sift = sift_from [of "key s" "slots s" i] ok(2,4) assms(2)
  show "heap_ok (set_idx e (-1) s')" "key (set_idx e (-1) s') = key s"
    using heap_removed [OF assms] sift assms(3) by auto
  have "holds (set_idx e (-1) s') (sift_from (key s) (slots s) i) (drop (heap_n s - 1) (heap_p s))"
    using assms(4) by (simp add: sifts_def holds_def)
  then show "slots (set_idx e (-1) s') = sift_from (key s) (slots s) i" by (simp add: holds_slots)
qed

lemma sift_from_down:
  assumes "heap_ok s" and "i < heap_n s" and "i = 0 \<or> \<not> key s (last (slots s)) < key s (slots s ! parent i)"
  shows "\<exists>s'. min_heap_shift_down (s\<lparr>heap_n := heap_n s - 1\<rparr>) i (last (slots s)) = Some s' \<and>
    sifts (s\<lparr>heap_n := heap_n s - 1\<rparr>) (sift_from (key s) (slots s) i) (drop (heap_n s - 1) (heap_p s)) s'"
proof (cases "i = heap_n s - 1")
  case True
  with erase_last [OF assms(1)] assms(2) heap_okD(2) [OF assms(1)] show ?thesis by (simp add: sift_from_def)
next
  case False
  with assms(2) have "i < heap_n s - 1" by simp
  from shift_down_refines [OF erase_holding [OF assms(1) this]] False assms(3) heap_okD(2) [OF assms(1)]
  show ?thesis by (auto simp: sift_from_def)
qed

lemma min_heap_erase_refines:
  assumes "heap_ok s" and "i < heap_n s" and "e = slots s ! i"
  shows "\<exists>s'. min_heap_erase s e = Some (0, s') \<and> heap_ok s' \<and> slots s' = sift_from (key s) (slots s) i \<and> key s' = key s"
proof -
  note ok = heap_okD [OF assms(1)]
  let ?s = "s\<lparr>heap_n := heap_n s - 1\<rparr>" and ?l = "last (slots s)"
  have idx: "min_heap_idx (evs s e) = int i" using ok(5) assms by simp
  have l: "slot s (heap_n s - 1) = Some ?l" using ok(2,7) assms(2) by (subst last_conv_nth) auto
  have par: "nat ((int i - 1) div 2) = parent i" if "0 < i" using that by (simp add: parent_def of_nat_diff zdiv_int)
  have x: "slot ?s (parent i) = Some (slots s ! parent i)"
    using ok(7) [of "parent i"] parent_le [of i] assms(2) by simp
  have ns: "min_heap_idx (evs s e) \<noteq> -1" "\<not> (min_heap_idx (evs s e) < 0 \<or> heap_n s = 0)" using idx assms(2) by auto
  show ?thesis
  proof (cases "0 < i \<and> key s ?l < key s (slots s ! parent i)")
    case True
    then have i: "i < heap_n s - 1"
    proof (cases "i = heap_n s - 1")
      case True
      then have "?l = slots s ! i" using ok(2) assms(2) by (subst last_conv_nth) auto
      with \<open>0 < i \<and> _\<close> ok(2,4) assms(2) show ?thesis by (auto simp: heap_ordered_def not_less [symmetric])
    qed (use assms(2) in simp)
    obtain s' where s': "min_heap_shift_up ?s i ?l = Some s'"
      "sifts ?s (up (key ?s) (moved_last (slots s) i) i) (drop (heap_n s - 1) (heap_p s)) s'"
      using shift_up_refines [OF erase_holding [OF assms(1) i]] by auto
    moreover have "sift_from (key s) (slots s) i = up (key s) (moved_last (slots s) i) i"
      using True i ok(2) by (simp add: sift_from_def)
    ultimately have "sifts ?s (sift_from (key s) (slots s) i) (drop (heap_n s - 1) (heap_p s)) s'" by simp
    with s'(1) True idx l x par ns erase_at [OF assms] show ?thesis
      by (simp add: min_heap_erase_def elem_greater)
  next
    case False
    then obtain s' where "min_heap_shift_down ?s i ?l = Some s'"
      "sifts ?s (sift_from (key s) (slots s) i) (drop (heap_n s - 1) (heap_p s)) s'"
      using sift_from_down [OF assms(1,2)] by auto
    with False idx l x par ns erase_at [OF assms] show ?thesis
      by (cases "0 < i") (auto simp: min_heap_erase_def elem_greater)
  qed
qed

lemma min_heap_pop_refines:
  assumes "heap_ok s" and "0 < heap_n s"
  shows "\<exists>s'. min_heap_pop s = Some (Some (slots s ! 0), s') \<and> heap_ok s' \<and> slots s' = sift_from (key s) (slots s) 0 \<and> key s' = key s"
proof -
  note ok = heap_okD [OF assms(1)]
  have "slot s (heap_n s - 1) = Some (last (slots s))" using ok(2,7) assms(2) by (subst last_conv_nth) auto
  moreover have "slot s 0 = Some (slots s ! 0)" using ok(7) assms(2) by simp
  moreover obtain s' where "min_heap_shift_down (s\<lparr>heap_n := heap_n s - 1\<rparr>) 0 (last (slots s)) = Some s'"
    "sifts (s\<lparr>heap_n := heap_n s - 1\<rparr>) (sift_from (key s) (slots s) 0) (drop (heap_n s - 1) (heap_p s)) s'"
    using sift_from_down [OF assms] by auto
  ultimately show ?thesis
    using erase_at [OF assms refl] assms(2) by (simp add: min_heap_pop_def)
qed

lemma min_heap_reserve_ok:
  assumes "heap_ok s" and "min_heap_reserve room s (heap_n s + 1) = (r, s')"
  shows "r = (if room \<or> heap_n s < heap_a s then 0 else -1)"
    and "r = -1 \<Longrightarrow> s' = s"
    and "r = 0 \<Longrightarrow> heap_ok s' \<and> slots s' = slots s \<and> key s' = key s \<and> heap_n s' = heap_n s \<and> heap_n s < length (heap_p s')"
proof -
  note ok = heap_okD [OF assms(1)]
  have le: "heap_n s \<le> length (heap_p s)" using ok(1,2) by (metis le_add1 length_append length_map)
  have len: "length (heap_p s) = heap_a s" using assms(1) by (simp add: heap_ok_def)
  show "r = (if room \<or> heap_n s < heap_a s then 0 else -1)" "r = -1 \<Longrightarrow> s' = s"
    using assms(2) by (auto simp: min_heap_reserve_def Let_def split: if_splits)
  assume "r = 0"
  show "heap_ok s' \<and> slots s' = slots s \<and> key s' = key s \<and> heap_n s' = heap_n s \<and> heap_n s < length (heap_p s')"
  proof (cases "heap_a s < heap_n s + 1")
    case False
    with assms len show ?thesis by (auto simp: min_heap_reserve_def)
  next
    case True
    define k where "k = grown (heap_a s) (heap_n s + 1)"
    have k: "heap_n s + 1 \<le> k" "s' = s\<lparr>heap_p := heap_p s @ replicate (k - length (heap_p s)) None, heap_a := k\<rparr>"
      using True assms(2) \<open>r = 0\<close> by (auto simp: min_heap_reserve_def k_def grown_def Let_def split: if_splits)
    have sl: "slots s' = slots s" using k le by (simp add: slots_def)
    have "heap_p s' = map Some (slots s') @ drop (heap_n s') (heap_p s')"
      using k le sl ok(1) by simp
    then have "holds s' (slots s') (drop (heap_n s') (heap_p s'))"
      unfolding holds_def using k sl ok(2) by (intro conjI) (assumption, simp)
    moreover have "placed s' (slots s')" "heap_ordered (key s') (slots s')"
      using assms(1) k sl by (auto simp: heap_ok_def placed_def)
    ultimately show ?thesis using assms(1) k sl le len True by (auto simp: heap_ok_def)
  qed
qed

lemma min_heap_push_refines:
  assumes "heap_ok s" and "e \<notin> set (slots s)" and "heap_n s < 2 ^ 31 - 1"
  shows "if room \<or> heap_n s < heap_a s
    then \<exists>s'. min_heap_push room s e = Some (0, s') \<and> heap_ok s'
      \<and> slots s' = up (key s) (slots s @ [e]) (heap_n s) \<and> key s' = key s
    else min_heap_push room s e = Some (-1, s)"
proof -
  have m: "(heap_n s + 1) mod 2 ^ 32 = heap_n s + 1" using assms(3) by simp
  obtain r s1 where rs: "min_heap_reserve room s (heap_n s + 1) = (r, s1)" by fastforce
  note res = min_heap_reserve_ok [OF assms(1) rs]
  show ?thesis
  proof (cases "room \<or> heap_n s < heap_a s")
    case False
    with res(1,2) rs m show ?thesis by (simp add: min_heap_push_def)
  next
    case True
    with res(1,3) have s1: "r = 0" "heap_ok s1" "slots s1 = slots s" "key s1 = key s" "heap_n s1 = heap_n s"
      "heap_n s < length (heap_p s1)" by auto
    note ok = heap_okD [OF s1(2)]
    let ?s = "s1\<lparr>heap_n := heap_n s + 1\<rparr>" and ?R = "drop (heap_n s + 1) (heap_p s1)" and ?xs = "slots s @ [e]"
    have "take (heap_n s) (heap_p s1) = map Some (slots s)"
      using ok(1,2) s1(3,5) by (metis append_eq_conv_conj length_map)
    then have p: "(heap_p s1)[heap_n s := Some e] = map Some ?xs @ ?R"
      using s1(6) by (simp add: upd_conv_take_nth_drop)
    have "holding ?s (heap_n s) e ?xs ?R"
      unfolding holding_def
    proof (intro conjI allI impI)
      show "(heap_p ?s)[heap_n s := Some e] = map Some ?xs @ ?R" using p by simp
      show "min_heap_idx (evs ?s (?xs ! i)) = int i" if "i < length ?xs" "i \<noteq> heap_n s" for i
        using that ok(2,5) s1(3,5) by (simp add: nth_append)
    qed (use ok(2,3) s1(3,5) assms(2,3) in \<open>auto simp: nth_append\<close>)
    from shift_up_refines [OF this] obtain s' where s': "min_heap_shift_up ?s (heap_n s) e = Some s'"
      "sifts ?s (up (key s) ?xs (heap_n s)) ?R s'" using s1(4) by auto
    have len: "heap_n s < length ?xs" using ok(2) s1(3,5) by simp
    have "order_but_above (key s) ?xs (heap_n s)"
      unfolding order_but_above_def
    proof (intro conjI allI impI)
      fix i assume i: "i < length ?xs" "0 < i" "i \<noteq> heap_n s"
      then have "i < length (slots s)" "parent i < length (slots s)" using ok(2) s1(3,5) parent_le [of i] by auto
      then show "key s (?xs ! parent i) \<le> key s (?xs ! i)"
        using i ok(4) s1(3,4) by (simp add: nth_append heap_ordered_def)
    next
      fix i assume "i < length ?xs" "0 < i" "parent i = heap_n s"
      with parent_less [of i] ok(2) s1(3,5) show "key s (?xs ! parent (heap_n s)) \<le> key s (?xs ! i)" by simp
    qed
    then have "heap_ordered (key s) (up (key s) ?xs (heap_n s))" by (rule up_order [OF len])
    moreover have "set (up (key s) ?xs (heap_n s)) = insert e (set (slots s))" using set_up [OF len] by simp
    moreover have "length (up (key s) ?xs (heap_n s)) = heap_n s + 1"
      using up_keeps [OF len, of "key s"] ok(2) s1(3,5) by simp
    then have "length (up (key s) ?xs (heap_n s)) + length ?R = heap_a s1"
      using s1(2,6) by (simp add: heap_ok_def)
    ultimately have "heap_ok s' \<and> slots s' = up (key s) ?xs (heap_n s)"
      using s'(2) ok(6) s1(3,4) \<open>length (up (key s) ?xs (heap_n s)) = heap_n s + 1\<close> assms(3) by (intro heap_okI [where rest = ?R]) (auto simp: sifts_def)
    with s' s1 rs m True show ?thesis by (auto simp: min_heap_push_def sifts_def)
  qed
qed

section \<open>The queue of timeouts\<close>

text \<open>What the event loop relies on: a set of events with their times, the earliest first.\<close>

locale timer_queue =
  fixes top :: "'q \<Rightarrow> 'e option option"
    and erase :: "'q \<Rightarrow> 'e \<Rightarrow> (int \<times> 'q) option"
    and ok :: "'q \<Rightarrow> bool"
    and events :: "'q \<Rightarrow> 'e set"
    and time :: "'q \<Rightarrow> 'e \<Rightarrow> 'k :: linorder"
  assumes finite_events: "ok q \<Longrightarrow> finite (events q)"
    and top_empty: "ok q \<Longrightarrow> events q = {} \<Longrightarrow> top q = Some None"
    and top_least: "ok q \<Longrightarrow> events q \<noteq> {} \<Longrightarrow> \<exists>e. top q = Some (Some e) \<and> e \<in> events q \<and> (\<forall>x \<in> events q. time q e \<le> time q x)"
    and erase_present: "ok q \<Longrightarrow> e \<in> events q \<Longrightarrow>
      \<exists>q'. erase q e = Some (0, q') \<and> ok q' \<and> events q' = events q - {e} \<and> time q' = time q"
    and erase_absent: "ok q \<Longrightarrow> e \<notin> events q \<Longrightarrow> erase q e = Some (-1, q)"

text \<open>Taking events out as long as the first is due, at most \<open>k\<close> times.\<close>

primrec expire :: "('q \<Rightarrow> 'e option option) \<Rightarrow> ('q \<Rightarrow> 'e \<Rightarrow> (int \<times> 'q) option) \<Rightarrow> ('q \<Rightarrow> 'e \<Rightarrow> bool) \<Rightarrow> nat \<Rightarrow> 'q \<Rightarrow> ('e list \<times> 'q) option" where
  "expire tp er due 0 q = None"
| "expire tp er due (Suc k) q =
     (case tp q of
        None \<Rightarrow> None
      | Some None \<Rightarrow> Some ([], q)
      | Some (Some e) \<Rightarrow>
          if \<not> due q e then Some ([], q)
          else case er q e of None \<Rightarrow> None | Some (r, q') \<Rightarrow> map_option (\<lambda>(es, q). (e # es, q)) (expire tp er due k q'))"

context timer_queue
begin

lemma expire_takes_due:
  assumes "ok q" and "card (events q) < k" and "\<And>q e. due q e \<longleftrightarrow> time q e \<le> now"
  shows "\<exists>es q'. expire top erase due k q = Some (es, q') \<and> ok q' \<and> time q' = time q \<and> distinct es
    \<and> set es = {e \<in> events q. time q e \<le> now} \<and> events q' = {e \<in> events q. now < time q e}
    \<and> sorted (map (time q) es)"
  using assms(1,2)
proof (induction k arbitrary: q)
  case (Suc k)
  show ?case
  proof (cases "events q = {}")
    case True
    with top_empty [OF Suc.prems(1)] Suc.prems(1) show ?thesis by auto
  next
    case False
    then obtain e where e: "top q = Some (Some e)" "e \<in> events q" "\<forall>x \<in> events q. time q e \<le> time q x"
      using top_least [OF Suc.prems(1)] by blast
    show ?thesis
    proof (cases "time q e \<le> now")
      case False
      then have "now < time q x" if "x \<in> events q" for x using e(3) that by (meson le_less_trans not_le)
      then have "{e \<in> events q. time q e \<le> now} = {}" "{e \<in> events q. now < time q e} = events q"
        by (auto simp: not_le)
      with e False Suc.prems(1) assms(3) show ?thesis by (intro exI [of _ "[]"] exI [of _ q]) simp
    next
      case True
      obtain q' where q': "erase q e = Some (0, q')" "ok q'" "events q' = events q - {e}" "time q' = time q"
        using erase_present [OF Suc.prems(1) e(2)] by blast
      have "card (events q') < k"
        using Suc.prems e(2) finite_events [OF Suc.prems(1)] q'(3) by (metis card_Diff1_less less_trans_Suc not_less_eq)
      from Suc.IH [OF q'(2) this] obtain es q'' where "expire top erase due k q' = Some (es, q'')" "ok q''"
        "time q'' = time q'" "distinct es" "set es = {e \<in> events q'. time q' e \<le> now}"
        "events q'' = {e \<in> events q'. now < time q' e}" "sorted (map (time q') es)" by blast
      note r = this
      have "expire top erase due (Suc k) q = Some (e # es, q'')" using e(1) q'(1) True r(1) assms(3) by simp
      moreover have "set (e # es) = {e \<in> events q. time q e \<le> now}"
        unfolding list.set r(5) q'(3,4) using e(2) True by blast
      moreover have "events q'' = {e \<in> events q. now < time q e}"
        unfolding r(6) q'(3,4) using True by (auto simp: not_less [symmetric])
      moreover have "sorted (map (time q) (e # es))" using r(5,7) q'(3,4) e(3) by auto
      moreover have "distinct (e # es)" using r(4,5) q'(3) by auto
      ultimately show ?thesis using r(2,3) q'(4) by (intro exI [of _ "e # es"] exI [of _ q'']) simp
    qed
  qed
qed simp

end

lemma slots_nonempty: "heap_ok s \<Longrightarrow> slots s = [] \<longleftrightarrow> heap_n s = 0"
  using heap_okD(2) [of s] by auto

lemma min_heap_top_slots: "heap_ok s \<Longrightarrow> min_heap_top s = Some (if slots s = [] then None else Some (slots s ! 0))"
  using heap_okD(7) [of s 0] slots_nonempty [of s] by (auto simp: min_heap_top_def)

lemma set_sift_from:
  assumes "heap_ok s" and "i < heap_n s"
  shows "set (sift_from (key s) (slots s) i) = set (slots s) - {slots s ! i}"
proof -
  note ok = heap_okD [OF assms(1)]
  have "mset (sift_from (key s) (slots s) i) = mset (remove1 (slots s ! i) (slots s))"
    using sift_from(2) [OF ok(4)] ok(2) assms(2) by simp
  then show ?thesis using ok(3) by (metis mset_eq_setD set_remove1_eq)
qed

lemma erase_absent_heap: "heap_ok s \<Longrightarrow> e \<notin> set (slots s) \<Longrightarrow> min_heap_erase s e = Some (-1, s)"
  using heap_okD(6) [of s e] by (simp add: min_heap_erase_def)

interpretation timeheap: timer_queue min_heap_top min_heap_erase heap_ok "\<lambda>s. set (slots s)" key
proof
  fix s e assume s: "heap_ok s"
  note ok = heap_okD [OF s]
  show "set (slots s) = {} \<Longrightarrow> min_heap_top s = Some None" by (simp add: min_heap_top_slots s)
  show "\<exists>e. min_heap_top s = Some (Some e) \<and> e \<in> set (slots s) \<and> (\<forall>x \<in> set (slots s). key s e \<le> key s x)"
    if "set (slots s) \<noteq> {}"
    using that ordered_root [OF ok(4)] by (auto simp: min_heap_top_slots s in_set_conv_nth)
  show "e \<notin> set (slots s) \<Longrightarrow> min_heap_erase s e = Some (-1, s)" by (rule erase_absent_heap [OF s])
  assume "e \<in> set (slots s)"
  then obtain i where "i < heap_n s" "e = slots s ! i" using ok(2) by (metis in_set_conv_nth)
  with min_heap_erase_refines [OF s this] set_sift_from [OF s]
  show "\<exists>s'. min_heap_erase s e = Some (0, s') \<and> heap_ok s' \<and> set (slots s') = set (slots s) - {e} \<and> key s' = key s"
    by metis
qed simp

text \<open>Heaps built by pushing.\<close>

primrec push_all :: "nat list \<Rightarrow> min_heap \<Rightarrow> min_heap option" where
  "push_all [] s = Some s"
| "push_all (e # es) s = (case min_heap_push True s e of None \<Rightarrow> None | Some (r, s) \<Rightarrow> push_all es s)"

lemma push_all_ok:
  assumes "heap_ok s" and "distinct es" and "set es \<inter> set (slots s) = {}" and "heap_n s + length es < 2 ^ 31"
  shows "\<exists>s'. push_all es s = Some s' \<and> heap_ok s' \<and> set (slots s') = set es \<union> set (slots s) \<and> key s' = key s"
  using assms
proof (induction es arbitrary: s)
  case (Cons e es)
  have n: "heap_n s < length (slots s @ [e])" using heap_okD(2) [OF Cons.prems(1)] by simp
  have "heap_n s < 2 ^ 31 - 1" "e \<notin> set (slots s)" using Cons.prems(3,4) by auto
  from min_heap_push_refines [OF Cons.prems(1) this(2,1), of True]
  obtain s1 where s1: "min_heap_push True s e = Some (0, s1)" "heap_ok s1" "slots s1 = up (key s) (slots s @ [e]) (heap_n s)"
    "key s1 = key s" by auto
  have "set (slots s1) = insert e (set (slots s))" using set_up [OF n, of "key s"] s1(3) by simp
  moreover have "heap_n s1 = heap_n s + 1"
    using heap_okD(2) [OF s1(2)] heap_okD(2) [OF Cons.prems(1)] s1(3) up_keeps [OF n, of "key s"] by simp
  ultimately show ?case using Cons.IH [OF s1(2)] Cons.prems s1 by auto
qed simp

definition sample_times :: "nat \<Rightarrow> tevent" where
  "sample_times e = \<lparr>ev_timeout = (if e = 1 then (30, 0) else if e = 2 then (10, 5) else (10, 7)), min_heap_idx = -1\<rparr>"

lemma sample_heap:
  "\<exists>s. push_all [1, 2, 3] (min_heap_ctor sample_times) = Some s \<and> heap_ok s \<and> set (slots s) = {1, 2, 3}
     \<and> key s = (\<lambda>e. ev_timeout (sample_times e))"
proof -
  have "heap_ok (min_heap_ctor sample_times) \<and> slots (min_heap_ctor sample_times) = []"
    by (rule heap_ok_ctor) (simp add: sample_times_def)
  from push_all_ok [OF this [THEN conjunct1], of "[1, 2, 3]"] this [THEN conjunct2] show ?thesis
    by (auto simp: min_heap_ctor_def key_def fun_eq_iff)
qed

section \<open>Properties\<close>

text \<open>C38: pushing an event that is not in a heap of fewer than \<open>2 ^ 31 - 1\<close> events adds it and keeps the heap in order, with
  every event knowing its place, an \<^verbatim>\<open>int\<close>; only when the array is full and memory is short does it fail, and then it
  changes nothing.\<close>

theorem min_heap_push_adds:
  assumes "heap_ok s" and "e \<notin> set (slots s)" and "heap_n s < 2 ^ 31 - 1"
  shows "if room \<or> heap_n s < heap_a s
    then \<exists>s'. min_heap_push room s e = Some (0, s') \<and> heap_ok s' \<and> mset (slots s') = add_mset e (mset (slots s)) \<and> key s' = key s
    else min_heap_push room s e = Some (-1, s)"
proof -
  have "heap_n s < length (slots s @ [e])" using heap_okD(2) [OF assms(1)] by simp
  from up_keeps [OF this, of "key s"] min_heap_push_refines [OF assms, of room] show ?thesis by (auto split: if_splits)
qed

theorem min_heap_push_adds_witness:
  "\<exists>s. min_heap_push True (min_heap_ctor sample_times) 7 = Some (0, s) \<and> slots s = [7] \<and> heap_ok s"
proof -
  have s0: "heap_ok (min_heap_ctor sample_times)" "slots (min_heap_ctor sample_times) = []"
    using heap_ok_ctor [of sample_times] by (simp_all add: sample_times_def)
  have "7 \<notin> set (slots (min_heap_ctor sample_times))" "heap_n (min_heap_ctor sample_times) < 2 ^ 31 - 1"
    using s0(2) by (simp_all add: min_heap_ctor_def)
  from min_heap_push_adds [OF s0(1) this, of True] s0(2) show ?thesis by auto
qed

text \<open>C31: popping a heap of fewer than \<open>2 ^ 31\<close> events that is not empty gives the event \<^verbatim>\<open>min_heap_top\<close> gives, which is due no later than any other; it is
  marked as not in the heap, all the others stay, in order and each knowing its place.\<close>

theorem min_heap_pop_least:
  assumes "heap_ok s" and "slots s \<noteq> []"
  shows "\<exists>e s'. min_heap_pop s = Some (Some e, s') \<and> min_heap_top s = Some (Some e) \<and> heap_ok s' \<and> key s' = key s
    \<and> mset (slots s) = add_mset e (mset (slots s')) \<and> (\<forall>x \<in> set (slots s). key s e \<le> key s x)
    \<and> min_heap_idx (evs s' e) = -1"
proof -
  note ok = heap_okD [OF assms(1)]
  have n: "0 < heap_n s" using ok(2) assms(2) by (metis length_greater_0_conv)
  obtain s' where s': "min_heap_pop s = Some (Some (slots s ! 0), s')" "heap_ok s'"
    "slots s' = sift_from (key s) (slots s) 0" "key s' = key s" using min_heap_pop_refines [OF assms(1) n] by blast
  have "slots s ! 0 \<notin> set (slots s')" using set_sift_from [OF assms(1) n] s'(3) by simp
  then have "min_heap_idx (evs s' (slots s ! 0)) = -1" using heap_okD(6) [OF s'(2)] by simp
  moreover have "mset (slots s) = add_mset (slots s ! 0) (mset (slots s'))"
    using sift_from(2) [OF ok(4), of 0] ok(2) n s'(3) by simp
  moreover have "\<forall>x \<in> set (slots s). key s (slots s ! 0) \<le> key s x"
    using ordered_root [OF ok(4)] by (auto simp: in_set_conv_nth)
  ultimately show ?thesis using s' assms by (simp add: min_heap_top_slots)
qed

theorem min_heap_pop_least_witness:
  "\<exists>s s'. min_heap_pop s = Some (Some 2, s') \<and> set (slots s) = {1, 2, 3} \<and> heap_ok s'"
proof -
  obtain s where s: "heap_ok s" "set (slots s) = {1, 2, 3}" "key s = (\<lambda>e. ev_timeout (sample_times e))"
    using sample_heap by blast
  then have "slots s \<noteq> []" by auto
  from min_heap_pop_least [OF s(1) this] obtain e s' where e: "min_heap_pop s = Some (Some e, s')" "heap_ok s'"
    "mset (slots s) = add_mset e (mset (slots s'))" "\<forall>x \<in> set (slots s). key s e \<le> key s x" by blast
  have "e \<in> {1, 2, 3}" using s(2) arg_cong [OF e(3), of set_mset] by auto
  with e(4) s(2,3) have "e = 2" by (auto simp: sample_times_def)
  with e s show ?thesis by blast
qed

text \<open>C4: \<^verbatim>\<open>min_heap_erase\<close> takes out exactly the event it is given, wherever it is, of a heap of fewer than \<open>2 ^ 31\<close>; one
  that is not in the heap is refused.\<close>

theorem min_heap_erase_removes:
  assumes "heap_ok s"
  shows "if e \<in> set (slots s)
    then \<exists>s'. min_heap_erase s e = Some (0, s') \<and> heap_ok s' \<and> set (slots s') = set (slots s) - {e} \<and> key s' = key s
    else min_heap_erase s e = Some (-1, s)"
  using timeheap.erase_present [OF assms] timeheap.erase_absent [OF assms] by simp

theorem min_heap_erase_removes_witness:
  "\<exists>s s'. min_heap_erase s 1 = Some (0, s') \<and> heap_ok s' \<and> set (slots s') = {2, 3}"
proof -
  obtain s where s: "heap_ok s" "set (slots s) = {1, 2, 3}" using sample_heap by blast
  from min_heap_erase_removes [OF s(1), of 1] s(2) show ?thesis by fastforce
qed

end
