(* ===== verification/Tagging.thy ===== *)
theory Tagging
  imports Prelude "HOL-Library.Word"
begin

unbundle bit_operations_syntax

text \<open>
  Tagged data of libevent: \<^verbatim>\<open>event_tagging.c\<close>. An event buffer is the list of its bytes; \<^verbatim>\<open>evbuffer_pullup\<close> makes
  the first bytes contiguous, and reading behind those is \<open>Wild\<close>. The integers have their widths; the macro
  \<^verbatim>\<open>ENCODE_INT_INTERNAL\<close> and its counterpart are functions on words of any width.
\<close>

type_synonym bytes = "8 word list"

section \<open>Integers by nibbles\<close>

definition low_half :: "8 word \<Rightarrow> 8 word" where
  "low_half b = b AND 0x0f"

definition high_half :: "8 word \<Rightarrow> 8 word" where
  "high_half b = drop_bit 4 (b AND 0xf0)"

definition with_low :: "8 word \<Rightarrow> 8 word \<Rightarrow> 8 word" where
  "with_low b v = (b AND 0xf0) OR (v AND 0x0f)"

definition with_high :: "8 word \<Rightarrow> 8 word \<Rightarrow> 8 word" where
  "with_high b v = (b AND 0x0f) OR push_bit 4 (v AND 0x0f)"

definition put_nibble :: "nat \<Rightarrow> 8 word \<Rightarrow> bytes \<Rightarrow> bytes option" where
  \<comment> \<open>the low half of the byte for odd \<open>off\<close>, the high half for even; \<open>None\<close>: outside the array\<close>
  "put_nibble off v data =
     (let i = off div 2 in
      if length data \<le> i then None
      else Some (data[i := (if odd off then with_low (data ! i) v else with_high (data ! i) v)]))"

lemma drop_bit_less: "n \<noteq> 0 \<Longrightarrow> unat (drop_bit 4 n) < unat (n :: 'a :: len word)"
proof -
  assume "n \<noteq> 0"
  then have "0 < unat n" by (simp add: unat_gt_0)
  then have "unat n div 2 ^ 4 < unat n" by simp
  moreover have "unat (drop_bit 4 n) = unat n div 2 ^ 4" by (simp only: unat_drop_bit_eq) (simp only: drop_bit_eq_div)
  ultimately show ?thesis by simp
qed

function encode_loop :: "'a :: len word \<Rightarrow> nat \<Rightarrow> bytes \<Rightarrow> (nat \<times> bytes) option" where
  \<comment> \<open>\<^verbatim>\<open>while (number)\<close>\<close>
  "encode_loop number off data =
     (if number = 0 then Some (off, data)
      else case put_nibble off (ucast (number AND 0x0f)) data of
          None \<Rightarrow> None
        | Some data \<Rightarrow> encode_loop (drop_bit 4 number) (off + 1) data)"
  by pat_completeness auto

termination
  by (relation "measure (\<lambda>(number, _, _). unat number)") (auto intro: drop_bit_less)

declare encode_loop.simps [simp del]

definition ENCODE_INT_INTERNAL :: "nat \<Rightarrow> 'a :: len word \<Rightarrow> bytes option" where
  \<comment> \<open>into \<open>size\<close> bytes; the bytes to be sent, as many as the function returns\<close>
  "ENCODE_INT_INTERNAL sz number =
     (case encode_loop number 1 (replicate sz 0) of
        None \<Rightarrow> None
      | Some (off, data) \<Rightarrow>
          let nibbles = (if 2 < off then off - 2 else 0) in
          map_option (take ((off + 1) div 2)) (put_nibble 0 (of_nat nibbles) data))"

definition encode_int_internal :: "32 word \<Rightarrow> bytes option" where
  "encode_int_internal number = ENCODE_INT_INTERNAL 5 number"

definition encode_int64_internal :: "64 word \<Rightarrow> bytes option" where
  "encode_int64_internal number = ENCODE_INT_INTERNAL 9 number"

definition nibble_at :: "bytes \<Rightarrow> nat \<Rightarrow> 8 word" where
  "nibble_at data k = (if odd k then low_half (data ! (k div 2)) else high_half (data ! (k div 2)))"

primrec decode_loop :: "bytes \<Rightarrow> nat \<Rightarrow> 'a :: len word \<Rightarrow> 'a word" where
  "decode_loop data 0 number = number"
| "decode_loop data (Suc k) number = decode_loop data k (push_bit 4 number OR ucast (nibble_at data (Suc k)))"

definition DECODE_INT_INTERNAL :: "nat \<Rightarrow> bytes \<Rightarrow> nat \<Rightarrow> ('a :: len word \<times> nat) option" where
  \<comment> \<open>the number and the bytes it took, from the place \<open>offset\<close> of the buffer; \<open>None\<close> is \<^verbatim>\<open>-1\<close>\<close>
  "DECODE_INT_INTERNAL maxnibbles evbuf offset =
     (if length evbuf \<le> offset then None
      else
        let data = drop offset evbuf; len = length data; nibbles = unat (high_half (data ! 0)) + 1 in
        if nibbles > maxnibbles \<or> nibbles div 2 + 1 > len then None
        else Some (decode_loop data nibbles 0, nibbles div 2 + 1))"

definition decode_int_internal :: "bytes \<Rightarrow> nat \<Rightarrow> (32 word \<times> nat) option" where
  "decode_int_internal = DECODE_INT_INTERNAL 8"

definition decode_int64_internal :: "bytes \<Rightarrow> nat \<Rightarrow> (64 word \<times> nat) option" where
  "decode_int64_internal = DECODE_INT_INTERNAL 16"

text \<open>The nibbles of an array.\<close>

lemma bit_0f: "bit (0x0f :: 'a :: len word) k \<longleftrightarrow> k < LENGTH('a) \<and> k < 4"
proof -
  have "(0x0f :: 'a word) = mask 4" by (simp add: mask_eq_exp_minus_1)
  then show ?thesis by (simp only: bit_mask_iff) auto
qed

lemma bit_f0: "bit (0xf0 :: 8 word) k \<longleftrightarrow> 4 \<le> k \<and> k < 8"
proof -
  have "(0xf0 :: 8 word) = push_bit 4 0x0f" by (simp add: push_bit_eq_mult)
  then show ?thesis by (simp only: bit_push_bit_iff bit_0f) auto
qed

lemma length_8: "LENGTH(8) = 8"
  by simp

lemmas nibble_bits = bit_eq_iff bit_and_iff bit_or_iff bit_push_bit_iff bit_drop_bit_eq o_apply bit_take_bit_iff bit_0f bit_f0 length_8

lemma halves_of_byte [simp]:
  "low_half (with_low b v) = low_half v" "high_half (with_low b v) = high_half b"
  "low_half (with_high b v) = low_half b" "high_half (with_high b v) = low_half v"
  "low_half (low_half b) = low_half b"
  by (simp_all only: low_half_def high_half_def with_low_def with_high_def nibble_bits, auto)

lemma put_nibble_ok:
  assumes "off div 2 < length data"
  shows "\<exists>data'. put_nibble off v data = Some data' \<and> length data' = length data
    \<and> (\<forall>k. k div 2 < length data \<longrightarrow> nibble_at data' k = (if k = off then low_half v else nibble_at data k))"
proof -
  let ?b = "if odd off then with_low (data ! (off div 2)) v else with_high (data ! (off div 2)) v"
  have "nibble_at (data[off div 2 := ?b]) k = (if k = off then low_half v else nibble_at data k)"
    if k: "k div 2 < length data" for k
  proof (cases "k div 2 = off div 2")
    case True
    then have "k = off \<longleftrightarrow> (odd k \<longleftrightarrow> odd off)" by presburger
    with True k show ?thesis by (simp add: nibble_at_def)
  qed (use k in \<open>auto simp: nibble_at_def\<close>)
  with assms show ?thesis by (simp add: put_nibble_def Let_def)
qed

definition nibble_of :: "'a :: len word \<Rightarrow> nat \<Rightarrow> 8 word" where
  "nibble_of number j = ucast (drop_bit (4 * j) number AND 0x0f)"

lemma nibble_of_drop: "nibble_of (drop_bit 4 number) j = nibble_of number (Suc j)"
  by (simp add: nibble_of_def add.commute)

lemma nibble_of_low: "low_half (nibble_of number j) = nibble_of number j"
  by (simp only: nibble_of_def low_half_def nibble_bits bit_unsigned_iff) auto

text \<open>The loop writes the nibbles of the number, the least significant first.\<close>

lemma encode_loop_writes:
  assumes "drop_bit (4 * m) number = 0" and "(off + m - 1) div 2 < length data" and "0 < off"
  shows "\<exists>k data'. encode_loop number off data = Some (off + k, data') \<and> k \<le> m \<and> length data' = length data
    \<and> drop_bit (4 * k) number = 0 \<and> (0 < k \<longrightarrow> drop_bit (4 * (k - 1)) number \<noteq> 0)
    \<and> (\<forall>j < off. nibble_at data' j = nibble_at data j)
    \<and> (\<forall>j < k. nibble_at data' (off + j) = nibble_of number j)"
  using assms
proof (induction number off data arbitrary: m rule: encode_loop.induct)
  case (1 number off data)
  show ?case
  proof (cases "number = 0")
    case True
    then show ?thesis by (subst encode_loop.simps) auto
  next
    case False
    with "1.prems" obtain m' where m: "m = Suc m'" by (cases m) auto
    then have "off div 2 \<le> (off + m - 1) div 2" by (intro div_le_mono) simp
    with "1.prems"(2) have in_data: "off div 2 < length data" by simp
    then obtain d where d: "put_nibble off (ucast (number AND 0x0f)) data = Some d" "length d = length data"
      "\<forall>k. k div 2 < length data \<longrightarrow> nibble_at d k = (if k = off then low_half (ucast (number AND 0x0f)) else nibble_at data k)"
      using put_nibble_ok by blast
    have "drop_bit (4 * m') (drop_bit 4 number) = 0" using "1.prems"(1) m by (simp add: add.commute)
    moreover have "(off + 1 + m' - 1) div 2 < length d" using "1.prems"(2) m d(2) by simp
    ultimately obtain k d' where k: "encode_loop (drop_bit 4 number) (off + 1) d = Some (off + 1 + k, d')" "k \<le> m'"
      "length d' = length d" "drop_bit (4 * k) (drop_bit 4 number) = 0"
      "0 < k \<longrightarrow> drop_bit (4 * (k - 1)) (drop_bit 4 number) \<noteq> 0"
      "\<forall>j < off + 1. nibble_at d' j = nibble_at d j"
      "\<forall>j < k. nibble_at d' (off + 1 + j) = nibble_of (drop_bit 4 number) j"
      using "1.IH" [OF False d(1), of m'] by auto
    have lt: "j div 2 < length data" if "j < off" for j 
      using in_data div_le_mono [of j off 2] that by simp
    have "nibble_at d' (off + j) = nibble_of number j" if "j < Suc k" for j
    proof (cases j)
      case 0
      then show ?thesis using k(6) d(3) in_data nibble_of_low [of number 0] by (simp add: nibble_of_def)
    next
      case (Suc i)
      with that k(7) show ?thesis by (auto simp: nibble_of_drop)
    qed
    moreover have "drop_bit (4 * Suc k) number = 0" using k(4) by (simp add: add.commute)
    moreover have "drop_bit (4 * k) number \<noteq> 0"
      using k(5) False by (cases k) (auto simp: add.commute)
    moreover have "\<forall>j < off. nibble_at d' j = nibble_at data j" using k(6) d(3) lt by auto
    ultimately show ?thesis
      using False d(1,2) k(1-3) m by (subst encode_loop.simps) (auto intro!: exI [of _ "Suc k"])
  qed
qed

text \<open>The other loop reads them back.\<close>

lemma decode_step:
  "push_bit 4 (drop_bit (4 * Suc k) number) OR ucast (nibble_of number k) = drop_bit (4 * k) (number :: 'a :: len word)"
proof (rule bit_eqI)
  fix i assume "possible_bit TYPE('a word) i"
  then have i: "i < LENGTH('a)" by simp
  show "bit (push_bit 4 (drop_bit (4 * Suc k) number) OR ucast (nibble_of number k)) i = bit (drop_bit (4 * k) number) i"
  proof (cases "i < 4")
    case True
    with i show ?thesis by (simp only: nibble_of_def nibble_bits bit_unsigned_iff) auto
  next
    case False
    then have "4 * Suc k + (i - 4) = 4 * k + i" by simp
    with i False show ?thesis by (simp only: nibble_of_def nibble_bits bit_unsigned_iff) auto
  qed
qed

lemma decode_loop_reads:
  "\<forall>j < k. nibble_at data (Suc j) = nibble_of number j \<Longrightarrow> decode_loop data k (drop_bit (4 * k) number) = number"
proof (induction k)
  case (Suc k)
  have "decode_loop data (Suc k) (drop_bit (4 * Suc k) number) = decode_loop data k (drop_bit (4 * k) number)"
    using Suc.prems decode_step [of k number] by simp
  with Suc show ?case by simp
qed simp

lemma unat_low_half: "x < 16 \<Longrightarrow> unat (low_half (of_nat x)) = x"
proof -
  have "low_half (of_nat x) = take_bit 4 (of_nat x)" by (simp add: low_half_def take_bit_eq_mask mask_eq_exp_minus_1)
  then show "x < 16 \<Longrightarrow> unat (low_half (of_nat x)) = x"
    by (simp only: unsigned_take_bit_eq unsigned_of_nat) (simp add: take_bit_eq_mod)
qed

lemma nibble_at_0: "nibble_at data 0 = high_half (data ! 0)"
  by (simp add: nibble_at_def)

lemma nibble_at_append: "k div 2 < length bs \<Longrightarrow> nibble_at (bs @ rest) k = nibble_at bs k"
  by (simp add: nibble_at_def nth_append)

lemma nibble_at_take: "k div 2 < len \<Longrightarrow> nibble_at (take len data @ rest) k = nibble_at data k" if "len \<le> length data"
  using that by (simp add: nibble_at_def nth_append)

lemma ENCODE_INT_INTERNAL_writes:
  fixes number :: "'a :: len word"
  assumes "LENGTH('a) = 4 * m" and "0 < m" "m \<le> 16" and "sz = m div 2 + 1"
  shows "\<exists>k bs. ENCODE_INT_INTERNAL sz number = Some bs \<and> 0 < k \<and> k \<le> m \<and> length bs = k div 2 + 1
    \<and> unat (high_half (bs ! 0)) = k - 1 \<and> drop_bit (4 * k) number = 0 \<and> (1 < k \<longrightarrow> drop_bit (4 * (k - 1)) number \<noteq> 0)
    \<and> (\<forall>j < k. nibble_at bs (Suc j) = nibble_of number j)"
proof -
  have "drop_bit (4 * m) number = 0" unfolding assms(1) [symmetric] by (simp add: bit_eq_iff bit_simps bit_imp_le_length)
  then obtain l d where l: "encode_loop number 1 (replicate sz 0) = Some (1 + l, d)" "l \<le> m" "length d = sz"
    "drop_bit (4 * l) number = 0" "0 < l \<longrightarrow> drop_bit (4 * (l - 1)) number \<noteq> 0"
    "\<forall>j < l. nibble_at d (1 + j) = nibble_of number j" using encode_loop_writes [of m number 1 "replicate sz 0"] assms(4) by auto
  let ?k = "max 1 l"
  have nibs: "nibble_at d (Suc j) = nibble_of number j" if "j < ?k" for j
  proof (cases "l = 0")
    case True
    with l(1,4) have "d = replicate sz 0" "number = 0" by (simp_all add: encode_loop.simps)
    with True that assms(4) show ?thesis by (simp add: nibble_at_def nibble_of_def low_half_def)
  qed (use that l(6) in auto)
  have "(0 :: nat) div 2 < length d" using l(3) assms(4) by simp
  then obtain e where e: "put_nibble 0 (of_nat (l - 1)) d = Some e" "length e = length d"
    "\<forall>k. k div 2 < length d \<longrightarrow> nibble_at e k = (if k = 0 then low_half (of_nat (l - 1)) else nibble_at d k)"
    using put_nibble_ok by blast
  let ?n = "l div 2 + 1"
  have n: "?n \<le> length e" using l(2,3) e(2) assms(4) div_le_mono [of l m 2] by simp
  have lt: "k div 2 < ?n" if "k \<le> ?k" for k using that div_le_mono [of k ?k 2] by (auto simp: max_def split: if_splits)
  have at: "nibble_at (take ?n e) k = nibble_at e k" if "k \<le> ?k" for k
    using nibble_at_take [OF n lt [OF that], of "[]"] by simp
  have "high_half (take ?n e ! 0) = low_half (of_nat (l - 1))"
    using at [of 0] e(3) [THEN spec, of 0] l(3) assms(4) by (simp add: nibble_at_0)
  moreover have "\<forall>j < ?k. nibble_at (take ?n e) (Suc j) = nibble_of number j"
    using at e(2,3) nibs lt n by (metis Suc_leI Suc_neq_Zero order.strict_trans2)
  moreover have "ENCODE_INT_INTERNAL sz number = Some (take ?n e)"
  proof -
    have "(if 2 < 1 + l then 1 + l - 2 else 0) = l - 1" "(1 + l + 1) div 2 = ?n" by auto
    with l(1) e(1) show ?thesis by (simp only: ENCODE_INT_INTERNAL_def Let_def option.case prod.case option.map)
  qed
  moreover have "unat (low_half (of_nat (l - 1))) = l - 1" using l(2) assms(3) by (intro unat_low_half) simp
  moreover have "drop_bit (4 * ?k) number = 0"
  proof (cases "l = 0")
    case True
    with l(4) show ?thesis by simp
  qed (use l(4) in \<open>simp add: max_def\<close>)
  ultimately show ?thesis
    using l(2,5) n assms(2) by (intro exI [of _ ?k] exI [of _ "take ?n e"]) (auto simp: max_def)
qed

lemma DECODE_reads:
  fixes number :: "'a :: len word"
  assumes "LENGTH('a) = 4 * m" and "0 < m" "m \<le> 16" and "sz = m div 2 + 1"
    and "ENCODE_INT_INTERNAL sz number = Some bs"
  shows "DECODE_INT_INTERNAL m (pre @ bs @ rest) (length pre) = Some (number, length bs)"
proof -
  obtain k where k: "0 < k" "k \<le> m" "length bs = k div 2 + 1" "unat (high_half (bs ! 0)) = k - 1"
    "drop_bit (4 * k) number = 0" "\<forall>j < k. nibble_at bs (Suc j) = nibble_of number j"
    using ENCODE_INT_INTERNAL_writes [OF assms(1-4), of number] assms(5) by auto
  have "nibble_at (bs @ rest) (Suc j) = nibble_of number j" if "j < k" for j
  proof -
    have "Suc j div 2 < length bs" using that k(3) div_le_mono [of "Suc j" k 2] by simp
    with k(6) that show ?thesis by (simp only: nibble_at_append)
  qed
  then have "decode_loop (bs @ rest) k (drop_bit (4 * k) number) = number" by (intro decode_loop_reads) simp
  moreover have "(bs @ rest) ! 0 = bs ! 0" using k(3) by (simp add: nth_append)
  ultimately show ?thesis using k by (simp add: DECODE_INT_INTERNAL_def Let_def)
qed

lemma encode_int_ok:
  "\<exists>bs. encode_int_internal number = Some bs \<and> length bs \<in> {1..5}"
  "\<exists>bs. encode_int64_internal number' = Some bs \<and> length bs \<in> {1..9}"
  using ENCODE_INT_INTERNAL_writes [of 8 5 number] ENCODE_INT_INTERNAL_writes [of 16 9 number']
  by (auto simp: encode_int_internal_def encode_int64_internal_def)

lemma decode_int_ok:
  "encode_int_internal number = Some bs \<Longrightarrow> decode_int_internal (pre @ bs @ rest) (length pre) = Some (number, length bs)"
  "encode_int64_internal number' = Some bs \<Longrightarrow> decode_int64_internal (pre @ bs @ rest) (length pre) = Some (number', length bs)"
  by (auto simp: encode_int_internal_def encode_int64_internal_def decode_int_internal_def decode_int64_internal_def intro: DECODE_reads)

section \<open>Reading from a buffer\<close>

datatype 'a tres =
    Ok 'a bytes    \<comment> \<open>what is returned, and what is left in the buffer\<close>
  | Fail bytes     \<comment> \<open>\<^verbatim>\<open>-1\<close>\<close>
  | Wild           \<comment> \<open>bytes are read behind those that were pulled up\<close>

definition tbind :: "(bytes \<Rightarrow> 'a tres) \<Rightarrow> ('a \<Rightarrow> bytes \<Rightarrow> 'b tres) \<Rightarrow> bytes \<Rightarrow> 'b tres" where
  "tbind m f evbuf = (case m evbuf of Ok x evbuf \<Rightarrow> f x evbuf | Fail evbuf \<Rightarrow> Fail evbuf | Wild \<Rightarrow> Wild)"

subsection \<open>Tags\<close>

lemma drop_bit_7_less: "drop_bit 7 n \<noteq> 0 \<Longrightarrow> unat (drop_bit 7 n) < unat (n :: 32 word)"
proof -
  assume "drop_bit 7 n \<noteq> 0"
  then have "n \<noteq> 0" by auto
  then have "0 < unat n" by (simp add: unat_gt_0)
  then have "unat n div 2 ^ 7 < unat n" by simp
  moreover have "unat (drop_bit 7 n) = unat n div 2 ^ 7" by (simp only: unat_drop_bit_eq) (simp only: drop_bit_eq_div)
  ultimately show ?thesis by simp
qed

function evtag_encode_tag :: "32 word \<Rightarrow> bytes" where
  "evtag_encode_tag tag =
     (let lower = ucast (tag AND 0x7f); tag' = drop_bit 7 tag in
      if tag' \<noteq> 0 then (lower OR 0x80) # evtag_encode_tag tag' else [lower])"
  by pat_completeness auto

termination
  by (relation "measure unat") (auto intro: drop_bit_7_less)

declare evtag_encode_tag.simps [simp del]

primrec decode_tag_loop :: "bytes \<Rightarrow> nat \<Rightarrow> nat \<Rightarrow> nat \<Rightarrow> 32 word \<Rightarrow> (32 word \<times> nat) option option" where
  \<comment> \<open>at most \<open>k\<close> rounds; \<open>data\<close> was pulled up. The inner \<open>None\<close>: not done; the outer: behind \<open>data\<close>\<close>
  "decode_tag_loop data 0 count shift number = Some None"
| "decode_tag_loop data (Suc k) count shift number =
     (if length data \<le> count then None
      else
        let lower = data ! count; number = number OR push_bit shift (ucast (lower AND 0x7f)) in
        if lower AND 0x80 = 0 then Some (Some (number, count + 1))
        else decode_tag_loop data k (count + 1) (shift + 7) number)"

definition decode_tag_internal :: "bool \<Rightarrow> bytes \<Rightarrow> (32 word \<times> nat) tres" where
  "decode_tag_internal dodrain evbuf =
     (if evbuf = [] then Fail evbuf
      else case decode_tag_loop (take 5 evbuf) (length evbuf) 0 0 0 of
          None \<Rightarrow> Wild
        | Some None \<Rightarrow> Fail evbuf
        | Some (Some (number, count)) \<Rightarrow> Ok (number, count) (if dodrain then drop count evbuf else evbuf))"

definition evtag_decode_tag :: "bytes \<Rightarrow> (32 word \<times> nat) tres" where
  "evtag_decode_tag = decode_tag_internal True"

definition evtag_peek :: "bytes \<Rightarrow> (32 word \<times> nat) tres" where
  "evtag_peek = decode_tag_internal False"

lemma bit_7f: "bit (0x7f :: 'a :: len word) k \<longleftrightarrow> k < LENGTH('a) \<and> k < 7"
proof -
  have "(0x7f :: 'a word) = mask 7" by (simp add: mask_eq_exp_minus_1)
  then show ?thesis by (simp only: bit_mask_iff) auto
qed

lemma bit_80: "bit (0x80 :: 8 word) k \<longleftrightarrow> k = 7"
proof -
  have "(0x80 :: 8 word) = 2 ^ 7" by simp
  then show ?thesis by (simp only: bit_exp_iff possible_bit_word) auto
qed

lemma length_32: "LENGTH(32) = 32"
  by simp

lemmas tag_bits = bit_and_iff bit_or_iff bit_push_bit_iff bit_drop_bit_eq o_apply bit_7f bit_80 length_8 length_32
  bit_unsigned_iff bit_0 possible_bit_word

lemma lower_bits:
  fixes tag :: "32 word"
  shows "ucast ((ucast (tag AND 0x7f) OR 0x80 :: 8 word) AND 0x7f) = tag AND 0x7f"
    and "ucast ((ucast (tag AND 0x7f) :: 8 word) AND 0x7f) = tag AND 0x7f"
    and "(ucast (tag AND 0x7f) :: 8 word) AND 0x80 = 0"
    and "(ucast (tag AND 0x7f) OR 0x80 :: 8 word) AND 0x80 \<noteq> 0"
proof -
  show "(ucast (tag AND 0x7f) OR 0x80 :: 8 word) AND 0x80 \<noteq> 0"
  proof
    assume "(ucast (tag AND 0x7f) OR 0x80 :: 8 word) AND 0x80 = 0"
    then have "\<not> bit ((ucast (tag AND 0x7f) OR 0x80 :: 8 word) AND 0x80) 7" by simp
    then show False by (simp only: bit_and_iff bit_or_iff bit_80) simp
  qed
qed (rule bit_eqI, (simp only: tag_bits | simp only: bit_0_eq tag_bits bot_fun_def), auto)+

lemma tag_parts:
  "push_bit k (tag AND 0x7f) OR push_bit (k + 7) (drop_bit 7 tag) = push_bit k (tag :: 32 word)"
proof (rule bit_eqI)
  fix i assume "possible_bit TYPE(32 word) i"
  show "bit (push_bit k (tag AND 0x7f) OR push_bit (k + 7) (drop_bit 7 tag)) i = bit (push_bit k tag) i"
  proof (cases "k + 7 \<le> i")
    case True
    then have "7 + (i - (k + 7)) = i - k" by simp
    with True show ?thesis by (simp only: tag_bits) auto
  next
    case False
    then show ?thesis by (simp only: tag_bits) auto
  qed
qed

lemma decode_tag_loop_reads:
  "length (evtag_encode_tag tag) \<le> k \<Longrightarrow>
   decode_tag_loop (pre @ evtag_encode_tag tag @ rest) k (length pre) s number
     = Some (Some (number OR push_bit s tag, length pre + length (evtag_encode_tag tag)))"
proof (induction tag arbitrary: pre k s number rule: evtag_encode_tag.induct)
  case (1 tag)
  then obtain k' where k: "k = Suc k'" by (cases k) (auto simp: evtag_encode_tag.simps [of tag] Let_def split: if_splits)
  show ?case
  proof (cases "drop_bit 7 tag = 0")
    case True
    with tag_parts [of s tag] have "push_bit s (tag AND 0x7f) = push_bit s tag" by simp
    with True show ?thesis by (simp add: evtag_encode_tag.simps [of tag] k Let_def lower_bits nth_append)
  next
    case False
    let ?lower = "ucast (tag AND 0x7f) OR 0x80 :: 8 word"
    have "decode_tag_loop ((pre @ [?lower]) @ evtag_encode_tag (drop_bit 7 tag) @ rest) k' (length (pre @ [?lower])) (s + 7)
        (number OR push_bit s (tag AND 0x7f))
      = Some (Some ((number OR push_bit s (tag AND 0x7f)) OR push_bit (s + 7) (drop_bit 7 tag),
          length (pre @ [?lower]) + length (evtag_encode_tag (drop_bit 7 tag))))"
      using "1.prems" k False by (intro "1.IH" [OF refl refl]) (auto simp: evtag_encode_tag.simps [of tag] Let_def)
    with False tag_parts [of s tag] show ?thesis
      by (simp add: evtag_encode_tag.simps [of tag] k Let_def lower_bits nth_append or.assoc)
  qed
qed

lemma length_encode_tag: "drop_bit (7 * Suc m) tag = 0 \<Longrightarrow> length (evtag_encode_tag tag) \<le> Suc m"
proof (induction m arbitrary: tag)
  case 0
  then show ?case by (subst evtag_encode_tag.simps) (simp add: Let_def)
next
  case (Suc m)
  then have "drop_bit (7 * Suc m) (drop_bit 7 tag) = 0" by (simp add: add.commute)
  with Suc.IH show ?case by (subst evtag_encode_tag.simps) (simp add: Let_def)
qed

lemma length_encode_tag_le: "length (evtag_encode_tag tag) \<le> 5"
proof -
  have "drop_bit (7 * Suc 4) tag = 0" by (simp add: bit_eq_iff bit_simps bit_imp_le_length)
  from length_encode_tag [OF this] show ?thesis by simp
qed

lemma encode_tag_nonempty: "evtag_encode_tag tag \<noteq> []"
  by (subst evtag_encode_tag.simps) (simp add: Let_def)

lemma decode_tag_reads:
  "decode_tag_internal d (evtag_encode_tag tag @ rest) =
     Ok (tag, length (evtag_encode_tag tag)) (if d then rest else evtag_encode_tag tag @ rest)"
proof -
  let ?e = "evtag_encode_tag tag"
  have "take 5 (?e @ rest) = [] @ ?e @ take (5 - length ?e) rest" using length_encode_tag_le [of tag] by simp
  then have "decode_tag_loop (take 5 (?e @ rest)) (length (?e @ rest)) 0 0 0 = Some (Some (tag, length ?e))"
    using decode_tag_loop_reads [of tag "length (?e @ rest)" "[]" "take (5 - length ?e) rest" 0 0] by simp
  then show ?thesis using encode_tag_nonempty [of tag] by (simp add: decode_tag_internal_def)
qed

text \<open>When the loop leaves the bytes that were pulled up.\<close>

lemma decode_tag_loop_wild:
  "decode_tag_loop data k count shift number = None \<longleftrightarrow>
     count \<le> length data \<longrightarrow> length data < count + k \<and> (\<forall>j < length data. count \<le> j \<longrightarrow> data ! j AND 0x80 \<noteq> 0)"
  if "count \<le> length data"
  using that
proof (induction k arbitrary: count shift number)
  case (Suc k)
  show ?case
  proof (cases "count < length data")
    case True
    have "(\<forall>j < length data. count \<le> j \<longrightarrow> data ! j AND 0x80 \<noteq> 0) \<longleftrightarrow>
      data ! count AND 0x80 \<noteq> 0 \<and> (\<forall>j < length data. Suc count \<le> j \<longrightarrow> data ! j AND 0x80 \<noteq> 0)"
      using True by (metis Suc_leD Suc_leI le_eq_less_or_eq)
    with True Suc.IH [of "Suc count" "shift + 7"] show ?thesis by (simp add: Let_def)
  qed (use Suc.prems in auto)
qed auto

subsection \<open>Marshalling\<close>

text \<open>These append to the buffer; \<open>None\<close>, a write behind \<^verbatim>\<open>data[5]\<close>, does not happen.\<close>

definition evtag_encode_int :: "bytes \<Rightarrow> 32 word \<Rightarrow> bytes option" where
  "evtag_encode_int evbuf number = map_option ((@) evbuf) (encode_int_internal number)"

definition evtag_encode_int64 :: "bytes \<Rightarrow> 64 word \<Rightarrow> bytes option" where
  "evtag_encode_int64 evbuf number = map_option ((@) evbuf) (encode_int64_internal number)"

definition evtag_marshal :: "bytes \<Rightarrow> 32 word \<Rightarrow> bytes \<Rightarrow> 32 word \<Rightarrow> bytes option" where
  "evtag_marshal evbuf tag data len =
     map_option (\<lambda>evbuf. evbuf @ take (unat len) data) (evtag_encode_int (evbuf @ evtag_encode_tag tag) len)"

definition evtag_marshal_buffer :: "bytes \<Rightarrow> 32 word \<Rightarrow> bytes \<Rightarrow> bytes option" where
  \<comment> \<open>the length written is cut to 32 bits, the data are not; \<^verbatim>\<open>data\<close> is left empty\<close>
  "evtag_marshal_buffer evbuf tag data =
     map_option (\<lambda>evbuf. evbuf @ data) (evtag_encode_int (evbuf @ evtag_encode_tag tag) (of_nat (length data)))"

definition evtag_marshal_int :: "bytes \<Rightarrow> 32 word \<Rightarrow> 32 word \<Rightarrow> bytes option" where
  "evtag_marshal_int evbuf tag integer =
     Option.bind (encode_int_internal integer) (\<lambda>data.
     map_option (\<lambda>evbuf. evbuf @ data) (evtag_encode_int (evbuf @ evtag_encode_tag tag) (of_nat (length data))))"

definition evtag_marshal_int64 :: "bytes \<Rightarrow> 32 word \<Rightarrow> 64 word \<Rightarrow> bytes option" where
  "evtag_marshal_int64 evbuf tag integer =
     Option.bind (encode_int64_internal integer) (\<lambda>data.
     map_option (\<lambda>evbuf. evbuf @ data) (evtag_encode_int (evbuf @ evtag_encode_tag tag) (of_nat (length data))))"

definition evtag_marshal_string :: "bytes \<Rightarrow> 32 word \<Rightarrow> bytes \<Rightarrow> bytes option" where
  \<comment> \<open>\<open>str\<close>: the bytes before the terminator\<close>
  "evtag_marshal_string buf tag str = evtag_marshal buf tag str (of_nat (length str))"

definition evtag_marshal_timeval :: "bytes \<Rightarrow> 32 word \<Rightarrow> 64 word \<Rightarrow> 64 word \<Rightarrow> bytes option" where
  \<comment> \<open>the fields are cut to 32 bits\<close>
  "evtag_marshal_timeval evbuf tag tv_sec tv_usec =
     Option.bind (encode_int_internal (ucast tv_sec)) (\<lambda>d1.
     Option.bind (encode_int_internal (ucast tv_usec)) (\<lambda>d2.
     evtag_marshal evbuf tag (d1 @ d2) (of_nat (length d1 + length d2))))"

subsection \<open>Unmarshalling\<close>

definition evtag_decode_int :: "bytes \<Rightarrow> 32 word tres" where
  "evtag_decode_int evbuf =
     (case decode_int_internal evbuf 0 of None \<Rightarrow> Fail evbuf | Some (number, res) \<Rightarrow> Ok number (drop res evbuf))"

definition evtag_decode_int64 :: "bytes \<Rightarrow> 64 word tres" where
  "evtag_decode_int64 evbuf =
     (case decode_int64_internal evbuf 0 of None \<Rightarrow> Fail evbuf | Some (number, res) \<Rightarrow> Ok number (drop res evbuf))"

definition evtag_payload_length :: "bytes \<Rightarrow> 32 word tres" where
  "evtag_payload_length = tbind (decode_tag_internal False) (\<lambda>(_, len) evbuf.
     case decode_int_internal evbuf len of None \<Rightarrow> Fail evbuf | Some (plength, res) \<Rightarrow> Ok plength evbuf)"

definition evtag_peek_length :: "bytes \<Rightarrow> 32 word tres" where
  "evtag_peek_length = tbind (decode_tag_internal False) (\<lambda>(_, len) evbuf.
     case decode_int_internal evbuf len of None \<Rightarrow> Fail evbuf
     | Some (plength, res) \<Rightarrow> Ok (plength + of_nat (res + len)) evbuf)"

definition evtag_unmarshal_header :: "bytes \<Rightarrow> (32 word \<times> int) tres" where
  \<comment> \<open>the length is returned as an \<^verbatim>\<open>int\<close>\<close>
  "evtag_unmarshal_header = tbind (decode_tag_internal True) (\<lambda>(tag, _).
     tbind evtag_decode_int (\<lambda>len evbuf.
       if length evbuf < unat len then Fail evbuf else Ok (tag, sint len) evbuf))"

definition drain :: "int \<Rightarrow> bytes \<Rightarrow> bytes" where
  \<comment> \<open>\<^verbatim>\<open>evbuffer_drain\<close>; a negative number is a \<^verbatim>\<open>size_t\<close> larger than any buffer\<close>
  "drain len evbuf = (if len < 0 then [] else drop (nat len) evbuf)"

definition evtag_consume :: "bytes \<Rightarrow> unit tres" where
  "evtag_consume = tbind evtag_unmarshal_header (\<lambda>(_, len) evbuf.
     if len = -1 then Fail evbuf else Ok () (drain len evbuf))"

definition evtag_unmarshal :: "bytes \<Rightarrow> bytes \<Rightarrow> (int \<times> 32 word \<times> bytes) tres" where
  \<comment> \<open>from \<open>src\<close>, with the length, the tag and the buffer \<open>dst\<close> then\<close>
  "evtag_unmarshal dst = tbind evtag_unmarshal_header (\<lambda>(tag, len) src.
     if len = -1 then Fail src
     else if len < 0 then Wild
     else Ok (len, tag, dst @ take (nat len) src) (drain len src))"

definition evtag_unmarshal_int :: "32 word \<Rightarrow> bytes \<Rightarrow> (32 word \<times> nat) tres" where
  "evtag_unmarshal_int need_tag = tbind (decode_tag_internal True) (\<lambda>(tag, _) evbuf.
     if need_tag \<noteq> tag then Fail evbuf
     else tbind evtag_decode_int (\<lambda>len evbuf.
       if length evbuf < unat len then Fail evbuf
       else
         let rest = drop (unat len) evbuf in
         case decode_int_internal evbuf 0 of
           None \<Rightarrow> Fail rest
         | Some (integer, result) \<Rightarrow> if result > unat len then Fail rest else Ok (integer, result) rest) evbuf)"

definition evtag_unmarshal_int64 :: "32 word \<Rightarrow> bytes \<Rightarrow> (64 word \<times> nat) tres" where
  "evtag_unmarshal_int64 need_tag = tbind (decode_tag_internal True) (\<lambda>(tag, _) evbuf.
     if need_tag \<noteq> tag then Fail evbuf
     else tbind evtag_decode_int (\<lambda>len evbuf.
       if length evbuf < unat len then Fail evbuf
       else
         let rest = drop (unat len) evbuf in
         case decode_int64_internal evbuf 0 of
           None \<Rightarrow> Fail rest
         | Some (integer, result) \<Rightarrow> if result > unat len then Fail rest else Ok (integer, result) rest) evbuf)"

definition evtag_unmarshal_fixed :: "32 word \<Rightarrow> nat \<Rightarrow> bytes \<Rightarrow> bytes tres" where
  "evtag_unmarshal_fixed need_tag len = tbind evtag_unmarshal_header (\<lambda>(tag, tag_len) src.
     if tag_len < 0 \<or> tag \<noteq> need_tag then Fail src
     else if nat tag_len \<noteq> len then Fail src
     else Ok (take len src) (drop len src))"

definition evtag_unmarshal_string :: "bool \<Rightarrow> 32 word \<Rightarrow> bytes \<Rightarrow> bytes tres" where
  \<comment> \<open>\<open>room\<close>: \<^verbatim>\<open>mm_malloc\<close> succeeds, which it cannot for a negative length\<close>
  "evtag_unmarshal_string room need_tag = tbind evtag_unmarshal_header (\<lambda>(tag, tag_len) evbuf.
     if tag_len = -1 \<or> tag \<noteq> need_tag then Fail evbuf
     else if tag_len < 0 \<or> \<not> room then Fail evbuf
     else Ok (take (nat tag_len) evbuf @ [0]) (drop (nat tag_len) evbuf))"

definition evtag_unmarshal_timeval :: "32 word \<Rightarrow> bytes \<Rightarrow> (32 word \<times> 32 word) tres" where
  \<comment> \<open>at \<^verbatim>\<open>done\<close> the payload is drained, whatever the result\<close>
  "evtag_unmarshal_timeval need_tag = tbind evtag_unmarshal_header (\<lambda>(tag, len) evbuf.
     if len = -1 then Fail evbuf
     else if tag \<noteq> need_tag then Fail (drain len evbuf)
     else case decode_int_internal evbuf 0 of None \<Rightarrow> Fail (drain len evbuf) | Some (tv_sec, offset) \<Rightarrow>
       case decode_int_internal evbuf offset of None \<Rightarrow> Fail (drain len evbuf) | Some (tv_usec, offset2) \<Rightarrow>
         if int (offset + offset2) > len then Fail (drain len evbuf) else Ok (tv_sec, tv_usec) (drain len evbuf))"

section \<open>What comes back\<close>

lemma bind_tag [simp]: "tbind (decode_tag_internal True) f (evtag_encode_tag tag @ rest) = f (tag, length (evtag_encode_tag tag)) rest"
  by (simp add: tbind_def decode_tag_reads)

lemma decode_int_reads:
  "encode_int_internal number = Some bs \<Longrightarrow> evtag_decode_int (bs @ rest) = Ok number rest"
  using decode_int_ok(1) [of number bs "[]"] by (simp add: evtag_decode_int_def)

lemma evtag_encode_int_eq: "\<exists>bs. encode_int_internal number = Some bs \<and> evtag_encode_int evbuf number = Some (evbuf @ bs)"
  using encode_int_ok(1) [of number] by (auto simp: evtag_encode_int_def)

lemma marshal_eq:
  "\<exists>bs. encode_int_internal (of_nat (length data)) = Some bs \<and>
     evtag_marshal evbuf tag data (of_nat (length data)) = Some (evbuf @ evtag_encode_tag tag @ bs @ data)"
  if "length data < 2 ^ 32"
proof -
  have "unat (of_nat (length data) :: 32 word) = length data" using that by (simp add: unat_of_nat)
  with evtag_encode_int_eq [of "of_nat (length data)" "evbuf @ evtag_encode_tag tag"] show ?thesis
    by (auto simp: evtag_marshal_def)
qed

lemma header_reads:
  assumes "encode_int_internal (of_nat (length data)) = Some bs" and "length data < 2 ^ 31"
  shows "evtag_unmarshal_header (evtag_encode_tag tag @ bs @ data @ rest) = Ok (tag, int (length data)) (data @ rest)"
proof -
  have "unat (of_nat (length data) :: 32 word) = length data" using assms(2) by (simp add: unat_of_nat)
  moreover have "sint (of_nat (length data) :: 32 word) = int (length data)"
    using assms(2) by (simp add: signed_of_nat signed_take_bit_int_eq_self)
  ultimately show ?thesis
    using decode_int_reads [OF assms(1)] by (simp add: evtag_unmarshal_header_def) (simp add: tbind_def)
qed

lemma payload_length_reads:
  assumes "encode_int_internal len = Some bs"
  shows "evtag_payload_length (evtag_encode_tag tag @ bs @ rest) = Ok len (evtag_encode_tag tag @ bs @ rest)"
  using decode_int_ok(1) [OF assms, of "evtag_encode_tag tag" rest]
  by (simp add: evtag_payload_length_def tbind_def decode_tag_reads)

text \<open>C5: what \<^verbatim>\<open>evtag_marshal\<close> appends, \<^verbatim>\<open>evtag_unmarshal\<close> takes off again: tag, length and data, up to 2 GB;
  looking at the tag and the length takes nothing off, \<^verbatim>\<open>evtag_consume\<close> takes off the whole record.\<close>

theorem unmarshal_inverts_marshal:
  assumes "length data < 2 ^ 31"
  shows "\<exists>e. evtag_marshal evbuf tag data (of_nat (length data)) = Some (evbuf @ e)
    \<and> evtag_unmarshal dst (e @ rest) = Ok (int (length data), tag, dst @ data) rest
    \<and> evtag_peek (e @ rest) = Ok (tag, length (evtag_encode_tag tag)) (e @ rest)
    \<and> evtag_payload_length (e @ rest) = Ok (of_nat (length data)) (e @ rest)
    \<and> evtag_consume (e @ rest) = Ok () rest"
proof -
  obtain bs where bs: "encode_int_internal (of_nat (length data)) = Some bs"
    "evtag_marshal evbuf tag data (of_nat (length data)) = Some (evbuf @ evtag_encode_tag tag @ bs @ data)"
    using marshal_eq [of data evbuf tag] assms by auto
  note header = header_reads [OF bs(1) assms, of tag rest]
  show ?thesis
    using bs(2) header payload_length_reads [OF bs(1), of tag "data @ rest"]
    by (intro exI [of _ "evtag_encode_tag tag @ bs @ data"])
      (simp add: evtag_unmarshal_def evtag_consume_def evtag_peek_def tbind_def drain_def decode_tag_reads)
qed

theorem unmarshal_inverts_marshal_witness:
  "\<exists>e. evtag_marshal [] 7 [1, 2, 3] 3 = Some e \<and> evtag_unmarshal [9] (e @ [5]) = Ok (3, 7, [9, 1, 2, 3]) [5]"
  using unmarshal_inverts_marshal [of "[1, 2, 3]" "[]" 7 "[9]" "[5]"] by auto

lemma unat_small: "n < 10 \<Longrightarrow> unat (of_nat n :: 32 word) = n"
  by (simp add: unat_of_nat)

lemma marshal_int_eq:
  "\<exists>bs d. encode_int_internal number = Some d \<and> length d < 10 \<and> encode_int_internal (of_nat (length d)) = Some bs
     \<and> evtag_marshal_int evbuf tag number = Some (evbuf @ evtag_encode_tag tag @ bs @ d)"
  "\<exists>bs d. encode_int64_internal number' = Some d \<and> length d < 10 \<and> encode_int_internal (of_nat (length d)) = Some bs
     \<and> evtag_marshal_int64 evbuf tag number' = Some (evbuf @ evtag_encode_tag tag @ bs @ d)"
proof -
  obtain d d' where "encode_int_internal number = Some d" "length d \<le> 5" "encode_int64_internal number' = Some d'" "length d' \<le> 9"
    using encode_int_ok(1) [of number] encode_int_ok(2) [of number'] by auto
  with evtag_encode_int_eq [of "of_nat (length d)" "evbuf @ evtag_encode_tag tag"]
    evtag_encode_int_eq [of "of_nat (length d')" "evbuf @ evtag_encode_tag tag"]
  show "\<exists>bs d. encode_int_internal number = Some d \<and> length d < 10 \<and> encode_int_internal (of_nat (length d)) = Some bs
     \<and> evtag_marshal_int evbuf tag number = Some (evbuf @ evtag_encode_tag tag @ bs @ d)"
    and "\<exists>bs d. encode_int64_internal number' = Some d \<and> length d < 10 \<and> encode_int_internal (of_nat (length d)) = Some bs
     \<and> evtag_marshal_int64 evbuf tag number' = Some (evbuf @ evtag_encode_tag tag @ bs @ d)"
    by (auto simp: evtag_marshal_int_def evtag_marshal_int64_def)
qed

text \<open>C39: an integer of 32 or 64 bits that is marshalled comes back when the tag is the one asked for. When it is not,
  the call fails, and the tag alone is gone from the buffer, which then starts in the middle of a record.\<close>

theorem unmarshal_int_inverts_marshal:
  "(\<exists>e k. evtag_marshal_int evbuf tag number = Some (evbuf @ e) \<and> evtag_unmarshal_int need (e @ rest) =
     (if need = tag then Ok (number, k) rest else Fail (drop (length (evtag_encode_tag tag)) (e @ rest))))
   \<and> (\<exists>e k. evtag_marshal_int64 evbuf tag number' = Some (evbuf @ e) \<and> evtag_unmarshal_int64 need (e @ rest) =
     (if need = tag then Ok (number', k) rest else Fail (drop (length (evtag_encode_tag tag)) (e @ rest))))"
proof (intro conjI)
  obtain bs d where d: "encode_int_internal number = Some d" "length d < 10" "encode_int_internal (of_nat (length d)) = Some bs"
    "evtag_marshal_int evbuf tag number = Some (evbuf @ evtag_encode_tag tag @ bs @ d)" using marshal_int_eq(1) by blast
  with decode_int_reads [OF d(3), of "d @ rest"] decode_int_ok(1) [OF d(1), of "[]" rest] unat_small [OF d(2)]
  show "\<exists>e k. evtag_marshal_int evbuf tag number = Some (evbuf @ e) \<and> evtag_unmarshal_int need (e @ rest) =
     (if need = tag then Ok (number, k) rest else Fail (drop (length (evtag_encode_tag tag)) (e @ rest)))"
    by (intro exI [of _ "evtag_encode_tag tag @ bs @ d"] exI [of _ "length d"])
      (simp add: evtag_unmarshal_int_def tbind_def decode_tag_reads)
next
  obtain bs d where d: "encode_int64_internal number' = Some d" "length d < 10" "encode_int_internal (of_nat (length d)) = Some bs"
    "evtag_marshal_int64 evbuf tag number' = Some (evbuf @ evtag_encode_tag tag @ bs @ d)" using marshal_int_eq(2) by blast
  with decode_int_reads [OF d(3), of "d @ rest"] decode_int_ok(2) [OF d(1), of "[]" rest] unat_small [OF d(2)]
  show "\<exists>e k. evtag_marshal_int64 evbuf tag number' = Some (evbuf @ e) \<and> evtag_unmarshal_int64 need (e @ rest) =
     (if need = tag then Ok (number', k) rest else Fail (drop (length (evtag_encode_tag tag)) (e @ rest)))"
    by (intro exI [of _ "evtag_encode_tag tag @ bs @ d"] exI [of _ "length d"])
      (simp add: evtag_unmarshal_int64_def tbind_def decode_tag_reads)
qed

text \<open>A time comes back with both its fields, when they fit 32 bits, and a string with its terminator.\<close>

lemma unmarshal_timeval_inverts:
  "\<exists>e. evtag_marshal_timeval evbuf tag sec usec = Some (evbuf @ e) \<and> evtag_unmarshal_timeval tag (e @ rest) = Ok (ucast sec, ucast usec) rest"
proof -
  obtain d1 d2 where d: "encode_int_internal (ucast sec) = Some d1" "length d1 \<le> 5" "encode_int_internal (ucast usec) = Some d2" "length d2 \<le> 5"
    using encode_int_ok(1) [of "ucast sec"] encode_int_ok(1) [of "ucast usec"] by auto
  have len: "length (d1 @ d2) < 2 ^ 31" using d(2,4) by simp
  obtain bs where bs: "encode_int_internal (of_nat (length (d1 @ d2))) = Some bs"
    "evtag_marshal evbuf tag (d1 @ d2) (of_nat (length (d1 @ d2))) = Some (evbuf @ evtag_encode_tag tag @ bs @ d1 @ d2)"
    using marshal_eq [of "d1 @ d2" evbuf tag] len by auto
  have "evtag_unmarshal_timeval tag (evtag_encode_tag tag @ bs @ (d1 @ d2) @ rest) = Ok (ucast sec, ucast usec) rest"
    using header_reads [OF bs(1) len, of tag rest] decode_int_ok(1) [OF d(1), of "[]" "d2 @ rest"]
      decode_int_ok(1) [OF d(3), of d1 rest]
    by (simp add: evtag_unmarshal_timeval_def tbind_def drain_def)
  with bs(2) d show ?thesis by (simp add: evtag_marshal_timeval_def)
qed

lemma unmarshal_string_inverts:
  "length str < 2 ^ 31 \<Longrightarrow>
   \<exists>e. evtag_marshal_string buf tag str = Some (buf @ e) \<and> evtag_unmarshal_string True tag (e @ rest) = Ok (str @ [0]) rest
     \<and> evtag_unmarshal_fixed tag (length str) (e @ rest) = Ok str rest"
proof -
  assume len: "length str < 2 ^ 31"
  obtain bs where bs: "encode_int_internal (of_nat (length str)) = Some bs"
    "evtag_marshal buf tag str (of_nat (length str)) = Some (buf @ evtag_encode_tag tag @ bs @ str)"
    using marshal_eq [of str buf tag] len by auto
  with header_reads [OF bs(1) len, of tag rest] show ?thesis
    by (simp add: evtag_marshal_string_def evtag_unmarshal_string_def evtag_unmarshal_fixed_def tbind_def)
qed

section \<open>A stream of records\<close>

text \<open>The wire format the file describes: records one behind the other.\<close>

primrec marshal_all :: "bytes \<Rightarrow> (32 word \<times> bytes) list \<Rightarrow> bytes option" where
  "marshal_all evbuf [] = Some evbuf"
| "marshal_all evbuf (r # rs) =
     Option.bind (evtag_marshal evbuf (fst r) (snd r) (of_nat (length (snd r)))) (\<lambda>evbuf. marshal_all evbuf rs)"

primrec unmarshal_all :: "nat \<Rightarrow> bytes \<Rightarrow> (32 word \<times> bytes) list tres" where
  "unmarshal_all 0 evbuf = Ok [] evbuf"
| "unmarshal_all (Suc k) evbuf =
     tbind (evtag_unmarshal []) (\<lambda>(_, tag, data). tbind (unmarshal_all k) (\<lambda>rs. Ok ((tag, data) # rs))) evbuf"

lemma marshal_all_stream:
  "\<forall>r \<in> set rs. length (snd r) < 2 ^ 31 \<Longrightarrow>
   \<exists>e. (\<forall>evbuf. marshal_all evbuf rs = Some (evbuf @ e)) \<and> (\<forall>rest. unmarshal_all (length rs) (e @ rest) = Ok rs rest)"
proof (induction rs)
  case (Cons r rs)
  then obtain e where e: "\<And>evbuf. marshal_all evbuf rs = Some (evbuf @ e)" "\<And>rest. unmarshal_all (length rs) (e @ rest) = Ok rs rest"
    by auto
  have len: "length (snd r) < 2 ^ 31" using Cons.prems by simp
  obtain bs where b: "encode_int_internal (of_nat (length (snd r))) = Some bs" using encode_int_ok(1) by blast
  have m: "evtag_marshal evbuf (fst r) (snd r) (of_nat (length (snd r))) = Some (evbuf @ evtag_encode_tag (fst r) @ bs @ snd r)"
    for evbuf using marshal_eq [of "snd r" evbuf "fst r"] len b by auto
  let ?e = "evtag_encode_tag (fst r) @ bs @ snd r @ e"
  have "marshal_all evbuf (r # rs) = Some (evbuf @ ?e)" for evbuf using e(1) m by simp
  moreover have "unmarshal_all (length (r # rs)) (?e @ rest) = Ok (r # rs) rest" for rest
    using header_reads [OF b len, of "fst r" "e @ rest"] e(2) [of rest]
    by (simp add: evtag_unmarshal_def tbind_def drain_def)
  ultimately show ?case by blast
qed auto

text \<open>Records marshalled into one buffer come out in their order, with their tags and data, and the buffer is empty
  then.\<close>

theorem records_stream:
  assumes "\<forall>r \<in> set rs. length (snd r) < 2 ^ 31"
  shows "\<exists>e. marshal_all [] rs = Some e \<and> unmarshal_all (length rs) e = Ok rs []"
  using marshal_all_stream [OF assms] by (metis append_Nil append_Nil2)

theorem records_stream_witness:
  "\<exists>e. marshal_all [] [(1, [7, 8]), (0x12345678, []), (2, [9])] = Some e
     \<and> unmarshal_all 3 e = Ok [(1, [7, 8]), (0x12345678, []), (2, [9])] []"
proof -
  let ?rs = "[(1, [7, 8]), (0x12345678, []), (2, [9])] :: (32 word \<times> bytes) list"
  have "\<forall>r \<in> set ?rs. length (snd r) < 2 ^ 31" by simp
  note records_stream [OF this]
  moreover have "length ?rs = 3" by (simp only: list.size)
  ultimately show ?thesis by (simp only:)
qed

section \<open>Input that no encoder wrote\<close>

text \<open>C40: a tag whose first five bytes all announce another one is read on behind the five bytes that
  \<^verbatim>\<open>evbuffer_pullup\<close> made contiguous, as soon as the buffer holds a sixth; no other input does that.\<close>

theorem decode_tag_leaves_the_bytes_pulled_up:
  "decode_tag_internal dodrain evbuf = Wild \<longleftrightarrow> 5 < length evbuf \<and> list_all (\<lambda>b. b AND 0x80 \<noteq> 0) (take 5 evbuf)"
proof (cases "evbuf = []")
  case False
  have "decode_tag_loop (take 5 evbuf) (length evbuf) 0 0 0 = None \<longleftrightarrow>
    length (take 5 evbuf) < length evbuf \<and> (\<forall>j < length (take 5 evbuf). take 5 evbuf ! j AND 0x80 \<noteq> 0)"
    using decode_tag_loop_wild [of 0 "take 5 evbuf" "length evbuf" 0 0] by simp
  then show ?thesis
    using False by (auto simp: decode_tag_internal_def list_all_length split: option.splits)
qed (simp add: decode_tag_internal_def)

text \<open>The comment at the head of the file has the groups of a tag and the nibbles of an integer with the most significant
  first, and \<^verbatim>\<open>0x166\<close> as \<^verbatim>\<open>[82 66]\<close>; the code writes the least significant first.\<close>

lemma encoding_examples:
  "evtag_encode_tag 0x66 = [0x66]" "evtag_encode_tag 0x166 = [0xE6, 0x02]" "encode_int_internal 0x12 = Some [0x12, 0x10]"
  by code_simp+

end
