(* ===== verification/EvBuffer.thy ===== *)
theory EvBuffer
  imports Prelude "HOL-Library.Word"
begin

text \<open>
  Byte queues of libevent: the core of \<^verbatim>\<open>buffer.c\<close>. A buffer is a list of chains; \<^verbatim>\<open>first\<close> and \<^verbatim>\<open>last\<close> are its
  ends, and the pointer \<^verbatim>\<open>last_with_datap\<close>, which points at a \<^verbatim>\<open>next\<close> field, is the number of the chain that
  field points at. Of a chain's memory only the bytes between \<^verbatim>\<open>misalign\<close> and \<^verbatim>\<open>misalign + off\<close> are kept, as the
  list \<open>stored\<close>, for the others are never read; a write behind \<^verbatim>\<open>buffer_len\<close> or into the memory of an immutable chain and a failed \<^verbatim>\<open>EVUTIL_ASSERT\<close> give
  \<open>None\<close>. Left out: locks, chains of files, and pinned chains, which only the Windows code makes. The parameter
  \<open>room\<close> tells for which sizes \<^verbatim>\<open>malloc\<close> succeeds. Sizes are those of a 64-bit machine; lengths are natural numbers,
  compared with \<open>SIZE_MAX\<close> where the code does so, and the results \<^verbatim>\<open>evbuffer_remove\<close> and \<^verbatim>\<open>evbuffer_remove_buffer\<close> convert to
  \<^verbatim>\<open>int\<close> are converted. \<^verbatim>\<open>evbuffer_add_reference\<close> adds to \<^verbatim>\<open>total_len\<close> without a test: the theorem on runs bounds the bytes
  brought in all, and shows that then the length does not wrap.
\<close>

type_synonym byte_list = "8 word list"

section \<open>Chains\<close>

record chain =
  buffer_len :: nat
  misalign :: nat
  stored :: byte_list       \<comment> \<open>\<^verbatim>\<open>off\<close> is its length\<close>
  immutable :: bool

definition SIZE_MAX :: nat where "SIZE_MAX = 2 ^ 64 - 1"
definition CHAIN_MAX :: nat where "CHAIN_MAX = 2 ^ 63 - 1"
definition CHAIN_SIZE :: nat where "CHAIN_SIZE = 48"
definition MIN_BUFFER_SIZE :: nat where "MIN_BUFFER_SIZE = 1024"
definition MAX_AUTO_SIZE :: nat where "MAX_AUTO_SIZE = 4096"

abbreviation off :: "chain \<Rightarrow> nat" where
  "off c \<equiv> length (stored c)"

definition space_len :: "chain \<Rightarrow> nat" where
  \<comment> \<open>\<^verbatim>\<open>CHAIN_SPACE_LEN\<close>\<close>
  "space_len c = (if immutable c then 0 else buffer_len c - (misalign c + off c))"

definition chain_append :: "chain \<Rightarrow> byte_list \<Rightarrow> chain option" where
  \<comment> \<open>a copy to \<^verbatim>\<open>buffer + misalign + off\<close>\<close>
  "chain_append c bs =
     (if misalign c + off c + length bs \<le> buffer_len c \<and> (immutable c \<longrightarrow> bs = [])
      then Some (c\<lparr>stored := stored c @ bs\<rparr>) else None)"

definition chain_prepend :: "chain \<Rightarrow> byte_list \<Rightarrow> chain option" where
  \<comment> \<open>a copy to \<^verbatim>\<open>buffer + misalign - n\<close>\<close>
  "chain_prepend c bs =
     (if length bs \<le> misalign c \<and> (immutable c \<longrightarrow> bs = [])
      then Some (c\<lparr>misalign := misalign c - length bs, stored := bs @ stored c\<rparr>) else None)"

function next_size :: "nat \<Rightarrow> nat \<Rightarrow> nat" where
  \<comment> \<open>\<^verbatim>\<open>while (to_alloc < size) to_alloc <<= 1\<close>\<close>
  "next_size to_alloc sz = (if 0 < to_alloc \<and> to_alloc < sz then next_size (2 * to_alloc) sz else to_alloc)"
  by pat_completeness auto

termination
  by (relation "measure (\<lambda>(to_alloc, sz). sz - to_alloc)") auto

declare next_size.simps [simp del]

definition evbuffer_chain_new :: "(nat \<Rightarrow> bool) \<Rightarrow> nat \<Rightarrow> chain option" where
  "evbuffer_chain_new room sz =
     (if CHAIN_MAX - CHAIN_SIZE < sz then None
      else
        let sz = sz + CHAIN_SIZE; to_alloc = (if sz < CHAIN_MAX div 2 then next_size MIN_BUFFER_SIZE sz else sz) in
        if room to_alloc
        then Some \<lparr>buffer_len = to_alloc - CHAIN_SIZE, misalign = 0, stored = [], immutable = False\<rparr>
        else None)"

definition evbuffer_chain_align :: "chain \<Rightarrow> chain" where
  "evbuffer_chain_align c = c\<lparr>misalign := 0\<rparr>"

definition evbuffer_chain_should_realign :: "chain \<Rightarrow> nat \<Rightarrow> bool" where
  "evbuffer_chain_should_realign c datlen \<longleftrightarrow>
     datlen \<le> buffer_len c - off c \<and> off c < buffer_len c div 2 \<and> off c \<le> 2048"

section \<open>Buffers\<close>

record evbuffer =
  chains :: "chain list"
  last_with_data :: nat
  total_len :: nat
  n_add_for_cb :: nat
  n_del_for_cb :: nat
  freeze_start :: bool
  freeze_end :: bool
  watched :: bool                     \<comment> \<open>a callback is registered\<close>
  told :: "(nat \<times> nat \<times> nat) list"    \<comment> \<open>what the callbacks were given: \<^verbatim>\<open>orig_size, n_added, n_deleted\<close>\<close>

definition evbuffer_new :: evbuffer where
  "evbuffer_new = \<lparr>chains = [], last_with_data = 0, total_len = 0, n_add_for_cb = 0, n_del_for_cb = 0,
     freeze_start = False, freeze_end = False, watched = False, told = []\<rparr>"

definition evbuffer_get_length :: "evbuffer \<Rightarrow> nat" where
  "evbuffer_get_length b = total_len b"

definition evbuffer_get_contiguous_space :: "evbuffer \<Rightarrow> nat" where
  "evbuffer_get_contiguous_space b = (case chains b of [] \<Rightarrow> 0 | c # _ \<Rightarrow> off c)"

definition evbuffer_invoke_callbacks :: "evbuffer \<Rightarrow> evbuffer" where
  \<comment> \<open>with \<^verbatim>\<open>evbuffer_run_callbacks\<close>, callbacks that are not deferred\<close>
  "evbuffer_invoke_callbacks b =
     (let b0 = b\<lparr>n_add_for_cb := 0, n_del_for_cb := 0\<rparr> in
      if \<not> watched b then b0
      else if n_add_for_cb b = 0 \<and> n_del_for_cb b = 0 then b
      else b0\<lparr>told := told b @ [(total_len b + n_del_for_cb b - n_add_for_cb b, n_add_for_cb b, n_del_for_cb b)]\<rparr>)"

definition evbuffer_freeze :: "bool \<Rightarrow> evbuffer \<Rightarrow> evbuffer" where
  "evbuffer_freeze start b = (if start then b\<lparr>freeze_start := True\<rparr> else b\<lparr>freeze_end := True\<rparr>)"

definition evbuffer_unfreeze :: "bool \<Rightarrow> evbuffer \<Rightarrow> evbuffer" where
  "evbuffer_unfreeze start b = (if start then b\<lparr>freeze_start := False\<rparr> else b\<lparr>freeze_end := False\<rparr>)"

primrec first_empty :: "chain list \<Rightarrow> nat \<Rightarrow> nat option" where
  \<comment> \<open>\<^verbatim>\<open>while (*ch && (*ch)->off != 0) ch = &(*ch)->next\<close>, from chain \<open>k\<close> on\<close>
  "first_empty [] k = None"
| "first_empty (c # cs) k =
     (case k of
        0 \<Rightarrow> if off c = 0 then Some 0 else map_option Suc (first_empty cs 0)
      | Suc k' \<Rightarrow> map_option Suc (first_empty cs k'))"

definition evbuffer_chains_all_empty :: "chain list \<Rightarrow> bool" where
  "evbuffer_chains_all_empty cs \<longleftrightarrow> (\<forall>c \<in> set cs. off c = 0)"

definition evbuffer_chain_insert :: "evbuffer \<Rightarrow> chain \<Rightarrow> evbuffer option" where
  "evbuffer_chain_insert b c =
     map_option (\<lambda>b. b\<lparr>total_len := total_len b + off c\<rparr>)
     (if length (chains b) \<le> last_with_data b then
        if last_with_data b = 0 then Some (b\<lparr>chains := [c]\<rparr>) else None
      else
        case first_empty (chains b) (last_with_data b) of
          None \<Rightarrow>
            Some (b\<lparr>chains := chains b @ [c],
                    last_with_data := (if off c \<noteq> 0 then length (chains b) else last_with_data b)\<rparr>)
        | Some k \<Rightarrow>
            if evbuffer_chains_all_empty (drop k (chains b)) then Some (b\<lparr>chains := take k (chains b) @ [c]\<rparr>) else None)"

definition evbuffer_free_trailing_empty_chains :: "evbuffer \<Rightarrow> evbuffer option" where
  "evbuffer_free_trailing_empty_chains b =
     (case first_empty (chains b) (last_with_data b) of
        None \<Rightarrow> Some b
      | Some k \<Rightarrow> if evbuffer_chains_all_empty (drop k (chains b)) then Some (b\<lparr>chains := take k (chains b)\<rparr>) else None)"

definition advance_last_with_data :: "evbuffer \<Rightarrow> evbuffer" where
  "advance_last_with_data b =
     (if length (chains b) \<le> last_with_data b then b
      else b\<lparr>last_with_data :=
        last_with_data b + length (takeWhile (\<lambda>c. off c \<noteq> 0) (drop (Suc (last_with_data b)) (chains b)))\<rparr>)"

section \<open>Adding at the end\<close>

definition some_chain :: "(nat \<Rightarrow> bool) \<Rightarrow> evbuffer \<Rightarrow> nat \<Rightarrow> evbuffer option option" where
  \<comment> \<open>allocates the first chain where there is none; the inner \<open>None\<close>: no memory\<close>
  "some_chain room b datlen =
     (if chains b \<noteq> [] then Some (Some b)
      else case evbuffer_chain_new room datlen of
          None \<Rightarrow> Some None
        | Some c \<Rightarrow> map_option Some (evbuffer_chain_insert b c))"

definition set_last :: "chain \<Rightarrow> evbuffer \<Rightarrow> evbuffer" where
  "set_last c b = b\<lparr>chains := butlast (chains b) @ [c]\<rparr>"

definition set_first :: "chain \<Rightarrow> evbuffer \<Rightarrow> evbuffer" where
  "set_first c b = b\<lparr>chains := c # tl (chains b)\<rparr>"

definition count_added :: "nat \<Rightarrow> evbuffer \<Rightarrow> evbuffer" where
  "count_added k b = b\<lparr>total_len := total_len b + k, n_add_for_cb := n_add_for_cb b + k\<rparr>"

definition add_to_last :: "chain \<Rightarrow> byte_list \<Rightarrow> evbuffer \<Rightarrow> (int \<times> evbuffer) option" where
  "add_to_last c bs b =
     map_option (\<lambda>c. (0, evbuffer_invoke_callbacks (count_added (length bs) (set_last c b)))) (chain_append c bs)"

definition chain_remain :: "chain \<Rightarrow> nat" where
  "chain_remain c = (if immutable c then 0 else buffer_len c - misalign c - off c)"

definition add_behind :: "(nat \<Rightarrow> bool) \<Rightarrow> evbuffer \<Rightarrow> byte_list \<Rightarrow> (int \<times> evbuffer) option" where
  \<comment> \<open>another chain for what does not fit the last\<close>
  "add_behind room b bs =
     (let c = last (chains b); remain = chain_remain c;
          to_alloc = (if buffer_len c \<le> MAX_AUTO_SIZE div 2 then 2 * buffer_len c else buffer_len c) in
      case evbuffer_chain_new room (max to_alloc (length bs)) of
        None \<Rightarrow> Some (-1, b)
      | Some tmp \<Rightarrow>
          case chain_append c (take remain bs) of None \<Rightarrow> None | Some c \<Rightarrow>
          case chain_append tmp (drop remain bs) of None \<Rightarrow> None | Some tmp \<Rightarrow>
          map_option (\<lambda>b. (0, evbuffer_invoke_callbacks (b\<lparr>n_add_for_cb := n_add_for_cb b + off tmp\<rparr>)))
            (evbuffer_chain_insert (count_added remain (set_last c b)) tmp))"

definition evbuffer_add :: "(nat \<Rightarrow> bool) \<Rightarrow> evbuffer \<Rightarrow> byte_list \<Rightarrow> (int \<times> evbuffer) option" where
  "evbuffer_add room b bs =
     (if freeze_end b then Some (-1, b)
      else if length bs > SIZE_MAX - total_len b then Some (-1, b)
      else case some_chain room b (length bs) of None \<Rightarrow> None | Some None \<Rightarrow> Some (-1, b) | Some (Some b) \<Rightarrow>
        let c = last (chains b) in
        if \<not> immutable c \<and> length bs \<le> chain_remain c then add_to_last c bs b
        else if \<not> immutable c \<and> evbuffer_chain_should_realign c (length bs) then add_to_last (evbuffer_chain_align c) bs b
        else add_behind room b bs)"

definition evbuffer_add_reference :: "(nat \<Rightarrow> bool) \<Rightarrow> evbuffer \<Rightarrow> byte_list \<Rightarrow> (int \<times> evbuffer) option" where
  \<comment> \<open>a chain that refers to the caller's memory\<close>
  "evbuffer_add_reference room b bs =
     (case evbuffer_chain_new room 16 of
        None \<Rightarrow> Some (-1, b)
      | Some c \<Rightarrow>
          if freeze_end b then Some (-1, b)
          else
            map_option (\<lambda>b. (0, evbuffer_invoke_callbacks (b\<lparr>n_add_for_cb := n_add_for_cb b + length bs\<rparr>)))
              (evbuffer_chain_insert b (c\<lparr>immutable := True, buffer_len := length bs, stored := bs\<rparr>)))"

section \<open>Adding at the start\<close>

definition front_chain :: "evbuffer \<Rightarrow> chain" where
  \<comment> \<open>an empty chain is taken as empty at the beginning\<close>
  "front_chain b = (let c = hd (chains b) in if \<not> immutable c \<and> off c = 0 then c\<lparr>misalign := buffer_len c\<rparr> else c)"

definition front_room :: "evbuffer \<Rightarrow> nat" where
  "front_room b = (if immutable (front_chain b) then 0 else misalign (front_chain b))"

definition prepend_front :: "evbuffer \<Rightarrow> byte_list \<Rightarrow> evbuffer option" where
  \<comment> \<open>into the room before the data of the first chain\<close>
  "prepend_front b bs =
     map_option (\<lambda>c. count_added (length bs) (set_first c b)) (chain_prepend (front_chain b) bs)"

definition prepend_chain :: "(nat \<Rightarrow> bool) \<Rightarrow> evbuffer \<Rightarrow> byte_list \<Rightarrow> (int \<times> evbuffer) option" where
  \<comment> \<open>a new first chain; \<^verbatim>\<open>n_add_for_cb\<close> grows by the \<^verbatim>\<open>misalign\<close> of the old one\<close>
  "prepend_chain room b bs =
     (case evbuffer_chain_new room (length bs) of
        None \<Rightarrow> Some (-1, b)
      | Some tmp \<Rightarrow>
          if length bs \<le> buffer_len tmp then
            Some (0, evbuffer_invoke_callbacks
              (b\<lparr>chains := tmp\<lparr>misalign := buffer_len tmp - length bs, stored := bs\<rparr> # chains b,
                 last_with_data := last_with_data b + 1,
                 total_len := total_len b + length bs, n_add_for_cb := n_add_for_cb b + misalign (hd (chains b))\<rparr>))
          else None)"

definition evbuffer_prepend :: "(nat \<Rightarrow> bool) \<Rightarrow> evbuffer \<Rightarrow> byte_list \<Rightarrow> (int \<times> evbuffer) option" where
  "evbuffer_prepend room b bs =
     (if freeze_start b then Some (-1, b)
      else if length bs > SIZE_MAX - total_len b then Some (-1, b)
      else case some_chain room b (length bs) of None \<Rightarrow> None | Some None \<Rightarrow> Some (-1, b) | Some (Some b) \<Rightarrow>
        if \<not> immutable (hd (chains b)) \<and> length bs \<le> front_room b then
          map_option (\<lambda>b. (0, evbuffer_invoke_callbacks b)) (prepend_front b bs)
        else
          let more = length bs - front_room b in
          case (if immutable (hd (chains b)) then Some b else prepend_front b (drop more bs)) of None \<Rightarrow> None | Some b \<Rightarrow>
          prepend_chain room b (take more bs))"

section \<open>Taking from the start\<close>

fun drain_loop :: "chain list \<Rightarrow> nat \<Rightarrow> nat \<Rightarrow> (chain list \<times> nat) option" where
  \<comment> \<open>frees the chains that are drained completely; a pointer into a freed chain is reset to \<^verbatim>\<open>first\<close>\<close>
  "drain_loop [] lwd remaining = None"
| "drain_loop (c # cs) lwd remaining =
     (if off c \<le> remaining then drain_loop cs (lwd - 1) (remaining - off c)
      else Some (c\<lparr>misalign := misalign c + remaining, stored := drop remaining (stored c)\<rparr> # cs, lwd))"

definition evbuffer_drain :: "evbuffer \<Rightarrow> nat \<Rightarrow> (int \<times> evbuffer) option" where
  "evbuffer_drain b len =
     (if total_len b = 0 then Some (0, b)
      else if freeze_start b then Some (-1, b)
      else if total_len b \<le> len then
        Some (0, evbuffer_invoke_callbacks
          (b\<lparr>chains := [], last_with_data := 0, total_len := 0, n_del_for_cb := n_del_for_cb b + total_len b\<rparr>))
      else
        case drain_loop (chains b) (last_with_data b) len of None \<Rightarrow> None | Some (cs, lwd) \<Rightarrow>
        Some (0, evbuffer_invoke_callbacks
          (b\<lparr>chains := cs, last_with_data := lwd, total_len := total_len b - len, n_del_for_cb := n_del_for_cb b + len\<rparr>)))"

fun copy_loop :: "chain list \<Rightarrow> nat \<Rightarrow> byte_list option" where
  "copy_loop [] datlen = (if datlen = 0 then Some [] else None)"
| "copy_loop (c # cs) datlen =
     (if datlen = 0 then Some []
      else if off c \<le> datlen then map_option ((@) (stored c)) (copy_loop cs (datlen - off c))
      else Some (take datlen (stored c)))"

definition evbuffer_copyout :: "evbuffer \<Rightarrow> nat \<Rightarrow> (int \<times> byte_list) option" where
  "evbuffer_copyout b datlen =
     (let datlen = min datlen (total_len b) in
      if datlen = 0 then Some (0, [])
      else if freeze_start b then Some (-1, [])
      else map_option (\<lambda>bs. (int datlen, bs)) (copy_loop (chains b) datlen))"

definition evbuffer_remove :: "evbuffer \<Rightarrow> nat \<Rightarrow> (int \<times> byte_list \<times> evbuffer) option" where
  \<comment> \<open>the number of bytes is returned as an \<^verbatim>\<open>int\<close>\<close>
  "evbuffer_remove b datlen =
     (case evbuffer_copyout b datlen of None \<Rightarrow> None | Some (r, bs) \<Rightarrow>
        if 0 < r then
          map_option (\<lambda>(d, b). (if d < 0 then -1 else to_int (nat r), bs, b)) (evbuffer_drain b (nat r))
        else Some (r, bs, b))"

section \<open>Moving between buffers\<close>

definition ZERO_CHAIN :: "evbuffer \<Rightarrow> evbuffer" where
  "ZERO_CHAIN b = b\<lparr>chains := [], last_with_data := 0, total_len := 0\<rparr>"

definition COPY_CHAIN :: "evbuffer \<Rightarrow> evbuffer \<Rightarrow> evbuffer" where
  "COPY_CHAIN dst src = dst\<lparr>chains := chains src, last_with_data := last_with_data src, total_len := total_len src\<rparr>"

definition APPEND_CHAIN :: "evbuffer \<Rightarrow> evbuffer \<Rightarrow> evbuffer" where
  "APPEND_CHAIN dst src =
     dst\<lparr>chains := chains dst @ chains src, last_with_data := length (chains dst) + last_with_data src,
         total_len := total_len dst + total_len src\<rparr>"

definition PREPEND_CHAIN :: "evbuffer \<Rightarrow> evbuffer \<Rightarrow> evbuffer" where
  "PREPEND_CHAIN dst src =
     dst\<lparr>chains := chains src @ chains dst,
         last_with_data := (if length (chains dst) \<le> last_with_data dst then last_with_data src
           else length (chains src) + last_with_data dst),
         total_len := total_len dst + total_len src\<rparr>"

definition moved :: "evbuffer \<Rightarrow> evbuffer \<Rightarrow> nat \<Rightarrow> evbuffer \<times> evbuffer" where
  \<comment> \<open>the counters and the callbacks of both\<close>
  "moved outbuf inbuf k =
     (evbuffer_invoke_callbacks (outbuf\<lparr>n_add_for_cb := n_add_for_cb outbuf + k\<rparr>),
      evbuffer_invoke_callbacks (inbuf\<lparr>n_del_for_cb := n_del_for_cb inbuf + k\<rparr>))"

definition evbuffer_add_buffer :: "evbuffer \<Rightarrow> evbuffer \<Rightarrow> int \<times> evbuffer \<times> evbuffer" where
  \<comment> \<open>of two buffers that are not the same\<close>
  "evbuffer_add_buffer outbuf inbuf =
     (if total_len inbuf = 0 then (0, outbuf, inbuf)
      else if freeze_end outbuf \<or> freeze_start inbuf then (-1, outbuf, inbuf)
      else (0, moved (if total_len outbuf = 0 then COPY_CHAIN outbuf inbuf else APPEND_CHAIN outbuf inbuf)
                 (ZERO_CHAIN inbuf) (total_len inbuf)))"

definition evbuffer_prepend_buffer :: "evbuffer \<Rightarrow> evbuffer \<Rightarrow> int \<times> evbuffer \<times> evbuffer" where
  "evbuffer_prepend_buffer outbuf inbuf =
     (if total_len inbuf = 0 then (0, outbuf, inbuf)
      else if freeze_start outbuf \<or> freeze_start inbuf then (-1, outbuf, inbuf)
      else (0, moved (if total_len outbuf = 0 then COPY_CHAIN outbuf inbuf else PREPEND_CHAIN outbuf inbuf)
                 (ZERO_CHAIN inbuf) (total_len inbuf)))"

fun take_chains :: "chain list \<Rightarrow> nat \<Rightarrow> nat \<Rightarrow> nat \<Rightarrow> (chain list \<times> chain list \<times> nat \<times> nat) option" where
  \<comment> \<open>from chain \<open>i\<close> on: the chains taken whole, those left, the pointer, and how much is still to be taken\<close>
  "take_chains [] i lwd datlen = None"
| "take_chains (c # cs) i lwd datlen =
     (if datlen < off c then Some ([], c # cs, lwd, datlen)
      else if i = lwd then None
      else map_option (\<lambda>(ts, r). (c # ts, r)) (take_chains cs (Suc i) (if lwd = Suc i then 0 else lwd) (datlen - off c)))"

definition chains_moved :: "evbuffer \<Rightarrow> chain list \<Rightarrow> nat \<Rightarrow> evbuffer option" where
  \<comment> \<open>the chains taken whole\<close>
  "chains_moved dst ts nread =
     (if nread = 0 then Some dst
      else
        map_option
          (\<lambda>dst. (advance_last_with_data (dst\<lparr>chains := chains dst @ ts\<rparr>))
             \<lparr>total_len := total_len dst + nread, n_add_for_cb := n_add_for_cb dst + nread\<rparr>)
          (evbuffer_free_trailing_empty_chains dst))"

definition evbuffer_remove_buffer :: "(nat \<Rightarrow> bool) \<Rightarrow> evbuffer \<Rightarrow> evbuffer \<Rightarrow> nat \<Rightarrow> (int \<times> evbuffer \<times> evbuffer) option" where
  \<comment> \<open>the result, \<^verbatim>\<open>src\<close> and \<^verbatim>\<open>dst\<close>; the result of \<^verbatim>\<open>evbuffer_add\<close> is not looked at\<close>
  "evbuffer_remove_buffer room src dst datlen =
     (if datlen = 0 then Some (0, src, dst)
      else if freeze_end dst \<or> freeze_start src then Some (-1, src, dst)
      else if total_len src \<le> datlen then
        (case evbuffer_add_buffer dst src of (_, dst', src') \<Rightarrow> Some (to_int (total_len src), src', dst'))
      else
        case take_chains (chains src) 0 (last_with_data src) datlen of None \<Rightarrow> None | Some (ts, cs, lwd, left) \<Rightarrow>
        let nread = datlen - left in
        case chains_moved dst ts nread of None \<Rightarrow> None | Some dst \<Rightarrow>
        case evbuffer_add room dst (take left (stored (hd cs))) of None \<Rightarrow> None | Some (_, dst) \<Rightarrow>
        let c = hd cs; c = c\<lparr>misalign := misalign c + left, stored := drop left (stored c)\<rparr>;
            src = src\<lparr>chains := (if nread = 0 then ts else []) @ c # tl cs,
                      last_with_data := (if nread = 0 then lwd else lwd - length ts),
                      total_len := total_len src - datlen,
                      n_del_for_cb := n_del_for_cb src + datlen\<rparr>
        in Some (to_int datlen, evbuffer_invoke_callbacks src, evbuffer_invoke_callbacks dst))"

section \<open>Making bytes contiguous\<close>

fun pull_loop :: "chain list \<Rightarrow> nat \<Rightarrow> byte_list \<times> chain list \<times> nat" where
  \<comment> \<open>the bytes copied, the chains left, and how many were freed\<close>
  "pull_loop [] sz = ([], [], 0)"
| "pull_loop (c # cs) sz =
     (if off c \<le> sz then (case pull_loop cs (sz - off c) of (bs, rest, k) \<Rightarrow> (stored c @ bs, rest, Suc k))
      else (take sz (stored c), c\<lparr>misalign := misalign c + sz, stored := drop sz (stored c)\<rparr> # cs, 0))"

definition pull_into :: "evbuffer \<Rightarrow> nat \<Rightarrow> chain \<Rightarrow> chain list \<Rightarrow> nat \<Rightarrow> (byte_list option \<times> evbuffer) option" where
  \<comment> \<open>fills \<open>tmp\<close> up to \<open>sz\<close> bytes from the chains \<open>cs\<close>, of which the first is number \<open>f\<close>\<close>
  "pull_into b f tmp cs sz =
     (case pull_loop cs (sz - off tmp) of (bs, rest, k) \<Rightarrow>
      case chain_append tmp bs of None \<Rightarrow> None | Some tmp \<Rightarrow>
      let l = last_with_data b;
          lwd = (if f \<le> l \<and> l < f + k then 0
            else if f < l \<and> l \<le> f + k then (if rest \<noteq> [] \<and> off (hd rest) \<noteq> 0 then 1 else 0)
            else if l = 0 then 0 else l + 1 - f - k)
      in Some (Some (stored tmp), b\<lparr>chains := tmp # rest, last_with_data := lwd\<rparr>))"

definition evbuffer_pullup :: "(nat \<Rightarrow> bool) \<Rightarrow> evbuffer \<Rightarrow> int \<Rightarrow> (byte_list option \<times> evbuffer) option" where
  \<comment> \<open>the bytes at the pointer returned, up to the end of the first chain; or the null pointer\<close>
  "evbuffer_pullup room b sz =
     (let sz = (if sz < 0 then total_len b else nat sz) in
      if sz = 0 \<or> total_len b < sz then Some (None, b)
      else
        case chains b of [] \<Rightarrow> None | c # cs \<Rightarrow>
        if sz \<le> off c then Some (Some (stored c), b)
        else if sz \<le> buffer_len c - misalign c then pull_into b 1 c cs sz
        else case evbuffer_chain_new room sz of None \<Rightarrow> Some (None, b) | Some tmp \<Rightarrow> pull_into b 0 tmp (chains b) sz)"

section \<open>Reserving space\<close>

definition chain_at :: "evbuffer \<Rightarrow> nat \<Rightarrow> chain option" where
  "chain_at b i = (if i < length (chains b) then Some (chains b ! i) else None)"

definition insert_new :: "(nat \<Rightarrow> bool) \<Rightarrow> evbuffer \<Rightarrow> nat \<Rightarrow> (nat option \<times> evbuffer) option" where
  \<comment> \<open>\<^verbatim>\<open>evbuffer_chain_insert_new\<close>; the new chain is the last\<close>
  "insert_new room b datlen =
     (case evbuffer_chain_new room datlen of
        None \<Rightarrow> Some (None, b)
      | Some c \<Rightarrow> map_option (\<lambda>b. (Some (length (chains b) - 1), b)) (evbuffer_chain_insert b c))"

definition first_with_space :: "evbuffer \<Rightarrow> nat" where
  "first_with_space b =
     (case chain_at b (last_with_data b) of
        Some c \<Rightarrow> if space_len c = 0 then last_with_data b + 1 else last_with_data b
      | None \<Rightarrow> last_with_data b)"

definition has_space :: "nat \<Rightarrow> evbuffer \<Rightarrow> nat \<Rightarrow> bool" where
  "has_space i b datlen \<longleftrightarrow> (case chain_at b i of None \<Rightarrow> False | Some c \<Rightarrow> datlen \<le> space_len c)"

definition assert_space :: "nat \<Rightarrow> (nat option \<times> evbuffer) option \<Rightarrow> (nat option \<times> evbuffer) option" where
  \<comment> \<open>\<^verbatim>\<open>EVUTIL_ASSERT(CHAIN_SPACE_LEN(result) >= datlen)\<close>\<close>
  "assert_space datlen res =
     (case res of Some (Some i, b) \<Rightarrow> if has_space i b datlen then res else None | _ \<Rightarrow> res)"

definition evbuffer_expand_singlechain :: "(nat \<Rightarrow> bool) \<Rightarrow> evbuffer \<Rightarrow> nat \<Rightarrow> (nat option \<times> evbuffer) option" where
  \<comment> \<open>the number of the chain that has room for \<open>datlen\<close> bytes, or the null pointer\<close>
  "evbuffer_expand_singlechain room b datlen = assert_space datlen
     (let i = first_with_space b in
      case chain_at b i of
        None \<Rightarrow> insert_new room b datlen
      | Some c \<Rightarrow>
          if immutable c then insert_new room b datlen
          else if datlen \<le> space_len c then Some (Some i, b)
          else if off c = 0 then insert_new room b datlen
          else if evbuffer_chain_should_realign c datlen
          then Some (Some i, b\<lparr>chains := (chains b)[i := evbuffer_chain_align c]\<rparr>)
          else if space_len c < buffer_len c div 8 \<or> 4096 < off c \<or> datlen < CHAIN_MAX \<and> off c \<le> CHAIN_MAX - datlen then
            (case chain_at b (i + 1) of
               None \<Rightarrow> insert_new room b datlen
             | Some c' \<Rightarrow> if datlen \<le> space_len c' then Some (Some (i + 1), b) else insert_new room b datlen)
          else
            case evbuffer_chain_new room ((off c + datlen) mod 2 ^ 64) of
              None \<Rightarrow> Some (None, b)
            | Some tmp \<Rightarrow>
                map_option (\<lambda>tmp. (Some i, b\<lparr>chains := (chains b)[i := tmp]\<rparr>)) (chain_append tmp (stored c)))"

definition evbuffer_expand :: "(nat \<Rightarrow> bool) \<Rightarrow> evbuffer \<Rightarrow> nat \<Rightarrow> (int \<times> evbuffer) option" where
  "evbuffer_expand room b datlen =
     map_option (\<lambda>(r, b). (if r = None then -1 else 0, b)) (evbuffer_expand_singlechain room b datlen)"

definition evbuffer_reserve_space :: "(nat \<Rightarrow> bool) \<Rightarrow> evbuffer \<Rightarrow> nat \<Rightarrow> (nat option \<times> evbuffer) option" where
  \<comment> \<open>with one vector: the chain whose space is given out\<close>
  "evbuffer_reserve_space room b sz =
     (if freeze_end b then Some (None, b) else assert_space sz (evbuffer_expand_singlechain room b sz))"

definition evbuffer_commit_space :: "evbuffer \<Rightarrow> nat \<Rightarrow> byte_list \<Rightarrow> (int \<times> evbuffer) option" where
  \<comment> \<open>one vector at the space of chain \<open>i\<close>, into which the caller has written \<open>bs\<close>\<close>
  "evbuffer_commit_space b i bs =
     (let commit = (\<lambda>j c adv. map_option (\<lambda>c.
            (0, evbuffer_invoke_callbacks (count_added (length bs) (adv (b\<lparr>chains := (chains b)[j := c]\<rparr>))))) (chain_append c bs)) in
      if freeze_end b then Some (-1, b)
      else if chains b \<noteq> [] \<and> i = length (chains b) - 1 then
        let c = last (chains b) in
        if space_len c < length bs then Some (-1, b)
        else commit i c (if bs = [] then (\<lambda>b. b) else advance_last_with_data)
      else if length (chains b) \<le> last_with_data b then Some (-1, b)
      else
        let j = first_with_space b in
        case chain_at b j of
          None \<Rightarrow> Some (-1, b)
        | Some c \<Rightarrow>
            if i \<noteq> j \<or> space_len c < length bs then Some (-1, b)
            else commit j c (if bs = [] then (\<lambda>b. b) else (\<lambda>b. b\<lparr>last_with_data := j\<rparr>)))"

definition printed :: "evbuffer \<Rightarrow> nat \<Rightarrow> byte_list \<Rightarrow> (int \<times> evbuffer) option" where
  "printed b i text =
     (case chain_at b i of None \<Rightarrow> None | Some c \<Rightarrow>
      map_option (\<lambda>c. (int (length text), evbuffer_invoke_callbacks (advance_last_with_data
        (count_added (length text) (b\<lparr>chains := (chains b)[i := c]\<rparr>))))) (chain_append c text))"

definition evbuffer_add_printf :: "(nat \<Rightarrow> bool) \<Rightarrow> evbuffer \<Rightarrow> byte_list \<Rightarrow> (int \<times> evbuffer) option" where
  \<comment> \<open>\<open>text\<close>: what the format yields; the second try always has the space\<close>
  "evbuffer_add_printf room b text =
     (if freeze_end b then Some (-1, b)
      else case evbuffer_expand_singlechain room b 64 of None \<Rightarrow> None | Some (None, b) \<Rightarrow> Some (-1, b) | Some (Some i, b) \<Rightarrow>
        if (case chain_at b i of None \<Rightarrow> False | Some c \<Rightarrow> length text < space_len c) then printed b i text
        else case evbuffer_expand_singlechain room b (length text + 1) of
            None \<Rightarrow> None | Some (None, b) \<Rightarrow> Some (-1, b) | Some (Some i, b) \<Rightarrow> printed b i text)"

section \<open>Well-formed buffers\<close>

definition content :: "evbuffer \<Rightarrow> byte_list" where
  "content b = concat (map stored (chains b))"

definition chain_ok :: "chain \<Rightarrow> bool" where
  "chain_ok c \<longleftrightarrow> misalign c + off c \<le> buffer_len c \<and> 0 < buffer_len c \<and> buffer_len c \<le> CHAIN_MAX - CHAIN_SIZE
     \<and> (immutable c \<longrightarrow> stored c \<noteq> [] \<and> misalign c + off c = buffer_len c)"

definition evb_ok :: "evbuffer \<Rightarrow> bool" where
  \<comment> \<open>the invariant of \<^verbatim>\<open>evbuffer-internal.h\<close>: the pointer is at the last chain with data, or at the first\<close>
  "evb_ok b \<longleftrightarrow> (\<forall>c \<in> set (chains b). chain_ok c) \<and> total_len b = length (content b)
     \<and> (if chains b = [] then last_with_data b = 0
        else last_with_data b < length (chains b)
          \<and> (\<forall>c \<in> set (drop (Suc (last_with_data b)) (chains b)). off c = 0)
          \<and> (0 < last_with_data b \<longrightarrow> off (chains b ! last_with_data b) \<noteq> 0))"

text \<open>Nothing but chains with data, or a single chain: what the operations below keep, as long as no space is reserved.\<close>

definition evb_tight :: "evbuffer \<Rightarrow> bool" where
  "evb_tight b \<longleftrightarrow> (\<forall>c \<in> set (chains b). chain_ok c) \<and> total_len b = length (content b)
     \<and> last_with_data b = length (chains b) - 1 \<and> (1 < length (chains b) \<longrightarrow> (\<forall>c \<in> set (chains b). stored c \<noteq> []))"

lemma evb_tight_ok: "evb_tight b \<Longrightarrow> evb_ok b"
  by (cases "chains b") (auto simp: evb_tight_def evb_ok_def nth_Cons split: nat.split)

lemma tight_nonempty:
  assumes "evb_tight b" and "content b \<noteq> []" and "c \<in> set (chains b)"
  shows "stored c \<noteq> []"
proof (cases "1 < length (chains b)")
  case False
  with assms(3) have "chains b = [c]" by (cases "chains b") auto
  with assms(2) show ?thesis by (simp add: content_def)
qed (use assms in \<open>auto simp: evb_tight_def\<close>)

lemma next_size_ge: "0 < k \<Longrightarrow> sz \<le> next_size k sz"
  by (induction k sz rule: next_size.induct) (subst next_size.simps, auto)

lemma next_size_less: "0 < k \<Longrightarrow> next_size k sz < max (Suc k) (2 * sz)"
proof (induction k sz rule: next_size.induct)
  case (1 k sz)
  then show ?case by (subst next_size.simps) auto
qed

lemma next_size_first: "k \<le> next_size k sz"
proof (induction k sz rule: next_size.induct)
  case (1 k sz)
  then show ?case by (subst next_size.simps) auto
qed

lemma chain_new_ok:
  assumes "evbuffer_chain_new room sz = Some c"
  shows "sz \<le> buffer_len c" "misalign c = 0" "stored c = []" "\<not> immutable c" "chain_ok c"
proof -
  define k where "k = (if sz + CHAIN_SIZE < CHAIN_MAX div 2 then next_size MIN_BUFFER_SIZE (sz + CHAIN_SIZE) else sz + CHAIN_SIZE)"
  have le: "sz \<le> CHAIN_MAX - CHAIN_SIZE" and c: "c = \<lparr>buffer_len = k - CHAIN_SIZE, misalign = 0, stored = [], immutable = False\<rparr>"
    using assms by (auto simp: evbuffer_chain_new_def Let_def k_def split: if_splits)
  have "sz + CHAIN_SIZE \<le> k" by (simp add: k_def next_size_ge MIN_BUFFER_SIZE_def)
  moreover have "CHAIN_SIZE < k"
    using next_size_ge [of MIN_BUFFER_SIZE "sz + CHAIN_SIZE"] next_size_first [of MIN_BUFFER_SIZE "sz + CHAIN_SIZE"]
    by (auto simp: k_def MIN_BUFFER_SIZE_def CHAIN_MAX_def CHAIN_SIZE_def)
  moreover have "k \<le> CHAIN_MAX"
    using le next_size_less [of MIN_BUFFER_SIZE "sz + CHAIN_SIZE"]
    by (auto simp: k_def MIN_BUFFER_SIZE_def CHAIN_MAX_def CHAIN_SIZE_def)
  ultimately show "sz \<le> buffer_len c" "misalign c = 0" "stored c = []" "\<not> immutable c" "chain_ok c"
    by (auto simp: c chain_ok_def)
qed

lemma chain_new_room: "sz \<le> CHAIN_MAX - CHAIN_SIZE \<Longrightarrow> (\<And>n. room n) \<Longrightarrow> \<exists>c. evbuffer_chain_new room sz = Some c"
  by (simp add: evbuffer_chain_new_def Let_def)

lemma invoke_simps [simp]:
  "chains (evbuffer_invoke_callbacks b) = chains b" "last_with_data (evbuffer_invoke_callbacks b) = last_with_data b"
  "total_len (evbuffer_invoke_callbacks b) = total_len b" "freeze_start (evbuffer_invoke_callbacks b) = freeze_start b"
  "freeze_end (evbuffer_invoke_callbacks b) = freeze_end b" "watched (evbuffer_invoke_callbacks b) = watched b"
  by (simp_all add: evbuffer_invoke_callbacks_def Let_def)

lemma content_invoke [simp]: "content (evbuffer_invoke_callbacks b) = content b"
  by (simp add: content_def)

lemma tight_invoke [simp]: "evb_tight (evbuffer_invoke_callbacks b) = evb_tight b"
  by (simp add: evb_tight_def)

lemma ok_invoke [simp]: "evb_ok (evbuffer_invoke_callbacks b) = evb_ok b"
  by (simp add: evb_ok_def)

lemma content_chains: "content (b\<lparr>chains := cs\<rparr>) = concat (map stored cs)"
  by (simp add: content_def)

lemma content_upd [simp]:
  "content (b\<lparr>n_add_for_cb := k\<rparr>) = content b" "content (b\<lparr>n_del_for_cb := k\<rparr>) = content b"
  "content (b\<lparr>last_with_data := k\<rparr>) = content b" "content (b\<lparr>total_len := k\<rparr>) = content b"
  by (simp_all add: content_def)

lemma tight_upd [simp]: "evb_tight (b\<lparr>n_add_for_cb := k\<rparr>) = evb_tight b" "evb_tight (b\<lparr>n_del_for_cb := k\<rparr>) = evb_tight b"
  by (simp_all add: evb_tight_def)

lemma count_added_simps [simp]:
  "chains (count_added k b) = chains b" "last_with_data (count_added k b) = last_with_data b"
  "total_len (count_added k b) = total_len b + k" "freeze_start (count_added k b) = freeze_start b"
  "freeze_end (count_added k b) = freeze_end b" "content (count_added k b) = content b"
  by (simp_all add: count_added_def content_def)

lemma first_empty_last:
  "cs \<noteq> [] \<Longrightarrow> first_empty cs (length cs - 1) = (if off (last cs) = 0 then Some (length cs - 1) else None)"
proof (induction cs)
  case (Cons c cs)
  then show ?case by (cases cs) auto
qed simp

text \<open>Flags and counters that an operation on the chains leaves alone.\<close>

definition same_flags :: "evbuffer \<Rightarrow> evbuffer \<Rightarrow> bool" where
  "same_flags b b' \<longleftrightarrow> freeze_start b' = freeze_start b \<and> freeze_end b' = freeze_end b"

lemma same_flags_invoke [simp]: "same_flags b (evbuffer_invoke_callbacks b') = same_flags b b'"
  by (simp add: same_flags_def)

lemma insert_tight:
  assumes "evb_tight b" and "chain_ok c" and "stored c \<noteq> [] \<or> chains b = []"
  shows "\<exists>b'. evbuffer_chain_insert b c = Some b' \<and> evb_tight b' \<and> content b' = content b @ stored c \<and> same_flags b b'
    \<and> chains b' \<noteq> [] \<and> last (chains b') = c"
proof (cases "chains b = []")
  case True
  with assms show ?thesis by (auto simp: evbuffer_chain_insert_def evb_tight_def content_def same_flags_def)
next
  case False
  then have l: "last_with_data b < length (chains b)" "last_with_data b = length (chains b) - 1"
    using assms(1) by (auto simp: evb_tight_def)
  show ?thesis
  proof (cases "stored (last (chains b)) = []")
    case True
    have d: "drop (length (chains b) - 1) (chains b) = [last (chains b)]"
      using False by (metis append_butlast_last_id append_eq_conv_conj length_butlast)
    have "\<not> 1 < length (chains b)" using assms(1) True last_in_set [OF False] by (auto simp: evb_tight_def)
    with False have "length (chains b) = 1" by (cases "chains b") auto
    then obtain c0 where "chains b = [c0]" by (cases "chains b") auto
    with True assms first_empty_last [OF False] l d show ?thesis
      by (auto simp: evbuffer_chain_insert_def evbuffer_chains_all_empty_def evb_tight_def content_def same_flags_def)
  next
    case no: False
    then have "first_empty (chains b) (last_with_data b) = None" using first_empty_last [OF False] l(2) by simp
    then have "evbuffer_chain_insert b c = Some (b\<lparr>chains := chains b @ [c], last_with_data := length (chains b),
        total_len := total_len b + off c\<rparr>)"
      using l(1) assms(3) False by (simp add: evbuffer_chain_insert_def)
    moreover have "content b \<noteq> []" using no False by (cases "chains b" rule: rev_cases) (auto simp: content_def)
    then have "\<forall>c \<in> set (chains b). stored c \<noteq> []" using tight_nonempty [OF assms(1)] by blast
    ultimately show ?thesis using assms False by (auto simp: evb_tight_def content_def same_flags_def)
  qed
qed

text \<open>Replacing the last or the first chain.\<close>

lemma content_last: "chains b \<noteq> [] \<Longrightarrow> content b = concat (map stored (butlast (chains b))) @ stored (last (chains b))"
  by (cases "chains b" rule: rev_cases) (auto simp: content_def)

lemma set_last_simps [simp]:
  "chains (set_last c b) = butlast (chains b) @ [c]" "last_with_data (set_last c b) = last_with_data b"
  "total_len (set_last c b) = total_len b" "freeze_start (set_last c b) = freeze_start b" "freeze_end (set_last c b) = freeze_end b"
  "content (set_last c b) = concat (map stored (butlast (chains b))) @ stored c"
  by (simp_all add: set_last_def content_def)

lemma tight_set_last:
  assumes "evb_tight b" and "chains b \<noteq> []" and "chain_ok c" and "stored c = stored (last (chains b)) @ bs"
  shows "evb_tight (count_added (length bs) (set_last c b)) \<and> content (count_added (length bs) (set_last c b)) = content b @ bs"
proof -
  have "\<forall>x \<in> set (butlast (chains b)). chain_ok x \<and> (1 < length (chains b) \<longrightarrow> stored x \<noteq> [])"
    "1 < length (chains b) \<longrightarrow> stored (last (chains b)) \<noteq> []"
    using assms(1,2) by (auto simp: evb_tight_def dest: in_set_butlastD)
  moreover have "total_len b = length (content b)" using assms(1) by (simp add: evb_tight_def)
  moreover have "length (butlast (chains b)) = length (chains b) - 1" by simp
  ultimately show ?thesis
    using assms content_last [OF assms(2)] by (auto simp: evb_tight_def content_def)
qed

lemma add_to_last_tight:
  assumes "evb_tight b" and "chains b \<noteq> []" and "stored c = stored (last (chains b))"
    and "misalign c + off c + length bs \<le> buffer_len c" and "chain_ok c" and "\<not> immutable c"
  shows "\<exists>b'. add_to_last c bs b = Some (0, b') \<and> evb_tight b' \<and> content b' = content b @ bs \<and> same_flags b b'"
proof -
  have "chain_ok (c\<lparr>stored := stored c @ bs\<rparr>)" using assms(4-6) by (auto simp: chain_ok_def)
  moreover have "stored (c\<lparr>stored := stored c @ bs\<rparr>) = stored (last (chains b)) @ bs" using assms(3) by simp
  ultimately have "evb_tight (count_added (length bs) (set_last (c\<lparr>stored := stored c @ bs\<rparr>) b)) \<and>
    content (count_added (length bs) (set_last (c\<lparr>stored := stored c @ bs\<rparr>) b)) = content b @ bs"
    by (rule tight_set_last [OF assms(1,2)])
  with assms(4,6) show ?thesis by (simp add: add_to_last_def chain_append_def same_flags_def)
qed

lemma some_chain_tight:
  assumes "evb_tight b"
  shows "(some_chain room b k = Some None \<and> evbuffer_chain_new room k = None)
    \<or> (\<exists>b'. some_chain room b k = Some (Some b') \<and> evb_tight b' \<and> content b' = content b \<and> same_flags b b' \<and> chains b' \<noteq> []
        \<and> total_len b' = total_len b
        \<and> (chains b = [] \<longrightarrow> k \<le> buffer_len (last (chains b')) \<and> misalign (last (chains b')) = 0 \<and> stored (last (chains b')) = []
             \<and> \<not> immutable (last (chains b'))))"
proof (cases "chains b = []")
  case False
  with assms show ?thesis by (simp add: some_chain_def same_flags_def)
next
  case True
  show ?thesis
  proof (cases "evbuffer_chain_new room k")
    case (Some c)
    note new = chain_new_ok [OF Some]
    obtain b' where "evbuffer_chain_insert b c = Some b'" "evb_tight b'" "content b' = content b @ stored c" "same_flags b b'"
      "chains b' \<noteq> []" "last (chains b') = c" using insert_tight [OF assms new(5)] True by auto
    moreover from this have "total_len b' = total_len b" using assms new(3) by (simp add: evb_tight_def)
    ultimately show ?thesis using True Some new by (simp add: some_chain_def)
  qed (use True in \<open>simp add: some_chain_def\<close>)
qed

text \<open>Adding \<open>bs\<close>, all of it or nothing.\<close>

definition appends :: "evbuffer \<Rightarrow> byte_list \<Rightarrow> (int \<times> evbuffer) option \<Rightarrow> bool" where
  "appends b bs res \<longleftrightarrow> (\<exists>r b'. res = Some (r, b') \<and> evb_tight b' \<and> same_flags b b'
     \<and> (r = 0 \<and> content b' = content b @ bs \<or> r = -1 \<and> content b' = content b))"

lemma appends_from: "appends b1 bs res \<Longrightarrow> content b1 = content b \<Longrightarrow> same_flags b b1 \<Longrightarrow> appends b bs res"
  by (simp add: appends_def same_flags_def)

lemma appends_done:
  "\<exists>b'. res = Some (0, b') \<and> evb_tight b' \<and> content b' = content b @ bs \<and> same_flags b b' \<Longrightarrow> appends b bs res"
  by (auto simp: appends_def)

lemma add_behind_tight:
  assumes "evb_tight b" and "chains b \<noteq> []" and "chain_remain (last (chains b)) < length bs"
  shows "appends b bs (add_behind room b bs)"
proof -
  let ?c = "last (chains b)"
  let ?size = "max (if buffer_len ?c \<le> MAX_AUTO_SIZE div 2 then 2 * buffer_len ?c else buffer_len ?c) (length bs)"
  have ok: "chain_ok ?c" using assms(1,2) by (auto simp: evb_tight_def)
  then have c: "misalign ?c + off ?c \<le> buffer_len ?c" by (simp add: chain_ok_def)
  show ?thesis
  proof (cases "evbuffer_chain_new room ?size")
    case None
    with assms show ?thesis by (auto simp: add_behind_def Let_def same_flags_def appends_def)
  next
    case (Some tmp)
    note new = chain_new_ok [OF Some]
    let ?rem = "chain_remain ?c"
    have rem: "misalign ?c + off ?c + ?rem \<le> buffer_len ?c" using c by (auto simp: chain_remain_def)
    let ?c' = "?c\<lparr>stored := stored ?c @ take ?rem bs\<rparr>" and ?tmp = "tmp\<lparr>stored := drop ?rem bs\<rparr>"
    have imm: "immutable ?c \<Longrightarrow> ?rem = 0" by (simp add: chain_remain_def)
    then have app: "chain_append ?c (take ?rem bs) = Some ?c'" "chain_append tmp (drop ?rem bs) = Some ?tmp"
      using rem assms(3) new(1-4) by (auto simp: chain_append_def)
    have ok: "chain_ok ?c'" "chain_ok ?tmp" using rem assms(3) ok new imm by (auto simp: chain_ok_def)
    let ?b = "count_added ?rem (set_last ?c' b)"
    have "evb_tight ?b \<and> content ?b = content b @ take ?rem bs"
      using tight_set_last [OF assms(1,2) ok(1), of "take ?rem bs"] assms(3) by simp
    moreover have "stored ?tmp \<noteq> []" using assms(3) by simp
    ultimately obtain b2 where "evbuffer_chain_insert ?b ?tmp = Some b2" "evb_tight b2"
      "content b2 = (content b @ take ?rem bs) @ drop ?rem bs" "same_flags ?b b2"
      using insert_tight [OF _ ok(2), of ?b] by auto
    with Some app show ?thesis
      by (intro appends_done) (simp add: add_behind_def Let_def same_flags_def)
  qed
qed

lemma evbuffer_add_tight:
  assumes "evb_tight b" and "bs \<noteq> []"
  shows "appends b bs (evbuffer_add room b bs)"
proof (cases "freeze_end b \<or> SIZE_MAX - total_len b < length bs")
  case True
  with assms show ?thesis by (auto simp: evbuffer_add_def same_flags_def appends_def)
next
  case False
  consider "some_chain room b (length bs) = Some None"
    | b1 where "some_chain room b (length bs) = Some (Some b1)" "evb_tight b1" "content b1 = content b" "same_flags b b1" "chains b1 \<noteq> []"
    using some_chain_tight [OF assms(1), of room "length bs"] by blast
  then show ?thesis
  proof cases
    case 1
    with False assms show ?thesis by (auto simp: evbuffer_add_def same_flags_def appends_def)
  next
    case (2 b1)
    let ?c = "last (chains b1)"
    have ok: "chain_ok ?c" using 2(2,5) by (auto simp: evb_tight_def)
    then have c: "misalign ?c + off ?c \<le> buffer_len ?c" by (auto simp: chain_ok_def)
    have add: "evbuffer_add room b bs =
      (if \<not> immutable ?c \<and> length bs \<le> chain_remain ?c then add_to_last ?c bs b1
       else if \<not> immutable ?c \<and> evbuffer_chain_should_realign ?c (length bs) then add_to_last (evbuffer_chain_align ?c) bs b1
       else add_behind room b1 bs)" using False 2(1) by (simp add: evbuffer_add_def Let_def)
    consider (fits) "\<not> immutable ?c \<and> length bs \<le> chain_remain ?c"
      | (align) "\<not> (\<not> immutable ?c \<and> length bs \<le> chain_remain ?c)" "\<not> immutable ?c \<and> evbuffer_chain_should_realign ?c (length bs)"
      | (more) "\<not> (\<not> immutable ?c \<and> length bs \<le> chain_remain ?c)" "\<not> (\<not> immutable ?c \<and> evbuffer_chain_should_realign ?c (length bs))" by blast
    then show ?thesis
    proof cases
      case fits
      with c have "misalign ?c + off ?c + length bs \<le> buffer_len ?c" by (auto simp: chain_remain_def)
      then have "appends b1 bs (add_to_last ?c bs b1)" using fits by (intro appends_done add_to_last_tight [OF 2(2,5) refl _ ok]) auto
      with fits add show ?thesis
        by (intro appends_from [OF _ 2(3,4)]) simp
    next
      case align
      then have "misalign (evbuffer_chain_align ?c) + off (evbuffer_chain_align ?c) + length bs \<le> buffer_len (evbuffer_chain_align ?c)"
        using c by (auto simp: evbuffer_chain_align_def evbuffer_chain_should_realign_def)
      moreover have "chain_ok (evbuffer_chain_align ?c)" "\<not> immutable (evbuffer_chain_align ?c)"
        using ok align by (auto simp: chain_ok_def evbuffer_chain_align_def)
      ultimately have "appends b1 bs (add_to_last (evbuffer_chain_align ?c) bs b1)"
        by (intro appends_done add_to_last_tight [OF 2(2,5)]) (simp_all add: evbuffer_chain_align_def)
      with align add show ?thesis
        by (intro appends_from [OF _ 2(3,4)]) (simp add: evbuffer_chain_align_def)
    next
      case more
      then have "chain_remain ?c < length bs" using assms(2) by (auto simp: chain_remain_def)
      from add_behind_tight [OF 2(2,5) this, of room] more add show ?thesis by (intro appends_from [OF _ 2(3,4)]) auto
    qed
  qed
qed

text \<open>When memory does not run out, adding succeeds.\<close>

lemma evbuffer_add_succeeds:
  assumes "evb_tight b" and "\<And>k. room k" and "\<not> freeze_end b" and "total_len b + length bs \<le> CHAIN_MAX - CHAIN_SIZE"
    and "evbuffer_add room b bs = Some (r, b')"
  shows "r = 0"
proof -
  have size: "\<not> SIZE_MAX - total_len b < length bs" using assms(4) by (simp add: SIZE_MAX_def CHAIN_MAX_def)
  obtain b1 where b1: "some_chain room b (length bs) = Some (Some b1)" "evb_tight b1" "chains b1 \<noteq> []"
    using some_chain_tight [OF assms(1), of room "length bs"] chain_new_room [of "length bs" room] assms(2,4) by auto
  let ?c = "last (chains b1)"
  have "buffer_len ?c \<le> CHAIN_MAX - CHAIN_SIZE" using b1(2,3) by (auto simp: evb_tight_def chain_ok_def)
  then have "max (if buffer_len ?c \<le> MAX_AUTO_SIZE div 2 then 2 * buffer_len ?c else buffer_len ?c) (length bs) \<le> CHAIN_MAX - CHAIN_SIZE"
    using assms(4) by (auto simp: MAX_AUTO_SIZE_def CHAIN_MAX_def CHAIN_SIZE_def)
  with chain_new_room assms(2) obtain t where "evbuffer_chain_new room
      (max (if buffer_len ?c \<le> MAX_AUTO_SIZE div 2 then 2 * buffer_len ?c else buffer_len ?c) (length bs)) = Some t" by blast
  with assms(3,5) size b1(1) show ?thesis
    by (auto simp: evbuffer_add_def add_to_last_def add_behind_def Let_def split: if_splits option.splits)
qed

text \<open>Memory is short, or too much is asked for.\<close>

definition scarce :: "bool \<Rightarrow> nat \<Rightarrow> bool" where
  "scarce plenty len \<longleftrightarrow> \<not> plenty \<or> CHAIN_MAX - CHAIN_SIZE < len"

lemma scarce_new: "evbuffer_chain_new room k = None \<Longrightarrow> k \<le> len \<Longrightarrow> scarce (\<forall>n. room n) len"
  using chain_new_room [of k room] by (fastforce simp: scarce_def)

lemma evbuffer_add_fails:
  assumes "evb_tight b" and "evbuffer_add room b bs = Some (-1, b')"
  shows "freeze_end b \<or> scarce (\<forall>n. room n) (length (content b) + length bs)"
proof (rule ccontr)
  assume "\<not> ?thesis"
  moreover have "total_len b = length (content b)" using assms(1) by (simp add: evb_tight_def)
  ultimately have "(-1 :: int) = 0"
    by (intro evbuffer_add_succeeds [OF assms(1) _ _ _ assms(2)]) (auto simp: scarce_def)
  then show False by simp
qed

text \<open>Draining and copying.\<close>

lemma content_Cons: "chains b = c # cs \<Longrightarrow> content b = stored c @ concat (map stored cs)"
  by (simp add: content_def)

lemma drain_loop_drops:
  assumes "len < length (concat (map stored cs))" and "lwd = length cs - 1" and "\<forall>c \<in> set cs. chain_ok c \<and> stored c \<noteq> []"
  shows "\<exists>cs'. drain_loop cs lwd len = Some (cs', length cs' - 1) \<and> concat (map stored cs') = drop len (concat (map stored cs))
    \<and> (\<forall>c \<in> set cs'. chain_ok c \<and> stored c \<noteq> [])"
  using assms
proof (induction cs lwd len rule: drain_loop.induct)
  case (2 c cs lwd len)
  show ?case
  proof (cases "off c \<le> len")
    case True
    then have "len - off c < length (concat (map stored cs))" using "2.prems"(1) by (simp add: less_diff_conv2 add.commute)
    moreover from this have ne: "cs \<noteq> []" by auto
    moreover have "lwd - 1 = length cs - 1" using "2.prems"(2) by simp
    ultimately obtain cs' where "drain_loop cs (lwd - 1) (len - off c) = Some (cs', length cs' - 1)"
      "concat (map stored cs') = drop (len - off c) (concat (map stored cs))"
      "\<forall>c \<in> set cs'. chain_ok c \<and> stored c \<noteq> []"
      using "2.IH" [OF True] "2.prems"(3) by auto
    with True ne show ?thesis by (intro exI [of _ cs']) (simp add: drop_append)
  next
    case False
    with "2.prems"(2,3) show ?thesis by (auto simp: chain_ok_def)
  qed
qed simp

lemma evbuffer_drain_tight:
  assumes "evb_tight b"
  shows "\<exists>b'. evbuffer_drain b len = Some (if total_len b \<noteq> 0 \<and> freeze_start b then -1 else 0, b') \<and> evb_tight b' \<and> same_flags b b'
    \<and> content b' = (if freeze_start b then content b else drop len (content b))"
proof -
  consider (none) "total_len b = 0 \<or> freeze_start b" | (all) "total_len b \<noteq> 0 \<and> \<not> freeze_start b" "total_len b \<le> len"
    | (some) "total_len b \<noteq> 0 \<and> \<not> freeze_start b" "len < total_len b" by linarith
  then show ?thesis
  proof cases
    case none
    with assms show ?thesis by (auto simp: evbuffer_drain_def same_flags_def evb_tight_def)
  next
    case all
    with assms show ?thesis by (auto simp: evbuffer_drain_def same_flags_def evb_tight_def content_def)
  next
    case some
    then have "\<forall>c \<in> set (chains b). chain_ok c \<and> stored c \<noteq> []"
      using assms some tight_nonempty [OF assms] by (auto simp: evb_tight_def)
    then obtain cs' where r: "drain_loop (chains b) (last_with_data b) len = Some (cs', length cs' - 1)"
      "concat (map stored cs') = drop len (content b)" "\<forall>c \<in> set cs'. chain_ok c \<and> stored c \<noteq> []"
      using drain_loop_drops [of len "chains b" "last_with_data b"] assms some by (auto simp: evb_tight_def content_def)
    have "evbuffer_drain b len = Some (0, evbuffer_invoke_callbacks (b\<lparr>chains := cs', last_with_data := length cs' - 1,
        total_len := total_len b - len, n_del_for_cb := n_del_for_cb b + len\<rparr>))"
      using some r(1) by (simp add: evbuffer_drain_def)
    moreover have "total_len b - len = length (concat (map stored cs'))" using assms r(2) by (simp add: evb_tight_def)
    ultimately show ?thesis
      using some r(2,3) by (simp add: same_flags_def evb_tight_def) (simp add: content_def)
  qed
qed

lemma copy_loop_takes: "len \<le> length (concat (map stored cs)) \<Longrightarrow> copy_loop cs len = Some (take len (concat (map stored cs)))"
proof (induction cs len rule: copy_loop.induct)
  case (2 c cs len)
  then show ?case by (auto simp: take_append)
qed simp

lemma evbuffer_copyout_takes:
  "total_len b = length (content b) \<Longrightarrow> evbuffer_copyout b len =
     Some (if content b = [] \<or> len = 0 then (0, []) else if freeze_start b then (-1, [])
       else (int (min len (length (content b))), take len (content b)))"
proof -
  assume t: "total_len b = length (content b)"
  have "copy_loop (chains b) (min len (length (content b))) = Some (take (min len (length (content b))) (content b))"
    unfolding content_def by (rule copy_loop_takes) simp
  then show ?thesis by (auto simp: evbuffer_copyout_def Let_def t min_def)
qed

lemma evbuffer_remove_tight:
  assumes "evb_tight b"
  shows "\<exists>r bs b'. evbuffer_remove b len = Some (r, bs, b') \<and> evb_tight b' \<and> same_flags b b' \<and>
    (if freeze_start b \<and> content b \<noteq> [] \<and> len \<noteq> 0 then r = -1 \<and> content b' = content b
     else r = to_int (length bs) \<and> bs = take len (content b) \<and> content b' = drop len (content b))"
proof -
  have t: "total_len b = length (content b)" using assms by (simp add: evb_tight_def)
  consider (zero) "content b = [] \<or> len = 0" | (frozen) "content b \<noteq> [] \<and> len \<noteq> 0" "freeze_start b"
    | (take) "content b \<noteq> [] \<and> len \<noteq> 0" "\<not> freeze_start b" by blast
  then show ?thesis
  proof cases
    case take
    let ?k = "min len (length (content b))"
    obtain b' where "evbuffer_drain b ?k = Some (0, b')" "evb_tight b'" "same_flags b b'" "content b' = drop ?k (content b)"
      using evbuffer_drain_tight [OF assms, of ?k] take by auto
    moreover have "drop ?k (content b) = drop len (content b)" by (simp add: min_def)
    ultimately show ?thesis
      using take evbuffer_copyout_takes [OF t, of len] by (simp add: evbuffer_remove_def min.commute)
  qed (use assms evbuffer_copyout_takes [OF t, of len] in \<open>auto simp: evbuffer_remove_def same_flags_def\<close>)
qed

text \<open>Prepending.\<close>

lemma set_first_simps [simp]:
  "chains (set_first c b) = c # tl (chains b)" "last_with_data (set_first c b) = last_with_data b"
  "total_len (set_first c b) = total_len b" "freeze_start (set_first c b) = freeze_start b" "freeze_end (set_first c b) = freeze_end b"
  "content (set_first c b) = stored c @ concat (map stored (tl (chains b)))"
  by (simp_all add: set_first_def content_def)

lemma content_hd: "chains b \<noteq> [] \<Longrightarrow> content b = stored (hd (chains b)) @ concat (map stored (tl (chains b)))"
  by (cases "chains b") (auto simp: content_def)

lemma tight_set_first:
  assumes "evb_tight b" and "chains b \<noteq> []" and "chain_ok c" and "stored c = bs @ stored (hd (chains b))"
  shows "evb_tight (count_added (length bs) (set_first c b)) \<and> content (count_added (length bs) (set_first c b)) = bs @ content b"
proof -
  have "\<forall>x \<in> set (tl (chains b)). chain_ok x" using assms(1) by (auto simp: evb_tight_def dest: list.set_sel(2) [OF assms(2)])
  moreover have "total_len b = length (content b)" using assms(1) by (simp add: evb_tight_def)
  ultimately show ?thesis
    using assms content_hd [OF assms(2)] by (cases "chains b") (auto simp: evb_tight_def)
qed

lemma front_chain_simps [simp]:
  "stored (front_chain b) = stored (hd (chains b))" "immutable (front_chain b) = immutable (hd (chains b))"
  "buffer_len (front_chain b) = buffer_len (hd (chains b))"
  by (simp_all add: front_chain_def Let_def)

lemma front_chain_ok: "evb_tight b \<Longrightarrow> chains b \<noteq> [] \<Longrightarrow> chain_ok (front_chain b)"
  by (cases "chains b") (auto simp: evb_tight_def chain_ok_def front_chain_def Let_def)

lemma prepend_front_tight:
  assumes "evb_tight b" and "chains b \<noteq> []" and "length bs \<le> front_room b"
  shows "\<exists>b'. prepend_front b bs = Some b' \<and> evb_tight b' \<and> content b' = bs @ content b \<and> same_flags b b'
    \<and> chains b' \<noteq> [] \<and> off (hd (chains b')) = length bs + off (hd (chains b))"
proof -
  let ?c = "front_chain b"
  let ?c' = "?c\<lparr>misalign := misalign ?c - length bs, stored := bs @ stored ?c\<rparr>"
  have le: "length bs \<le> misalign ?c" "immutable ?c \<longrightarrow> bs = []" using assms(3) by (auto simp: front_room_def split: if_splits)
  have "chain_ok ?c'" using front_chain_ok [OF assms(1,2)] le by (auto simp: chain_ok_def)
  from tight_set_first [OF assms(1,2) this, of bs] le show ?thesis
    by (simp add: prepend_front_def chain_prepend_def same_flags_def)
qed

lemma prepend_chain_tight:
  assumes "evb_tight b" and "chains b \<noteq> []" and "off (hd (chains b)) \<noteq> 0" and "bs \<noteq> []"
  shows "prepend_chain room b bs = Some (-1, b) \<or> (\<exists>b'. prepend_chain room b bs = Some (0, b') \<and> evb_tight b'
    \<and> content b' = bs @ content b \<and> same_flags b b')"
proof (cases "evbuffer_chain_new room (length bs)")
  case (Some tmp)
  note new = chain_new_ok [OF Some]
  have "chain_ok (tmp\<lparr>misalign := buffer_len tmp - length bs, stored := bs\<rparr>)"
    using new assms(4) by (auto simp: chain_ok_def)
  moreover have "\<forall>c \<in> set (chains b). stored c \<noteq> []"
    using tight_nonempty [OF assms(1)] assms(3) by (simp add: content_hd [OF assms(2)])
  ultimately show ?thesis using Some new(1) assms
    by (cases "chains b") (auto simp: prepend_chain_def evb_tight_def content_def same_flags_def)
qed (simp add: prepend_chain_def)

text \<open>Prepending yields \<open>bs\<close> before the bytes, or fails with nothing or only an end of \<open>bs\<close> put there.\<close>

lemma evbuffer_prepend_tight:
  assumes "evb_tight b" and "bs \<noteq> []"
  shows "\<exists>r b'. evbuffer_prepend room b bs = Some (r, b') \<and> evb_tight b' \<and> same_flags b b'
    \<and> (r = 0 \<and> content b' = bs @ content b \<or> r = -1 \<and> (\<exists>k < length bs. content b' = drop (length bs - k) bs @ content b))"
proof (cases "freeze_start b \<or> SIZE_MAX - total_len b < length bs")
  case True
  with assms show ?thesis
    by (intro exI [of _ "-1"] exI [of _ b]) (auto simp: evbuffer_prepend_def same_flags_def intro!: exI [of _ 0])
next
  case False
  consider "some_chain room b (length bs) = Some None"
    | b1 where "some_chain room b (length bs) = Some (Some b1)" "evb_tight b1" "content b1 = content b" "same_flags b b1" "chains b1 \<noteq> []"
    using some_chain_tight [OF assms(1), of room "length bs"] by blast
  then show ?thesis
  proof cases
    case 1
    with False assms show ?thesis
      by (intro exI [of _ "-1"] exI [of _ b]) (auto simp: evbuffer_prepend_def same_flags_def intro!: exI [of _ 0])
  next
    case (2 b1)
    let ?k = "front_room b1" and ?imm = "immutable (hd (chains b1))"
    let ?more = "length bs - ?k"
    let ?rest = "case (if ?imm then Some b1 else prepend_front b1 (drop ?more bs)) of None \<Rightarrow> None | Some b \<Rightarrow>
          prepend_chain room b (take ?more bs)"
    have step: "evbuffer_prepend room b bs =
      (if \<not> ?imm \<and> length bs \<le> ?k then map_option (\<lambda>b. (0, evbuffer_invoke_callbacks b)) (prepend_front b1 bs) else ?rest)"
      using False 2(1) by (simp add: evbuffer_prepend_def Let_def)
    have sf: "same_flags b b' = same_flags b1 b'" for b' using 2(4) by (simp add: same_flags_def)
    show ?thesis
    proof (cases "\<not> ?imm \<and> length bs \<le> ?k")
      case True
      then show ?thesis using prepend_front_tight [OF 2(2,5), of bs] 2(3) sf step by (auto simp: same_flags_def)
    next
      case no: False
      have hd: "chain_ok (hd (chains b1))" using 2(2,5) by (simp add: evb_tight_def)
      have k: "?k < length bs" using no assms(2) by (auto simp: front_room_def)
      have "\<exists>b2. (if ?imm then Some b1 else prepend_front b1 (drop ?more bs)) = Some b2 \<and> evb_tight b2
        \<and> content b2 = drop ?more bs @ content b1 \<and> same_flags b1 b2 \<and> chains b2 \<noteq> [] \<and> off (hd (chains b2)) \<noteq> 0"
      proof (cases ?imm)
        case True
        then show ?thesis using 2 hd by (simp add: same_flags_def front_room_def chain_ok_def)
      next
        case False
        have "length (drop ?more bs) = ?k" using k by simp
        moreover have "?k + off (hd (chains b1)) \<noteq> 0" using False hd by (auto simp: front_room_def front_chain_def Let_def chain_ok_def)
        ultimately show ?thesis using prepend_front_tight [OF 2(2,5), of "drop ?more bs"] False by auto
      qed
      then obtain b2 where b2: "(if ?imm then Some b1 else prepend_front b1 (drop ?more bs)) = Some b2" "evb_tight b2"
        "content b2 = drop ?more bs @ content b1" "same_flags b1 b2" "chains b2 \<noteq> []" "off (hd (chains b2)) \<noteq> 0" by blast
      have p: "evbuffer_prepend room b bs = prepend_chain room b2 (take ?more bs)"
        unfolding step if_not_P [OF no] b2(1) by simp
      have "take ?more bs \<noteq> []" using k by auto
      from prepend_chain_tight [OF b2(2,5,6) this, of room] show ?thesis
      proof (elim disjE exE conjE)
        assume "prepend_chain room b2 (take ?more bs) = Some (-1, b2)"
        with p b2 2(3) sf k show ?thesis by (intro exI [of _ "-1"] exI [of _ b2]) auto
      next
        fix b' assume "prepend_chain room b2 (take ?more bs) = Some (0, b')" "evb_tight b'" "content b' = take ?more bs @ content b2"
          "same_flags b2 b'"
        with p b2 2(3) sf show ?thesis
          by (intro exI [of _ 0] exI [of _ b']) (simp add: same_flags_def flip: append_assoc)
      qed
    qed
  qed
qed

text \<open>Pulling up.\<close>

lemma pull_loop_takes:
  assumes "sz \<le> length (concat (map stored cs))" and "\<forall>c \<in> set cs. chain_ok c \<and> stored c \<noteq> []"
  shows "\<exists>rest. pull_loop cs sz = (take sz (concat (map stored cs)), rest, length cs - length rest)
    \<and> concat (map stored rest) = drop sz (concat (map stored cs)) \<and> (\<forall>c \<in> set rest. chain_ok c \<and> stored c \<noteq> [])
    \<and> length rest \<le> length cs"
  using assms
proof (induction cs sz rule: pull_loop.induct)
  case (2 c cs sz)
  show ?case
  proof (cases "off c \<le> sz")
    case True
    have le: "sz - off c \<le> length (concat (map stored cs))" using "2.prems"(1) by simp
    obtain rest where r: "pull_loop cs (sz - off c) = (take (sz - off c) (concat (map stored cs)), rest, length cs - length rest)"
      "concat (map stored rest) = drop (sz - off c) (concat (map stored cs))" "\<forall>c \<in> set rest. chain_ok c \<and> stored c \<noteq> []"
      "length rest \<le> length cs"
      using "2.IH" [OF True le] "2.prems"(2) by auto
    with True show ?thesis by (intro exI [of _ rest]) (auto simp: take_append drop_append)
  next
    case False
    with "2.prems"(2) show ?thesis by (auto simp: chain_ok_def)
  qed
qed simp

definition pulled_up :: "evbuffer \<Rightarrow> nat \<Rightarrow> (byte_list option \<times> evbuffer) option \<Rightarrow> bool" where
  \<comment> \<open>the first \<open>k\<close> bytes are in the first chain, at the pointer returned; nothing else has changed\<close>
  "pulled_up b k res \<longleftrightarrow> (\<exists>b'. res = Some (Some (stored (hd (chains b'))), b') \<and> evb_tight b' \<and> content b' = content b
     \<and> same_flags b b' \<and> take k (stored (hd (chains b'))) = take k (content b) \<and> k \<le> off (hd (chains b')))"

lemma pull_pointer:
  fixes l :: nat
  shows "0 < n \<Longrightarrow> r \<le> n \<Longrightarrow> l = f + n - 1 \<Longrightarrow> (r \<noteq> 0 \<longrightarrow> P) \<Longrightarrow> (f = 0 \<longrightarrow> r < n) \<Longrightarrow>
    (if f \<le> l \<and> l < f + (n - r) then 0 else if f < l \<and> l \<le> f + (n - r) then (if r \<noteq> 0 \<and> P then 1 else 0)
     else if l = 0 then 0 else l + 1 - f - (n - r)) = r"
  by auto

lemma pull_into_tight:
  assumes "evb_tight b" and "cs = drop f (chains b)" and "f < length (chains b) \<or> f = 1 \<and> length (chains b) = 1"
    and "content b = stored tmp @ concat (map stored cs)" and "chain_ok tmp"
    and "misalign tmp + k \<le> buffer_len tmp" and "\<not> immutable tmp" and "off tmp < k" and "k \<le> length (content b)"
    and "f = 0 \<Longrightarrow> off (hd cs) \<le> k - off tmp"
  shows "pulled_up b k (pull_into b f tmp cs k)"
proof -
  let ?C = "concat (map stored cs)"
  have "content b \<noteq> []" using assms(8,9) by auto
  then have ok: "\<forall>c \<in> set cs. chain_ok c \<and> stored c \<noteq> []"
    using assms(1,2) tight_nonempty [OF assms(1)] by (auto simp: evb_tight_def dest: in_set_dropD)
  have le: "k - off tmp \<le> length ?C" using assms(4,9) by simp
  from pull_loop_takes [OF this ok] obtain rest where
    r: "pull_loop cs (k - off tmp) = (take (k - off tmp) ?C, rest, length cs - length rest)"
      "concat (map stored rest) = drop (k - off tmp) ?C" "\<forall>c \<in> set rest. chain_ok c \<and> stored c \<noteq> []" "length rest \<le> length cs" by blast
  let ?tmp = "tmp\<lparr>stored := stored tmp @ take (k - off tmp) ?C\<rparr>"
  have app: "chain_append tmp (take (k - off tmp) ?C) = Some ?tmp"
    using le assms(6-8) by (simp add: chain_append_def)
  have tmp: "chain_ok ?tmp" using le assms(5-8) by (simp add: chain_ok_def)
  let ?b = "b\<lparr>chains := ?tmp # rest, last_with_data := length rest\<rparr>"
  have ne: "cs \<noteq> []" using le assms(8) by auto
  have len: "length (chains b) = f + length cs" using assms(2,3) by auto
  have l: "last_with_data b = f + length cs - 1" using assms(1) len by (simp add: evb_tight_def)
  have "f = 0 \<longrightarrow> length rest < length cs"
  proof
    assume "f = 0"
    with assms(10) r(1) ne show "length rest < length cs" by (cases cs) (auto split: prod.splits)
  qed
  moreover have "0 < length cs" "length rest \<noteq> 0 \<longrightarrow> off (hd rest) \<noteq> 0" using ne r(3) by (auto simp: hd_in_set)
  ultimately have p: "(if f \<le> last_with_data b \<and> last_with_data b < f + (length cs - length rest) then 0
      else if f < last_with_data b \<and> last_with_data b \<le> f + (length cs - length rest)
        then (if rest \<noteq> [] \<and> off (hd rest) \<noteq> 0 then 1 else 0)
      else if last_with_data b = 0 then 0 else last_with_data b + 1 - f - (length cs - length rest)) = length rest"
    using pull_pointer [OF _ r(4) l, of "off (hd rest) \<noteq> 0"] unfolding length_0_conv by blast
  then have "pull_into b f tmp cs k = Some (Some (stored ?tmp), ?b)"
    unfolding pull_into_def r(1) prod.case app option.case Let_def p by simp
  moreover have c: "content ?b = content b"
    by (simp add: content_def r(2)) (simp add: assms(4) [unfolded content_def])
  moreover have "stored ?tmp \<noteq> []" using le ne ok assms(8) by (cases cs) auto
  ultimately show ?thesis
    using tmp le r(3) assms(1,4,8) by (auto simp: pulled_up_def evb_tight_def same_flags_def)
qed

lemma evbuffer_pullup_tight:
  assumes "evb_tight b" and "k = (if sz < 0 then length (content b) else nat sz)"
  shows "if k = 0 \<or> length (content b) < k then evbuffer_pullup room b sz = Some (None, b)
    else pulled_up b k (evbuffer_pullup room b sz)
      \<or> evbuffer_chain_new room k = None \<and> evbuffer_pullup room b sz = Some (None, b)"
proof -
  have t: "total_len b = length (content b)" using assms(1) by (simp add: evb_tight_def)
  then have k: "(if sz < 0 then total_len b else nat sz) = k" using assms(2) by simp
  consider (out) "k = 0 \<or> length (content b) < k" | (there) c cs where "0 < k" "k \<le> length (content b)" "chains b = c # cs" "k \<le> off c"
    | (pull) c cs where "0 < k" "k \<le> length (content b)" "chains b = c # cs" "off c < k"
  proof (cases "chains b")
    case (Cons c cs)
    then show ?thesis using out there pull by (cases "0 < k \<and> k \<le> length (content b)"; cases "k \<le> off c") auto
  qed (use out in \<open>auto simp: content_def\<close>)
  then show ?thesis
  proof cases
    case out
    then show ?thesis unfolding evbuffer_pullup_def k Let_def by (simp add: t)
  next
    case (there c cs)
    then show ?thesis unfolding evbuffer_pullup_def k Let_def
      using assms(1) by (simp add: t same_flags_def pulled_up_def content_Cons)
  next
    case (pull c cs)
    have step: "evbuffer_pullup room b sz = (if k \<le> buffer_len c - misalign c then pull_into b 1 c cs k
        else case evbuffer_chain_new room k of None \<Rightarrow> Some (None, b) | Some tmp \<Rightarrow> pull_into b 0 tmp (chains b) k)"
      unfolding evbuffer_pullup_def k Let_def using pull t by simp
    have c: "chain_ok c" using assms(1) pull(3) by (simp add: evb_tight_def)
    show ?thesis
    proof (cases "k \<le> buffer_len c - misalign c")
      case True
      with pull c have "pulled_up b k (pull_into b 1 c cs k)"
        by (intro pull_into_tight [OF assms(1)]) (auto simp: content_Cons chain_ok_def)
      with True pull step show ?thesis by simp
    next
      case False
      show ?thesis
      proof (cases "evbuffer_chain_new room k")
        case (Some tmp)
        with pull chain_new_ok [OF Some] have "pulled_up b k (pull_into b 0 tmp (chains b) k)"
          by (intro pull_into_tight [OF assms(1)]) (auto simp: content_def)
        with False Some pull step show ?thesis by simp
      qed (use False pull step in simp)
    qed
  qed
qed

text \<open>Moving whole buffers.\<close>

lemma moved_simps [simp]:
  "moved b c k = (evbuffer_invoke_callbacks (b\<lparr>n_add_for_cb := n_add_for_cb b + k\<rparr>),
    evbuffer_invoke_callbacks (c\<lparr>n_del_for_cb := n_del_for_cb c + k\<rparr>))"
  by (simp add: moved_def)

lemma zero_chain_tight: "evb_tight (ZERO_CHAIN b) \<and> content (ZERO_CHAIN b) = [] \<and> same_flags b (ZERO_CHAIN b)"
  by (simp add: ZERO_CHAIN_def evb_tight_def content_def same_flags_def)

lemma copy_chain_tight:
  "evb_tight src \<Longrightarrow> evb_tight (COPY_CHAIN dst src) \<and> content (COPY_CHAIN dst src) = content src \<and> same_flags dst (COPY_CHAIN dst src)"
  by (simp add: COPY_CHAIN_def evb_tight_def content_def same_flags_def)

lemma append_chain_tight:
  assumes "evb_tight dst" and "evb_tight src" and "content src \<noteq> []" and "content dst \<noteq> []"
  shows "evb_tight (APPEND_CHAIN dst src) \<and> content (APPEND_CHAIN dst src) = content dst @ content src \<and> same_flags dst (APPEND_CHAIN dst src)"
    "evb_tight (PREPEND_CHAIN dst src) \<and> content (PREPEND_CHAIN dst src) = content src @ content dst \<and> same_flags dst (PREPEND_CHAIN dst src)"
proof -
  have "\<forall>c \<in> set (chains dst) \<union> set (chains src). stored c \<noteq> []" using tight_nonempty assms by blast
  moreover have "chains dst \<noteq> []" "chains src \<noteq> []" using assms(3,4) by (auto simp: content_def)
  ultimately show "evb_tight (APPEND_CHAIN dst src) \<and> content (APPEND_CHAIN dst src) = content dst @ content src \<and> same_flags dst (APPEND_CHAIN dst src)"
    "evb_tight (PREPEND_CHAIN dst src) \<and> content (PREPEND_CHAIN dst src) = content src @ content dst \<and> same_flags dst (PREPEND_CHAIN dst src)"
    using assms(1,2) by (auto simp: APPEND_CHAIN_def PREPEND_CHAIN_def evb_tight_def content_def same_flags_def le_diff_conv
        simp flip: length_greater_0_conv)
qed

lemma tight_length: "evb_tight b \<Longrightarrow> total_len b = 0 \<longleftrightarrow> content b = []"
  by (simp add: evb_tight_def)

definition moves :: "evbuffer \<Rightarrow> evbuffer \<Rightarrow> evbuffer \<Rightarrow> evbuffer \<Rightarrow> byte_list \<Rightarrow> byte_list \<Rightarrow> bool" where
  \<comment> \<open>the buffers stay well-formed and have these bytes afterwards\<close>
  "moves dst src dst' src' ds ss \<longleftrightarrow> evb_tight dst' \<and> evb_tight src' \<and> same_flags dst dst' \<and> same_flags src src'
     \<and> content dst' = ds \<and> content src' = ss"

lemma evbuffer_add_buffer_tight:
  assumes "evb_tight dst" and "evb_tight src"
  shows "case evbuffer_add_buffer dst src of (r, dst', src') \<Rightarrow>
    if content src \<noteq> [] \<and> (freeze_end dst \<or> freeze_start src) then r = -1 \<and> dst' = dst \<and> src' = src
    else r = 0 \<and> moves dst src dst' src' (content dst @ content src) []"
  using assms zero_chain_tight [of src] copy_chain_tight [OF assms(2), of dst] append_chain_tight(1) [OF assms]
  by (auto simp: evbuffer_add_buffer_def tight_length moves_def same_flags_def)

lemma evbuffer_prepend_buffer_tight:
  assumes "evb_tight dst" and "evb_tight src"
  shows "case evbuffer_prepend_buffer dst src of (r, dst', src') \<Rightarrow>
    if content src \<noteq> [] \<and> (freeze_start dst \<or> freeze_start src) then r = -1 \<and> dst' = dst \<and> src' = src
    else r = 0 \<and> moves dst src dst' src' (content src @ content dst) []"
  using assms zero_chain_tight [of src] copy_chain_tight [OF assms(2), of dst] append_chain_tight(2) [OF assms]
  by (auto simp: evbuffer_prepend_buffer_def tight_length moves_def same_flags_def)

text \<open>Moving a part. Adding no bytes behind an immutable chain leaves an empty chain at the end.\<close>

lemma chain_new_same: "evbuffer_chain_new room k = Some c \<Longrightarrow> c\<lparr>stored := []\<rparr> = c"
  by (cases c) (auto dest: chain_new_ok(3))

lemma evbuffer_add_nothing:
  assumes "evb_tight b" and "content b \<noteq> []"
  shows "\<exists>r b'. evbuffer_add room b [] = Some (r, b') \<and> content b' = content b \<and> evb_ok b' \<and> same_flags b b'
    \<and> (\<not> immutable (last (chains b)) \<longrightarrow> evb_tight b')"
proof -
  let ?c = "last (chains b)"
  have ne: "chains b \<noteq> []" using assms(2) by (auto simp: content_def)
  then have c: "chain_ok ?c" "stored ?c \<noteq> []" using assms tight_nonempty [OF assms] by (auto simp: evb_tight_def)
  have l: "last_with_data b = length (chains b) - 1" using assms(1) by (simp add: evb_tight_def)
  show ?thesis
  proof (cases "freeze_end b")
    case True
    then show ?thesis using assms(1) evb_tight_ok by (auto simp: evbuffer_add_def same_flags_def)
  next
    case False
    show ?thesis
    proof (cases "immutable ?c")
      case True
      have first: "first_empty (chains b) (last_with_data b) = None" using first_empty_last [OF ne] c(2) l by simp
      have less: "last_with_data b < length (chains b)" using l ne by (cases "chains b") auto
      have same: "set_last (?c\<lparr>stored := stored ?c\<rparr>) b = b" "count_added 0 b = b" using ne by (simp_all add: set_last_def count_added_def)
      let ?sz = "max (if buffer_len ?c \<le> MAX_AUTO_SIZE div 2 then 2 * buffer_len ?c else buffer_len ?c) 0"
      have add: "evbuffer_add room b [] = (case evbuffer_chain_new room ?sz of None \<Rightarrow> Some (-1, b)
        | Some tmp \<Rightarrow> Some (0, evbuffer_invoke_callbacks (b\<lparr>chains := chains b @ [tmp]\<rparr>)))"
        using False True ne c(1) first less same
        by (auto simp: evbuffer_add_def some_chain_def add_behind_def chain_remain_def Let_def chain_append_def
            chain_ok_def evbuffer_chain_insert_def chain_new_ok chain_new_same split: option.split)
      show ?thesis
      proof (cases "evbuffer_chain_new room ?sz")
        case None
        then show ?thesis using add True evb_tight_ok [OF assms(1)] by (simp add: same_flags_def)
      next
        case (Some tmp)
        have "evb_ok (b\<lparr>chains := chains b @ [tmp]\<rparr>)" "content (b\<lparr>chains := chains b @ [tmp]\<rparr>) = content b"
          using evb_tight_ok [OF assms(1)] chain_new_ok [OF Some] ne less l
          by (auto simp: evb_ok_def content_def nth_append)
        then show ?thesis using add Some True by (simp add: same_flags_def)
      qed
    next
      case imm: False
      with c have "misalign ?c + off ?c + length [] \<le> buffer_len ?c" by (simp add: chain_ok_def)
      from add_to_last_tight [OF assms(1) ne refl this c(1) imm] False imm ne show ?thesis
        by (auto simp: evbuffer_add_def some_chain_def Let_def same_flags_def evb_tight_ok)
    qed
  qed
qed

lemma take_chains_takes:
  assumes "len < length (concat (map stored cs))" and "lwd = i + length cs - 1"
  shows "\<exists>ts rest left. take_chains cs i lwd len = Some (ts, rest, if length rest = 1 \<and> ts \<noteq> [] then 0 else lwd, left)
    \<and> cs = ts @ rest \<and> rest \<noteq> [] \<and> left < off (hd rest) \<and> len = length (concat (map stored ts)) + left"
  using assms
proof (induction cs i lwd len rule: take_chains.induct)
  case (2 c cs i lwd len)
  show ?case
  proof (cases "len < off c")
    case True
    then show ?thesis by simp
  next
    case False
    then have less: "len - off c < length (concat (map stored cs))" using "2.prems"(1) by auto
    then have ne: "cs \<noteq> []" by auto
    then have i: "i \<noteq> lwd" using "2.prems"(2) by (cases cs) auto
    show ?thesis
    proof (cases "lwd = Suc i")
      case True
      then obtain d where "cs = [d]" using "2.prems"(2) ne by (cases cs) auto
      with False True less show ?thesis by (intro exI [of _ "[c]"] exI [of _ "[d]"]) simp
    next
      case no: False
      have "lwd = Suc i + length cs - 1" using "2.prems"(2) by simp
      then have "\<exists>ts rest left. take_chains cs (Suc i) lwd (len - off c) = Some (ts, rest, if length rest = 1 \<and> ts \<noteq> [] then 0 else lwd, left)
        \<and> cs = ts @ rest \<and> rest \<noteq> [] \<and> left < off (hd rest) \<and> len - off c = length (concat (map stored ts)) + left"
        using "2.IH" [OF False i less] unfolding if_not_P [OF no] by blast
      then obtain ts rest left where
        "take_chains cs (Suc i) lwd (len - off c) = Some (ts, rest, if length rest = 1 \<and> ts \<noteq> [] then 0 else lwd, left)"
        "cs = ts @ rest" "rest \<noteq> []" "left < off (hd rest)" "len - off c = length (concat (map stored ts)) + left" by blast
      moreover from this have "length rest = 1 \<longrightarrow> ts \<noteq> []" using no "2.prems"(2) by auto
      ultimately show ?thesis using False i no
        by (intro exI [of _ "c # ts"] exI [of _ rest]) auto
    qed
  qed
qed simp

lemma free_trailing_tight:
  assumes "evb_tight b"
  shows "evbuffer_free_trailing_empty_chains b = Some (if content b = [] then b\<lparr>chains := []\<rparr> else b)"
proof (cases "content b = []")
  case True
  show ?thesis
  proof (cases "chains b")
    case Nil
    then show ?thesis by (simp add: evbuffer_free_trailing_empty_chains_def content_def)
  next
    case (Cons c cs)
    with True assms have "cs = []" by (cases cs) (auto simp: evb_tight_def content_def)
    with Cons True assms show ?thesis
      by (simp add: evbuffer_free_trailing_empty_chains_def content_def evb_tight_def evbuffer_chains_all_empty_def)
  qed
next
  case False
  then have ne: "chains b \<noteq> []" by (auto simp: content_def)
  then have "off (last (chains b)) \<noteq> 0" using tight_nonempty [OF assms False] by simp
  with False first_empty_last [OF ne] assms show ?thesis
    by (simp add: evbuffer_free_trailing_empty_chains_def evb_tight_def)
qed

lemma advance_to_last:
  assumes "\<forall>c \<in> set (chains b). stored c \<noteq> []" and "last_with_data b < length (chains b)"
  shows "advance_last_with_data b = b\<lparr>last_with_data := length (chains b) - 1\<rparr>"
proof -
  have "takeWhile (\<lambda>c. off c \<noteq> 0) (drop (Suc (last_with_data b)) (chains b)) = drop (Suc (last_with_data b)) (chains b)"
    using assms(1) by (intro takeWhile_eq_all_conv [THEN iffD2]) (auto dest: in_set_dropD)
  moreover have "last_with_data b + length (drop (Suc (last_with_data b)) (chains b)) = length (chains b) - 1" using assms(2) by simp
  moreover have "\<not> length (chains b) \<le> last_with_data b" using assms(2) by simp
  ultimately show ?thesis unfolding advance_last_with_data_def by (simp only: if_False)
qed

lemma chains_moved_tight:
  assumes "evb_tight b" and "\<forall>c \<in> set ts. chain_ok c \<and> stored c \<noteq> []" and "nread = length (concat (map stored ts))"
  shows "\<exists>b'. chains_moved b ts nread = Some b' \<and> evb_tight b' \<and> content b' = content b @ concat (map stored ts) \<and> same_flags b b'
    \<and> total_len b' = total_len b + nread \<and> (ts \<noteq> [] \<longrightarrow> last (chains b') = last ts)"
proof (cases "nread = 0")
  case True
  then have "ts = []" using assms(2,3) by (cases ts) auto
  with True assms(1) show ?thesis by (simp add: chains_moved_def same_flags_def)
next
  case False
  then have ne: "ts \<noteq> []" using assms(3) by auto
  define cs where "cs = (if content b = [] then [] else chains b)"
  have "\<forall>c \<in> set (chains b). chain_ok c" using assms(1) by (simp add: evb_tight_def)
  then have cs: "\<forall>c \<in> set cs. chain_ok c \<and> stored c \<noteq> []"
  proof (cases "content b = []")
    case False
    with \<open>\<forall>c \<in> set (chains b). chain_ok c\<close> show ?thesis
      unfolding cs_def if_not_P [OF False] using tight_nonempty [OF assms(1) False] by blast
  qed (simp add: cs_def)
  have c: "concat (map stored cs) = content b" by (simp add: cs_def) (simp add: content_def)
  have t: "total_len b = length (content b)" using assms(1) by (simp add: evb_tight_def)
  have l: "last_with_data b = length cs - 1"
  proof (cases "content b = []")
    case True
    then have "\<not> 1 < length (chains b)" using assms(1) by (cases "chains b") (auto simp: evb_tight_def content_def)
    with True assms(1) show ?thesis by (simp add: cs_def evb_tight_def)
  qed (use assms(1) in \<open>simp add: cs_def evb_tight_def\<close>)
  then have "last_with_data b < length (cs @ ts)" using ne by (cases ts) auto
  then have adv: "advance_last_with_data (b\<lparr>chains := cs @ ts\<rparr>) = b\<lparr>chains := cs @ ts, last_with_data := length (cs @ ts) - 1\<rparr>"
    using advance_to_last [of "b\<lparr>chains := cs @ ts\<rparr>"] cs assms(2) by auto
  have "evbuffer_free_trailing_empty_chains b = Some (b\<lparr>chains := cs\<rparr>)"
    using free_trailing_tight [OF assms(1)] by (simp add: cs_def)
  with False have "chains_moved b ts nread = Some (b\<lparr>chains := cs @ ts, last_with_data := length (cs @ ts) - 1,
      total_len := total_len b + nread, n_add_for_cb := n_add_for_cb b + nread\<rparr>)"
    by (simp add: chains_moved_def adv del: length_append)
  moreover have "\<forall>x \<in> set (cs @ ts). chain_ok x \<and> stored x \<noteq> []" using cs assms(2) by auto
  then have "evb_tight (b\<lparr>chains := cs @ ts, last_with_data := length (cs @ ts) - 1, total_len := total_len b + nread,
      n_add_for_cb := n_add_for_cb b + nread\<rparr>)"
    using c assms(3) t by (simp add: evb_tight_def content_chains)
  ultimately show ?thesis using c ne
    by (intro exI [of _ "b\<lparr>chains := cs @ ts, last_with_data := length (cs @ ts) - 1, total_len := total_len b + nread,
      n_add_for_cb := n_add_for_cb b + nread\<rparr>"] conjI) (simp_all add: content_chains same_flags_def)
qed

lemma evbuffer_remove_buffer_tight:
  assumes "evb_tight src" and "evb_tight dst"
  shows "\<exists>r src' dst'. evbuffer_remove_buffer room src dst len = Some (r, src', dst')
    \<and> evb_tight src' \<and> evb_ok dst' \<and> same_flags src src' \<and> same_flags dst dst'
    \<and> (if len \<noteq> 0 \<and> (freeze_end dst \<or> freeze_start src) then r = -1 \<and> src' = src \<and> dst' = dst
       else r = to_int (min len (length (content src))) \<and> content src' = drop len (content src)
         \<and> (content dst' = content dst @ take len (content src)
            \<or> scarce (\<forall>n. room n) (length (content dst) + len)
               \<and> (\<exists>us rest. chains src = us @ rest \<and> content dst' = content dst @ concat (map stored us))))
    \<and> ((\<forall>c \<in> set (chains src). \<not> immutable c) \<longrightarrow> evb_tight dst')"
proof -
  have ts: "total_len src = length (content src)" "total_len dst = length (content dst)"
    using assms by (simp_all add: evb_tight_def)
  consider (none) "len = 0 \<or> freeze_end dst \<or> freeze_start src"
    | (all) "len \<noteq> 0" "\<not> (freeze_end dst \<or> freeze_start src)" "length (content src) \<le> len"
    | (part) "len \<noteq> 0" "\<not> (freeze_end dst \<or> freeze_start src)" "len < length (content src)" by linarith
  then show ?thesis
  proof cases
    case none
    with assms evb_tight_ok show ?thesis by (auto simp: evbuffer_remove_buffer_def same_flags_def)
  next
    case all
    obtain d s where "evbuffer_add_buffer dst src = (0, d, s)" "moves dst src d s (content dst @ content src) []"
      using evbuffer_add_buffer_tight [OF assms(2,1)] all by (auto split: prod.splits)
    with all ts evb_tight_ok show ?thesis
      by (auto simp: evbuffer_remove_buffer_def moves_def)
  next
    case part
    have ok: "\<forall>c \<in> set (chains src). chain_ok c \<and> stored c \<noteq> []"
      using assms(1) part(3) tight_nonempty [OF assms(1)] by (cases "content src = []") (auto simp: evb_tight_def)
    have l: "last_with_data src = 0 + length (chains src) - 1" using assms(1) by (simp add: evb_tight_def)
    obtain us rest left where take: "take_chains (chains src) 0 (last_with_data src) len =
        Some (us, rest, if length rest = 1 \<and> us \<noteq> [] then 0 else last_with_data src, left)"
      and src: "chains src = us @ rest" "rest \<noteq> []" "left < off (hd rest)" "len = length (concat (map stored us)) + left"
      using take_chains_takes [OF part(3) [unfolded content_def] l] by blast
    have us: "us = [] \<longleftrightarrow> len = left" using src(1,4) ok by (cases us) auto
    obtain dst1 where dst1: "chains_moved dst us (len - left) = Some dst1" "evb_tight dst1"
      "content dst1 = content dst @ concat (map stored us)" "same_flags dst dst1" "us \<noteq> [] \<longrightarrow> last (chains dst1) = last us"
      using chains_moved_tight [OF assms(2), of us "len - left"] ok src(1,4) by auto
    let ?bs = "take left (stored (hd rest))"
    have "\<exists>r d. evbuffer_add room dst1 ?bs = Some (r, d) \<and> evb_ok d \<and> same_flags dst1 d
      \<and> (content d = content dst1 @ ?bs \<or> content d = content dst1 \<and> scarce (\<forall>n. room n) (length (content dst1) + length ?bs)) \<and> ((\<forall>c \<in> set us. \<not> immutable c) \<longrightarrow> evb_tight d)"
    proof (cases "left = 0")
      case True
      then have "us \<noteq> []" using us part(1) by simp
      moreover from this have "content dst1 \<noteq> []" using dst1(3) src(4) part(1) True by auto
      ultimately show ?thesis using evbuffer_add_nothing [OF dst1(2), of room] dst1(5) True by auto
    next
      case False
      then have "?bs \<noteq> []" using src(3) by auto
      from evbuffer_add_tight [OF dst1(2) this, of room] obtain r d where
        "evbuffer_add room dst1 ?bs = Some (r, d)" "evb_tight d" "same_flags dst1 d"
        "r = 0 \<and> content d = content dst1 @ ?bs \<or> r = -1 \<and> content d = content dst1" by (auto simp: appends_def)
      moreover have "\<not> freeze_end dst1" using dst1(4) part(2) by (simp add: same_flags_def)
      ultimately show ?thesis using evbuffer_add_fails [OF dst1(2), of room ?bs d] evb_tight_ok [of d] by auto
    qed
    then obtain r d where d: "evbuffer_add room dst1 ?bs = Some (r, d)" "evb_ok d" "same_flags dst1 d"
      "content d = content dst1 @ ?bs \<or> content d = content dst1 \<and> scarce (\<forall>n. room n) (length (content dst1) + length ?bs)" "(\<forall>c \<in> set us. \<not> immutable c) \<longrightarrow> evb_tight d" by blast
    let ?c = "(hd rest)\<lparr>misalign := misalign (hd rest) + left, stored := drop left (stored (hd rest))\<rparr>"
    let ?src = "src\<lparr>chains := ?c # tl rest, last_with_data := length (tl rest), total_len := total_len src - len,
      n_del_for_cb := n_del_for_cb src + len\<rparr>"
    let ?l = "if length rest = 1 \<and> us \<noteq> [] then 0 else last_with_data src"
    have chn: "(if len - left = 0 then us else []) @ ?c # tl rest = ?c # tl rest" using us src(4) by simp
    have lwd: "(if len - left = 0 then ?l else ?l - length us) = length (tl rest)" using l src us by (cases rest) auto
    have no: "\<not> total_len src \<le> len" using part(3) ts(1) by simp
    have "evbuffer_remove_buffer room src dst len = Some (to_int len, evbuffer_invoke_callbacks ?src, evbuffer_invoke_callbacks d)"
      unfolding evbuffer_remove_buffer_def if_not_P [OF part(1)] if_not_P [OF part(2)] if_not_P [OF no] take Let_def option.case prod.case
        dst1(1) d(1) chn lwd ..
    moreover have c: "content src = concat (map stored us) @ stored (hd rest) @ concat (map stored (tl rest))"
      using src(1,2) by (cases rest) (auto simp: content_def)
    have "\<forall>c \<in> set (?c # tl rest). chain_ok c \<and> stored c \<noteq> []"
      using ok src(1-3) by (cases rest) (auto simp: chain_ok_def)
    then have "evb_tight ?src \<and> content ?src = drop len (content src) \<and> same_flags src ?src"
      using c src(3,4) ts(1) by (auto simp: evb_tight_def same_flags_def content_chains)
    moreover have "content d = content dst @ take len (content src)
      \<or> scarce (\<forall>n. room n) (length (content dst) + len)
         \<and> (\<exists>us rest. chains src = us @ rest \<and> content d = content dst @ concat (map stored us))"
      using d(4)
    proof
      assume "content d = content dst1 @ ?bs"
      then show ?thesis using dst1(3) c src(3,4) by simp
    next
      assume short: "content d = content dst1 \<and> scarce (\<forall>n. room n) (length (content dst1) + length ?bs)"
      have "length (content dst1) + length ?bs = length (content dst) + len" using dst1(3) src(3,4) by simp
      with short show ?thesis using dst1(3) src(1) by metis
    qed
    moreover have "same_flags dst d" using d(3) dst1(4) by (simp add: same_flags_def)
    moreover have "\<not> (len \<noteq> 0 \<and> (freeze_end dst \<or> freeze_start src))" using part by blast
    moreover have "to_int len = to_int (min len (length (content src)))" using part(3) by simp
    moreover have "(\<forall>c \<in> set (chains src). \<not> immutable c) \<longrightarrow> evb_tight d" using d(5) src(1) by simp
    moreover note d(2)
    ultimately show ?thesis
      by (intro exI [of _ "to_int len"] exI [of _ "evbuffer_invoke_callbacks ?src"] exI [of _ "evbuffer_invoke_callbacks d"])
        (simp only: if_False tight_invoke ok_invoke content_invoke same_flags_invoke simp_thms)
  qed
qed

text \<open>Referring to memory of the caller.\<close>

lemma evbuffer_add_reference_tight:
  assumes "evb_tight b" and "bs \<noteq> []" and "length bs \<le> CHAIN_MAX - CHAIN_SIZE"
  shows "appends b bs (evbuffer_add_reference room b bs)"
proof (cases "evbuffer_chain_new room 16")
  case None
  with assms(1) show ?thesis by (simp add: evbuffer_add_reference_def appends_def same_flags_def)
next
  case (Some c)
  let ?c = "c\<lparr>immutable := True, buffer_len := length bs, stored := bs\<rparr>"
  show ?thesis
  proof (cases "freeze_end b")
    case True
    with Some assms(1) show ?thesis by (simp add: evbuffer_add_reference_def appends_def same_flags_def)
  next
    case False
    have "chain_ok ?c" using chain_new_ok [OF Some] assms(2,3) by (simp add: chain_ok_def)
    moreover have "stored ?c \<noteq> [] \<or> chains b = []" using assms(2) by simp
    ultimately obtain b' where "evbuffer_chain_insert b ?c = Some b'" "evb_tight b'" "content b' = content b @ stored ?c" "same_flags b b'"
      using insert_tight [OF assms(1)] by blast
    with Some False show ?thesis by (intro appends_done) (simp add: evbuffer_add_reference_def same_flags_def)
  qed
qed

section \<open>A buffer is a queue of bytes\<close>

text \<open>
  The contract: runs of a machine follow the runs of a specification, of which the state of the machine shows a view.
\<close>

primrec run_ops :: "('op \<Rightarrow> 's \<Rightarrow> ('r \<times> 's) option) \<Rightarrow> 'op list \<Rightarrow> 's \<Rightarrow> ('r list \<times> 's) option" where
  "run_ops exec [] s = Some ([], s)"
| "run_ops exec (op # ops) s =
     (case exec op s of None \<Rightarrow> None | Some (r, s) \<Rightarrow> map_option (\<lambda>(rs, s). (r # rs, s)) (run_ops exec ops s))"

fun spec_ops :: "('op \<Rightarrow> 'q \<Rightarrow> 'r \<Rightarrow> 'q \<Rightarrow> bool) \<Rightarrow> 'op list \<Rightarrow> 'q \<Rightarrow> 'r list \<Rightarrow> 'q \<Rightarrow> bool" where
  "spec_ops spec [] q [] q' \<longleftrightarrow> q' = q"
| "spec_ops spec (op # ops) q (r # rs) q' \<longleftrightarrow> (\<exists>q1. spec op q r q1 \<and> spec_ops spec ops q1 rs q')"
| "spec_ops spec _ _ _ _ \<longleftrightarrow> False"

locale follows =
  fixes exec :: "'op \<Rightarrow> 's \<Rightarrow> ('r \<times> 's) option"
    and inv :: "'s \<Rightarrow> bool"
    and view :: "'s \<Rightarrow> 'q"
    and spec :: "'op \<Rightarrow> 'q \<Rightarrow> 'r \<Rightarrow> 'q \<Rightarrow> bool"
    and valid :: "'op \<Rightarrow> bool"
  assumes step: "inv s \<Longrightarrow> valid op \<Longrightarrow> \<exists>r s'. exec op s = Some (r, s') \<and> inv s' \<and> spec op (view s) r (view s')"
begin

lemma run_follows:
  "inv s \<Longrightarrow> \<forall>op \<in> set ops. valid op \<Longrightarrow>
    \<exists>rs s'. run_ops exec ops s = Some (rs, s') \<and> inv s' \<and> spec_ops spec ops (view s) rs (view s')"
proof (induction ops arbitrary: s)
  case (Cons op ops)
  then obtain r s1 where 1: "exec op s = Some (r, s1)" "inv s1" "spec op (view s) r (view s1)" using step by fastforce
  with Cons obtain rs s' where "run_ops exec ops s1 = Some (rs, s')" "inv s'" "spec_ops spec ops (view s1) rs (view s')" by fastforce
  with 1 show ?case by auto
qed simp

end

datatype buf_op =
    Add byte_list
  | Add_reference byte_list
  | Prepend byte_list
  | Drain nat
  | Remove nat
  | Copyout nat
  | Pullup int
  | Freeze bool
  | Unfreeze bool

datatype buf_result = Code int | Bytes int byte_list | Pulled "byte_list option"

definition evb_exec :: "(nat \<Rightarrow> bool) \<Rightarrow> buf_op \<Rightarrow> evbuffer \<Rightarrow> (buf_result \<times> evbuffer) option" where
  "evb_exec room op b =
     (case op of
        Add bs \<Rightarrow> map_option (\<lambda>(r, b). (Code r, b)) (evbuffer_add room b bs)
      | Add_reference bs \<Rightarrow> map_option (\<lambda>(r, b). (Code r, b)) (evbuffer_add_reference room b bs)
      | Prepend bs \<Rightarrow> map_option (\<lambda>(r, b). (Code r, b)) (evbuffer_prepend room b bs)
      | Drain n \<Rightarrow> map_option (\<lambda>(r, b). (Code r, b)) (evbuffer_drain b n)
      | Remove n \<Rightarrow> map_option (\<lambda>(r, bs, b). (Bytes r bs, b)) (evbuffer_remove b n)
      | Copyout n \<Rightarrow> map_option (\<lambda>(r, bs). (Bytes r bs, b)) (evbuffer_copyout b n)
      | Pullup sz \<Rightarrow> map_option (\<lambda>(p, b). (Pulled p, b)) (evbuffer_pullup room b sz)
      | Freeze start \<Rightarrow> Some (Code 0, evbuffer_freeze start b)
      | Unfreeze start \<Rightarrow> Some (Code 0, evbuffer_unfreeze start b))"

type_synonym byte_queue = "byte_list \<times> bool \<times> bool"

definition queue_of :: "evbuffer \<Rightarrow> byte_queue" where
  "queue_of b = (content b, freeze_start b, freeze_end b)"

text \<open>
  The specification. Adding, prepending and pulling up may fail for want of memory, which there is with \<open>plenty\<close>; a
  failed prepending may have put an end of the bytes there.
\<close>

fun queue_spec :: "bool \<Rightarrow> buf_op \<Rightarrow> byte_queue \<Rightarrow> buf_result \<Rightarrow> byte_queue \<Rightarrow> bool" where
  "queue_spec plenty (Add bs) (q, fs, fe) r q' \<longleftrightarrow>
     \<not> fe \<and> r = Code 0 \<and> q' = (q @ bs, fs, fe) \<or> r = Code (-1) \<and> q' = (q, fs, fe) \<and> (fe \<or> scarce plenty (length q + length bs))"
| "queue_spec plenty (Add_reference bs) (q, fs, fe) r q' \<longleftrightarrow>
     \<not> fe \<and> r = Code 0 \<and> q' = (q @ bs, fs, fe) \<or> r = Code (-1) \<and> q' = (q, fs, fe) \<and> (fe \<or> scarce plenty (length q + length bs))"
| "queue_spec plenty (Prepend bs) (q, fs, fe) r q' \<longleftrightarrow>
     \<not> fs \<and> r = Code 0 \<and> q' = (bs @ q, fs, fe)
     \<or> r = Code (-1) \<and> (\<exists>k < length bs. q' = (drop (length bs - k) bs @ q, fs, fe) \<and> (fs \<longrightarrow> k = 0)) \<and> (fs \<or> scarce plenty (length q + length bs))"
| "queue_spec plenty (Drain n) (q, fs, fe) r q' \<longleftrightarrow>
     (if fs \<and> q \<noteq> [] then r = Code (-1) \<and> q' = (q, fs, fe) else r = Code 0 \<and> q' = (drop n q, fs, fe))"
| "queue_spec plenty (Remove n) (q, fs, fe) r q' \<longleftrightarrow>
     (if fs \<and> q \<noteq> [] \<and> n \<noteq> 0 then (\<exists>bs. r = Bytes (-1) bs) \<and> q' = (q, fs, fe)
      else r = Bytes (to_int (min n (length q))) (take n q) \<and> q' = (drop n q, fs, fe))"
| "queue_spec plenty (Copyout n) (q, fs, fe) r q' \<longleftrightarrow>
     q' = (q, fs, fe) \<and> r = (if fs \<and> q \<noteq> [] \<and> n \<noteq> 0 then Bytes (-1) [] else Bytes (int (min n (length q))) (take n q))"
| "queue_spec plenty (Pullup sz) (q, fs, fe) r q' \<longleftrightarrow>
     (let k = (if sz < 0 then length q else nat sz) in
      q' = (q, fs, fe) \<and> (r = Pulled None \<and> (k = 0 \<or> length q < k \<or> scarce plenty k) \<or> (\<exists>bs. r = Pulled (Some bs) \<and> 0 < k \<and> k \<le> length bs \<and> take k bs = take k q \<and> k \<le> length q)))"
| "queue_spec plenty (Freeze start) (q, fs, fe) r q' \<longleftrightarrow> r = Code 0 \<and> q' = (q, fs \<or> start, fe \<or> \<not> start)"
| "queue_spec plenty (Unfreeze start) (q, fs, fe) r q' \<longleftrightarrow> r = Code 0 \<and> q' = (q, fs \<and> \<not> start, fe \<and> start)"

fun buf_valid :: "buf_op \<Rightarrow> bool" where
  "buf_valid (Add bs) \<longleftrightarrow> bs \<noteq> []"
| "buf_valid (Prepend bs) \<longleftrightarrow> bs \<noteq> []"
| "buf_valid (Add_reference bs) \<longleftrightarrow> bs \<noteq> [] \<and> length bs \<le> CHAIN_MAX - CHAIN_SIZE"
| "buf_valid _ \<longleftrightarrow> True"

lemma queue_of_same: "same_flags b b' \<Longrightarrow> queue_of b' = (content b', freeze_start b, freeze_end b)"
  by (simp add: queue_of_def same_flags_def)

lemma evbuffer_prepend_fails:
  assumes "evb_tight b" and "evbuffer_prepend room b bs = Some (-1, b')"
  shows "freeze_start b \<or> scarce (\<forall>n. room n) (length (content b) + length bs)"
proof (rule ccontr)
  assume no: "\<not> ?thesis"
  have t: "total_len b = length (content b)" using assms(1) by (simp add: evb_tight_def)
  have len: "total_len b + length bs \<le> CHAIN_MAX - CHAIN_SIZE" using no t by (simp add: scarce_def)
  then have "\<not> SIZE_MAX - total_len b < length bs" by (simp add: SIZE_MAX_def CHAIN_MAX_def)
  moreover have new: "k \<le> length bs \<Longrightarrow> \<exists>c. evbuffer_chain_new room k = Some c" for k
    using chain_new_room [of k room] no len by (auto simp: scarce_def)
  moreover have "some_chain room b (length bs) \<noteq> Some None"
    using new [OF order_refl] by (auto simp: some_chain_def)
  moreover have "prepend_chain room b1 (take k bs) \<noteq> Some (-1, b2)" for b1 b2 k
    using new [of "length (take k bs)"] by (auto simp: prepend_chain_def split: if_splits)
  ultimately show False using assms(2) no
    by (auto simp: evbuffer_prepend_def Let_def split: if_splits option.splits)
qed

lemma appends_spec:
  assumes "appends b bs res" and "freeze_end b \<longrightarrow> res = Some (-1, b)"
    and "\<And>b'. res = Some (-1, b') \<Longrightarrow> freeze_end b \<or> scarce plenty (length (content b) + length bs)"
  shows "\<exists>r b'. map_option (\<lambda>(r, b). (Code r, b)) res = Some (r, b') \<and> evb_tight b'
    \<and> (\<not> freeze_end b \<and> r = Code 0 \<and> queue_of b' = (content b @ bs, freeze_start b, freeze_end b)
       \<or> r = Code (-1) \<and> queue_of b' = (content b, freeze_start b, freeze_end b)
          \<and> (freeze_end b \<or> scarce plenty (length (content b) + length bs)))"
proof -
  obtain r b' where "res = Some (r, b')" "evb_tight b'" "same_flags b b'"
    "r = 0 \<and> content b' = content b @ bs \<or> r = -1 \<and> content b' = content b"
    using assms(1) by (auto simp: appends_def)
  with assms(2,3) queue_of_same [of b b'] show ?thesis by auto
qed

lemma prepend_spec:
  assumes "evb_tight b" and "bs \<noteq> []"
  shows "\<exists>r b'. evb_exec room (Prepend bs) b = Some (r, b') \<and> evb_tight b' \<and> queue_spec (\<forall>n. room n) (Prepend bs) (queue_of b) r (queue_of b')"
proof (cases "freeze_start b")
  case True
  with assms show ?thesis
    by (auto simp: evb_exec_def evbuffer_prepend_def queue_of_def intro!: exI [of _ 0])
next
  case False
  obtain r b' where r: "evbuffer_prepend room b bs = Some (r, b')" "evb_tight b'" "same_flags b b'"
    "r = 0 \<and> content b' = bs @ content b \<or> r = -1 \<and> (\<exists>k < length bs. content b' = drop (length bs - k) bs @ content b)"
    using evbuffer_prepend_tight [OF assms, of room] by blast
  from r(4) False have "queue_spec (\<forall>n. room n) (Prepend bs) (queue_of b) (Code r) (queue_of b')"
    using evbuffer_prepend_fails [OF assms(1), of room bs b'] r(1)
    by (auto simp: queue_of_same [OF r(3)] queue_of_def [of b])
  with r show ?thesis by (simp add: evb_exec_def)
qed

lemma drain_spec:
  assumes "evb_tight b"
  shows "\<exists>r b'. evb_exec room (Drain n) b = Some (r, b') \<and> evb_tight b' \<and> queue_spec (\<forall>n. room n) (Drain n) (queue_of b) r (queue_of b')"
proof -
  obtain b' where r: "evbuffer_drain b n = Some (if total_len b \<noteq> 0 \<and> freeze_start b then -1 else 0, b')" "evb_tight b'"
    "same_flags b b'" "content b' = (if freeze_start b then content b else drop n (content b))"
    using evbuffer_drain_tight [OF assms, of n] by blast
  have "queue_spec (\<forall>n. room n) (Drain n) (queue_of b) (Code (if total_len b \<noteq> 0 \<and> freeze_start b then -1 else 0)) (queue_of b')"
    using r(4) tight_length [OF assms] by (auto simp: queue_of_same [OF r(3)] queue_of_def [of b])
  with r show ?thesis by (simp add: evb_exec_def)
qed

lemma remove_spec:
  assumes "evb_tight b"
  shows "\<exists>r b'. evb_exec room (Remove n) b = Some (r, b') \<and> evb_tight b' \<and> queue_spec (\<forall>n. room n) (Remove n) (queue_of b) r (queue_of b')"
proof -
  obtain r bs b' where r: "evbuffer_remove b n = Some (r, bs, b')" "evb_tight b'" "same_flags b b'"
    "if freeze_start b \<and> content b \<noteq> [] \<and> n \<noteq> 0 then r = -1 \<and> content b' = content b
     else r = to_int (length bs) \<and> bs = take n (content b) \<and> content b' = drop n (content b)"
    using evbuffer_remove_tight [OF assms, of n] by blast
  have "queue_spec (\<forall>n. room n) (Remove n) (queue_of b) (Bytes r bs) (queue_of b')"
    using r(4) by (auto simp: queue_of_same [OF r(3)] queue_of_def [of b] min.commute split: if_splits)
  with r show ?thesis by (simp add: evb_exec_def)
qed

lemma pullup_spec:
  assumes "evb_tight b"
  shows "\<exists>r b'. evb_exec room (Pullup sz) b = Some (r, b') \<and> evb_tight b' \<and> queue_spec (\<forall>n. room n) (Pullup sz) (queue_of b) r (queue_of b')"
proof -
  let ?k = "if sz < 0 then length (content b) else nat sz"
  note up = evbuffer_pullup_tight [OF assms refl, of sz room]
  consider "evbuffer_pullup room b sz = Some (None, b)" "?k = 0 \<or> length (content b) < ?k \<or> evbuffer_chain_new room ?k = None"
    | b' where "0 < ?k" "?k \<le> length (content b)" "evbuffer_pullup room b sz = Some (Some (stored (hd (chains b'))), b')" "evb_tight b'"
      "content b' = content b" "same_flags b b'" "take ?k (stored (hd (chains b'))) = take ?k (content b)" "?k \<le> off (hd (chains b'))"
    using up by (cases "?k = 0 \<or> length (content b) < ?k") (auto simp: pulled_up_def)
  then show ?thesis
  proof cases
    case 1
    then have "queue_spec (\<forall>n. room n) (Pullup sz) (queue_of b) (Pulled None) (queue_of b)"
      unfolding queue_of_def queue_spec.simps Let_def using scarce_new by blast
    with 1 assms show ?thesis by (simp add: evb_exec_def)
  next
    case (2 b')
    then have "queue_spec (\<forall>n. room n) (Pullup sz) (queue_of b) (Pulled (Some (stored (hd (chains b'))))) (queue_of b')"
      unfolding queue_of_same [OF 2(6)] queue_of_def [of b] queue_spec.simps Let_def by blast
    with 2 show ?thesis by (simp add: evb_exec_def)
  qed
qed

lemma op_spec:
  assumes b: "evb_tight b" and "buf_valid op"
  shows "\<exists>r b'. evb_exec room op b = Some (r, b') \<and> evb_tight b' \<and> queue_spec (\<forall>n. room n) op (queue_of b) r (queue_of b')"
  using assms
proof (cases op)
  case (Add bs)
  have "freeze_end b \<longrightarrow> evbuffer_add room b bs = Some (-1, b)" by (simp add: evbuffer_add_def)
  from appends_spec [OF evbuffer_add_tight [OF b] this evbuffer_add_fails [OF b]] Add b \<open>buf_valid op\<close> show ?thesis
    by (auto simp: evb_exec_def queue_of_def [of b])
next
  case (Add_reference bs)
  have "freeze_end b \<longrightarrow> evbuffer_add_reference room b bs = Some (-1, b)" by (simp add: evbuffer_add_reference_def split: option.split)
  moreover have "evbuffer_add_reference room b bs = Some (-1, b') \<Longrightarrow>
      freeze_end b \<or> scarce (\<forall>n. room n) (length (content b) + length bs)" for b'
    using scarce_new [of room 16 "length (content b) + length bs"] chain_new_room [of 16 room]
    by (auto simp: evbuffer_add_reference_def scarce_def CHAIN_MAX_def CHAIN_SIZE_def split: option.splits if_splits)
  ultimately show ?thesis
    using Add_reference b \<open>buf_valid op\<close> appends_spec [OF evbuffer_add_reference_tight [OF b], of bs room]
    by (auto simp: evb_exec_def queue_of_def [of b])
next
  case (Copyout n)
  have "total_len b = length (content b)" using b by (simp add: evb_tight_def)
  from evbuffer_copyout_takes [OF this, of n] Copyout b show ?thesis
    by (auto simp: evb_exec_def queue_of_def min.commute)
qed (use b prepend_spec drain_spec remove_spec pullup_spec in
    \<open>auto simp: evb_exec_def evbuffer_freeze_def evbuffer_unfreeze_def queue_of_def evb_tight_def content_def\<close>)

text \<open>Every operation comes with the sizes for which memory can be allocated at its time.\<close>

type_synonym timed_op = "(nat \<Rightarrow> bool) \<times> buf_op"

definition evb_step :: "timed_op \<Rightarrow> evbuffer \<Rightarrow> (buf_result \<times> evbuffer) option" where
  "evb_step op = evb_exec (fst op) (snd op)"

definition queue_step :: "timed_op \<Rightarrow> byte_queue \<Rightarrow> buf_result \<Rightarrow> byte_queue \<Rightarrow> bool" where
  "queue_step op = queue_spec (\<forall>n. fst op n) (snd op)"

interpretation bufqueue: follows evb_step evb_tight queue_of queue_step "\<lambda>op. buf_valid (snd op)"
  by unfold_locales (simp add: evb_step_def queue_step_def op_spec)

text \<open>How many bytes an operation can bring.\<close>

fun brings :: "buf_op \<Rightarrow> nat" where
  "brings (Add bs) = length bs"
| "brings (Add_reference bs) = length bs"
| "brings (Prepend bs) = length bs"
| "brings _ = 0"

lemma queue_spec_grows: "queue_spec plenty op (q, fs, fe) r q' \<Longrightarrow> length (fst q') \<le> length q + brings op"
  by (cases op) (auto simp: Let_def split: if_splits)

lemma spec_ops_grows:
  "spec_ops queue_step ops q rs q' \<Longrightarrow> length (fst q') \<le> length (fst q) + sum_list (map (brings \<circ> snd) ops)"
proof (induction queue_step ops q rs q' rule: spec_ops.induct)
  case (2 op ops q r rs q')
  then obtain q1 where "queue_step op q r q1" "length (fst q') \<le> length (fst q1) + sum_list (map (brings \<circ> snd) ops)"
    by auto
  moreover from this(1) have "length (fst q1) \<le> length (fst q) + brings (snd op)"
    using queue_spec_grows [of _ "snd op" "fst q" "fst (snd q)" "snd (snd q)" r q1] by (simp add: queue_step_def)
  ultimately show ?case by simp
qed simp_all

text \<open>C3: Whatever is done to a new buffer by adding, referring or prepending one byte or more, draining, removing, copying
  out, pulling up and freezing, in any order and with allocations of any sizes failing in any of the operations, as long as
  fewer than \<open>2 ^ 63\<close> bytes are brought in all: no byte is written outside the memory of a chain or into memory the buffer must
  not change, no assertion fails, the bytes held are those of a queue of bytes, and so is every result, the number of bytes
  removed as the \<^verbatim>\<open>int\<close> it is converted to; an operation fails only when the buffer is frozen or memory is scarce, and at
  the end the pointer to the last chain with data and the total length are right, which never wraps.\<close>

theorem evbuffer_is_a_byte_queue:
  assumes "\<forall>op \<in> set ops. buf_valid (snd op)" and "sum_list (map (brings \<circ> snd) ops) \<le> CHAIN_MAX"
  shows "\<exists>rs b. run_ops evb_step ops evbuffer_new = Some (rs, b) \<and> evb_ok b \<and> total_len b \<le> CHAIN_MAX
    \<and> spec_ops queue_step ops ([], False, False) rs (content b, freeze_start b, freeze_end b)"
proof -
  have new: "evb_tight evbuffer_new" "queue_of evbuffer_new = ([], False, False)"
    by (simp_all add: evbuffer_new_def evb_tight_def queue_of_def content_def)
  obtain rs b where run: "run_ops evb_step ops evbuffer_new = Some (rs, b)" "evb_tight b"
    "spec_ops queue_step ops ([], False, False) rs (queue_of b)"
    using bufqueue.run_follows [OF new(1) assms(1)] unfolding new(2) by blast
  moreover have "total_len b \<le> CHAIN_MAX"
    using spec_ops_grows [OF run(3)] assms(2) run(2) by (simp add: queue_of_def evb_tight_def)
  ultimately show ?thesis using evb_tight_ok by (auto simp: queue_of_def)
qed

definition example_ops :: "timed_op list" where
  "example_ops = map (Pair (\<lambda>n. n < 3000)) [Add [1, 2], Add_reference [3], Prepend [9], Pullup (-1), Drain 2]
     @ [(\<lambda>n. n < 1000, Add (replicate 2000 7)), (\<lambda>n. True, Remove 2)]"

theorem evbuffer_is_a_byte_queue_witness:
  "\<exists>rs b. run_ops evb_step example_ops evbuffer_new = Some (rs, b) \<and> evb_ok b \<and> total_len b \<le> CHAIN_MAX
    \<and> spec_ops queue_step example_ops ([], False, False) rs (content b, freeze_start b, freeze_end b)"
  by (rule evbuffer_is_a_byte_queue) (simp_all add: example_ops_def CHAIN_MAX_def CHAIN_SIZE_def)


definition example_buffer :: "byte_list \<Rightarrow> evbuffer" where
  "example_buffer bs = evbuffer_new\<lparr>chains := [\<lparr>buffer_len = 976, misalign = 0, stored = bs, immutable = False\<rparr>], total_len := length bs\<rparr>"

lemma example_buffer_tight: "length bs \<le> 976 \<Longrightarrow> evb_tight (example_buffer bs)"
  by (simp add: example_buffer_def evb_tight_def content_def chain_ok_def evbuffer_new_def CHAIN_MAX_def CHAIN_SIZE_def)


section \<open>Where it is no queue\<close>

lemmas evb_eval = evbuffer_add_def evbuffer_expand_def evbuffer_add_printf_def evbuffer_prepend_def evbuffer_remove_buffer_def
  evbuffer_expand_singlechain_def assert_space_def has_space_def some_chain_def add_to_last_def add_behind_def prepend_front_def prepend_chain_def printed_def
  insert_new_def evbuffer_chain_insert_def evbuffer_chain_new_def chain_remain_def space_len_def chain_append_def chain_prepend_def
  evbuffer_chain_should_realign_def front_chain_def front_room_def chain_at_def first_with_space_def set_last_def set_first_def
  chains_moved_def evbuffer_new_def example_buffer_def evbuffer_invoke_callbacks_def count_added_def advance_last_with_data_def
  CHAIN_MAX_def CHAIN_SIZE_def SIZE_MAX_def MIN_BUFFER_SIZE_def MAX_AUTO_SIZE_def next_size.simps content_def Let_def

text \<open>An empty chain behind the data is filled without moving the pointer to the last chain with data; what is printed next lands before.\<close>

lemma spare_chain_reorders:
  "map_option (\<lambda>(r, b). content b)
     (Option.bind (evbuffer_add (\<lambda>n. True) evbuffer_new [1]) (\<lambda>(r, b).
      Option.bind (evbuffer_expand (\<lambda>n. True) b 2000) (\<lambda>(r, b).
      Option.bind (evbuffer_add (\<lambda>n. True) b [2]) (\<lambda>(r, b). evbuffer_add_printf (\<lambda>n. True) b [3]))))
     = Some [1, 3, 2]"
  by (simp add: evb_eval)

text \<open>Adding no bytes behind a chain of the caller's memory leaves such an empty chain too.\<close>

lemma adding_nothing_misleads:
  "\<exists>rs b. run_ops evb_step (map (Pair (\<lambda>n. True)) [Add_reference [3], Add [], Add [5]]) evbuffer_new = Some (rs, b) \<and> \<not> evb_ok b"
  by (simp add: evb_eval evb_step_def evb_exec_def evbuffer_add_reference_def evb_ok_def)

text \<open>The test for overflow is the wrong way round: the chain is resized when the sum overflows, and the assertion fails.\<close>

lemma expand_everything_aborts: "evbuffer_expand (\<lambda>n. True) (example_buffer [1]) SIZE_MAX = None"
  by (simp add: evb_eval)



end
