(* ===== verification/EventBase.thy ===== *)
theory EventBase
  imports MinHeap
begin

text \<open>
  The event loop of libevent: the core of \<^verbatim>\<open>event.c\<close> and \<^verbatim>\<open>evmap.c\<close>, over the heap of timeouts of MinHeap. Events
  are addresses; \<open>evt\<close> holds their fields but the timeout and the place in the heap, which are in the heap's store.
  Bit masks are sets. The kernel is a script: every dispatch takes the next reply, the time at which the wait ended
  and what is ready. Callbacks are a parameter that says which functions of the library a call goes on to call.
  \<open>Fault\<close> stands for a failed \<^verbatim>\<open>EVUTIL_ASSERT\<close>, \<^verbatim>\<open>event_errx\<close>, a null pointer and a pointer to a dead variable. So does
  an entry of \<^verbatim>\<open>evmap.c\<close> that is not there, which the code finds to be a null pointer, or, past the end of its table,
  answers with -1 when deleting. The counters of a signal event share their place with the list node of the descriptor's
  event and the timeout of a persistent one, and are fields of their own here. Left out: locks and the waking of other
  threads, common timeouts, deferred callbacks, \<^verbatim>\<open>EVENT_BASE_FLAG_NO_CACHE_TIME\<close>, debugging.

  The functions of the backend are parameters, and see the base: they can fail at one time and succeed at another.
  Seconds are unbounded integers, where \<^verbatim>\<open>time_t\<close> has 64 bits; the number of calls of a signal event is a natural number, where
  the code has a \<^verbatim>\<open>short\<close> that counts signals. The base is sound (\<open>base_ok\<close>) for a set of fewer than \<open>2 ^ 29\<close> events, none of them a signal
  event: those are the subject of what is proved about \<open>event_signal_closure\<close> alone.
\<close>

section \<open>Events and bases\<close>

type_synonym timeval = "int \<times> int"

datatype what = EV_TIMEOUT | EV_READ | EV_WRITE | EV_SIGNAL | EV_PERSIST | EV_ET
datatype evlist = EVLIST_TIMEOUT | EVLIST_INSERTED | EVLIST_ACTIVE | EVLIST_INTERNAL | EVLIST_INIT
datatype closure = EV_CLOSURE_NONE | EV_CLOSURE_SIGNAL | EV_CLOSURE_PERSIST

record event =
  ev_fd :: int
  ev_events :: "what set"
  ev_res :: "what set"
  ev_flags :: "evlist set"
  ev_pri :: nat
  ev_closure :: closure
  ev_io_timeout :: timeval
  ev_ncalls :: nat
  ev_pncalls :: "nat option"           \<comment> \<open>the number of the frame of \<^verbatim>\<open>event_signal_closure\<close> it points into\<close>

record evmap_io =
  io_events :: "nat list"
  nread :: nat
  nwrite :: nat

record event_base =
  evt :: "nat \<Rightarrow> event"
  timeheap :: min_heap
  eventqueue :: "nat list"
  activequeues :: "nat list list"
  event_count :: int
  event_count_active :: int
  io :: "int \<Rightarrow> evmap_io option"
  sigmap :: "int \<Rightarrow> nat list option"
  event_running_priority :: int
  event_gotterm :: bool
  event_break :: bool
  event_continue :: bool
  running_loop :: bool
  tv_cache :: timeval
  event_tv :: timeval
  clock :: timeval                      \<comment> \<open>what \<^verbatim>\<open>clock_gettime\<close> would say\<close>
  frames :: nat                         \<comment> \<open>frames of \<^verbatim>\<open>event_signal_closure\<close> so far\<close>
  frame :: "(nat \<times> nat) option"         \<comment> \<open>the live one, with its variable \<^verbatim>\<open>ncalls\<close>\<close>
  called :: "(nat \<times> what set) list"     \<comment> \<open>the callbacks run\<close>
  waited :: "timeval option list"       \<comment> \<open>what the backend was given to wait for\<close>

record env =
  monotonic :: bool                     \<comment> \<open>\<^verbatim>\<open>use_monotonic\<close>\<close>
  room :: bool                          \<comment> \<open>the heap can be enlarged\<close>
  slot_room :: "int \<Rightarrow> bool"            \<comment> \<open>there is memory for the entry of a descriptor or signal\<close>
  backend_add :: "event_base \<Rightarrow> int \<Rightarrow> what set \<Rightarrow> bool"    \<comment> \<open>it succeeds, in this state\<close>
  backend_del :: "event_base \<Rightarrow> int \<Rightarrow> what set \<Rightarrow> bool"

definition upd :: "nat \<Rightarrow> (event \<Rightarrow> event) \<Rightarrow> event_base \<Rightarrow> event_base" where
  "upd e f b = b\<lparr>evt := (evt b)(e := f (evt b e))\<rparr>"

definition set_timeout :: "nat \<Rightarrow> timeval \<Rightarrow> event_base \<Rightarrow> event_base" where
  "set_timeout e t b =
     (let h = timeheap b in b\<lparr>timeheap := h\<lparr>evs := (evs h)(e := (evs h e)\<lparr>ev_timeout := t\<rparr>)\<rparr>\<rparr>)"

definition timeout_of :: "event_base \<Rightarrow> nat \<Rightarrow> timeval" where
  "timeout_of b e = ev_timeout (evs (timeheap b) e)"

definition evutil_timeradd :: "timeval \<Rightarrow> timeval \<Rightarrow> timeval" where
  "evutil_timeradd t u =
     (let sec = fst t + fst u; usec = snd t + snd u in if 1000000 \<le> usec then (sec + 1, usec - 1000000) else (sec, usec))"

definition evutil_timersub :: "timeval \<Rightarrow> timeval \<Rightarrow> timeval" where
  "evutil_timersub t u =
     (let sec = fst t - fst u; usec = snd t - snd u in if usec < 0 then (sec - 1, usec + 1000000) else (sec, usec))"

definition gettime :: "event_base \<Rightarrow> timeval" where
  "gettime b = (if fst (tv_cache b) \<noteq> 0 then tv_cache b else clock b)"

section \<open>Queues\<close>

definition EV_IO :: "what set" where "EV_IO = {EV_READ, EV_WRITE}"

definition internal :: "event_base \<Rightarrow> nat \<Rightarrow> bool" where
  "internal b e \<longleftrightarrow> EVLIST_INTERNAL \<in> ev_flags (evt b e)"

definition event_queue_insert :: "env \<Rightarrow> evlist \<Rightarrow> nat \<Rightarrow> event_base \<Rightarrow> event_base option" where
  "event_queue_insert en q e b =
     (if q \<in> ev_flags (evt b e) then (if q = EVLIST_ACTIVE then Some b else None)
      else
        let b = b\<lparr>event_count := event_count b + (if internal b e then 0 else 1)\<rparr>;
            b = upd e (\<lambda>ev. ev\<lparr>ev_flags := insert q (ev_flags ev)\<rparr>) b in
        case q of
          EVLIST_INSERTED \<Rightarrow> Some (b\<lparr>eventqueue := eventqueue b @ [e]\<rparr>)
        | EVLIST_ACTIVE \<Rightarrow>
            let p = ev_pri (evt b e) in
            if p < length (activequeues b)
            then Some (b\<lparr>event_count_active := event_count_active b + 1,
                        activequeues := (activequeues b)[p := activequeues b ! p @ [e]]\<rparr>)
            else None
        | EVLIST_TIMEOUT \<Rightarrow> map_option (\<lambda>(r, h). b\<lparr>timeheap := h\<rparr>) (min_heap_push (room en) (timeheap b) e)
        | _ \<Rightarrow> None)"

definition event_queue_remove :: "evlist \<Rightarrow> nat \<Rightarrow> event_base \<Rightarrow> event_base option" where
  "event_queue_remove q e b =
     (if q \<notin> ev_flags (evt b e) then None
      else
        let b = b\<lparr>event_count := event_count b - (if internal b e then 0 else 1)\<rparr>;
            b = upd e (\<lambda>ev. ev\<lparr>ev_flags := ev_flags ev - {q}\<rparr>) b in
        case q of
          EVLIST_INSERTED \<Rightarrow> Some (b\<lparr>eventqueue := remove1 e (eventqueue b)\<rparr>)
        | EVLIST_ACTIVE \<Rightarrow>
            let p = ev_pri (evt b e) in
            if p < length (activequeues b)
            then Some (b\<lparr>event_count_active := event_count_active b - 1,
                        activequeues := (activequeues b)[p := remove1 e (activequeues b ! p)]\<rparr>)
            else None
        | EVLIST_TIMEOUT \<Rightarrow> map_option (\<lambda>(r, h). b\<lparr>timeheap := h\<rparr>) (min_heap_erase (timeheap b) e)
        | _ \<Rightarrow> None)"

section \<open>Descriptors and signals\<close>

definition new_io :: evmap_io where "new_io = \<lparr>io_events = [], nread = 0, nwrite = 0\<rparr>"

definition old_events :: "evmap_io \<Rightarrow> what set" where
  "old_events c = (if nread c \<noteq> 0 then {EV_READ} else {}) \<union> (if nwrite c \<noteq> 0 then {EV_WRITE} else {})"

definition evmap_io_add :: "env \<Rightarrow> int \<Rightarrow> nat \<Rightarrow> event_base \<Rightarrow> int \<times> event_base" where
  "evmap_io_add en fd e b =
     (if fd < 0 then (0, b)
      else if io b fd = None \<and> \<not> slot_room en fd then (-1, b)
      else
        let c = (case io b fd of None \<Rightarrow> new_io | Some c \<Rightarrow> c); b = b\<lparr>io := (io b)(fd \<mapsto> c)\<rparr>;
            what = ev_events (evt b e);
            nr = nread c + (if EV_READ \<in> what then 1 else 0); nw = nwrite c + (if EV_WRITE \<in> what then 1 else 0);
            res = (if EV_READ \<in> what \<and> nr = 1 then {EV_READ} else {}) \<union> (if EV_WRITE \<in> what \<and> nw = 1 then {EV_WRITE} else {}) in
        if 65535 < nr \<or> 65535 < nw then (-1, b)
        else if res \<noteq> {} \<and> \<not> backend_add en b fd (what \<inter> {EV_ET} \<union> res) then (-1, b)
        else (if res = {} then 0 else 1,
              b\<lparr>io := (io b)(fd \<mapsto> \<lparr>io_events = io_events c @ [e], nread = nr, nwrite = nw\<rparr>)\<rparr>))"

definition evmap_io_del :: "env \<Rightarrow> int \<Rightarrow> nat \<Rightarrow> event_base \<Rightarrow> (int \<times> event_base) option" where
  "evmap_io_del en fd e b =
     (if fd < 0 then Some (0, b)
      else
        case io b fd of None \<Rightarrow> None | Some c \<Rightarrow>
        let what = ev_events (evt b e) in
        if EV_READ \<in> what \<and> nread c = 0 \<or> EV_WRITE \<in> what \<and> nwrite c = 0 then None
        else
          let nr = nread c - (if EV_READ \<in> what then 1 else 0); nw = nwrite c - (if EV_WRITE \<in> what then 1 else 0);
              res = (if EV_READ \<in> what \<and> nr = 0 then {EV_READ} else {}) \<union> (if EV_WRITE \<in> what \<and> nw = 0 then {EV_WRITE} else {}) in
          if res \<noteq> {} \<and> \<not> backend_del en b fd res then Some (-1, b)
          else Some (if res = {} then 0 else 1,
                     b\<lparr>io := (io b)(fd \<mapsto> \<lparr>io_events = remove1 e (io_events c), nread = nr, nwrite = nw\<rparr>)\<rparr>))"

definition evmap_signal_add :: "env \<Rightarrow> int \<Rightarrow> nat \<Rightarrow> event_base \<Rightarrow> int \<times> event_base" where
  "evmap_signal_add en sig e b =
     (if sigmap b sig = None \<and> \<not> slot_room en sig then (-1, b)
      else
        let es = (case sigmap b sig of None \<Rightarrow> [] | Some es \<Rightarrow> es) in
        if es = [] \<and> \<not> backend_add en b sig {EV_SIGNAL} then (-1, b\<lparr>sigmap := (sigmap b)(sig \<mapsto> es)\<rparr>)
        else (1, b\<lparr>sigmap := (sigmap b)(sig \<mapsto> es @ [e])\<rparr>))"

definition evmap_signal_del :: "env \<Rightarrow> int \<Rightarrow> nat \<Rightarrow> event_base \<Rightarrow> (int \<times> event_base) option" where
  "evmap_signal_del en sig e b =
     (case sigmap b sig of None \<Rightarrow> None | Some es \<Rightarrow>
        if es = [] then None
        else if hd es = last es \<and> \<not> backend_del en b sig {EV_SIGNAL} then Some (-1, b)
        else Some (1, b\<lparr>sigmap := (sigmap b)(sig \<mapsto> remove1 e es)\<rparr>))"

section \<open>Events\<close>

definition event_assign :: "nat \<Rightarrow> int \<Rightarrow> what set \<Rightarrow> event_base \<Rightarrow> int \<times> event_base" where
  "event_assign e fd what b =
     (let set_fields = upd e (\<lambda>ev. ev\<lparr>ev_fd := fd, ev_events := what, ev_res := {}, ev_flags := {EVLIST_INIT},
            ev_ncalls := 0, ev_pncalls := None\<rparr>) in
      if EV_SIGNAL \<in> what \<and> what \<inter> EV_IO \<noteq> {} then (-1, set_fields b)
      else
        let b = upd e (\<lambda>ev.
              if EV_SIGNAL \<in> what then ev\<lparr>ev_closure := EV_CLOSURE_SIGNAL\<rparr>
              else if EV_PERSIST \<in> what then ev\<lparr>ev_io_timeout := (0, 0), ev_closure := EV_CLOSURE_PERSIST\<rparr>
              else ev\<lparr>ev_closure := EV_CLOSURE_NONE\<rparr>) (set_fields b);
            b = b\<lparr>timeheap := min_heap_elem_init e (timeheap b)\<rparr> in
        (0, upd e (\<lambda>ev. ev\<lparr>ev_pri := length (activequeues b) div 2\<rparr>) b))"

definition event_priority_set :: "nat \<Rightarrow> int \<Rightarrow> event_base \<Rightarrow> int \<times> event_base" where
  "event_priority_set e pri b =
     (if EVLIST_ACTIVE \<in> ev_flags (evt b e) then (-1, b)
      else if pri < 0 \<or> int (length (activequeues b)) \<le> pri then (-1, b)
      else (0, upd e (\<lambda>ev. ev\<lparr>ev_pri := nat pri\<rparr>) b))"

definition event_pending :: "nat \<Rightarrow> what set \<Rightarrow> event_base \<Rightarrow> what set" where
  "event_pending e what b =
     (let ev = evt b e;
          fl = (if EVLIST_INSERTED \<in> ev_flags ev then ev_events ev \<inter> {EV_READ, EV_WRITE, EV_SIGNAL} else {})
            \<union> (if EVLIST_ACTIVE \<in> ev_flags ev then ev_res ev else {})
            \<union> (if EVLIST_TIMEOUT \<in> ev_flags ev then {EV_TIMEOUT} else {})
      in fl \<inter> (what \<inter> {EV_TIMEOUT, EV_READ, EV_WRITE, EV_SIGNAL}))"

definition abort_loop :: "nat \<Rightarrow> event_base \<Rightarrow> event_base option" where
  \<comment> \<open>\<^verbatim>\<open>if (ev->ev_ncalls && ev->ev_pncalls) *ev->ev_pncalls = 0\<close>\<close>
  "abort_loop e b =
     (if ev_ncalls (evt b e) = 0 then Some b
      else case ev_pncalls (evt b e) of
          None \<Rightarrow> Some b
        | Some k \<Rightarrow> (case frame b of
              Some (k', n) \<Rightarrow> if k' = k then Some (b\<lparr>frame := Some (k, 0)\<rparr>) else None
            | None \<Rightarrow> None))"

definition watch :: "env \<Rightarrow> nat \<Rightarrow> event_base \<Rightarrow> (int \<times> event_base) option" where
  \<comment> \<open>the part of \<^verbatim>\<open>event_add_internal\<close> that is about descriptors and signals\<close>
  "watch en e b =
     (let ev = evt b e in
      if ev_events ev \<inter> {EV_READ, EV_WRITE, EV_SIGNAL} \<noteq> {} \<and> EVLIST_INSERTED \<notin> ev_flags ev \<and> EVLIST_ACTIVE \<notin> ev_flags ev then
        (case (if ev_events ev \<inter> EV_IO \<noteq> {} then evmap_io_add en (ev_fd ev) e b else evmap_signal_add en (ev_fd ev) e b) of
           (res, b) \<Rightarrow>
             if res = -1 then Some (-1, b)
             else map_option (\<lambda>b. (0, b)) (event_queue_insert en EVLIST_INSERTED e b))
      else Some (0, b))"

definition schedule :: "env \<Rightarrow> nat \<Rightarrow> timeval \<Rightarrow> bool \<Rightarrow> event_base \<Rightarrow> event_base option" where
  \<comment> \<open>the part about the timeout\<close>
  "schedule en e tv absolute b =
     (let b = (if ev_closure (evt b e) = EV_CLOSURE_PERSIST \<and> \<not> absolute then upd e (\<lambda>ev. ev\<lparr>ev_io_timeout := tv\<rparr>) b else b) in
      case (if EVLIST_TIMEOUT \<in> ev_flags (evt b e) then event_queue_remove EVLIST_TIMEOUT e b else Some b) of None \<Rightarrow> None | Some b \<Rightarrow>
      case (if EVLIST_ACTIVE \<in> ev_flags (evt b e) \<and> EV_TIMEOUT \<in> ev_res (evt b e) then
              (case (if EV_SIGNAL \<in> ev_events (evt b e) then abort_loop e b else Some b) of
                 None \<Rightarrow> None | Some b \<Rightarrow> event_queue_remove EVLIST_ACTIVE e b)
            else Some b) of None \<Rightarrow> None | Some b \<Rightarrow>
      event_queue_insert en EVLIST_TIMEOUT e
        (set_timeout e (if absolute then tv else evutil_timeradd (gettime b) tv) b))"

definition event_add_internal :: "env \<Rightarrow> nat \<Rightarrow> timeval option \<Rightarrow> bool \<Rightarrow> event_base \<Rightarrow> (int \<times> event_base) option" where
  "event_add_internal en e tv absolute b =
     (let reserve = (tv \<noteq> None \<and> EVLIST_TIMEOUT \<notin> ev_flags (evt b e));
          (r, h) = (if reserve then min_heap_reserve (room en) (timeheap b) ((1 + min_heap_size (timeheap b)) mod 2 ^ 32)
                    else (0, timeheap b)) in
      if r = -1 then Some (-1, b)
      else case watch en e (b\<lparr>timeheap := h\<rparr>) of None \<Rightarrow> None | Some (res, b) \<Rightarrow>
        case tv of
          None \<Rightarrow> Some (res, b)
        | Some t \<Rightarrow> if res = -1 then Some (-1, b) else map_option (\<lambda>b. (res, b)) (schedule en e t absolute b))"

definition event_del_internal :: "env \<Rightarrow> nat \<Rightarrow> event_base \<Rightarrow> (int \<times> event_base) option" where
  "event_del_internal en e b =
     (case (if EV_SIGNAL \<in> ev_events (evt b e) then abort_loop e b else Some b) of None \<Rightarrow> None | Some b \<Rightarrow>
      case (if EVLIST_TIMEOUT \<in> ev_flags (evt b e) then event_queue_remove EVLIST_TIMEOUT e b else Some b) of None \<Rightarrow> None | Some b \<Rightarrow>
      case (if EVLIST_ACTIVE \<in> ev_flags (evt b e) then event_queue_remove EVLIST_ACTIVE e b else Some b) of None \<Rightarrow> None | Some b \<Rightarrow>
      if EVLIST_INSERTED \<in> ev_flags (evt b e) then
        (case event_queue_remove EVLIST_INSERTED e b of None \<Rightarrow> None | Some b \<Rightarrow>
         map_option (\<lambda>(res, b). (if res = 1 then 0 else res, b))
           (if ev_events (evt b e) \<inter> EV_IO \<noteq> {} then evmap_io_del en (ev_fd (evt b e)) e b
            else evmap_signal_del en (ev_fd (evt b e)) e b))
      else Some (0, b))"

definition event_active_nolock :: "env \<Rightarrow> nat \<Rightarrow> what set \<Rightarrow> nat \<Rightarrow> event_base \<Rightarrow> event_base option" where
  "event_active_nolock en e res ncalls b =
     (if EVLIST_ACTIVE \<in> ev_flags (evt b e) then Some (upd e (\<lambda>ev. ev\<lparr>ev_res := ev_res ev \<union> res\<rparr>) b)
      else
        let b = upd e (\<lambda>ev. ev\<lparr>ev_res := res\<rparr>) b;
            b = (if int (ev_pri (evt b e)) < event_running_priority b then b\<lparr>event_continue := True\<rparr> else b);
            b = (if EV_SIGNAL \<in> ev_events (evt b e) then upd e (\<lambda>ev. ev\<lparr>ev_ncalls := ncalls, ev_pncalls := None\<rparr>) b else b) in
        event_queue_insert en EVLIST_ACTIVE e b)"

primrec evmap_active_all :: "env \<Rightarrow> what set \<Rightarrow> nat list \<Rightarrow> event_base \<Rightarrow> event_base option" where
  "evmap_active_all en what [] b = Some b"
| "evmap_active_all en what (e # es) b =
     (case (if ev_events (evt b e) \<inter> what \<noteq> {} then event_active_nolock en e (ev_events (evt b e) \<inter> what) 1 b else Some b) of
        None \<Rightarrow> None | Some b \<Rightarrow> evmap_active_all en what es b)"

definition evmap_io_active :: "env \<Rightarrow> int \<Rightarrow> what set \<Rightarrow> event_base \<Rightarrow> event_base option" where
  "evmap_io_active en fd what b = (case io b fd of None \<Rightarrow> None | Some c \<Rightarrow> evmap_active_all en what (io_events c) b)"

primrec evmap_signal_all :: "env \<Rightarrow> nat \<Rightarrow> nat list \<Rightarrow> event_base \<Rightarrow> event_base option" where
  "evmap_signal_all en n [] b = Some b"
| "evmap_signal_all en n (e # es) b =
     (case event_active_nolock en e {EV_SIGNAL} n b of None \<Rightarrow> None | Some b \<Rightarrow> evmap_signal_all en n es b)"

definition evmap_signal_active :: "env \<Rightarrow> int \<Rightarrow> nat \<Rightarrow> event_base \<Rightarrow> event_base option" where
  "evmap_signal_active en sig n b = (case sigmap b sig of None \<Rightarrow> None | Some es \<Rightarrow> evmap_signal_all en n es b)"

section \<open>Time\<close>

definition clear_time_cache :: "event_base \<Rightarrow> event_base" where
  "clear_time_cache b = b\<lparr>tv_cache := (0, snd (tv_cache b))\<rparr>"

definition update_time_cache :: "event_base \<Rightarrow> event_base" where
  "update_time_cache b = (let b = clear_time_cache b in b\<lparr>tv_cache := gettime b\<rparr>)"

primrec shift_all :: "timeval \<Rightarrow> nat list \<Rightarrow> event_base \<Rightarrow> event_base" where
  "shift_all off [] b = b"
| "shift_all off (e # es) b = shift_all off es (set_timeout e (evutil_timersub (timeout_of b e) off) b)"

definition timeout_correct :: "env \<Rightarrow> event_base \<Rightarrow> event_base" where
  "timeout_correct en b =
     (if monotonic en then b
      else
        let tv = gettime b in
        if \<not> timercmp_gt (event_tv b) tv then b\<lparr>event_tv := tv\<rparr>
        else (shift_all (evutil_timersub (event_tv b) tv) (slots (timeheap b)) b)\<lparr>event_tv := tv\<rparr>)"

definition timeout_next :: "event_base \<Rightarrow> timeval option option" where
  \<comment> \<open>what the backend may wait for; the inner \<open>None\<close>: for ever\<close>
  "timeout_next b =
     (case min_heap_top (timeheap b) of
        None \<Rightarrow> None
      | Some None \<Rightarrow> Some None
      | Some (Some e) \<Rightarrow>
          let now = gettime b; t = timeout_of b e in
          if \<not> timercmp_gt t now then Some (Some (0, 0))
          else
            let d = evutil_timersub t now in
            if fst d < 0 \<or> snd d < 0 then None else Some (Some d))"

primrec timeout_loop :: "env \<Rightarrow> timeval \<Rightarrow> nat \<Rightarrow> event_base \<Rightarrow> event_base option" where
  \<comment> \<open>the loop of \<^verbatim>\<open>timeout_process\<close>, which takes an event out of the heap in each round\<close>
  "timeout_loop en now 0 b = None"
| "timeout_loop en now (Suc k) b =
     (case min_heap_top (timeheap b) of
        None \<Rightarrow> None
      | Some None \<Rightarrow> Some b
      | Some (Some e) \<Rightarrow>
          if timercmp_gt (timeout_of b e) now then Some b
          else case event_del_internal en e b of None \<Rightarrow> None | Some (r, b) \<Rightarrow>
            case event_active_nolock en e {EV_TIMEOUT} 1 b of None \<Rightarrow> None | Some b \<Rightarrow> timeout_loop en now k b)"

definition timeout_process :: "env \<Rightarrow> event_base \<Rightarrow> event_base option" where
  "timeout_process en b =
     (if min_heap_empty (timeheap b) then Some b else timeout_loop en (gettime b) (Suc (heap_n (timeheap b))) b)"

section \<open>Callbacks\<close>

datatype api =
    Event_add nat "timeval option"
  | Event_del nat
  | Event_active nat "what set" nat
  | Event_priority_set nat int
  | Signal_active int nat            \<comment> \<open>by the internal event of the signals\<close>
  | Loopbreak
  | Loopexit                         \<comment> \<open>by \<^verbatim>\<open>event_loopexit_cb\<close>\<close>
  | Elapse timeval                   \<comment> \<open>time goes by\<close>

type_synonym handlers = "event_base \<Rightarrow> nat \<Rightarrow> what set \<Rightarrow> api list"

definition event_base_loopbreak :: "event_base \<Rightarrow> event_base" where
  "event_base_loopbreak b = b\<lparr>event_break := True\<rparr>"

definition event_loopexit_cb :: "event_base \<Rightarrow> event_base" where
  "event_loopexit_cb b = b\<lparr>event_gotterm := True\<rparr>"

definition do_api :: "env \<Rightarrow> api \<Rightarrow> event_base \<Rightarrow> event_base option" where
  "do_api en op b =
     (case op of
        Event_add e tv \<Rightarrow> map_option snd (event_add_internal en e tv False b)
      | Event_del e \<Rightarrow> map_option snd (event_del_internal en e b)
      | Event_active e what n \<Rightarrow> event_active_nolock en e what n b
      | Event_priority_set e p \<Rightarrow> Some (snd (event_priority_set e p b))
      | Signal_active sig n \<Rightarrow> evmap_signal_active en sig n b
      | Loopbreak \<Rightarrow> Some (event_base_loopbreak b)
      | Loopexit \<Rightarrow> Some (event_loopexit_cb b)
      | Elapse t \<Rightarrow> Some (b\<lparr>clock := evutil_timeradd (clock b) t\<rparr>))"

primrec do_apis :: "env \<Rightarrow> api list \<Rightarrow> event_base \<Rightarrow> event_base option" where
  "do_apis en [] b = Some b"
| "do_apis en (op # ops) b = (case do_api en op b of None \<Rightarrow> None | Some b \<Rightarrow> do_apis en ops b)"

definition run_callback :: "handlers \<Rightarrow> env \<Rightarrow> nat \<Rightarrow> what set \<Rightarrow> event_base \<Rightarrow> event_base option" where
  "run_callback h en e res b = (let b = b\<lparr>called := called b @ [(e, res)]\<rparr> in do_apis en (h b e res) b)"

definition event_persist_closure :: "handlers \<Rightarrow> env \<Rightarrow> nat \<Rightarrow> event_base \<Rightarrow> event_base option" where
  "event_persist_closure h en e b =
     (let delay = ev_io_timeout (evt b e); now = gettime b;
          run_at = evutil_timeradd (if EV_TIMEOUT \<in> ev_res (evt b e) then timeout_of b e else now) delay;
          run_at = (if timercmp_gt now run_at then evutil_timeradd now delay else run_at) in
      case (if delay \<noteq> (0, 0) then map_option snd (event_add_internal en e (Some run_at) True b) else Some b) of
        None \<Rightarrow> None | Some b \<Rightarrow> run_callback h en e (ev_res (evt b e)) b)"

primrec signal_loop :: "handlers \<Rightarrow> env \<Rightarrow> nat \<Rightarrow> nat \<Rightarrow> event_base \<Rightarrow> event_base option" where
  "signal_loop h en e 0 b = Some b"
| "signal_loop h en e (Suc m) b =
     (case frame b of None \<Rightarrow> None | Some (k, n) \<Rightarrow>
      if n = 0 then Some b
      else
        let b = upd e (\<lambda>ev. ev\<lparr>ev_ncalls := n - 1, ev_pncalls := (if n - 1 = 0 then None else ev_pncalls ev)\<rparr>)
                  (b\<lparr>frame := Some (k, n - 1)\<rparr>) in
        case run_callback h en e (ev_res (evt b e)) b of None \<Rightarrow> None | Some b \<Rightarrow>
        if event_break b then
          Some (case frame b of
                  Some (k, n) \<Rightarrow> if n \<noteq> 0 then upd e (\<lambda>ev. ev\<lparr>ev_pncalls := None\<rparr>) b else b
                | None \<Rightarrow> b)
        else signal_loop h en e m b)"

definition event_signal_closure :: "handlers \<Rightarrow> env \<Rightarrow> nat \<Rightarrow> event_base \<Rightarrow> event_base option" where
  "event_signal_closure h en e b =
     (let n = ev_ncalls (evt b e); k = frames b;
          b = b\<lparr>frames := Suc k, frame := Some (k, n)\<rparr>;
          b = (if n \<noteq> 0 then upd e (\<lambda>ev. ev\<lparr>ev_pncalls := Some k\<rparr>) b else b)
      in map_option (\<lambda>b. b\<lparr>frame := None\<rparr>) (signal_loop h en e n b))"

section \<open>The loop\<close>

datatype 'a outcome = Done 'a | Fault | Busy     \<comment> \<open>\<open>Busy\<close>: the fuel is used up\<close>

primrec single_queue :: "handlers \<Rightarrow> env \<Rightarrow> nat \<Rightarrow> nat \<Rightarrow> int \<Rightarrow> event_base \<Rightarrow> (int \<times> event_base) outcome" where
  \<comment> \<open>\<^verbatim>\<open>event_process_active_single_queue\<close>\<close>
  "single_queue h en p 0 cnt b = Busy"
| "single_queue h en p (Suc k) cnt b =
     (case activequeues b ! p of
        [] \<Rightarrow> Done (cnt, b)
      | e # _ \<Rightarrow>
          case (if EV_PERSIST \<in> ev_events (evt b e) then event_queue_remove EVLIST_ACTIVE e b
                else map_option snd (event_del_internal en e b)) of
            None \<Rightarrow> Fault
          | Some b \<Rightarrow>
              let cnt = cnt + (if internal b e then 0 else 1) in
              case (case ev_closure (evt b e) of
                      EV_CLOSURE_SIGNAL \<Rightarrow> event_signal_closure h en e b
                    | EV_CLOSURE_PERSIST \<Rightarrow> event_persist_closure h en e b
                    | EV_CLOSURE_NONE \<Rightarrow> run_callback h en e (ev_res (evt b e)) b) of
                None \<Rightarrow> Fault
              | Some b \<Rightarrow>
                  if event_break b then Done (-1, b)
                  else if event_continue b then Done (cnt, b)
                  else single_queue h en p k cnt b)"

primrec process_queues :: "handlers \<Rightarrow> env \<Rightarrow> nat \<Rightarrow> nat list \<Rightarrow> event_base \<Rightarrow> (int \<times> event_base) outcome" where
  "process_queues h en fuel [] b = Done (0, b\<lparr>event_running_priority := -1\<rparr>)"
| "process_queues h en fuel (i # is) b =
     (if activequeues b ! i = [] then process_queues h en fuel is b
      else case single_queue h en i fuel 0 (b\<lparr>event_running_priority := int i\<rparr>) of
          Fault \<Rightarrow> Fault
        | Busy \<Rightarrow> Busy
        | Done (c, b) \<Rightarrow>
            if c \<noteq> 0 then Done (if c < 0 then -1 else c, b\<lparr>event_running_priority := -1\<rparr>) else process_queues h en fuel is b)"

definition event_process_active :: "handlers \<Rightarrow> env \<Rightarrow> nat \<Rightarrow> event_base \<Rightarrow> (int \<times> event_base) outcome" where
  "event_process_active h en fuel b = process_queues h en fuel [0..<length (activequeues b)] b"

datatype reply = Dispatch_failed | Ready timeval "(int \<times> what set) list"

primrec activate_ready :: "env \<Rightarrow> (int \<times> what set) list \<Rightarrow> event_base \<Rightarrow> event_base option" where
  "activate_ready en [] b = Some b"
| "activate_ready en (r # rs) b = (case evmap_io_active en (fst r) (snd r) b of None \<Rightarrow> None | Some b \<Rightarrow> activate_ready en rs b)"

definition event_haveevents :: "event_base \<Rightarrow> bool" where
  "event_haveevents b \<longleftrightarrow> 0 < event_count b"

definition loop_head :: "env \<Rightarrow> bool \<Rightarrow> event_base \<Rightarrow> (int \<times> event_base + event_base) option" where
  \<comment> \<open>left: the loop ends with this result; right: it goes to wait\<close>
  "loop_head en nonblock b =
     (let b = b\<lparr>event_continue := False\<rparr> in
      if event_gotterm b \<or> event_break b then Some (Inl (0, b))
      else
        let b = timeout_correct en b in
        case (if event_count_active b = 0 \<and> \<not> nonblock then timeout_next b else Some (Some (0, 0))) of None \<Rightarrow> None | Some tv \<Rightarrow>
        if \<not> event_haveevents b \<and> event_count_active b = 0 then Some (Inl (1, b))
        else Some (Inr (clear_time_cache (b\<lparr>event_tv := gettime b, waited := waited b @ [tv]\<rparr>))))"

datatype ending = Returned int | Waiting     \<comment> \<open>\<open>Waiting\<close>: the script is used up\<close>

primrec loop_rounds :: "handlers \<Rightarrow> env \<Rightarrow> nat \<Rightarrow> bool \<Rightarrow> bool \<Rightarrow> reply list \<Rightarrow> event_base \<Rightarrow> (ending \<times> event_base) outcome" where
  "loop_rounds h en fuel once nonblock [] b =
     (case loop_head en nonblock b of
        None \<Rightarrow> Fault | Some (Inl (r, b)) \<Rightarrow> Done (Returned r, b) | Some (Inr b) \<Rightarrow> Done (Waiting, b))"
| "loop_rounds h en fuel once nonblock (reply # rs) b =
     (case loop_head en nonblock b of
        None \<Rightarrow> Fault
      | Some (Inl (r, b)) \<Rightarrow> Done (Returned r, b)
      | Some (Inr b) \<Rightarrow>
          case reply of
            Dispatch_failed \<Rightarrow> Done (Returned (-1), b)
          | Ready t ready \<Rightarrow>
              case activate_ready en ready (b\<lparr>clock := t\<rparr>) of None \<Rightarrow> Fault | Some b \<Rightarrow>
              case timeout_process en (update_time_cache b) of None \<Rightarrow> Fault | Some b \<Rightarrow>
              if event_count_active b \<noteq> 0 then
                (case event_process_active h en fuel b of
                   Fault \<Rightarrow> Fault
                 | Busy \<Rightarrow> Busy
                 | Done (n, b) \<Rightarrow>
                     if once \<and> event_count_active b = 0 \<and> n \<noteq> 0 then Done (Returned 0, b)
                     else loop_rounds h en fuel once nonblock rs b)
              else if nonblock then Done (Returned 0, b)
              else loop_rounds h en fuel once nonblock rs b)"

definition event_base_loop :: "handlers \<Rightarrow> env \<Rightarrow> nat \<Rightarrow> bool \<Rightarrow> bool \<Rightarrow> reply list \<Rightarrow> event_base \<Rightarrow> (ending \<times> event_base) outcome" where
  "event_base_loop h en fuel once nonblock script b =
     (if running_loop b then Done (Returned (-1), b)
      else
        let b = (clear_time_cache b)\<lparr>running_loop := True, event_gotterm := False, event_break := False\<rparr> in
        case loop_rounds h en fuel once nonblock script b of
          Done (Returned r, b) \<Rightarrow> Done (Returned r, (clear_time_cache b)\<lparr>running_loop := False\<rparr>)
        | out \<Rightarrow> out)"

section \<open>The invariant\<close>

abbreviation flags :: "event_base \<Rightarrow> nat \<Rightarrow> evlist set" where
  "flags b e \<equiv> ev_flags (evt b e)"

definition QUEUES :: "evlist set" where "QUEUES = {EVLIST_TIMEOUT, EVLIST_INSERTED, EVLIST_ACTIVE}"

definition weight :: "evlist set \<Rightarrow> int" where
  "weight fs = (if EVLIST_INTERNAL \<in> fs then 0 else int (card (fs \<inter> QUEUES)))"

definition active_bit :: "evlist set \<Rightarrow> int" where
  "active_bit fs = (if EVLIST_ACTIVE \<in> fs then 1 else 0)"

definition counted :: "nat set \<Rightarrow> event_base \<Rightarrow> bool" where
  "counted E b \<longleftrightarrow> finite E \<and> (\<forall>e. flags b e \<inter> QUEUES \<noteq> {} \<longrightarrow> e \<in> E)
     \<and> event_count b = (\<Sum>e\<in>E. weight (flags b e)) \<and> event_count_active b = (\<Sum>e\<in>E. active_bit (flags b e))"

definition timeouts_ok :: "nat set \<Rightarrow> event_base \<Rightarrow> bool" where
  "timeouts_ok E b \<longleftrightarrow> heap_ok (timeheap b) \<and> card E < 2 ^ 29
     \<and> (\<forall>e. e \<in> set (slots (timeheap b)) \<longleftrightarrow> EVLIST_TIMEOUT \<in> flags b e)"

definition inserted_ok :: "event_base \<Rightarrow> bool" where
  "inserted_ok b \<longleftrightarrow> distinct (eventqueue b) \<and> (\<forall>e. e \<in> set (eventqueue b) \<longleftrightarrow> EVLIST_INSERTED \<in> flags b e)"

definition active_ok :: "nat set \<Rightarrow> event_base \<Rightarrow> bool" where
  "active_ok E b \<longleftrightarrow> (\<forall>e \<in> E. ev_pri (evt b e) < length (activequeues b))
     \<and> (\<forall>p < length (activequeues b). distinct (activequeues b ! p)
          \<and> (\<forall>e. e \<in> set (activequeues b ! p) \<longleftrightarrow> EVLIST_ACTIVE \<in> flags b e \<and> ev_pri (evt b e) = p))"

definition queues_ok :: "nat set \<Rightarrow> event_base \<Rightarrow> bool" where
  "queues_ok E b \<longleftrightarrow> counted E b \<and> timeouts_ok E b \<and> inserted_ok b \<and> active_ok E b"

lemma upd_simps [simp]:
  "evt (upd e f b) e' = (if e' = e then f (evt b e) else evt b e')"
  "timeheap (upd e f b) = timeheap b" "eventqueue (upd e f b) = eventqueue b" "activequeues (upd e f b) = activequeues b"
  "event_count (upd e f b) = event_count b" "event_count_active (upd e f b) = event_count_active b" "io (upd e f b) = io b"
  "event_running_priority (upd e f b) = event_running_priority b" "tv_cache (upd e f b) = tv_cache b" "clock (upd e f b) = clock b"
  "event_break (upd e f b) = event_break b" "event_continue (upd e f b) = event_continue b" "called (upd e f b) = called b"
  "sigmap (upd e f b) = sigmap b" "frame (upd e f b) = frame b" "event_gotterm (upd e f b) = event_gotterm b"
  "event_tv (upd e f b) = event_tv b" "running_loop (upd e f b) = running_loop b" "waited (upd e f b) = waited b" "frames (upd e f b) = frames b"
  by (simp_all add: upd_def)

text \<open>Flags that change at one event.\<close>

lemma sum_at:
  fixes g h :: "nat \<Rightarrow> int"
  assumes "finite E" and "e \<in> E" and "\<And>x. x \<noteq> e \<Longrightarrow> h x = g x"
  shows "sum h E = sum g E + (h e - g e)"
proof -
  have "sum h (E - {e}) = sum g (E - {e})" using assms(3) by (intro sum.cong) auto
  then show ?thesis using assms(1,2) by (simp add: sum.remove [of E e])
qed

lemma weight_insert: "q \<in> QUEUES \<Longrightarrow> q \<notin> fs \<Longrightarrow> weight (insert q fs) = weight fs + (if EVLIST_INTERNAL \<in> fs then 0 else 1)"
  by (auto simp: weight_def QUEUES_def Int_insert_left)

lemma weight_remove: "q \<in> QUEUES \<Longrightarrow> q \<in> fs \<Longrightarrow> weight (fs - {q}) = weight fs - (if EVLIST_INTERNAL \<in> fs then 0 else 1)"
  using weight_insert [of q "fs - {q}"] by (auto simp: insert_absorb QUEUES_def)

lemma counted_insert:
  assumes "counted E b" and "e \<in> E" and "q \<in> QUEUES" and "q \<notin> flags b e"
    and "\<And>x. flags b' x = (if x = e then insert q (flags b e) else flags b x)"
    and "event_count b' = event_count b + (if internal b e then 0 else 1)"
    and "event_count_active b' = event_count_active b + (if q = EVLIST_ACTIVE then 1 else 0)"
  shows "counted E b'"
proof -
  have fin: "finite E" using assms(1) by (simp add: counted_def)
  have "(\<Sum>x\<in>E. weight (flags b' x)) = (\<Sum>x\<in>E. weight (flags b x)) + (if internal b e then 0 else 1)"
    using sum_at [OF fin assms(2), of "\<lambda>x. weight (flags b' x)" "\<lambda>x. weight (flags b x)"] assms(3,4)
    by (simp add: assms(5) weight_insert internal_def)
  moreover have "(\<Sum>x\<in>E. active_bit (flags b' x)) = (\<Sum>x\<in>E. active_bit (flags b x)) + (if q = EVLIST_ACTIVE then 1 else 0)"
    using sum_at [OF fin assms(2), of "\<lambda>x. active_bit (flags b' x)" "\<lambda>x. active_bit (flags b x)"] assms(4)
    by (auto simp: assms(5) active_bit_def)
  ultimately show ?thesis using assms(1,2,6,7) by (auto simp: counted_def assms(5) split: if_splits)
qed

lemma counted_remove:
  assumes "counted E b" and "q \<in> QUEUES" and "q \<in> flags b e"
    and "\<And>x. flags b' x = (if x = e then flags b e - {q} else flags b x)"
    and "event_count b' = event_count b - (if internal b e then 0 else 1)"
    and "event_count_active b' = event_count_active b - (if q = EVLIST_ACTIVE then 1 else 0)"
  shows "counted E b'"
proof -
  have fin: "finite E" and e: "e \<in> E" using assms(1,2,3) by (auto simp: counted_def)
  have "(\<Sum>x\<in>E. weight (flags b' x)) = (\<Sum>x\<in>E. weight (flags b x)) - (if internal b e then 0 else 1)"
    using sum_at [OF fin e, of "\<lambda>x. weight (flags b' x)" "\<lambda>x. weight (flags b x)"] assms(2,3)
    by (simp add: assms(4) weight_remove internal_def)
  moreover have "(\<Sum>x\<in>E. active_bit (flags b' x)) = (\<Sum>x\<in>E. active_bit (flags b x)) - (if q = EVLIST_ACTIVE then 1 else 0)"
    using sum_at [OF fin e, of "\<lambda>x. active_bit (flags b' x)" "\<lambda>x. active_bit (flags b x)"] assms(3)
    by (auto simp: assms(4) active_bit_def)
  ultimately show ?thesis using assms(1,5,6) e by (auto simp: counted_def assms(4) split: if_splits)
qed

text \<open>No other field matters.\<close>

lemma queues_ok_cong:
  assumes "\<And>x. flags b' x = flags b x" and "\<And>x. ev_pri (evt b' x) = ev_pri (evt b x)"
    and "event_count b' = event_count b" and "event_count_active b' = event_count_active b"
    and "heap_ok (timeheap b') = heap_ok (timeheap b)" and "slots (timeheap b') = slots (timeheap b)"
    and "eventqueue b' = eventqueue b" and "activequeues b' = activequeues b"
  shows "queues_ok E b' = queues_ok E b"
  by (simp add: queues_ok_def counted_def timeouts_ok_def inserted_ok_def active_ok_def assms)

text \<open>The queue operations keep it.\<close>

definition marked :: "evlist \<Rightarrow> nat \<Rightarrow> event_base \<Rightarrow> event_base" where
  "marked q e b = upd e (\<lambda>ev. ev\<lparr>ev_flags := insert q (ev_flags ev)\<rparr>)
     (b\<lparr>event_count := event_count b + (if internal b e then 0 else 1)\<rparr>)"

definition unmarked :: "evlist \<Rightarrow> nat \<Rightarrow> event_base \<Rightarrow> event_base" where
  "unmarked q e b = upd e (\<lambda>ev. ev\<lparr>ev_flags := ev_flags ev - {q}\<rparr>)
     (b\<lparr>event_count := event_count b - (if internal b e then 0 else 1)\<rparr>)"

lemma marked_simps [simp]:
  "evt (marked q e b) x = (if x = e then (evt b e)\<lparr>ev_flags := insert q (flags b e)\<rparr> else evt b x)"
  "evt (unmarked q e b) x = (if x = e then (evt b e)\<lparr>ev_flags := flags b e - {q}\<rparr> else evt b x)"
  "timeheap (marked q e b) = timeheap b" "eventqueue (marked q e b) = eventqueue b" "activequeues (marked q e b) = activequeues b"
  "timeheap (unmarked q e b) = timeheap b" "eventqueue (unmarked q e b) = eventqueue b" "activequeues (unmarked q e b) = activequeues b"
  "event_count_active (marked q e b) = event_count_active b" "event_count_active (unmarked q e b) = event_count_active b"
  "event_count (marked q e b) = event_count b + (if internal b e then 0 else 1)"
  "event_count (unmarked q e b) = event_count b - (if internal b e then 0 else 1)"
  "io (marked q e b) = io b" "io (unmarked q e b) = io b" "sigmap (marked q e b) = sigmap b" "sigmap (unmarked q e b) = sigmap b"
  by (simp_all add: marked_def unmarked_def)

lemma timeouts_cong:
  assumes "timeouts_ok E b" and "timeheap b' = timeheap b" and "\<And>x. EVLIST_TIMEOUT \<in> flags b' x \<longleftrightarrow> EVLIST_TIMEOUT \<in> flags b x"
  shows "timeouts_ok E b'"
  using assms by (simp add: timeouts_ok_def)

lemma inserted_cong:
  assumes "inserted_ok b" and "eventqueue b' = eventqueue b" and "\<And>x. EVLIST_INSERTED \<in> flags b' x \<longleftrightarrow> EVLIST_INSERTED \<in> flags b x"
  shows "inserted_ok b'"
  using assms by (simp add: inserted_ok_def)

lemma active_cong:
  assumes "active_ok E b" and "activequeues b' = activequeues b" and "\<And>x. EVLIST_ACTIVE \<in> flags b' x \<longleftrightarrow> EVLIST_ACTIVE \<in> flags b x"
    and "\<And>x. ev_pri (evt b' x) = ev_pri (evt b x)"
  shows "active_ok E b'"
  using assms by (simp add: active_ok_def)

lemma queues_okD:
  assumes "queues_ok E b"
  shows "counted E b" "timeouts_ok E b" "inserted_ok b" "active_ok E b"
  using assms by (simp_all add: queues_ok_def)

lemma queues_okI: "counted E b \<Longrightarrow> timeouts_ok E b \<Longrightarrow> inserted_ok b \<Longrightarrow> active_ok E b \<Longrightarrow> queues_ok E b"
  by (simp add: queues_ok_def)

lemma insert_inserted:
  assumes "queues_ok E b" and "e \<in> E" and "EVLIST_INSERTED \<notin> flags b e"
  shows "event_queue_insert en EVLIST_INSERTED e b = Some ((marked EVLIST_INSERTED e b)\<lparr>eventqueue := eventqueue b @ [e]\<rparr>)"
    and "queues_ok E ((marked EVLIST_INSERTED e b)\<lparr>eventqueue := eventqueue b @ [e]\<rparr>)"
proof -
  let ?b = "(marked EVLIST_INSERTED e b)\<lparr>eventqueue := eventqueue b @ [e]\<rparr>"
  show "event_queue_insert en EVLIST_INSERTED e b = Some ?b"
    using assms(3) by (simp add: event_queue_insert_def marked_def Let_def)
  have "counted E ?b"
    by (rule counted_insert [OF queues_okD(1) [OF assms(1)] assms(2) _ assms(3)]) (simp_all add: QUEUES_def)
  moreover have "inserted_ok ?b" using queues_okD(3) [OF assms(1)] assms(3) by (simp add: inserted_ok_def)
  moreover have "timeouts_ok E ?b" by (rule timeouts_cong [OF queues_okD(2) [OF assms(1)]]) auto
  moreover have "active_ok E ?b" by (rule active_cong [OF queues_okD(4) [OF assms(1)]]) auto
  ultimately show "queues_ok E ?b" by (intro queues_okI)
qed

lemma remove_inserted:
  assumes "queues_ok E b" and "EVLIST_INSERTED \<in> flags b e"
  shows "event_queue_remove EVLIST_INSERTED e b = Some ((unmarked EVLIST_INSERTED e b)\<lparr>eventqueue := remove1 e (eventqueue b)\<rparr>)"
    and "queues_ok E ((unmarked EVLIST_INSERTED e b)\<lparr>eventqueue := remove1 e (eventqueue b)\<rparr>)"
proof -
  let ?b = "(unmarked EVLIST_INSERTED e b)\<lparr>eventqueue := remove1 e (eventqueue b)\<rparr>"
  show "event_queue_remove EVLIST_INSERTED e b = Some ?b"
    using assms(2) by (simp add: event_queue_remove_def unmarked_def Let_def)
  have "counted E ?b"
    by (rule counted_remove [OF queues_okD(1) [OF assms(1)] _ assms(2)]) (simp_all add: QUEUES_def)
  moreover have "inserted_ok ?b" using queues_okD(3) [OF assms(1)] by (simp add: inserted_ok_def)
  moreover have "timeouts_ok E ?b" by (rule timeouts_cong [OF queues_okD(2) [OF assms(1)]]) auto
  moreover have "active_ok E ?b" by (rule active_cong [OF queues_okD(4) [OF assms(1)]]) auto
  ultimately show "queues_ok E ?b" by (intro queues_okI)
qed

definition put_active :: "nat \<Rightarrow> event_base \<Rightarrow> event_base" where
  "put_active e b = (let p = ev_pri (evt b e) in
     (marked EVLIST_ACTIVE e b)\<lparr>event_count_active := event_count_active b + 1,
        activequeues := (activequeues b)[p := activequeues b ! p @ [e]]\<rparr>)"

definition take_active :: "nat \<Rightarrow> event_base \<Rightarrow> event_base" where
  "take_active e b = (let p = ev_pri (evt b e) in
     (unmarked EVLIST_ACTIVE e b)\<lparr>event_count_active := event_count_active b - 1,
        activequeues := (activequeues b)[p := remove1 e (activequeues b ! p)]\<rparr>)"

lemma insert_active:
  assumes "queues_ok E b" and "e \<in> E" and "EVLIST_ACTIVE \<notin> flags b e"
  shows "event_queue_insert en EVLIST_ACTIVE e b = Some (put_active e b)" and "queues_ok E (put_active e b)"
proof -
  have p: "ev_pri (evt b e) < length (activequeues b)" using assms(1,2) by (simp add: queues_ok_def active_ok_def)
  then show "event_queue_insert en EVLIST_ACTIVE e b = Some (put_active e b)"
    using assms(3) by (simp add: event_queue_insert_def marked_def put_active_def Let_def)
  have "counted E (put_active e b)"
    by (rule counted_insert [OF queues_okD(1) [OF assms(1)] assms(2) _ assms(3)]) (simp_all add: QUEUES_def put_active_def Let_def)
  moreover have "active_ok E (put_active e b)"
    using queues_okD(4) [OF assms(1)] assms(2,3) p by (simp add: active_ok_def put_active_def Let_def nth_list_update)
  moreover have "timeouts_ok E (put_active e b)" by (rule timeouts_cong [OF queues_okD(2) [OF assms(1)]]) (auto simp: put_active_def Let_def)
  moreover have "inserted_ok (put_active e b)" by (rule inserted_cong [OF queues_okD(3) [OF assms(1)]]) (auto simp: put_active_def Let_def)
  ultimately show "queues_ok E (put_active e b)" by (intro queues_okI)
qed

lemma remove_active:
  assumes "queues_ok E b" and "EVLIST_ACTIVE \<in> flags b e"
  shows "event_queue_remove EVLIST_ACTIVE e b = Some (take_active e b)" and "queues_ok E (take_active e b)"
proof -
  have "e \<in> E" using assms by (auto simp: queues_ok_def counted_def QUEUES_def)
  then have p: "ev_pri (evt b e) < length (activequeues b)" using assms(1) by (simp add: queues_ok_def active_ok_def)
  then show "event_queue_remove EVLIST_ACTIVE e b = Some (take_active e b)"
    using assms(2) by (simp add: event_queue_remove_def unmarked_def take_active_def Let_def)
  have "counted E (take_active e b)"
    by (rule counted_remove [OF queues_okD(1) [OF assms(1)] _ assms(2)]) (simp_all add: QUEUES_def take_active_def Let_def)
  moreover have "active_ok E (take_active e b)"
    using queues_okD(4) [OF assms(1)] assms(2) p by (simp add: active_ok_def take_active_def Let_def nth_list_update)
  moreover have "timeouts_ok E (take_active e b)" by (rule timeouts_cong [OF queues_okD(2) [OF assms(1)]]) (auto simp: take_active_def Let_def)
  moreover have "inserted_ok (take_active e b)" by (rule inserted_cong [OF queues_okD(3) [OF assms(1)]]) (auto simp: take_active_def Let_def)
  ultimately show "queues_ok E (take_active e b)" by (intro queues_okI)
qed

lemma slots_card:
  assumes "queues_ok E b"
  shows "heap_n (timeheap b) \<le> card E" and "e \<in> E \<Longrightarrow> EVLIST_TIMEOUT \<notin> flags b e \<Longrightarrow> heap_n (timeheap b) < card E"
proof -
  have "set (slots (timeheap b)) \<subseteq> E" "finite E" "distinct (slots (timeheap b))" "length (slots (timeheap b)) = heap_n (timeheap b)"
    using assms heap_okD(2,3) by (auto simp: queues_ok_def timeouts_ok_def counted_def QUEUES_def)
  then show "heap_n (timeheap b) \<le> card E" by (metis card_mono distinct_card)
  assume "e \<in> E" "EVLIST_TIMEOUT \<notin> flags b e"
  then have "set (slots (timeheap b)) \<subset> E"
    using assms \<open>set (slots (timeheap b)) \<subseteq> E\<close> by (auto simp: queues_ok_def timeouts_ok_def)
  then show "heap_n (timeheap b) < card E"
    using \<open>finite E\<close> \<open>distinct (slots (timeheap b))\<close> \<open>length (slots (timeheap b)) = heap_n (timeheap b)\<close>
    by (metis psubset_card_mono distinct_card)
qed

lemma insert_timeout:
  assumes "queues_ok E b" and "e \<in> E" and "EVLIST_TIMEOUT \<notin> flags b e"
    and "room en \<or> heap_n (timeheap b) < heap_a (timeheap b)"
  shows "\<exists>h. event_queue_insert en EVLIST_TIMEOUT e b = Some ((marked EVLIST_TIMEOUT e b)\<lparr>timeheap := h\<rparr>)
    \<and> queues_ok E ((marked EVLIST_TIMEOUT e b)\<lparr>timeheap := h\<rparr>) \<and> key h = key (timeheap b)
    \<and> set (slots h) = insert e (set (slots (timeheap b)))"
proof -
  have ok: "heap_ok (timeheap b)" "card E < 2 ^ 29" and no: "e \<notin> set (slots (timeheap b))"
    using assms(1,3) by (auto simp: queues_ok_def timeouts_ok_def)
  have n: "heap_n (timeheap b) < 2 ^ 31 - 1" using slots_card(1) [OF assms(1)] ok(2) by simp
  from min_heap_push_refines [OF ok(1) no n, of "room en"] assms(4) obtain h where
    h: "min_heap_push (room en) (timeheap b) e = Some (0, h)" "heap_ok h"
      "slots h = up (key (timeheap b)) (slots (timeheap b) @ [e]) (heap_n (timeheap b))" "key h = key (timeheap b)" by auto
  have "heap_n (timeheap b) < length (slots (timeheap b) @ [e])" using heap_okD(2) [OF ok(1)] by simp
  from set_up [OF this, of "key (timeheap b)"] h(3) have set_h: "set (slots h) = insert e (set (slots (timeheap b)))" by auto
  let ?b = "(marked EVLIST_TIMEOUT e b)\<lparr>timeheap := h\<rparr>"
  have "counted E ?b"
    by (rule counted_insert [OF queues_okD(1) [OF assms(1)] assms(2) _ assms(3)]) (simp_all add: QUEUES_def)
  moreover have "timeouts_ok E ?b" using queues_okD(2) [OF assms(1)] h(2) set_h by (simp add: timeouts_ok_def)
  moreover have "inserted_ok ?b" by (rule inserted_cong [OF queues_okD(3) [OF assms(1)]]) auto
  moreover have "active_ok E ?b" by (rule active_cong [OF queues_okD(4) [OF assms(1)]]) auto
  ultimately have "queues_ok E ?b" by (intro queues_okI)
  moreover have "event_queue_insert en EVLIST_TIMEOUT e b = Some ?b"
    using assms(3) h(1) by (simp add: event_queue_insert_def marked_def Let_def)
  ultimately show ?thesis using h(4) set_h by blast
qed

lemma remove_timeout:
  assumes "queues_ok E b" and "EVLIST_TIMEOUT \<in> flags b e"
  shows "\<exists>h. event_queue_remove EVLIST_TIMEOUT e b = Some ((unmarked EVLIST_TIMEOUT e b)\<lparr>timeheap := h\<rparr>)
    \<and> queues_ok E ((unmarked EVLIST_TIMEOUT e b)\<lparr>timeheap := h\<rparr>) \<and> key h = key (timeheap b)
    \<and> set (slots h) = set (slots (timeheap b)) - {e} \<and> heap_n h < heap_n (timeheap b)"
proof -
  have ok: "heap_ok (timeheap b)" and e: "e \<in> set (slots (timeheap b))"
    using assms by (auto simp: queues_ok_def timeouts_ok_def)
  from timeheap.erase_present [OF this] obtain h where
    h: "min_heap_erase (timeheap b) e = Some (0, h)" "heap_ok h" "set (slots h) = set (slots (timeheap b)) - {e}" "key h = key (timeheap b)"
    by blast
  let ?b = "(unmarked EVLIST_TIMEOUT e b)\<lparr>timeheap := h\<rparr>"
  have "counted E ?b"
    by (rule counted_remove [OF queues_okD(1) [OF assms(1)] _ assms(2)]) (simp_all add: QUEUES_def)
  moreover have "timeouts_ok E ?b" using queues_okD(2) [OF assms(1)] h(2,3) by (simp add: timeouts_ok_def)
  moreover have "inserted_ok ?b" by (rule inserted_cong [OF queues_okD(3) [OF assms(1)]]) auto
  moreover have "active_ok E ?b" by (rule active_cong [OF queues_okD(4) [OF assms(1)]]) auto
  ultimately have "queues_ok E ?b" by (intro queues_okI)
  moreover have "heap_n h < heap_n (timeheap b)"
    using heap_okD(2,3) [OF ok] heap_okD(2,3) [OF h(2)] h(3) e
    by (metis card_Diff1_less distinct_card finite_set)
  moreover have "event_queue_remove EVLIST_TIMEOUT e b = Some ?b"
    using assms(2) h(1) by (simp add: event_queue_remove_def unmarked_def Let_def)
  ultimately show ?thesis using h(3,4) by blast
qed

text \<open>The lists of \<^verbatim>\<open>evmap.c\<close> hold the inserted events of each descriptor, and count those that read and write.\<close>

definition io_count :: "event_base \<Rightarrow> what \<Rightarrow> nat list \<Rightarrow> nat" where
  "io_count b w es = length (filter (\<lambda>e. w \<in> ev_events (evt b e)) es)"

definition on_fd :: "event_base \<Rightarrow> int \<Rightarrow> nat \<Rightarrow> bool" where
  "on_fd b fd e \<longleftrightarrow> EVLIST_INSERTED \<in> flags b e \<and> ev_fd (evt b e) = fd"

definition io_entry_ok :: "event_base \<Rightarrow> evmap_io \<Rightarrow> bool" where
  "io_entry_ok b c \<longleftrightarrow> distinct (io_events c) \<and> nread c = io_count b EV_READ (io_events c)
     \<and> nwrite c = io_count b EV_WRITE (io_events c)"

fun io_at :: "event_base \<Rightarrow> int \<Rightarrow> evmap_io option \<Rightarrow> bool" where
  "io_at b fd None \<longleftrightarrow> (\<forall>e. on_fd b fd e \<longrightarrow> ev_events (evt b e) \<inter> EV_IO = {})"
| "io_at b fd (Some c) \<longleftrightarrow> io_entry_ok b c \<and> (\<forall>e. e \<in> set (io_events c) \<longleftrightarrow> on_fd b fd e \<and> ev_events (evt b e) \<inter> EV_IO \<noteq> {})"

definition io_ok :: "event_base \<Rightarrow> bool" where
  "io_ok b \<longleftrightarrow> (\<forall>fd \<ge> 0. io_at b fd (io b fd))"

definition no_signals :: "nat set \<Rightarrow> event_base \<Rightarrow> bool" where
  "no_signals E b \<longleftrightarrow> (\<forall>e \<in> E. EV_SIGNAL \<notin> ev_events (evt b e) \<and> ev_closure (evt b e) \<noteq> EV_CLOSURE_SIGNAL
     \<and> (EVLIST_INSERTED \<in> flags b e \<longrightarrow> ev_events (evt b e) \<inter> EV_IO \<noteq> {}))"

definition base_ok :: "nat set \<Rightarrow> event_base \<Rightarrow> bool" where
  "base_ok E b \<longleftrightarrow> queues_ok E b \<and> io_ok b \<and> no_signals E b"

lemma io_count_cong: "(\<And>e. ev_events (evt b' e) = ev_events (evt b e)) \<Longrightarrow> io_count b' w es = io_count b w es"
  by (simp add: io_count_def)

lemma io_ok_cong:
  assumes "\<And>e. ev_events (evt b' e) = ev_events (evt b e)" and "\<And>e. ev_fd (evt b' e) = ev_fd (evt b e)" and "io b' = io b"
    and "\<And>e. EVLIST_INSERTED \<in> flags b' e \<longleftrightarrow> EVLIST_INSERTED \<in> flags b e"
  shows "io_ok b' = io_ok b"
proof -
  have c: "io_count b' w es = io_count b w es" for w es by (rule io_count_cong) (rule assms(1))
  have "io_entry_ok b' c = io_entry_ok b c" for c by (simp add: io_entry_ok_def c)
  moreover have "on_fd b' fd e = on_fd b fd e" for fd e by (simp add: on_fd_def assms(2,4))
  ultimately have "io_at b' fd c = io_at b fd c" for fd c by (cases c) (simp_all add: assms(1))
  then show ?thesis by (simp add: io_ok_def assms(3))
qed

lemma base_ok_cong:
  assumes "\<And>e. ev_events (evt b' e) = ev_events (evt b e)" and "\<And>e. ev_fd (evt b' e) = ev_fd (evt b e)" and "io b' = io b"
    and "\<And>x. flags b' x = flags b x" and "\<And>x. ev_pri (evt b' x) = ev_pri (evt b x)"
    and "\<And>x. ev_closure (evt b' x) = ev_closure (evt b x)"
    and "event_count b' = event_count b" and "event_count_active b' = event_count_active b"
    and "heap_ok (timeheap b') = heap_ok (timeheap b)" and "slots (timeheap b') = slots (timeheap b)"
    and "eventqueue b' = eventqueue b" and "activequeues b' = activequeues b"
  shows "base_ok E b' = base_ok E b"
proof -
  have "queues_ok E b' = queues_ok E b" by (rule queues_ok_cong) (simp_all add: assms)
  moreover have "io_ok b' = io_ok b" by (rule io_ok_cong) (simp_all add: assms)
  ultimately show ?thesis by (simp add: base_ok_def no_signals_def assms)
qed

text \<open>Watching an event and no longer watching it.\<close>

lemma io_count_append [simp]: "io_count b w (es @ es') = io_count b w es + io_count b w es'"
  by (simp add: io_count_def)

lemma io_count_single: "io_count b w [e] = (if w \<in> ev_events (evt b e) then 1 else 0)"
  by (simp add: io_count_def)

lemma io_count_remove1:
  "e \<in> set es \<Longrightarrow> io_count b w (remove1 e es) = io_count b w es - (if w \<in> ev_events (evt b e) then 1 else 0)"
  by (simp add: io_count_def filter_remove1 length_remove1)

lemma io_at_other:
  assumes "\<And>x. ev_events (evt b' x) = ev_events (evt b x)" and "\<And>x. ev_fd (evt b' x) = ev_fd (evt b x)"
    and "\<And>x. x \<noteq> e \<Longrightarrow> EVLIST_INSERTED \<in> flags b' x \<longleftrightarrow> EVLIST_INSERTED \<in> flags b x" and "ev_fd (evt b e) \<noteq> fd"
  shows "io_at b' fd c = io_at b fd c"
proof -
  have n: "io_count b' w es = io_count b w es" for w es by (rule io_count_cong) (rule assms(1))
  have "io_entry_ok b' c = io_entry_ok b c" for c by (simp add: io_entry_ok_def n)
  moreover have "on_fd b' fd x = on_fd b fd x" for x using assms(2-4) by (cases "x = e") (auto simp: on_fd_def)
  ultimately show ?thesis by (cases c) (simp_all add: assms(1))
qed

definition same_kind :: "event_base \<Rightarrow> event_base \<Rightarrow> bool" where
  \<comment> \<open>the fields of the events that only \<^verbatim>\<open>event_assign\<close> sets, and the priority\<close>
  "same_kind b b' \<longleftrightarrow> (\<forall>x. ev_events (evt b' x) = ev_events (evt b x) \<and> ev_fd (evt b' x) = ev_fd (evt b x)
     \<and> ev_closure (evt b' x) = ev_closure (evt b x) \<and> ev_pri (evt b' x) = ev_pri (evt b x))
     \<and> length (activequeues b') = length (activequeues b)"

lemma io_ok_insert:
  assumes "io_ok b" and "EVLIST_INSERTED \<notin> flags b e" and "fd = ev_fd (evt b e)" and "0 \<le> fd" and "ev_events (evt b e) \<inter> EV_IO \<noteq> {}"
    and "c = (case io b fd of None \<Rightarrow> new_io | Some c \<Rightarrow> c)"
    and "io b' = (io b)(fd \<mapsto> \<lparr>io_events = io_events c @ [e], nread = nread c + (if EV_READ \<in> ev_events (evt b e) then 1 else 0),
      nwrite = nwrite c + (if EV_WRITE \<in> ev_events (evt b e) then 1 else 0)\<rparr>)"
    and "\<And>x. ev_events (evt b' x) = ev_events (evt b x)" and "\<And>x. ev_fd (evt b' x) = ev_fd (evt b x)"
    and "\<And>x. flags b' x = (if x = e then insert EVLIST_INSERTED (flags b e) else flags b x)"
  shows "io_ok b'"
  unfolding io_ok_def
proof (intro allI impI)
  fix fd' :: int
  assume "0 \<le> fd'"
  then have old: "io_at b fd' (io b fd')" using assms(1) by (simp add: io_ok_def)
  show "io_at b' fd' (io b' fd')"
  proof (cases "fd' = fd")
    case False
    then show ?thesis using old assms(3) by (subst io_at_other [of b' b e]) (simp_all add: assms(7-10))
  next
    case True
    have c: "io_entry_ok b c" "\<forall>x. x \<in> set (io_events c) \<longleftrightarrow> on_fd b fd x \<and> ev_events (evt b x) \<inter> EV_IO \<noteq> {}"
      using old True assms(6) by (auto simp: new_io_def io_entry_ok_def io_count_def split: option.splits)
    have n: "io_count b' w es = io_count b w es" for w es by (rule io_count_cong) (rule assms(8))
    have "e \<notin> set (io_events c)" using c(2) assms(2) by (simp add: on_fd_def)
    moreover have "on_fd b' fd x \<longleftrightarrow> x = e \<or> on_fd b fd x" for x using assms(2,3) by (auto simp: on_fd_def assms(9,10))
    ultimately show ?thesis
      using True c assms(5) by (auto simp: assms(7,8) io_entry_ok_def n io_count_single)
  qed
qed

lemma io_ok_remove:
  assumes "io_ok b" and "EVLIST_INSERTED \<in> flags b e" and "fd = ev_fd (evt b e)" and "0 \<le> fd" and "ev_events (evt b e) \<inter> EV_IO \<noteq> {}"
    and "io b fd = Some c"
    and "io b' = (io b)(fd \<mapsto> \<lparr>io_events = remove1 e (io_events c), nread = nread c - (if EV_READ \<in> ev_events (evt b e) then 1 else 0),
      nwrite = nwrite c - (if EV_WRITE \<in> ev_events (evt b e) then 1 else 0)\<rparr>)"
    and "\<And>x. ev_events (evt b' x) = ev_events (evt b x)" and "\<And>x. ev_fd (evt b' x) = ev_fd (evt b x)"
    and "\<And>x. EVLIST_INSERTED \<in> flags b' x \<longleftrightarrow> x \<noteq> e \<and> EVLIST_INSERTED \<in> flags b x"
  shows "io_ok b'"
  unfolding io_ok_def
proof (intro allI impI)
  fix fd' :: int
  assume "0 \<le> fd'"
  then have old: "io_at b fd' (io b fd')" using assms(1) by (simp add: io_ok_def)
  show "io_at b' fd' (io b' fd')"
  proof (cases "fd' = fd")
    case False
    then show ?thesis using old assms(3) by (subst io_at_other [of b' b e]) (simp_all add: assms(7-10))
  next
    case True
    have c: "io_entry_ok b c" "\<forall>x. x \<in> set (io_events c) \<longleftrightarrow> on_fd b fd x \<and> ev_events (evt b x) \<inter> EV_IO \<noteq> {}"
      using old True assms(6) by auto
    have n: "io_count b' w es = io_count b w es" for w es by (rule io_count_cong) (rule assms(8))
    have e: "e \<in> set (io_events c)" using c(2) assms(2,3,5) by (simp add: on_fd_def)
    have d: "distinct (io_events c)" using c(1) by (simp add: io_entry_ok_def)
    have "on_fd b' fd x \<longleftrightarrow> x \<noteq> e \<and> on_fd b fd x" for x using assms(2,3) by (auto simp: on_fd_def assms(9,10))
    then show ?thesis
      using True c e d by (simp add: assms(7,8) io_entry_ok_def n io_count_remove1) blast
  qed
qed

text \<open>Taking an event out of a queue it may be in.\<close>

definition quiet :: "event_base \<Rightarrow> event_base \<Rightarrow> bool" where
  "quiet b b' \<longleftrightarrow> tv_cache b' = tv_cache b \<and> clock b' = clock b \<and> event_tv b' = event_tv b \<and> event_break b' = event_break b
     \<and> event_gotterm b' = event_gotterm b \<and> event_running_priority b' = event_running_priority b \<and> running_loop b' = running_loop b
     \<and> called b' = called b \<and> waited b' = waited b \<and> length (activequeues b') = length (activequeues b)"

definition without :: "nat \<Rightarrow> nat list list \<Rightarrow> nat list list" where
  "without e qs = map (filter (\<lambda>x. x \<noteq> e)) qs"

definition dequeued :: "nat set \<Rightarrow> nat \<Rightarrow> evlist \<Rightarrow> event_base \<Rightarrow> event_base \<Rightarrow> bool" where
  "dequeued E e q b b' \<longleftrightarrow> queues_ok E b' \<and> quiet b b' \<and> event_continue b' = event_continue b
     \<and> (\<forall>x. evt b' x = (if x = e then (evt b e)\<lparr>ev_flags := flags b e - {q}\<rparr> else evt b x))
     \<and> io b' = io b \<and> activequeues b' = (if q = EVLIST_ACTIVE then without e (activequeues b) else activequeues b)
     \<and> key (timeheap b') = key (timeheap b)
     \<and> set (slots (timeheap b')) = set (slots (timeheap b)) - (if q = EVLIST_TIMEOUT then {e} else {})
     \<and> heap_n (timeheap b') \<le> heap_n (timeheap b)
     \<and> (q = EVLIST_TIMEOUT \<and> q \<in> flags b e \<longrightarrow> heap_n (timeheap b') < heap_n (timeheap b))"

lemma quiet_refl [simp]: "quiet b b"
  by (simp add: quiet_def)

lemma quiet_trans: "quiet b b1 \<Longrightarrow> quiet b1 b2 \<Longrightarrow> quiet b b2"
  by (simp add: quiet_def)

lemma quiet_marked [simp]: "quiet b (marked q e b)" "quiet b (unmarked q e b)"
  "event_continue (marked q e b) = event_continue b" "event_continue (unmarked q e b) = event_continue b"
  by (simp_all add: quiet_def marked_def unmarked_def upd_def)

lemma quiet_queues:
  "quiet b (b'\<lparr>eventqueue := xs\<rparr>) = quiet b b'" "quiet b (b'\<lparr>timeheap := h\<rparr>) = quiet b b'"
  "quiet b (b'\<lparr>io := m\<rparr>) = quiet b b'" "quiet b (b'\<lparr>event_count_active := k\<rparr>) = quiet b b'" "quiet b (upd e f b') = quiet b b'"
  by (simp_all add: quiet_def upd_def)

lemma filter_absent: "e \<notin> set xs \<Longrightarrow> filter (\<lambda>x. x \<noteq> e) xs = xs"
  by (induction xs) auto

lemma without_absent:
  assumes "queues_ok E b" and "EVLIST_ACTIVE \<notin> flags b e"
  shows "without e (activequeues b) = activequeues b"
proof -
  have "e \<notin> set (activequeues b ! p)" if "p < length (activequeues b)" for p
    using that assms by (simp add: queues_ok_def active_ok_def)
  then show ?thesis unfolding without_def by (intro nth_equalityI) (simp_all add: filter_absent)
qed

lemma without_present:
  assumes "queues_ok E b" and "EVLIST_ACTIVE \<in> flags b e"
  shows "(activequeues b)[ev_pri (evt b e) := remove1 e (activequeues b ! ev_pri (evt b e))] = without e (activequeues b)"
proof (rule nth_equalityI)
  fix p assume "p < length ((activequeues b)[ev_pri (evt b e) := remove1 e (activequeues b ! ev_pri (evt b e))])"
  then have p: "p < length (activequeues b)" by simp
  then have d: "distinct (activequeues b ! p)" "e \<in> set (activequeues b ! p) \<longleftrightarrow> ev_pri (evt b e) = p"
    using assms by (auto simp: queues_ok_def active_ok_def)
  show "(activequeues b)[ev_pri (evt b e) := remove1 e (activequeues b ! ev_pri (evt b e))] ! p = without e (activequeues b) ! p"
  proof (cases "p = ev_pri (evt b e)")
    case True
    with p d(1) show ?thesis by (simp add: without_def distinct_remove1_removeAll removeAll_filter_not_eq eq_commute)
  next
    case False
    with p d(2) show ?thesis by (simp add: without_def filter_absent)
  qed
qed (simp add: without_def)

lemma drop_queue:
  assumes "queues_ok E b" and "q \<in> QUEUES"
  shows "\<exists>b'. (if q \<in> flags b e then event_queue_remove q e b else Some b) = Some b' \<and> dequeued E e q b b'"
proof (cases "q \<in> flags b e")
  case False
  then have "(evt b e)\<lparr>ev_flags := flags b e - {q}\<rparr> = evt b e" by simp
  moreover have "q = EVLIST_TIMEOUT \<Longrightarrow> e \<notin> set (slots (timeheap b))" using assms(1) False by (auto simp: queues_ok_def timeouts_ok_def)
  ultimately show ?thesis using False assms(1) without_absent [OF assms(1), of e] by (auto simp: dequeued_def)
next
  case True
  consider "q = EVLIST_TIMEOUT" | "q = EVLIST_INSERTED" | "q = EVLIST_ACTIVE" using assms(2) by (auto simp: QUEUES_def)
  then show ?thesis
  proof cases
    case 1
    then obtain h where "event_queue_remove q e b = Some ((unmarked q e b)\<lparr>timeheap := h\<rparr>)"
      "queues_ok E ((unmarked q e b)\<lparr>timeheap := h\<rparr>)" "key h = key (timeheap b)" "set (slots h) = set (slots (timeheap b)) - {e}"
      "heap_n h < heap_n (timeheap b)" using remove_timeout [OF assms(1)] True by blast
    with True 1 show ?thesis by (simp add: dequeued_def quiet_queues)
  next
    case 2
    with True remove_inserted [OF assms(1), of e] show ?thesis by (simp add: dequeued_def quiet_queues)
  next
    case 3
    have "quiet b (take_active e b)" "event_continue (take_active e b) = event_continue b"
      by (simp_all add: take_active_def Let_def quiet_def unmarked_def upd_def)
    with 3 True remove_active [OF assms(1), of e] without_present [OF assms(1), of e] show ?thesis
      by (simp add: dequeued_def take_active_def Let_def)
  qed
qed

lemma dequeuedD:
  assumes "dequeued E e q b b'"
  shows "queues_ok E b'" "quiet b b'" "event_continue b' = event_continue b"
    "\<And>x. evt b' x = (if x = e then (evt b e)\<lparr>ev_flags := flags b e - {q}\<rparr> else evt b x)" "io b' = io b"
    "activequeues b' = (if q = EVLIST_ACTIVE then without e (activequeues b) else activequeues b)"
    "key (timeheap b') = key (timeheap b)"
    "set (slots (timeheap b')) = set (slots (timeheap b)) - (if q = EVLIST_TIMEOUT then {e} else {})"
    "heap_n (timeheap b') \<le> heap_n (timeheap b)"
    "q = EVLIST_TIMEOUT \<Longrightarrow> q \<in> flags b e \<Longrightarrow> heap_n (timeheap b') < heap_n (timeheap b)"
  using assms unfolding dequeued_def by blast+

section \<open>Deleting, activating and adding keep the invariant\<close>

definition dels_ok :: "env \<Rightarrow> bool" where
  "dels_ok en \<longleftrightarrow> (\<forall>b fd w. backend_del en b fd w)"

definition deleted :: "nat set \<Rightarrow> nat \<Rightarrow> event_base \<Rightarrow> event_base \<Rightarrow> bool" where
  "deleted E e b b' \<longleftrightarrow> base_ok E b' \<and> quiet b b' \<and> event_continue b' = event_continue b
     \<and> (\<forall>x. evt b' x = (if x = e then (evt b e)\<lparr>ev_flags := flags b e - QUEUES\<rparr> else evt b x))
     \<and> activequeues b' = without e (activequeues b) \<and> key (timeheap b') = key (timeheap b)
     \<and> set (slots (timeheap b')) = set (slots (timeheap b)) - {e} \<and> heap_n (timeheap b') \<le> heap_n (timeheap b)
     \<and> (EVLIST_TIMEOUT \<in> flags b e \<longrightarrow> heap_n (timeheap b') < heap_n (timeheap b))"

lemma base_okD:
  assumes "base_ok E b"
  shows "queues_ok E b" "io_ok b" "no_signals E b" "finite E"
    "e \<in> E \<Longrightarrow> EV_SIGNAL \<notin> ev_events (evt b e)" "e \<in> E \<Longrightarrow> ev_closure (evt b e) \<noteq> EV_CLOSURE_SIGNAL"
    "e \<in> E \<Longrightarrow> ev_pri (evt b e) < length (activequeues b)"
  using assms by (auto simp: base_ok_def no_signals_def queues_ok_def counted_def active_ok_def)

lemma evmap_io_del_ok:
  assumes "io_ok b" and "EVLIST_INSERTED \<in> flags b e" and "ev_events (evt b e) \<inter> EV_IO \<noteq> {}" and "0 \<le> ev_fd (evt b e)"
    and "io b1 = io b" and "evt b1 e = (evt b e)\<lparr>ev_flags := fs\<rparr>"
  shows "\<exists>c r. io b (ev_fd (evt b e)) = Some c \<and> e \<in> set (io_events c) \<and>
    (\<not> dels_ok en \<and> evmap_io_del en (ev_fd (evt b1 e)) e b1 = Some (-1, b1)
     \<or> (r = 0 \<or> r = 1) \<and> evmap_io_del en (ev_fd (evt b1 e)) e b1 = Some (r, b1\<lparr>io := (io b)(ev_fd (evt b e) \<mapsto> \<lparr>io_events = remove1 e (io_events c),
      nread = nread c - (if EV_READ \<in> ev_events (evt b e) then 1 else 0),
      nwrite = nwrite c - (if EV_WRITE \<in> ev_events (evt b e) then 1 else 0)\<rparr>)\<rparr>))"
proof -
  let ?fd = "ev_fd (evt b e)"
  have at: "io_at b ?fd (io b ?fd)" using assms(1,4) by (simp add: io_ok_def)
  then obtain c where c: "io b ?fd = Some c" using assms(2,3) by (cases "io b ?fd") (auto simp: on_fd_def)
  with at have ok: "io_entry_ok b c" and e: "e \<in> set (io_events c)" using assms(2,3) by (auto simp: on_fd_def)
  have "w \<in> ev_events (evt b e) \<Longrightarrow> io_count b w (io_events c) \<noteq> 0" for w
    using e by (auto simp: io_count_def filter_empty_conv)
  then have "\<not> (EV_READ \<in> ev_events (evt b e) \<and> nread c = 0 \<or> EV_WRITE \<in> ev_events (evt b e) \<and> nwrite c = 0)"
    using ok by (auto simp: io_entry_ok_def)
  then have def: "evmap_io_del en ?fd e b1 =
      (let nr = nread c - (if EV_READ \<in> ev_events (evt b e) then 1 else 0); nw = nwrite c - (if EV_WRITE \<in> ev_events (evt b e) then 1 else 0);
              res = (if EV_READ \<in> ev_events (evt b e) \<and> nr = 0 then {EV_READ} else {}) \<union> (if EV_WRITE \<in> ev_events (evt b e) \<and> nw = 0 then {EV_WRITE} else {}) in
          if res \<noteq> {} \<and> \<not> backend_del en b1 ?fd res then Some (-1, b1)
          else Some (if res = {} then 0 else 1,
                     b1\<lparr>io := (io b1)(?fd \<mapsto> \<lparr>io_events = remove1 e (io_events c), nread = nr, nwrite = nw\<rparr>)\<rparr>))"
    using c assms(4-6) by (simp add: evmap_io_del_def Let_def)
  obtain res where res: "evmap_io_del en ?fd e b1 =
      (if res \<noteq> {} \<and> \<not> backend_del en b1 ?fd res then Some (-1, b1)
       else Some (if res = {} then 0 else 1, b1\<lparr>io := (io b)(?fd \<mapsto> \<lparr>io_events = remove1 e (io_events c),
         nread = nread c - (if EV_READ \<in> ev_events (evt b e) then 1 else 0),
         nwrite = nwrite c - (if EV_WRITE \<in> ev_events (evt b e) then 1 else 0)\<rparr>)\<rparr>))"
    using def unfolding Let_def assms(5) by blast
  have fd: "ev_fd (evt b1 e) = ?fd" using assms(6) by simp
  show ?thesis
  proof (cases "res \<noteq> {} \<and> \<not> backend_del en b1 ?fd res")
    case True
    then have "\<not> dels_ok en" by (auto simp: dels_ok_def)
    then show ?thesis unfolding fd res if_P [OF True] using c e by simp
  next
    case False
    then show ?thesis unfolding fd res if_not_P [OF False] using c e by (cases "res = {}") auto
  qed
qed

definition left_behind :: "nat set \<Rightarrow> nat \<Rightarrow> event_base \<Rightarrow> event_base \<Rightarrow> bool" where
  \<comment> \<open>the event is in no queue, but still in the list of its descriptor\<close>
  "left_behind E e b b' \<longleftrightarrow> (\<forall>x. evt b' x = (if x = e then (evt b e)\<lparr>ev_flags := flags b e - QUEUES\<rparr> else evt b x))
     \<and> activequeues b' = without e (activequeues b) \<and> 0 \<le> ev_fd (evt b e)
     \<and> (\<exists>c. io b' (ev_fd (evt b e)) = Some c \<and> e \<in> set (io_events c))"

lemma left_behind_unsound:
  assumes "left_behind E e b b'"
  shows "\<not> base_ok E b'"
proof
  assume "base_ok E b'"
  then have "io_ok b'" by (rule base_okD(2))
  moreover obtain c where "0 \<le> ev_fd (evt b e)" "io b' (ev_fd (evt b e)) = Some c" "e \<in> set (io_events c)"
    using assms unfolding left_behind_def by blast
  ultimately have "EVLIST_INSERTED \<in> flags b' e" unfolding io_ok_def by (metis io_at.simps(2) on_fd_def)
  with assms show False by (simp add: left_behind_def QUEUES_def)
qed

lemma event_del_internal_any:
  assumes "base_ok E b" and "e \<in> E"
  shows "\<exists>r b'. event_del_internal en e b = Some (r, b')
    \<and> (r = 0 \<and> deleted E e b b' \<or> r = -1 \<and> \<not> dels_ok en \<and> left_behind E e b b')"
proof -
  note ok = base_okD [OF assms(1)]
  have Q: "EVLIST_TIMEOUT \<in> QUEUES" "EVLIST_ACTIVE \<in> QUEUES" "EVLIST_INSERTED \<in> QUEUES" by (simp_all add: QUEUES_def)
  obtain b1 where b1: "(if EVLIST_TIMEOUT \<in> flags b e then event_queue_remove EVLIST_TIMEOUT e b else Some b) = Some b1"
    "dequeued E e EVLIST_TIMEOUT b b1" using drop_queue [OF ok(1) Q(1), of e] by blast
  have q1: "queues_ok E b1" using b1(2) by (simp add: dequeued_def)
  obtain b2 where b2: "(if EVLIST_ACTIVE \<in> flags b1 e then event_queue_remove EVLIST_ACTIVE e b1 else Some b1) = Some b2"
    "dequeued E e EVLIST_ACTIVE b1 b2" using drop_queue [OF q1 Q(2), of e] by blast
  have q2: "queues_ok E b2" using b2(2) by (simp add: dequeued_def)
  obtain b3 where b3: "(if EVLIST_INSERTED \<in> flags b2 e then event_queue_remove EVLIST_INSERTED e b2 else Some b2) = Some b3"
    "dequeued E e EVLIST_INSERTED b2 b3" using drop_queue [OF q2 Q(3), of e] by blast
  have ev3: "evt b3 x = (if x = e then (evt b e)\<lparr>ev_flags := flags b e - QUEUES\<rparr> else evt b x)" for x
  proof -
    have "evt b1 x = (if x = e then (evt b e)\<lparr>ev_flags := flags b e - {EVLIST_TIMEOUT}\<rparr> else evt b x)"
      "evt b2 x = (if x = e then (evt b1 e)\<lparr>ev_flags := flags b1 e - {EVLIST_ACTIVE}\<rparr> else evt b1 x)"
      "evt b3 x = (if x = e then (evt b2 e)\<lparr>ev_flags := flags b2 e - {EVLIST_INSERTED}\<rparr> else evt b2 x)" for x
      using b1(2) b2(2) b3(2) unfolding dequeued_def by blast+
    moreover have "fs - {EVLIST_TIMEOUT} - {EVLIST_ACTIVE} - {EVLIST_INSERTED} = fs - QUEUES" for fs by (auto simp: QUEUES_def)
    ultimately show ?thesis by simp
  qed
  note d1 = dequeuedD [OF b1(2)] and d2 = dequeuedD [OF b2(2)] and d3 = dequeuedD [OF b3(2)]
  have io3: "io b3 = io b" by (simp add: d1(5) d2(5) d3(5))
  have rest: "quiet b b3" "event_continue b3 = event_continue b" "activequeues b3 = without e (activequeues b)"
    "key (timeheap b3) = key (timeheap b)" "set (slots (timeheap b3)) = set (slots (timeheap b)) - {e}"
    "heap_n (timeheap b3) \<le> heap_n (timeheap b)" "EVLIST_TIMEOUT \<in> flags b e \<longrightarrow> heap_n (timeheap b3) < heap_n (timeheap b)"
    using quiet_trans [OF quiet_trans [OF d1(2) d2(2)] d3(2)] d3(9) d2(9) d1(9) le_less_trans [OF order_trans [OF d3(9) d2(9)] d1(10)]
    by (simp_all add: d1(3,6,7,8) d2(3,6,7,8) d3(3,6,7,8))
  have q3: "queues_ok E b3" using b3(2) by (simp add: dequeued_def)
  have ns3: "no_signals E b3" using ok(3) by (auto simp: no_signals_def ev3)
  have ins: "EVLIST_INSERTED \<in> flags b2 e \<longleftrightarrow> EVLIST_INSERTED \<in> flags b e" by (simp add: d1(4) d2(4))
  note start = event_del_internal_def if_not_P [OF ok(5) [OF assms(2)]] option.case b1(1) b2(1)
  show ?thesis
  proof (cases "EVLIST_INSERTED \<in> flags b e")
    case False
    then have "b3 = b2" using b3(1) ins by simp
    then have "event_del_internal en e b = Some (0, b3)" unfolding start using False ins by simp
    moreover have "io_ok b3 = io_ok b" by (rule io_ok_cong) (use False in \<open>auto simp: ev3 io3\<close>)
    then have "base_ok E b3" using ok(2) q3 ns3 by (simp add: base_ok_def)
    ultimately show ?thesis using rest ev3 by (simp add: deleted_def)
  next
    case True
    then have in2: "EVLIST_INSERTED \<in> flags b2 e" using ins by simp
    have rem: "event_queue_remove EVLIST_INSERTED e b2 = Some b3" using b3(1) in2 by simp
    have e: "e \<in> E" by (rule assms(2))
    have evio: "ev_events (evt b e) \<inter> EV_IO \<noteq> {}" using ok(3) e True by (simp add: no_signals_def)
    then have ev3io: "ev_events (evt b3 e) \<inter> EV_IO \<noteq> {}" by (simp add: ev3)
    have del: "event_del_internal en e b =
        map_option (\<lambda>(res, b). (if res = 1 then 0 else res, b)) (evmap_io_del en (ev_fd (evt b3 e)) e b3)"
      unfolding start if_P [OF in2] rem if_P [OF ev3io] ..
    show ?thesis
    proof (cases "ev_fd (evt b e) < 0")
      case neg: True
      have "io_ok b3" unfolding io_ok_def
      proof (intro allI impI)
        fix fd :: int assume "0 \<le> fd"
        moreover have "io_at b3 fd (io b fd) = io_at b fd (io b fd)"
          by (rule io_at_other [of b3 b e]) (use neg \<open>0 \<le> fd\<close> in \<open>auto simp: ev3\<close>)
        ultimately show "io_at b3 fd (io b3 fd)" using ok(2) by (simp add: io_ok_def io3)
      qed
      then have "base_ok E b3" using q3 ns3 by (simp add: base_ok_def)
      moreover have "event_del_internal en e b = Some (0, b3)" unfolding del using neg by (simp add: evmap_io_del_def ev3)
      ultimately show ?thesis using rest ev3 by (simp add: deleted_def)
    next
      case False
      then have pos: "0 \<le> ev_fd (evt b e)" by simp
      have e3: "evt b3 e = (evt b e)\<lparr>ev_flags := flags b e - QUEUES\<rparr>" by (simp add: ev3)
      from evmap_io_del_ok [OF ok(2) True evio pos io3 e3, of en] obtain c r where
        c: "io b (ev_fd (evt b e)) = Some c" "e \<in> set (io_events c)" and
        two: "\<not> dels_ok en \<and> evmap_io_del en (ev_fd (evt b3 e)) e b3 = Some (-1, b3)
          \<or> (r = 0 \<or> r = 1) \<and> evmap_io_del en (ev_fd (evt b3 e)) e b3 = Some (r, b3\<lparr>io := (io b)(ev_fd (evt b e) \<mapsto> \<lparr>io_events = remove1 e (io_events c),
            nread = nread c - (if EV_READ \<in> ev_events (evt b e) then 1 else 0),
            nwrite = nwrite c - (if EV_WRITE \<in> ev_events (evt b e) then 1 else 0)\<rparr>)\<rparr>)"
        by blast
      show ?thesis
      proof (cases "evmap_io_del en (ev_fd (evt b3 e)) e b3 = Some (-1, b3)")
        case failed: True
        with two have "\<not> dels_ok en" by auto
        moreover have "event_del_internal en e b = Some (-1, b3)" unfolding del failed by simp
        moreover have "left_behind E e b b3" using ev3 rest(3) pos c io3 by (simp add: left_behind_def)
        ultimately show ?thesis by blast
      next
        case False
        with two have r: "r = 0 \<or> r = 1" and d: "evmap_io_del en (ev_fd (evt b3 e)) e b3 =
          Some (r, b3\<lparr>io := (io b)(ev_fd (evt b e) \<mapsto> \<lparr>io_events = remove1 e (io_events c),
            nread = nread c - (if EV_READ \<in> ev_events (evt b e) then 1 else 0),
            nwrite = nwrite c - (if EV_WRITE \<in> ev_events (evt b e) then 1 else 0)\<rparr>)\<rparr>)" by blast+
        define b4 where "b4 = b3\<lparr>io := (io b)(ev_fd (evt b e) \<mapsto> \<lparr>io_events = remove1 e (io_events c),
              nread = nread c - (if EV_READ \<in> ev_events (evt b e) then 1 else 0),
              nwrite = nwrite c - (if EV_WRITE \<in> ev_events (evt b e) then 1 else 0)\<rparr>)\<rparr>"
        have b4: "evt b4 = evt b3" "activequeues b4 = activequeues b3" "timeheap b4 = timeheap b3" "quiet b b4"
          "event_continue b4 = event_continue b" "event_count b4 = event_count b3" "event_count_active b4 = event_count_active b3"
          "eventqueue b4 = eventqueue b3"
          using rest by (simp_all add: b4_def quiet_queues)
        have "io_ok b4"
        proof (rule io_ok_remove [OF ok(2) True refl pos evio c(1)])
        qed (simp_all add: b4_def ev3 QUEUES_def)
        moreover have "queues_ok E b4 = queues_ok E b3" by (rule queues_ok_cong) (simp_all add: b4)
        moreover have "no_signals E b4 = no_signals E b3" by (simp add: no_signals_def b4)
        ultimately have "base_ok E b4" using q3 ns3 by (simp add: base_ok_def)
        moreover have "event_del_internal en e b = Some (0, b4)" unfolding del d b4_def using r by auto
        ultimately show ?thesis using rest ev3 b4 by (simp add: deleted_def)
      qed
    qed
  qed
qed

lemma event_del_internal_ok:
  assumes "base_ok E b" and "e \<in> E" and "dels_ok en"
  shows "\<exists>b'. event_del_internal en e b = Some (0, b') \<and> deleted E e b b'"
  using event_del_internal_any [OF assms(1,2), of en] assms(3) by blast

definition appended :: "nat \<Rightarrow> nat \<Rightarrow> nat list list \<Rightarrow> nat list list" where
  "appended p e qs = qs[p := qs ! p @ [e]]"

definition activated :: "nat set \<Rightarrow> nat \<Rightarrow> what set \<Rightarrow> event_base \<Rightarrow> event_base \<Rightarrow> bool" where
  "activated E e res b b' \<longleftrightarrow> base_ok E b' \<and> quiet b b' \<and> timeheap b' = timeheap b
     \<and> (if EVLIST_ACTIVE \<in> flags b e
        then (\<forall>x. evt b' x = (if x = e then (evt b e)\<lparr>ev_res := ev_res (evt b e) \<union> res\<rparr> else evt b x)) \<and> activequeues b' = activequeues b
          \<and> event_continue b' = event_continue b
        else (\<forall>x. evt b' x = (if x = e then (evt b e)\<lparr>ev_flags := insert EVLIST_ACTIVE (flags b e), ev_res := res\<rparr> else evt b x))
          \<and> activequeues b' = appended (ev_pri (evt b e)) e (activequeues b)
          \<and> event_continue b' = (event_continue b \<or> int (ev_pri (evt b e)) < event_running_priority b))"

lemma base_ok_res: "base_ok E (upd e (\<lambda>ev. ev\<lparr>ev_res := r\<rparr>) b) = base_ok E b"
  by (rule base_ok_cong) simp_all

lemma base_ok_continue: "base_ok E (b\<lparr>event_continue := c\<rparr>) = base_ok E b"
  by (rule base_ok_cong) simp_all

lemma put_active_base_ok:
  assumes "base_ok E b" and "e \<in> E" and "EVLIST_ACTIVE \<notin> flags b e"
  shows "base_ok E (put_active e b)"
proof -
  note ok = base_okD [OF assms(1)]
  have "io_ok (put_active e b) = io_ok b" by (rule io_ok_cong) (auto simp: put_active_def Let_def)
  moreover have "no_signals E (put_active e b)" using ok(3) by (auto simp: no_signals_def put_active_def Let_def)
  ultimately show ?thesis using ok(2) insert_active(2) [OF ok(1) assms(2,3)] by (simp add: base_ok_def)
qed

lemma event_active_nolock_ok:
  assumes "base_ok E b" and "e \<in> E"
  shows "\<exists>b'. event_active_nolock en e res n b = Some b' \<and> activated E e res b b'"
proof (cases "EVLIST_ACTIVE \<in> flags b e")
  case True
  then show ?thesis using assms(1)
    by (simp add: event_active_nolock_def activated_def quiet_queues base_ok_cong [of "upd e f b" b for f])
next
  case False
  define b1 where "b1 = upd e (\<lambda>ev. ev\<lparr>ev_res := res\<rparr>) b"
  define b2 where "b2 = (if int (ev_pri (evt b1 e)) < event_running_priority b1 then b1\<lparr>event_continue := True\<rparr> else b1)"
  have b2: "base_ok E b2" "EVLIST_ACTIVE \<notin> flags b2 e"
    using assms(1) False by (simp_all add: b2_def b1_def base_ok_res base_ok_continue)
  have "EV_SIGNAL \<notin> ev_events (evt b2 e)" using base_okD(5) [OF assms] by (simp add: b2_def b1_def)
  then have "event_active_nolock en e res n b = event_queue_insert en EVLIST_ACTIVE e b2"
    using False base_okD(5) [OF assms] by (simp add: event_active_nolock_def Let_def b2_def b1_def)
  also have "\<dots> = Some (put_active e b2)" by (rule insert_active(1) [OF base_okD(1) [OF b2(1)] assms(2) b2(2)])
  finally have "event_active_nolock en e res n b = Some (put_active e b2)" .
  moreover have "base_ok E (put_active e b2)" by (rule put_active_base_ok [OF b2(1) assms(2) b2(2)])
  ultimately show ?thesis using False
    by (simp add: activated_def put_active_def Let_def b2_def b1_def appended_def quiet_def marked_def)
qed

section \<open>Timeouts that are due\<close>

text \<open>The events whose time has come, in the order of their times, end up at the end of the active queues.\<close>

definition expired :: "nat set \<Rightarrow> timeval \<Rightarrow> nat list \<Rightarrow> event_base \<Rightarrow> event_base \<Rightarrow> bool" where
  "expired E now es b b' \<longleftrightarrow> base_ok E b' \<and> quiet b b' \<and> distinct es \<and> sorted (map (timeout_of b) es)
     \<and> set es = {e. EVLIST_TIMEOUT \<in> flags b e \<and> timeout_of b e \<le> now}
     \<and> (\<forall>x. evt b' x = (if x \<in> set es then (evt b x)\<lparr>ev_flags := insert EVLIST_ACTIVE (flags b x - QUEUES), ev_res := {EV_TIMEOUT}\<rparr>
          else evt b x))
     \<and> (\<forall>p < length (activequeues b). activequeues b' ! p =
          filter (\<lambda>x. x \<notin> set es) (activequeues b ! p) @ filter (\<lambda>x. ev_pri (evt b x) = p) es)
     \<and> timeout_of b' = timeout_of b"

lemma timeout_of_key: "timeout_of b = key (timeheap b)"
  by (simp add: timeout_of_def key_def fun_eq_iff)

lemma timercmp_gt: "timercmp_gt t u \<longleftrightarrow> u < t"
  by (auto simp: timercmp_gt_def less_prod_def)

lemma heap_top:
  assumes "base_ok E b"
  shows "min_heap_top (timeheap b) = Some None \<and> (\<forall>e. EVLIST_TIMEOUT \<notin> flags b e)
    \<or> (\<exists>e. min_heap_top (timeheap b) = Some (Some e) \<and> e \<in> E \<and> EVLIST_TIMEOUT \<in> flags b e
        \<and> (\<forall>x. EVLIST_TIMEOUT \<in> flags b x \<longrightarrow> timeout_of b e \<le> timeout_of b x))"
proof -
  have ok: "heap_ok (timeheap b)" and m: "\<forall>e. e \<in> set (slots (timeheap b)) \<longleftrightarrow> EVLIST_TIMEOUT \<in> flags b e"
    and c: "\<forall>e. flags b e \<inter> QUEUES \<noteq> {} \<longrightarrow> e \<in> E"
    using base_okD(1) [OF assms] by (simp_all add: queues_ok_def timeouts_ok_def counted_def)
  show ?thesis
  proof (cases "set (slots (timeheap b)) = {}")
    case True
    then have "\<forall>e. EVLIST_TIMEOUT \<notin> flags b e" using m by (metis empty_iff)
    with timeheap.top_empty [OF ok True] show ?thesis by simp
  next
    case False
    then obtain e where "min_heap_top (timeheap b) = Some (Some e)" "e \<in> set (slots (timeheap b))"
      "\<forall>x \<in> set (slots (timeheap b)). key (timeheap b) e \<le> key (timeheap b) x" using timeheap.top_least [OF ok] by blast
    moreover from this(2) have "e \<in> E" using c m by (auto simp: QUEUES_def)
    ultimately show ?thesis using m by (auto simp: timeout_of_key)
  qed
qed

lemma nth_appended: "p < length qs \<Longrightarrow> i < length qs \<Longrightarrow> appended p e qs ! i = (if i = p then qs ! i @ [e] else qs ! i)"
  by (simp add: appended_def nth_list_update)

lemma nth_without: "p < length qs \<Longrightarrow> without e qs ! p = filter (\<lambda>x. x \<noteq> e) (qs ! p)"
  by (simp add: without_def)

lemma length_queues [simp]: "length (appended p e qs) = length qs" "length (without e qs) = length qs"
  by (simp_all add: appended_def without_def)

lemma expired_none:
  assumes "base_ok E b" and "\<And>e. EVLIST_TIMEOUT \<in> flags b e \<Longrightarrow> now < timeout_of b e"
  shows "expired E now [] b b"
  using assms by (auto simp: expired_def not_le)

lemma expired_one_more:
  assumes "base_ok E b" and "e \<in> E" and "EVLIST_TIMEOUT \<in> flags b e" and "timeout_of b e \<le> now"
    and "\<And>x. EVLIST_TIMEOUT \<in> flags b x \<Longrightarrow> timeout_of b e \<le> timeout_of b x"
    and "deleted E e b b1" and "activated E e {EV_TIMEOUT} b1 b2" and "expired E now es b2 b'"
  shows "expired E now (e # es) b b'"
proof -
  have ev1: "evt b1 x = (if x = e then (evt b e)\<lparr>ev_flags := flags b e - QUEUES\<rparr> else evt b x)" for x
    using assms(6) by (simp add: deleted_def)
  have noact: "EVLIST_ACTIVE \<notin> flags b1 e" by (simp add: ev1 QUEUES_def)
  have ev2: "evt b2 x = (if x = e then (evt b e)\<lparr>ev_flags := insert EVLIST_ACTIVE (flags b e - QUEUES), ev_res := {EV_TIMEOUT}\<rparr> else evt b x)" for x
    using assms(7) noact by (simp add: activated_def ev1)
  have aq2: "activequeues b2 = appended (ev_pri (evt b e)) e (without e (activequeues b))"
    using assms(6,7) noact by (simp add: activated_def deleted_def ev1)
  have to: "timeout_of b2 = timeout_of b" using assms(6,7) by (simp add: activated_def deleted_def timeout_of_key)
  have x: "distinct es" "sorted (map (timeout_of b) es)" "base_ok E b'" "quiet b2 b'" "timeout_of b' = timeout_of b"
    "\<forall>x. evt b' x = (if x \<in> set es then (evt b2 x)\<lparr>ev_flags := insert EVLIST_ACTIVE (flags b2 x - QUEUES), ev_res := {EV_TIMEOUT}\<rparr> else evt b2 x)"
    "\<forall>p < length (activequeues b2). activequeues b' ! p = filter (\<lambda>x. x \<notin> set es) (activequeues b2 ! p) @ filter (\<lambda>x. ev_pri (evt b2 x) = p) es"
    using assms(8) by (simp_all add: expired_def to)
  have "set es = {x. EVLIST_TIMEOUT \<in> flags b2 x \<and> timeout_of b2 x \<le> now}" using assms(8) by (simp add: expired_def)
  then have es: "set es = {x. x \<noteq> e \<and> EVLIST_TIMEOUT \<in> flags b x \<and> timeout_of b x \<le> now}" by (auto simp: ev2 to QUEUES_def)
  have noe: "e \<notin> set es" by (simp add: es)
  have "quiet b b1" "quiet b1 b2" using assms(6,7) by (simp_all add: deleted_def activated_def)
  then have "quiet b b'" by (rule quiet_trans [OF quiet_trans x(4)])
  moreover have "sorted (map (timeout_of b) (e # es))" using x(2) assms(5) es by auto
  moreover have "set (e # es) = {x. EVLIST_TIMEOUT \<in> flags b x \<and> timeout_of b x \<le> now}" using es assms(3,4) by auto
  moreover have "evt b' y = (if y \<in> set (e # es) then (evt b y)\<lparr>ev_flags := insert EVLIST_ACTIVE (flags b y - QUEUES), ev_res := {EV_TIMEOUT}\<rparr>
      else evt b y)" for y using x(6) noe by (simp add: ev2)
  moreover have "activequeues b' ! p = filter (\<lambda>x. x \<notin> set (e # es)) (activequeues b ! p) @ filter (\<lambda>x. ev_pri (evt b x) = p) (e # es)"
    if p: "p < length (activequeues b)" for p
  proof -
    have pr: "ev_pri (evt b2 x) = ev_pri (evt b x)" for x by (simp add: ev2)
    have "activequeues b' ! p = filter (\<lambda>x. x \<notin> set es) (activequeues b2 ! p) @ filter (\<lambda>x. ev_pri (evt b x) = p) es"
      using x(7) p by (simp add: aq2 pr)
    moreover have "ev_pri (evt b e) < length (activequeues b)" using base_okD(7) [OF assms(1,2)] .
    ultimately show ?thesis using p noe
      by (simp add: aq2 nth_appended nth_without)
  qed
  ultimately show ?thesis using x(1,3,5) noe by (simp add: expired_def)
qed

lemma timeout_loop_expires:
  assumes "base_ok E b" and "dels_ok en" and "heap_n (timeheap b) < k"
  shows "\<exists>es b'. timeout_loop en now k b = Some b' \<and> expired E now es b b'"
  using assms(1,3)
proof (induction k arbitrary: b)
  case (Suc k)
  from heap_top [OF Suc.prems(1)] show ?case
  proof (elim disjE conjE exE)
    assume "min_heap_top (timeheap b) = Some None" "\<forall>e. EVLIST_TIMEOUT \<notin> flags b e"
    moreover from this have "expired E now [] b b" by (intro expired_none [OF Suc.prems(1)]) auto
    ultimately show ?thesis by auto
  next
    fix e assume e: "min_heap_top (timeheap b) = Some (Some e)" "e \<in> E" "EVLIST_TIMEOUT \<in> flags b e"
      "\<forall>x. EVLIST_TIMEOUT \<in> flags b x \<longrightarrow> timeout_of b e \<le> timeout_of b x"
    show ?thesis
    proof (cases "now < timeout_of b e")
      case True
      then have "expired E now [] b b" using e(4) by (intro expired_none [OF Suc.prems(1)]) (auto intro: less_le_trans)
      with True e(1) show ?thesis by (auto simp: timercmp_gt)
    next
      case False
      obtain b1 where b1: "event_del_internal en e b = Some (0, b1)" "deleted E e b b1"
        using event_del_internal_ok [OF Suc.prems(1) e(2) assms(2)] by blast
      have "base_ok E b1" using b1(2) by (simp add: deleted_def)
      then obtain b2 where b2: "event_active_nolock en e {EV_TIMEOUT} 1 b1 = Some b2" "activated E e {EV_TIMEOUT} b1 b2"
        using event_active_nolock_ok [OF _ e(2)] by blast
      have "base_ok E b2" "heap_n (timeheap b2) < k"
        using b1(2) b2(2) Suc.prems(2) e(3) by (auto simp: activated_def deleted_def)
      from Suc.IH [OF this] obtain es b' where r: "timeout_loop en now k b2 = Some b'" "expired E now es b2 b'" by blast
      have "expired E now (e # es) b b'"
        by (rule expired_one_more [OF Suc.prems(1) e(2,3) _ _ b1(2) b2(2) r(2)]) (use False e(4) in auto)
      moreover have "timeout_loop en now (Suc k) b = Some b'" using e(1) False b1(1) b2(1) r(1) by (simp add: timercmp_gt)
      ultimately show ?thesis by blast
    qed
  qed
qed simp

lemma timeout_process_expires:
  assumes "base_ok E b" and "dels_ok en"
  shows "\<exists>es b'. timeout_process en b = Some b' \<and> expired E (gettime b) es b b'"
proof (cases "min_heap_empty (timeheap b)")
  case True
  then have "min_heap_top (timeheap b) = Some None" by (simp add: min_heap_empty_def min_heap_top_def)
  then have "EVLIST_TIMEOUT \<notin> flags b e" for e using heap_top [OF assms(1)] by auto
  then have "expired E (gettime b) [] b b" by (intro expired_none [OF assms(1)]) auto
  with True show ?thesis by (auto simp: timeout_process_def)
next
  case False
  with timeout_loop_expires [OF assms lessI] show ?thesis by (simp add: timeout_process_def)
qed

section \<open>Adding an event\<close>

lemma heap_ok_set_timeout:
  assumes "heap_ok h" and "e \<notin> set (slots h)"
  shows "heap_ok (h\<lparr>evs := (evs h)(e := (evs h e)\<lparr>ev_timeout := t\<rparr>)\<rparr>)"
    and "slots (h\<lparr>evs := (evs h)(e := (evs h e)\<lparr>ev_timeout := t\<rparr>)\<rparr>) = slots h"
proof -
  let ?h = "h\<lparr>evs := (evs h)(e := (evs h e)\<lparr>ev_timeout := t\<rparr>)\<rparr>"
  show s: "slots ?h = slots h" by (simp add: slots_def)
  have ne: "slots h ! i \<noteq> e" if "i < length (slots h)" for i using assms(2) that nth_mem by blast
  then have k: "key ?h (slots h ! i) = key h (slots h ! i)" if "i < length (slots h)" for i using that by (simp add: key_def)
  have "key ?h (slots h ! parent i) = key h (slots h ! parent i)" if "i < length (slots h)" for i
    using k [of "parent i"] parent_le [of i] that by simp
  then have "heap_ordered (key ?h) (slots h) = heap_ordered (key h) (slots h)"
    using k unfolding heap_ordered_def by simp
  then show "heap_ok ?h" using assms(1) ne unfolding heap_ok_def s by (auto simp: holds_def placed_def)
qed

lemma set_timeout_ok:
  assumes "base_ok E b" and "EVLIST_TIMEOUT \<notin> flags b e"
  shows "base_ok E (set_timeout e t b)" and "timeout_of (set_timeout e t b) = (timeout_of b)(e := t)"
    and "heap_n (timeheap (set_timeout e t b)) = heap_n (timeheap b)" and "heap_a (timeheap (set_timeout e t b)) = heap_a (timeheap b)"
proof -
  have h: "heap_ok (timeheap b)" "e \<notin> set (slots (timeheap b))"
    using base_okD(1) [OF assms(1)] assms(2) by (auto simp: queues_ok_def timeouts_ok_def)
  show "base_ok E (set_timeout e t b)"
    using assms(1) heap_ok_set_timeout [OF h] h by (subst base_ok_cong [of _ b]) (simp_all add: set_timeout_def Let_def)
qed (simp_all add: set_timeout_def Let_def timeout_of_def fun_eq_iff)

lemma set_timeout_simps [simp]:
  "evt (set_timeout e t b) = evt b" "activequeues (set_timeout e t b) = activequeues b" "io (set_timeout e t b) = io b"
  "event_continue (set_timeout e t b) = event_continue b" "quiet b' (set_timeout e t b) = quiet b' b"
  "gettime (set_timeout e t b) = gettime b"
  by (simp_all add: set_timeout_def Let_def quiet_def gettime_def)

lemma gettime_quiet: "quiet b b' \<Longrightarrow> gettime b' = gettime b"
  by (simp add: quiet_def gettime_def)

text \<open>What adding may change.\<close>

definition touched :: "nat set \<Rightarrow> nat \<Rightarrow> event_base \<Rightarrow> event_base \<Rightarrow> bool" where
  "touched E e b b' \<longleftrightarrow> base_ok E b' \<and> quiet b b' \<and> event_continue b' = event_continue b
     \<and> (\<forall>x. x \<noteq> e \<longrightarrow> evt b' x = evt b x \<and> timeout_of b' x = timeout_of b x)
     \<and> ev_res (evt b' e) = ev_res (evt b e) \<and> same_kind b b'
     \<and> (activequeues b' = activequeues b \<or> activequeues b' = without e (activequeues b))
     \<and> dom (io b) \<subseteq> dom (io b')"

lemma touched_refl: "base_ok E b \<Longrightarrow> touched E e b b"
  by (simp add: touched_def same_kind_def)

lemma without_twice [simp]: "without e (without e qs) = without e qs"
  by (simp add: without_def)

lemma touched_trans: "touched E e b b1 \<Longrightarrow> touched E e b1 b2 \<Longrightarrow> touched E e b b2"
proof -
  assume 1: "touched E e b b1" and 2: "touched E e b1 b2"
  have "quiet b b2" using 1 2 quiet_trans [of b b1 b2] by (simp add: touched_def)
  moreover have "same_kind b b2" using 1 2 by (simp add: touched_def same_kind_def)
  moreover have "activequeues b2 = activequeues b \<or> activequeues b2 = without e (activequeues b)"
    using 1 2 unfolding touched_def by (elim conjE disjE) simp_all
  moreover have "dom (io b) \<subseteq> dom (io b2)" using 1 2 unfolding touched_def by blast
  ultimately show ?thesis using 1 2 by (simp add: touched_def)
qed

definition io_slot :: "event_base \<Rightarrow> int \<Rightarrow> evmap_io" where
  "io_slot b fd = (case io b fd of None \<Rightarrow> new_io | Some c \<Rightarrow> c)"

definition io_more :: "event_base \<Rightarrow> int \<Rightarrow> nat \<Rightarrow> event_base" where
  "io_more b fd e = b\<lparr>io := (io b)(fd \<mapsto> \<lparr>io_events = io_events (io_slot b fd) @ [e],
     nread = nread (io_slot b fd) + (if EV_READ \<in> ev_events (evt b e) then 1 else 0),
     nwrite = nwrite (io_slot b fd) + (if EV_WRITE \<in> ev_events (evt b e) then 1 else 0)\<rparr>)\<rparr>"

lemma evmap_io_add_cases:
  assumes "0 \<le> fd"
  shows "\<exists>r. evmap_io_add en fd e b = (-1, b) \<or> evmap_io_add en fd e b = (-1, b\<lparr>io := (io b)(fd \<mapsto> io_slot b fd)\<rparr>)
    \<or> (r = 0 \<or> r = 1) \<and> evmap_io_add en fd e b = (r, io_more b fd e)"
proof (cases "io b fd = None \<and> \<not> slot_room en fd")
  case False
  define what where "what = ev_events (evt b e)"
  define nr where "nr = nread (io_slot b fd) + (if EV_READ \<in> what then 1 else 0)"
  define nw where "nw = nwrite (io_slot b fd) + (if EV_WRITE \<in> what then 1 else 0)"
  define res where "res = (if EV_READ \<in> what \<and> nr = 1 then {EV_READ} else {}) \<union> (if EV_WRITE \<in> what \<and> nw = 1 then {EV_WRITE} else {})"
  have "evmap_io_add en fd e b =
    (if 65535 < nr \<or> 65535 < nw then (-1, b\<lparr>io := (io b)(fd \<mapsto> io_slot b fd)\<rparr>)
     else if res \<noteq> {} \<and> \<not> backend_add en (b\<lparr>io := (io b)(fd \<mapsto> io_slot b fd)\<rparr>) fd (what \<inter> {EV_ET} \<union> res) then (-1, b\<lparr>io := (io b)(fd \<mapsto> io_slot b fd)\<rparr>)
     else (if res = {} then 0 else 1, io_more b fd e))"
    unfolding evmap_io_add_def Let_def if_not_P [OF False] io_slot_def [symmetric] io_more_def nr_def nw_def res_def what_def
    using assms by simp
  then show ?thesis by (cases "res = {}") (auto split: if_splits)
qed (use assms in \<open>simp add: evmap_io_add_def\<close>)

lemma io_ok_slot:
  assumes "io_ok b" and "0 \<le> fd"
  shows "io_ok (b\<lparr>io := (io b)(fd \<mapsto> io_slot b fd)\<rparr>)"
proof -
  have at: "io_at (b\<lparr>io := m\<rparr>) fd' c = io_at b fd' c" for m fd' c
    by (cases c) (simp_all add: on_fd_def io_entry_ok_def io_count_def)
  have "io_at b fd (io b fd)" using assms by (simp add: io_ok_def)
  then have "io_at b fd (Some (io_slot b fd))"
    by (cases "io b fd") (auto simp: io_slot_def new_io_def io_entry_ok_def io_count_def)
  with assms(1) show ?thesis by (simp add: io_ok_def at)
qed

lemma base_ok_io:
  assumes "base_ok E b" and "io_ok (b\<lparr>io := m\<rparr>)"
  shows "base_ok E (b\<lparr>io := m\<rparr>)"
proof -
  have "queues_ok E (b\<lparr>io := m\<rparr>) = queues_ok E b" by (rule queues_ok_cong) simp_all
  moreover have "no_signals E (b\<lparr>io := m\<rparr>) = no_signals E b" by (simp add: no_signals_def)
  ultimately show ?thesis using assms by (simp add: base_ok_def)
qed

lemma touched_io: "base_ok E (b\<lparr>io := m\<rparr>) \<Longrightarrow> dom (io b) \<subseteq> dom m \<Longrightarrow> touched E e b (b\<lparr>io := m\<rparr>)"
  by (simp add: touched_def same_kind_def timeout_of_def quiet_queues)

lemma watch_ok:
  assumes "base_ok E b" and "e \<in> E"
  shows "\<exists>r b'. watch en e b = Some (r, b') \<and> (r = 0 \<or> r = -1) \<and> touched E e b b' \<and> timeheap b' = timeheap b
    \<and> activequeues b' = activequeues b
    \<and> evt b' e = (if r = 0 \<and> ev_events (evt b e) \<inter> EV_IO \<noteq> {} \<and> EVLIST_ACTIVE \<notin> flags b e
         then (evt b e)\<lparr>ev_flags := insert EVLIST_INSERTED (flags b e)\<rparr> else evt b e)"
proof (cases "ev_events (evt b e) \<inter> EV_IO \<noteq> {} \<and> EVLIST_INSERTED \<notin> flags b e \<and> EVLIST_ACTIVE \<notin> flags b e")
  case False
  have "EV_SIGNAL \<notin> ev_events (evt b e)" using base_okD(5) [OF assms] .
  then have "ev_events (evt b e) \<inter> {EV_READ, EV_WRITE, EV_SIGNAL} = ev_events (evt b e) \<inter> EV_IO" by (auto simp: EV_IO_def)
  with False have "watch en e b = Some (0, b)" by (auto simp: watch_def Let_def)
  moreover have "EVLIST_INSERTED \<in> flags b e \<Longrightarrow> (evt b e)\<lparr>ev_flags := insert EVLIST_INSERTED (flags b e)\<rparr> = evt b e"
    by (simp add: insert_absorb)
  ultimately show ?thesis using touched_refl [OF assms(1)] False by auto
next
  case True
  note ok = base_okD [OF assms(1)]
  have ev: "ev_events (evt b e) \<inter> {EV_READ, EV_WRITE, EV_SIGNAL} \<noteq> {}" using True by (auto simp: EV_IO_def)
  let ?fd = "ev_fd (evt b e)"
  obtain r m where m: "evmap_io_add en ?fd e b = (r, m)" by fastforce
  have w: "watch en e b = (if r = -1 then Some (-1, m) else map_option (\<lambda>b. (0, b)) (event_queue_insert en EVLIST_INSERTED e m))"
    using True ev m by (simp add: watch_def Let_def)
  show ?thesis
  proof (cases "r = -1")
    case fail: True
    have "touched E e b m"
    proof (cases "?fd < 0")
      case False
      then have pos: "0 \<le> ?fd" by simp
      have slot: "base_ok E (b\<lparr>io := (io b)(?fd \<mapsto> io_slot b ?fd)\<rparr>)" by (rule base_ok_io [OF assms(1) io_ok_slot [OF ok(2) pos]])
      then have "touched E e b (b\<lparr>io := (io b)(?fd \<mapsto> io_slot b ?fd)\<rparr>)" by (rule touched_io) auto
      moreover have "m = b \<or> m = b\<lparr>io := (io b)(?fd \<mapsto> io_slot b ?fd)\<rparr>"
        using evmap_io_add_cases [OF pos, of en e b] m fail by auto
      ultimately show ?thesis using touched_refl [OF assms(1)] by blast
    qed (use m fail in \<open>simp add: evmap_io_add_def\<close>)
    moreover have "timeheap m = timeheap b" "activequeues m = activequeues b" "evt m e = evt b e"
      using m fail evmap_io_add_cases [of ?fd en e b] by (cases "?fd < 0"; fastforce simp: evmap_io_add_def)+
    ultimately show ?thesis using w fail by simp
  next
    case no_fail: False
    have c: "m = (if ?fd < 0 then b else io_more b ?fd e)"
    proof (cases "?fd < 0")
      case False
      then show ?thesis using m no_fail evmap_io_add_cases [of ?fd en e b] by auto
    qed (use m in \<open>simp add: evmap_io_add_def\<close>)
    have mq: "evt m = evt b" "timeheap m = timeheap b" "activequeues m = activequeues b" "eventqueue m = eventqueue b"
      "event_count m = event_count b" "event_count_active m = event_count_active b" "quiet b m" "event_continue m = event_continue b"
      "dom (io b) \<subseteq> dom (io m)"
      and io_m: "if ?fd < 0 then io m = io b else io m = io (io_more b ?fd e)"
      unfolding c by (auto simp: io_more_def quiet_queues)
    let ?b = "(marked EVLIST_INSERTED e m)\<lparr>eventqueue := eventqueue m @ [e]\<rparr>"
    have qm: "queues_ok E m" using ok(1) by (subst queues_ok_cong [of _ b]) (simp_all add: mq)
    have no: "EVLIST_INSERTED \<notin> flags m e" using True by (simp add: mq)
    note ins = insert_inserted [OF qm assms(2) no]
    have "io_ok ?b"
    proof (cases "?fd < 0")
      case False
      then have pos: "0 \<le> ?fd" by simp
      have no_b: "EVLIST_INSERTED \<notin> flags b e" "ev_events (evt b e) \<inter> EV_IO \<noteq> {}" using True by simp_all
      show ?thesis
        by (rule io_ok_insert [OF ok(2) no_b(1) refl pos no_b(2) io_slot_def])
          (use io_m False in \<open>simp_all add: mq io_more_def\<close>)
    next
      case neg: True
      show ?thesis unfolding io_ok_def
      proof (intro allI impI)
        fix fd :: int assume "0 \<le> fd"
        then have "io_at ?b fd (io b fd) = io_at b fd (io b fd)" using neg by (intro io_at_other [of _ b e]) (auto simp: mq)
        then show "io_at ?b fd (io ?b fd)" using ok(2) neg io_m \<open>0 \<le> fd\<close> by (simp add: io_ok_def)
      qed
    qed
    moreover have "no_signals E ?b" using ok(3) True by (auto simp: no_signals_def mq)
    ultimately have bok: "base_ok E ?b" using ins(2) by (simp add: base_ok_def)
    have "touched E e b ?b"
      using bok mq by (simp add: touched_def same_kind_def timeout_of_def quiet_def marked_def)
    moreover have "watch en e b = Some (0, ?b)" using w no_fail ins(1) by simp
    ultimately show ?thesis using True by (simp add: mq)
  qed
qed

lemma put_slot_heap_a: "put_slot i x s = Some s' \<Longrightarrow> heap_a s' = heap_a s"
  by (auto simp: put_slot_def set_idx_def split: if_splits)

lemma shift_up_heap_a: "min_heap_shift_up s hole e = Some s' \<Longrightarrow> heap_a s' = heap_a s"
proof (induction s hole e arbitrary: s' rule: min_heap_shift_up.induct)
  case (1 s hole e)
  consider "put_slot hole e s = Some s'"
    | x s1 where "hole \<noteq> 0" "slot s ((hole - 1) div 2) = Some x" "min_heap_elem_greater s x e" "put_slot hole x s = Some s1"
      "min_heap_shift_up s1 ((hole - 1) div 2) e = Some s'"
    using 1(2) unfolding min_heap_shift_up.simps [of s hole e] by (auto split: if_splits option.splits)
  then show ?case
  proof cases
    case (2 x s1)
    with 1(1) [OF 2(1-4)] put_slot_heap_a [OF 2(4)] show ?thesis by simp
  qed (rule put_slot_heap_a)
qed

lemma shift_down_heap_a: "min_heap_shift_down s hole e = Some s' \<Longrightarrow> heap_a s' = heap_a s"
proof (induction s hole e arbitrary: s' rule: min_heap_shift_down.induct)
  case (1 s hole e)
  consider "put_slot hole e s = Some s'"
    | c x s1 where "\<not> 2 ^ 32 \<le> 2 * (hole + 1)" "2 * (hole + 1) \<le> heap_n s" "min_child s (2 * (hole + 1)) = Some c" "slot s c = Some x"
      "\<not> \<not> min_heap_elem_greater s e x" "put_slot hole x s = Some s1" "min_heap_shift_down s1 c e = Some s'"
    using 1(2) unfolding min_heap_shift_down.simps [of s hole e] by (auto split: if_splits option.splits)
  then show ?case
  proof cases
    case (2 c x s1)
    with 1(1) [OF 2(1-6)] put_slot_heap_a [OF 2(6)] show ?thesis by simp
  qed (rule put_slot_heap_a)
qed

lemma erase_heap_a: "min_heap_erase s e = Some (r, s') \<Longrightarrow> heap_a s' = heap_a s"
  by (auto simp: min_heap_erase_def Let_def set_idx_def split: if_splits option.splits dest!: shift_up_heap_a shift_down_heap_a)

lemma heap_n_le: "heap_ok h \<Longrightarrow> heap_n h \<le> heap_a h"
  using heap_okD(1,2) [of h] by (metis heap_ok_def le_add1 length_append length_map)

lemma dequeued_touched:
  assumes "base_ok E b" and "dequeued E e q b b'" and "q = EVLIST_TIMEOUT \<or> q = EVLIST_ACTIVE"
  shows "touched E e b b'"
proof -
  note d = dequeuedD [OF assms(2)]
  have "io_ok b' = io_ok b" by (rule io_ok_cong) (use assms(3) in \<open>auto simp: d(4,5)\<close>)
  moreover have "no_signals E b'" using base_okD(3) [OF assms(1)] by (auto simp: no_signals_def d(4))
  ultimately have "base_ok E b'" using base_okD(2) [OF assms(1)] d(1) by (simp add: base_ok_def)
  then show ?thesis using d(2,3) by (auto simp: touched_def same_kind_def timeout_of_key d(4-7) split: if_splits)
qed

lemma remove_timeout_heap_a:
  assumes "event_queue_remove EVLIST_TIMEOUT e b = Some b'"
  shows "heap_a (timeheap b') = heap_a (timeheap b)"
  using assms by (auto simp: event_queue_remove_def Let_def split: if_splits dest!: erase_heap_a)

lemma schedule_ok:
  assumes "base_ok E b" and "e \<in> E" and "room en \<or> heap_n (timeheap b) < heap_a (timeheap b) \<or> EVLIST_TIMEOUT \<in> flags b e"
  shows "\<exists>b'. schedule en e tv absolute b = Some b' \<and> touched E e b b'
    \<and> timeout_of b' e = (if absolute then tv else evutil_timeradd (gettime b) tv)
    \<and> flags b' e = insert EVLIST_TIMEOUT
        (flags b e - (if EVLIST_ACTIVE \<in> flags b e \<and> EV_TIMEOUT \<in> ev_res (evt b e) then {EVLIST_ACTIVE} else {}))"
proof -
  let ?b0 = "if ev_closure (evt b e) = EV_CLOSURE_PERSIST \<and> \<not> absolute then upd e (\<lambda>ev. ev\<lparr>ev_io_timeout := tv\<rparr>) b else b"
  have b0: "base_ok E ?b0" using assms(1) base_ok_cong [of "upd e (\<lambda>ev. ev\<lparr>ev_io_timeout := tv\<rparr>) b" b E] by simp
  have t0: "touched E e b ?b0" using b0 by (auto simp: touched_def same_kind_def timeout_of_def quiet_queues)
  have same0: "flags ?b0 e = flags b e" "ev_res (evt ?b0 e) = ev_res (evt b e)" "timeheap ?b0 = timeheap b" by simp_all
  obtain b1 where b1: "(if EVLIST_TIMEOUT \<in> flags ?b0 e then event_queue_remove EVLIST_TIMEOUT e ?b0 else Some ?b0) = Some b1"
    "dequeued E e EVLIST_TIMEOUT ?b0 b1" using drop_queue [OF base_okD(1) [OF b0], of EVLIST_TIMEOUT e] by (auto simp: QUEUES_def)
  note d1 = dequeuedD [OF b1(2)]
  have t1: "touched E e ?b0 b1" by (rule dequeued_touched [OF b0 b1(2)]) simp
  have ok1: "base_ok E b1" using t1 by (simp add: touched_def)
  have room1: "room en \<or> heap_n (timeheap b1) < heap_a (timeheap b1)"
  proof (cases "EVLIST_TIMEOUT \<in> flags b e")
    case True
    then have "heap_n (timeheap b1) < heap_n (timeheap b)" using d1(10) same0 by simp
    moreover have "heap_a (timeheap b1) = heap_a (timeheap b)" using remove_timeout_heap_a [of e ?b0 b1] b1(1) True same0 by simp
    moreover have "heap_ok (timeheap b)" using base_okD(1) [OF assms(1)] by (simp add: queues_ok_def timeouts_ok_def)
    ultimately show ?thesis using heap_n_le [of "timeheap b"] by simp
  next
    case False
    then have "b1 = ?b0" using b1(1) same0(1) by (simp split: if_splits)
    with False assms(3) same0(3) show ?thesis by simp
  qed
  let ?act = "EVLIST_ACTIVE \<in> flags b1 e \<and> EV_TIMEOUT \<in> ev_res (evt b1 e)"
  have act: "?act \<longleftrightarrow> EVLIST_ACTIVE \<in> flags b e \<and> EV_TIMEOUT \<in> ev_res (evt b e)" by (simp add: d1(4))
  obtain b2 where b2: "(if ?act then event_queue_remove EVLIST_ACTIVE e b1 else Some b1) = Some b2" "touched E e b1 b2"
    "timeheap b2 = timeheap b1" "flags b2 e = flags b1 e - (if ?act then {EVLIST_ACTIVE} else {})"
  proof (cases ?act)
    case True
    then have "event_queue_remove EVLIST_ACTIVE e b1 = Some (take_active e b1)" using remove_active(1) [OF base_okD(1) [OF ok1]] by blast
    moreover obtain b' where "event_queue_remove EVLIST_ACTIVE e b1 = Some b'" "dequeued E e EVLIST_ACTIVE b1 b'"
      using drop_queue [OF base_okD(1) [OF ok1], of EVLIST_ACTIVE e] True by (auto simp: QUEUES_def)
    ultimately have "dequeued E e EVLIST_ACTIVE b1 (take_active e b1)" by simp
    then have "touched E e b1 (take_active e b1)" by (rule dequeued_touched [OF ok1]) simp
    then show ?thesis using that [of "take_active e b1"] True remove_active(1) [OF base_okD(1) [OF ok1]]
      by (simp add: take_active_def Let_def)
  qed (use that [of b1] touched_refl [OF ok1] in auto)
  have ok2: "base_ok E b2" using b2(2) by (simp add: touched_def)
  have no2: "EVLIST_TIMEOUT \<notin> flags b2 e" using b2(4) by (simp add: d1(4))
  let ?t = "if absolute then tv else evutil_timeradd (gettime b2) tv"
  let ?b3 = "set_timeout e ?t b2"
  note st = set_timeout_ok [OF ok2 no2, of ?t]
  have room3: "room en \<or> heap_n (timeheap ?b3) < heap_a (timeheap ?b3)" using room1 st(3,4) b2(3) by simp
  have no3: "EVLIST_TIMEOUT \<notin> flags ?b3 e" using no2 by simp
  obtain h where h: "event_queue_insert en EVLIST_TIMEOUT e ?b3 = Some ((marked EVLIST_TIMEOUT e ?b3)\<lparr>timeheap := h\<rparr>)"
    "queues_ok E ((marked EVLIST_TIMEOUT e ?b3)\<lparr>timeheap := h\<rparr>)" "key h = key (timeheap ?b3)"
    using insert_timeout [OF base_okD(1) [OF st(1)] assms(2) no3 room3] by blast
  let ?b4 = "(marked EVLIST_TIMEOUT e ?b3)\<lparr>timeheap := h\<rparr>"
  have "io_ok ?b4 = io_ok b2" by (rule io_ok_cong) auto
  moreover have "no_signals E ?b4" using base_okD(3) [OF ok2] by (auto simp: no_signals_def)
  ultimately have ok4: "base_ok E ?b4" using h(2) base_okD(2) [OF ok2] by (simp add: base_ok_def)
  have to4: "timeout_of ?b4 = (timeout_of b2)(e := ?t)" using st(2) h(3) by (simp add: timeout_of_key)
  have "quiet b2 ?b3" by simp
  then have "quiet b2 (marked EVLIST_TIMEOUT e ?b3)" by (rule quiet_trans) simp
  then have "touched E e b2 ?b4" using ok4 by (simp add: touched_def same_kind_def to4 quiet_queues)
  then have t4: "touched E e b ?b4" by (rule touched_trans [OF touched_trans [OF touched_trans [OF t0 t1] b2(2)]])
  have "gettime b2 = gettime b"
    using touched_trans [OF touched_trans [OF t0 t1] b2(2)] gettime_quiet by (simp add: touched_def)
  moreover have "schedule en e tv absolute b = Some ?b4"
    unfolding schedule_def Let_def b1(1) option.case if_not_P [OF base_okD(5) [OF ok1 assms(2)]] b2(1) by (rule h(1))
  moreover have "flags ?b4 e = insert EVLIST_TIMEOUT (flags b e - (if ?act then {EVLIST_ACTIVE} else {}))"
    using b2(4) by (auto simp: d1(4))
  ultimately show ?thesis using t4 to4 unfolding act by simp
qed

lemma reserve_room:
  assumes "base_ok E b"
    and "min_heap_reserve (room en) (timeheap b) ((1 + min_heap_size (timeheap b)) mod 2 ^ 32) = (r, h)"
  shows "r = 0 \<or> r = -1 \<and> h = timeheap b" and "r = 0 \<Longrightarrow> touched E e b (b\<lparr>timeheap := h\<rparr>) \<and> heap_n h < heap_a h"
proof -
  have ok: "heap_ok (timeheap b)" and "card E < 2 ^ 29"
    using base_okD(1) [OF assms(1)] by (simp_all add: queues_ok_def timeouts_ok_def)
  then have "heap_n (timeheap b) < 2 ^ 31 - 1" using slots_card(1) [OF base_okD(1) [OF assms(1)]] by simp
  then have "(1 + min_heap_size (timeheap b)) mod 2 ^ 32 = heap_n (timeheap b) + 1" by (simp add: min_heap_size_def)
  then have r: "min_heap_reserve (room en) (timeheap b) (heap_n (timeheap b) + 1) = (r, h)" using assms(2) by simp
  note res = min_heap_reserve_ok [OF ok r]
  show "r = 0 \<or> r = -1 \<and> h = timeheap b" using res(1,2) by (auto split: if_splits)
  assume "r = 0"
  from res(3) [OF this] have h: "heap_ok h" "slots h = slots (timeheap b)" "key h = key (timeheap b)"
    "heap_n h = heap_n (timeheap b)" "heap_n (timeheap b) < length (heap_p h)" by auto
  have "length (heap_p h) = heap_a h" using h(1) by (simp add: heap_ok_def)
  then have "heap_n h < heap_a h" using h(4,5) by simp
  moreover have "base_ok E (b\<lparr>timeheap := h\<rparr>)" using assms(1) h ok by (subst base_ok_cong [of _ b]) simp_all
  ultimately show "touched E e b (b\<lparr>timeheap := h\<rparr>) \<and> heap_n h < heap_a h"
    using h(3) by (simp add: touched_def same_kind_def timeout_of_key quiet_queues)
qed

lemma event_add_internal_ok:
  assumes "base_ok E b" and "e \<in> E"
  shows "\<exists>r b'. event_add_internal en e tv absolute b = Some (r, b') \<and> (r = 0 \<or> r = -1) \<and> touched E e b b'
    \<and> (r = 0 \<longrightarrow> (ev_events (evt b e) \<inter> EV_IO \<noteq> {} \<longrightarrow> EVLIST_ACTIVE \<notin> flags b e \<longrightarrow> EVLIST_INSERTED \<in> flags b' e)
         \<and> (\<forall>t. tv = Some t \<longrightarrow> EVLIST_TIMEOUT \<in> flags b' e
              \<and> timeout_of b' e = (if absolute then t else evutil_timeradd (gettime b) t)))"
proof -
  let ?reserve = "tv \<noteq> None \<and> EVLIST_TIMEOUT \<notin> flags b e"
  obtain r h where rh: "(if ?reserve then min_heap_reserve (room en) (timeheap b) ((1 + min_heap_size (timeheap b)) mod 2 ^ 32)
    else (0, timeheap b)) = (r, h)" by fastforce
  show ?thesis
  proof (cases "r = -1")
    case True
    then have "event_add_internal en e tv absolute b = Some (-1, b)" using rh by (simp add: event_add_internal_def Let_def)
    then show ?thesis using touched_refl [OF assms(1)] by simp
  next
    case False
    let ?b0 = "b\<lparr>timeheap := h\<rparr>"
    have t0: "touched E e b ?b0" and room0: "tv \<noteq> None \<Longrightarrow> heap_n h < heap_a h \<or> EVLIST_TIMEOUT \<in> flags b e"
    proof -
      have "touched E e b ?b0 \<and> (?reserve \<longrightarrow> heap_n h < heap_a h)"
      proof (cases ?reserve)
        case True
        then have "min_heap_reserve (room en) (timeheap b) ((1 + min_heap_size (timeheap b)) mod 2 ^ 32) = (r, h)" using rh by simp
        from reserve_room [OF assms(1) this] False show ?thesis by blast
      next
        case no: False
        then have "(r, h) = (0, timeheap b)" using rh if_not_P [OF no] by metis
        then have "?b0 = b" by simp
        with touched_refl [OF assms(1)] no show ?thesis by metis
      qed
      then show "touched E e b ?b0" "tv \<noteq> None \<Longrightarrow> heap_n h < heap_a h \<or> EVLIST_TIMEOUT \<in> flags b e" by blast+
    qed
    have ok0: "base_ok E ?b0" using t0 by (simp add: touched_def)
    from watch_ok [OF ok0 assms(2), of en] obtain r1 b1 where w: "watch en e ?b0 = Some (r1, b1)" "r1 = 0 \<or> r1 = -1"
      "touched E e ?b0 b1" "timeheap b1 = timeheap ?b0"
      "evt b1 e = (if r1 = 0 \<and> ev_events (evt ?b0 e) \<inter> EV_IO \<noteq> {} \<and> EVLIST_ACTIVE \<notin> flags ?b0 e
         then (evt ?b0 e)\<lparr>ev_flags := insert EVLIST_INSERTED (flags ?b0 e)\<rparr> else evt ?b0 e)" by blast
    have heap1: "timeheap b1 = h" using w(4) by simp
    have fl1: "flags b1 e = (if r1 = 0 \<and> ev_events (evt b e) \<inter> EV_IO \<noteq> {} \<and> EVLIST_ACTIVE \<notin> flags b e
        then insert EVLIST_INSERTED (flags b e) else flags b e)" using w(5) by simp
    have t1: "touched E e b b1" by (rule touched_trans [OF t0 w(3)])
    have "event_add_internal en e tv absolute b = (case tv of None \<Rightarrow> Some (r1, b1)
        | Some t \<Rightarrow> if r1 = -1 then Some (-1, b1) else map_option (\<lambda>b. (r1, b)) (schedule en e t absolute b1))"
      using rh False w(1) by (simp add: event_add_internal_def Let_def)
    note step = this
    show ?thesis
    proof (cases "tv = None \<or> r1 = -1")
      case True
      then have "event_add_internal en e tv absolute b = Some (r1, b1)" using step by (cases tv) simp_all
      moreover have "r1 = 0 \<Longrightarrow> tv = None" using True by simp
      ultimately show ?thesis using t1 w(2) fl1 by (intro exI [of _ r1] exI [of _ b1]) simp
    next
      case no: False
      from no w(2) have r1: "r1 = 0" by simp
      from no have "tv \<noteq> None" by (rule contrapos_nn) (rule disjI1)
      then obtain t where t: "tv = Some t" by (cases tv) simp_all
      have ok1: "base_ok E b1" using t1 by (simp add: touched_def)
      have "EVLIST_TIMEOUT \<in> flags b e \<Longrightarrow> EVLIST_TIMEOUT \<in> flags b1 e" using fl1 by simp
      then have "room en \<or> heap_n (timeheap b1) < heap_a (timeheap b1) \<or> EVLIST_TIMEOUT \<in> flags b1 e" using room0 t heap1 by blast
      from schedule_ok [OF ok1 assms(2) this, of t absolute] obtain b2 where s: "schedule en e t absolute b1 = Some b2"
        "touched E e b1 b2" "timeout_of b2 e = (if absolute then t else evutil_timeradd (gettime b1) t)"
        "flags b2 e = insert EVLIST_TIMEOUT (flags b1 e - (if EVLIST_ACTIVE \<in> flags b1 e \<and> EV_TIMEOUT \<in> ev_res (evt b1 e) then {EVLIST_ACTIVE} else {}))"
        by blast
      have "gettime b1 = gettime b" using t1 gettime_quiet by (simp add: touched_def)
      then have time: "timeout_of b2 e = (if absolute then t else evutil_timeradd (gettime b) t)" using s(3) by simp
      have ins: "EVLIST_INSERTED \<in> flags b1 e \<Longrightarrow> EVLIST_INSERTED \<in> flags b2 e" and tmo: "EVLIST_TIMEOUT \<in> flags b2 e"
        by (simp_all add: s(4))
      have "event_add_internal en e tv absolute b = Some (0, b2)" using step t r1 s(1) by simp
      with touched_trans [OF t1 s(2)] time tmo ins fl1 r1 t show ?thesis by (intro exI [of _ 0] exI [of _ b2]) simp
    qed
  qed
qed

end
