(* ===== verification/EventLoop.thy ===== *)
theory EventLoop
  imports EventBase
begin

text \<open>
  The event loop of EventBase as a whole: what it does to the times of the events, the callbacks it runs, the kernel's
  replies it takes in, and that it comes back.
\<close>

section \<open>Times\<close>

definition usec_ok :: "timeval \<Rightarrow> bool" where
  "usec_ok t \<longleftrightarrow> 0 \<le> snd t \<and> snd t < 1000000"

definition times :: "event_base \<Rightarrow> (nat \<Rightarrow> timeval) \<times> (nat \<Rightarrow> timeval) \<times> timeval \<times> timeval \<times> timeval" where
  "times b = (timeout_of b, \<lambda>x. ev_io_timeout (evt b x), tv_cache b, clock b, event_tv b)"

definition timed :: "(nat \<Rightarrow> timeval) \<times> (nat \<Rightarrow> timeval) \<times> timeval \<times> timeval \<times> timeval \<Rightarrow> bool" where
  "timed x = (case x of (t, d, c, n, l) \<Rightarrow> (\<forall>e. usec_ok (t e) \<and> usec_ok (d e)) \<and> usec_ok c \<and> usec_ok n \<and> usec_ok l)"

definition well_timed :: "event_base \<Rightarrow> bool" where
  "well_timed b \<longleftrightarrow> timed (times b)"

lemma well_timedD:
  assumes "well_timed b"
  shows "usec_ok (timeout_of b e)" "usec_ok (ev_io_timeout (evt b e))" "usec_ok (tv_cache b)" "usec_ok (clock b)"
    "usec_ok (event_tv b)" "usec_ok (gettime b)"
  using assms by (simp_all add: well_timed_def timed_def times_def gettime_def)

lemma usec_timeradd [intro]: "usec_ok t \<Longrightarrow> usec_ok u \<Longrightarrow> usec_ok (evutil_timeradd t u)"
  by (auto simp: usec_ok_def evutil_timeradd_def Let_def)

lemma usec_timersub [intro]: "usec_ok t \<Longrightarrow> usec_ok u \<Longrightarrow> usec_ok (evutil_timersub t u)"
  by (auto simp: usec_ok_def evutil_timersub_def Let_def)

lemma timersub_mono: "usec_ok t \<Longrightarrow> usec_ok u \<Longrightarrow> t \<le> u \<Longrightarrow> evutil_timersub t w \<le> evutil_timersub u w"
  by (cases t; cases u) (auto simp: usec_ok_def evutil_timersub_def Let_def less_eq_prod_def)

lemma timersub_positive: "usec_ok t \<Longrightarrow> usec_ok u \<Longrightarrow> u < t \<Longrightarrow> 0 \<le> fst (evutil_timersub t u) \<and> 0 \<le> snd (evutil_timersub t u)"
  by (cases t; cases u) (auto simp: usec_ok_def evutil_timersub_def Let_def less_prod_def)

text \<open>The heap moves events and leaves their times alone.\<close>

lemma key_set_idx [simp]: "key (set_idx e i s) = key s" "key (s\<lparr>heap_n := n\<rparr>) = key s" "key (s\<lparr>heap_p := ps\<rparr>) = key s"
  "key (s\<lparr>heap_a := a\<rparr>) = key s"
  by (auto simp: key_def set_idx_def fun_eq_iff)

lemma put_slot_key: "put_slot i x s = Some s' \<Longrightarrow> key s' = key s"
  by (auto simp: put_slot_def split: if_splits)

lemma shift_up_key: "min_heap_shift_up s hole e = Some s' \<Longrightarrow> key s' = key s"
proof (induction s hole e arbitrary: s' rule: min_heap_shift_up.induct)
  case (1 s hole e)
  consider "put_slot hole e s = Some s'"
    | x s1 where "hole \<noteq> 0" "slot s ((hole - 1) div 2) = Some x" "min_heap_elem_greater s x e" "put_slot hole x s = Some s1"
      "min_heap_shift_up s1 ((hole - 1) div 2) e = Some s'"
    using 1(2) unfolding min_heap_shift_up.simps [of s hole e] by (auto split: if_splits option.splits)
  then show ?case
  proof cases
    case (2 x s1)
    with 1(1) [OF 2(1-4)] put_slot_key [OF 2(4)] show ?thesis by simp
  qed (rule put_slot_key)
qed

lemma shift_down_key: "min_heap_shift_down s hole e = Some s' \<Longrightarrow> key s' = key s"
proof (induction s hole e arbitrary: s' rule: min_heap_shift_down.induct)
  case (1 s hole e)
  consider "put_slot hole e s = Some s'"
    | c x s1 where "\<not> 2 ^ 32 \<le> 2 * (hole + 1)" "2 * (hole + 1) \<le> heap_n s" "min_child s (2 * (hole + 1)) = Some c" "slot s c = Some x"
      "\<not> \<not> min_heap_elem_greater s e x" "put_slot hole x s = Some s1" "min_heap_shift_down s1 c e = Some s'"
    using 1(2) unfolding min_heap_shift_down.simps [of s hole e] by (auto split: if_splits option.splits)
  then show ?case
  proof cases
    case (2 c x s1)
    with 1(1) [OF 2(1-6)] put_slot_key [OF 2(6)] show ?thesis by simp
  qed (rule put_slot_key)
qed

lemma erase_key: "min_heap_erase s e = Some (r, s') \<Longrightarrow> key s' = key s"
  by (auto simp: min_heap_erase_def Let_def split: if_splits option.splits dest!: shift_up_key shift_down_key)

lemma reserve_key: "min_heap_reserve m s k = (r, s') \<Longrightarrow> key s' = key s"
  by (auto simp: min_heap_reserve_def Let_def key_def split: if_splits)

lemma push_key: "min_heap_push m s e = Some (r, s') \<Longrightarrow> key s' = key s"
  by (auto simp: min_heap_push_def split: prod.splits if_splits dest!: shift_up_key reserve_key)

text \<open>So do the operations on the queues, and no descriptor is forgotten.\<close>

definition keeps :: "event_base \<Rightarrow> event_base \<Rightarrow> bool" where
  "keeps b b' \<longleftrightarrow> times b' = times b \<and> dom (io b) \<subseteq> dom (io b')"

lemma keeps_refl [simp]: "keeps b b"
  by (simp add: keeps_def)

lemma keeps_trans: "keeps b b1 \<Longrightarrow> keeps b1 b2 \<Longrightarrow> keeps b b2"
  by (auto simp: keeps_def)

lemma keeps_well_timed: "keeps b b' \<Longrightarrow> well_timed b \<Longrightarrow> well_timed b'"
  by (simp add: keeps_def well_timed_def)

lemma keeps_upd: "(\<And>ev. ev_io_timeout (f ev) = ev_io_timeout ev) \<Longrightarrow> keeps b (upd e f b)"
  by (auto simp: keeps_def times_def timeout_of_def fun_eq_iff)

lemma keeps_heap: "key h = key (timeheap b) \<Longrightarrow> keeps b (b\<lparr>timeheap := h\<rparr>)"
  by (simp add: keeps_def times_def timeout_of_key)

lemma keeps_fields [simp]:
  "keeps b (b'\<lparr>event_count := n\<rparr>) = keeps b b'" "keeps b (b'\<lparr>eventqueue := xs\<rparr>) = keeps b b'"
  "keeps b (b'\<lparr>activequeues := qs\<rparr>) = keeps b b'" "keeps b (b'\<lparr>event_count_active := n\<rparr>) = keeps b b'"
  "keeps b (b'\<lparr>event_continue := c\<rparr>) = keeps b b'" "keeps b (b'\<lparr>frame := f\<rparr>) = keeps b b'"
  "keeps b (b'\<lparr>sigmap := m\<rparr>) = keeps b b'" "keeps b (b'\<lparr>event_running_priority := p\<rparr>) = keeps b b'"
  "keeps b (b'\<lparr>called := cs\<rparr>) = keeps b b'" "keeps b (b'\<lparr>event_break := c\<rparr>) = keeps b b'"
  "keeps b (b'\<lparr>event_gotterm := c\<rparr>) = keeps b b'" "keeps b (b'\<lparr>running_loop := c\<rparr>) = keeps b b'"
  "keeps b (b'\<lparr>waited := ws\<rparr>) = keeps b b'"
  by (simp_all add: keeps_def times_def timeout_of_def fun_eq_iff)

lemma keeps_slot: "dom (io b) \<subseteq> dom m \<Longrightarrow> keeps b (b\<lparr>io := m\<rparr>)"
  by (simp add: keeps_def times_def timeout_of_def fun_eq_iff)

lemma keeps_marked: "keeps b (marked q e b)" "keeps b (unmarked q e b)"
  using keeps_upd [of _ b e] unfolding marked_def unmarked_def
  by (auto simp: keeps_def times_def timeout_of_def fun_eq_iff)

lemma keeps_marked_heap:
  "key h = key (timeheap b) \<Longrightarrow> keeps b ((marked q e b)\<lparr>timeheap := h\<rparr>)"
  "key h = key (timeheap b) \<Longrightarrow> keeps b ((unmarked q e b)\<lparr>timeheap := h\<rparr>)"
  by (auto intro: keeps_trans [OF keeps_marked(1) keeps_heap] keeps_trans [OF keeps_marked(2) keeps_heap])

lemma keeps_insert: "event_queue_insert en q e b = Some b' \<Longrightarrow> keeps b b'"
proof -
  assume *: "event_queue_insert en q e b = Some b'"
  let ?m = "marked q e b"
  have m: "?m = upd e (\<lambda>ev. ev\<lparr>ev_flags := insert q (ev_flags ev)\<rparr>) (b\<lparr>event_count := event_count b + (if internal b e then 0 else 1)\<rparr>)"
    by (simp add: marked_def)
  consider "b' = b" | xs where "b' = ?m\<lparr>eventqueue := xs\<rparr>" | n qs where "b' = ?m\<lparr>event_count_active := n, activequeues := qs\<rparr>"
    | r h where "b' = ?m\<lparr>timeheap := h\<rparr>" "min_heap_push (room en) (timeheap ?m) e = Some (r, h)"
    using * unfolding event_queue_insert_def Let_def m [symmetric] by (cases q) (auto split: if_splits)
  then show "keeps b b'"
    by cases (auto simp: keeps_marked intro: keeps_marked_heap dest: push_key)
qed

lemma keeps_remove: "event_queue_remove q e b = Some b' \<Longrightarrow> keeps b b'"
proof -
  assume *: "event_queue_remove q e b = Some b'"
  let ?m = "unmarked q e b"
  have m: "?m = upd e (\<lambda>ev. ev\<lparr>ev_flags := ev_flags ev - {q}\<rparr>) (b\<lparr>event_count := event_count b - (if internal b e then 0 else 1)\<rparr>)"
    by (simp add: unmarked_def)
  consider xs where "b' = ?m\<lparr>eventqueue := xs\<rparr>" | n qs where "b' = ?m\<lparr>event_count_active := n, activequeues := qs\<rparr>"
    | r h where "b' = ?m\<lparr>timeheap := h\<rparr>" "min_heap_erase (timeheap ?m) e = Some (r, h)"
    using * unfolding event_queue_remove_def Let_def m [symmetric] by (cases q) (auto split: if_splits)
  then show "keeps b b'"
    by cases (auto simp: keeps_marked intro: keeps_marked_heap dest: erase_key)
qed

lemma keeps_abort: "abort_loop e b = Some b' \<Longrightarrow> keeps b b'"
  by (auto simp: abort_loop_def split: if_splits option.splits)

lemma three_ways:
  "(if c then None else if d then Some (x, b) else Some (y, b1)) = Some (r, b') \<Longrightarrow> b' = b \<or> b' = b1"
  "(if c then (x, b) else if d then (x', b) else (y, b1)) = (r, b') \<Longrightarrow> b' = b \<or> b' = b1"
  by (auto split: if_splits)

lemma keeps_update: "keeps b (b\<lparr>io := (io b)(fd \<mapsto> c)\<rparr>)"
  by (rule keeps_slot) auto

lemma keeps_io_del:
  assumes "evmap_io_del en fd e b = Some (r, b')"
  shows "keeps b b'"
proof (cases "fd < 0")
  case False
  then obtain c where "io b fd = Some c" using assms by (cases "io b fd") (simp_all add: evmap_io_del_def)
  with False assms [unfolded evmap_io_del_def Let_def] show ?thesis
    by (auto dest!: three_ways(1) simp: keeps_update simp del: split_paired_Ex)
qed (use assms in \<open>simp add: evmap_io_del_def\<close>)

lemma keeps_signal_del: "evmap_signal_del en sig e b = Some (r, b') \<Longrightarrow> keeps b b'"
  by (auto simp: evmap_signal_del_def split: if_splits option.splits)

lemma keeps_io_add:
  assumes "evmap_io_add en fd e b = (r, b')"
  shows "keeps b b'"
proof (cases "fd < 0 \<or> io b fd = None \<and> \<not> slot_room en fd")
  case False
  then have "\<not> fd < 0" "\<not> (io b fd = None \<and> \<not> slot_room en fd)" by blast+
  note * = assms [unfolded evmap_io_add_def Let_def if_not_P [OF this(1)] if_not_P [OF this(2)]]
  from three_ways(2) [OF *] show ?thesis by (elim disjE) (simp_all add: keeps_update)
qed (use assms in \<open>auto simp: evmap_io_add_def split: if_splits\<close>)

lemma keeps_signal_add: "evmap_signal_add en sig e b = (r, b') \<Longrightarrow> keeps b b'"
  by (auto simp: evmap_signal_add_def Let_def split: if_splits option.splits)

lemma keeps_if: "(if c then f b else Some b) = Some b' \<Longrightarrow> (\<And>b'. f b = Some b' \<Longrightarrow> keeps b b') \<Longrightarrow> keeps b b'"
  by (auto split: if_splits)

lemma then_Some: "(case x of None \<Rightarrow> None | Some y \<Rightarrow> f y) = Some z \<Longrightarrow> \<exists>y. x = Some y \<and> f y = Some z"
  by (cases x) simp_all

lemma keeps_undo:
  assumes "(if EVLIST_INSERTED \<in> flags b e then
      (case event_queue_remove EVLIST_INSERTED e b of None \<Rightarrow> None | Some b \<Rightarrow>
         map_option f (if ev_events (evt b e) \<inter> EV_IO \<noteq> {} then evmap_io_del en (ev_fd (evt b e)) e b
            else evmap_signal_del en (ev_fd (evt b e)) e b))
      else Some (0, b)) = Some (r, b')" and "\<And>x. snd (f x) = snd x"
  shows "keeps b b'"
proof (cases "EVLIST_INSERTED \<in> flags b e")
  case True
  from then_Some [OF assms(1) [unfolded if_P [OF True]]] obtain b1 x where b1: "event_queue_remove EVLIST_INSERTED e b = Some b1"
    and x: "(if ev_events (evt b1 e) \<inter> EV_IO \<noteq> {} then evmap_io_del en (ev_fd (evt b1 e)) e b1
            else evmap_signal_del en (ev_fd (evt b1 e)) e b1) = Some x" "f x = (r, b')" by blast
  have "x = (fst x, b')" using assms(2) [of x] x(2) by (cases x) simp
  with x(1) have "keeps b1 b'" by (metis keeps_io_del keeps_signal_del)
  with keeps_remove [OF b1] show ?thesis by (rule keeps_trans)
qed (use assms(1) in simp)

lemma keeps_seq:
  "(case x of None \<Rightarrow> None | Some y \<Rightarrow> f y) = Some z \<Longrightarrow> (\<And>y. x = Some y \<Longrightarrow> keeps b y)
    \<Longrightarrow> (\<And>y. f y = Some z \<Longrightarrow> keeps y b') \<Longrightarrow> keeps b b'"
  using keeps_trans by (cases x) auto

lemma keeps_del:
  assumes "event_del_internal en e b = Some (r, b')"
  shows "keeps b b'"
  by (rule keeps_seq [OF assms [unfolded event_del_internal_def]], erule keeps_if, erule keeps_abort,
      erule keeps_seq, erule keeps_if, erule keeps_remove, erule keeps_seq, erule keeps_if, erule keeps_remove,
      erule keeps_undo, simp add: split_beta)

lemma keeps_active: "event_active_nolock en e res n b = Some b' \<Longrightarrow> keeps b b'"
proof -
  assume *: "event_active_nolock en e res n b = Some b'"
  have u: "keeps b1 (upd e (\<lambda>ev. ev\<lparr>ev_res := f ev\<rparr>) b1)" "keeps b1 (upd e (\<lambda>ev. ev\<lparr>ev_ncalls := n, ev_pncalls := None\<rparr>) b1)" for b1 f
    by (auto intro: keeps_upd)
  show "keeps b b'"
  proof (cases "EVLIST_ACTIVE \<in> flags b e")
    case False
    define b1 where "b1 = upd e (\<lambda>ev. ev\<lparr>ev_res := res\<rparr>) b"
    define b2 where "b2 = (if int (ev_pri (evt b1 e)) < event_running_priority b1 then b1\<lparr>event_continue := True\<rparr> else b1)"
    define b3 where "b3 = (if EV_SIGNAL \<in> ev_events (evt b2 e) then upd e (\<lambda>ev. ev\<lparr>ev_ncalls := n, ev_pncalls := None\<rparr>) b2 else b2)"
    have "keeps b b1" "keeps b1 b2" "keeps b2 b3" using u by (simp_all add: b1_def b2_def b3_def)
    moreover have "event_queue_insert en EVLIST_ACTIVE e b3 = Some b'"
      using * unfolding event_active_nolock_def Let_def if_not_P [OF False] b1_def b2_def b3_def .
    ultimately show ?thesis using keeps_insert keeps_trans by blast
  qed (use * u in \<open>auto simp: event_active_nolock_def\<close>)
qed

lemma keeps_watch: "watch en e b = Some (r, b') \<Longrightarrow> keeps b b'"
  unfolding watch_def Let_def
  by (auto split: if_splits prod.splits intro: keeps_io_add keeps_signal_add keeps_trans [OF keeps_io_add keeps_insert]
      keeps_trans [OF keeps_signal_add keeps_insert])

lemma keeps_timeout_loop: "timeout_loop en now k b = Some b' \<Longrightarrow> keeps b b'"
proof (induction k arbitrary: b)
  case (Suc k)
  from Suc.prems consider "b' = b" | e r b1 b2 where "event_del_internal en e b = Some (r, b1)"
    "event_active_nolock en e {EV_TIMEOUT} 1 b1 = Some b2" "timeout_loop en now k b2 = Some b'"
    by (auto split: option.splits if_splits)
  then show ?case
  proof cases
    case (2 e r b1 b2)
    then show ?thesis using keeps_trans [OF keeps_trans [OF keeps_del keeps_active]] Suc.IH by blast
  qed simp
qed simp

lemma keeps_timeout_process: "timeout_process en b = Some b' \<Longrightarrow> keeps b b'"
  by (auto simp: timeout_process_def simp del: timeout_loop.simps intro: keeps_timeout_loop split: if_splits)

text \<open>Adding an event sets its time.\<close>

definition timely :: "event_base \<Rightarrow> event_base \<Rightarrow> bool" where
  "timely b b' \<longleftrightarrow> (well_timed b \<longrightarrow> well_timed b') \<and> dom (io b) \<subseteq> dom (io b')"

lemma keeps_timely: "keeps b b' \<Longrightarrow> timely b b'"
  using keeps_well_timed by (auto simp: timely_def keeps_def)

lemma timely_refl [simp]: "timely b b"
  by (simp add: timely_def)

lemma timely_trans: "timely b b1 \<Longrightarrow> timely b1 b2 \<Longrightarrow> timely b b2"
  by (auto simp: timely_def)

lemma timely_seq:
  "(case x of None \<Rightarrow> None | Some y \<Rightarrow> f y) = Some z \<Longrightarrow> (\<And>y. x = Some y \<Longrightarrow> timely b y)
    \<Longrightarrow> (\<And>y. f y = Some z \<Longrightarrow> timely y b') \<Longrightarrow> timely b b'"
  using timely_trans by (cases x) auto

lemma timely_set_timeout: "usec_ok t \<Longrightarrow> timely b (set_timeout e t b)"
  by (auto simp: timely_def well_timed_def times_def timed_def set_timeout_def Let_def timeout_of_def)

lemma timely_io_timeout: "usec_ok t \<Longrightarrow> timely b (upd e (\<lambda>ev. ev\<lparr>ev_io_timeout := t\<rparr>) b)"
  by (auto simp: timely_def well_timed_def times_def timed_def timeout_of_def)

lemma timely_set_insert:
  assumes "event_queue_insert en EVLIST_TIMEOUT e (set_timeout e t b) = Some b'" and "well_timed b \<Longrightarrow> usec_ok t"
  shows "timely b b'"
proof (cases "well_timed b")
  case True
  with assms show ?thesis using timely_trans [OF timely_set_timeout keeps_timely [OF keeps_insert]] by blast
next
  case False
  have "dom (io b) \<subseteq> dom (io b')" using keeps_insert [OF assms(1)] by (simp add: keeps_def)
  with False show ?thesis by (simp add: timely_def)
qed

lemma timely_schedule:
  assumes "schedule en e t absolute b = Some b'" and "usec_ok t"
  shows "timely b b'"
proof -
  define b0 where "b0 = (if ev_closure (evt b e) = EV_CLOSURE_PERSIST \<and> \<not> absolute then upd e (\<lambda>ev. ev\<lparr>ev_io_timeout := t\<rparr>) b else b)"
  have "timely b b0" using timely_io_timeout [OF assms(2)] by (simp add: b0_def)
  moreover have "timely b0 b'"
    by (rule timely_seq [OF assms(1) [unfolded schedule_def Let_def, folded b0_def]], rule keeps_timely, erule keeps_if, erule keeps_remove,
        erule timely_seq, rule keeps_timely, erule keeps_if, erule keeps_seq, erule keeps_if, erule keeps_abort, erule keeps_remove,
        erule timely_set_insert) (use assms(2) well_timedD(6) in auto)
  ultimately show ?thesis by (rule timely_trans)
qed

lemma timely_add:
  assumes "event_add_internal en e tv absolute b = Some (r, b')" and "\<And>t. tv = Some t \<Longrightarrow> usec_ok t"
  shows "timely b b'"
proof -
  let ?reserve = "tv \<noteq> None \<and> EVLIST_TIMEOUT \<notin> flags b e"
  obtain q h where qh: "(if ?reserve then min_heap_reserve (room en) (timeheap b) ((1 + min_heap_size (timeheap b)) mod 2 ^ 32)
    else (0, timeheap b)) = (q, h)" by fastforce
  then have "key h = key (timeheap b)" using reserve_key [of "room en" "timeheap b" _ q h] by (cases ?reserve) auto
  then have heap: "timely b (b\<lparr>timeheap := h\<rparr>)" by (intro keeps_timely keeps_heap)
  show ?thesis
  proof (cases "q = -1")
    case True
    then have "b' = b" using assms(1) qh by (simp add: event_add_internal_def Let_def)
    then show ?thesis by simp
  next
    case False
    then obtain r1 b1 where w: "watch en e (b\<lparr>timeheap := h\<rparr>) = Some (r1, b1)" and rest: "(case tv of None \<Rightarrow> Some (r1, b1)
        | Some t \<Rightarrow> if r1 = -1 then Some (-1, b1) else map_option (\<lambda>b. (r1, b)) (schedule en e t absolute b1)) = Some (r, b')"
      using assms(1) qh by (auto simp: event_add_internal_def Let_def split: option.splits prod.splits)
    have "timely b b1" by (rule timely_trans [OF heap keeps_timely [OF keeps_watch [OF w]]])
    moreover have "timely b1 b'"
    proof (cases "tv")
      case (Some t)
      then have "usec_ok t" by (rule assms(2))
      with rest Some show ?thesis by (cases "r1 = -1") (auto intro: timely_schedule)
    qed (use rest in simp)
    ultimately show ?thesis by (rule timely_trans)
  qed
qed

section \<open>What the callbacks may do\<close>

text \<open>Everything but activating events by hand, on the events of the base, with times in range.\<close>

fun allowed :: "nat set \<Rightarrow> api \<Rightarrow> bool" where
  "allowed E (Event_add e None) \<longleftrightarrow> e \<in> E"
| "allowed E (Event_add e (Some t)) \<longleftrightarrow> e \<in> E \<and> usec_ok t"
| "allowed E (Event_del e) \<longleftrightarrow> e \<in> E"
| "allowed E (Event_active _ _ _) \<longleftrightarrow> False"
| "allowed E (Event_priority_set e _) \<longleftrightarrow> e \<in> E"
| "allowed E (Signal_active _ _) \<longleftrightarrow> False"
| "allowed E (Elapse t) \<longleftrightarrow> usec_ok t"
| "allowed E _ \<longleftrightarrow> True"

definition steady :: "nat set \<Rightarrow> event_base \<Rightarrow> event_base \<Rightarrow> bool" where
  "steady E b b' \<longleftrightarrow> base_ok E b' \<and> well_timed b' \<and> dom (io b) \<subseteq> dom (io b')
     \<and> length (activequeues b') = length (activequeues b)
     \<and> (\<forall>p < length (activequeues b). length (activequeues b' ! p) \<le> length (activequeues b ! p))"

lemma steady_refl: "base_ok E b \<Longrightarrow> well_timed b \<Longrightarrow> steady E b b"
  by (simp add: steady_def)

lemma steady_trans: "steady E b b1 \<Longrightarrow> steady E b1 b2 \<Longrightarrow> steady E b b2"
  unfolding steady_def by (intro conjI allI impI) (auto intro: le_trans)

lemma steady_queues:
  assumes "base_ok E b'" and "well_timed b" and "timely b b'"
    and "activequeues b' = activequeues b \<or> activequeues b' = without e (activequeues b)"
  shows "steady E b b'"
proof -
  have "length (without e (activequeues b) ! p) \<le> length (activequeues b ! p)" if "p < length (activequeues b)" for p
    using that by (simp add: nth_without length_filter_le)
  moreover have "length (activequeues b') = length (activequeues b)" using assms(4) by auto
  ultimately show ?thesis using assms by (auto simp: steady_def timely_def)
qed

lemma add_steady:
  assumes "base_ok E b" and "well_timed b" and "e \<in> E" and "\<And>t. tv = Some t \<Longrightarrow> usec_ok t"
  shows "\<exists>r b'. event_add_internal en e tv absolute b = Some (r, b') \<and> steady E b b'"
proof -
  from event_add_internal_ok [OF assms(1,3), of en tv absolute] obtain r b' where
    *: "event_add_internal en e tv absolute b = Some (r, b')" "touched E e b b'" by blast
  have "steady E b b'"
    by (rule steady_queues [OF _ assms(2) timely_add [OF *(1) assms(4)], of _ e]) (use *(2) in \<open>simp_all add: touched_def\<close>)
  with *(1) show ?thesis by blast
qed

lemma del_steady:
  assumes "base_ok E b" and "well_timed b" and "e \<in> E" and "dels_ok en"
  shows "\<exists>b'. event_del_internal en e b = Some (0, b') \<and> steady E b b'
    \<and> activequeues b' = without e (activequeues b) \<and> ev_closure (evt b' e) = ev_closure (evt b e)"
proof -
  from event_del_internal_ok [OF assms(1,3,4)] obtain b' where
    *: "event_del_internal en e b = Some (0, b')" "deleted E e b b'" by blast
  have "steady E b b'"
    by (rule steady_queues [OF _ assms(2) keeps_timely [OF keeps_del [OF *(1)]], of _ e]) (use *(2) in \<open>simp_all add: deleted_def\<close>)
  with * show ?thesis by (auto simp: deleted_def)
qed

lemma priority_set_steady:
  assumes "base_ok E b" and "well_timed b" and "e \<in> E"
  shows "steady E b (snd (event_priority_set e p b))"
proof (cases "EVLIST_ACTIVE \<in> flags b e \<or> p < 0 \<or> int (length (activequeues b)) \<le> p")
  case True
  then have "snd (event_priority_set e p b) = b" by (auto simp: event_priority_set_def)
  then show ?thesis using steady_refl [OF assms(1,2)] by simp
next
  case False
  let ?b = "upd e (\<lambda>ev. ev\<lparr>ev_pri := nat p\<rparr>) b"
  have q: "queues_ok E b" using base_okD(1) [OF assms(1)] .
  have fl: "flags ?b x = flags b x" for x by simp
  have "counted E ?b" using queues_okD(1) [OF q] unfolding counted_def fl by simp
  moreover have "timeouts_ok E ?b" by (rule timeouts_cong [OF queues_okD(2) [OF q]]) simp_all
  moreover have "inserted_ok ?b" by (rule inserted_cong [OF queues_okD(3) [OF q]]) simp_all
  moreover have "active_ok E ?b" using queues_okD(4) [OF q] False by (auto simp: active_ok_def)
  ultimately have "queues_ok E ?b" by (rule queues_okI)
  moreover have "io_ok ?b = io_ok b" by (rule io_ok_cong) simp_all
  moreover have "no_signals E ?b" using base_okD(3) [OF assms(1)] by (auto simp: no_signals_def)
  ultimately have "base_ok E ?b" using base_okD(2) [OF assms(1)] by (simp add: base_ok_def)
  moreover have "snd (event_priority_set e p b) = ?b" using False by (simp add: event_priority_set_def)
  ultimately show ?thesis
    using steady_queues [OF _ assms(2) keeps_timely [OF keeps_upd]] by simp
qed

lemma base_ok_fields [simp]:
  "base_ok E (b\<lparr>event_break := c\<rparr>) = base_ok E b" "base_ok E (b\<lparr>event_gotterm := c\<rparr>) = base_ok E b"
  "base_ok E (b\<lparr>called := cs\<rparr>) = base_ok E b" "base_ok E (b\<lparr>event_running_priority := q\<rparr>) = base_ok E b"
  "base_ok E (b\<lparr>event_continue := c\<rparr>) = base_ok E b" "base_ok E (b\<lparr>running_loop := c\<rparr>) = base_ok E b"
  "base_ok E (b\<lparr>clock := t\<rparr>) = base_ok E b" "base_ok E (b\<lparr>event_tv := t\<rparr>) = base_ok E b"
  "base_ok E (b\<lparr>tv_cache := t\<rparr>) = base_ok E b" "base_ok E (b\<lparr>waited := ws\<rparr>) = base_ok E b"
  by (rule base_ok_cong; simp)+

lemma steady_fields:
  assumes "base_ok E b" and "well_timed b"
  shows "steady E b (b\<lparr>event_break := c\<rparr>)" "steady E b (b\<lparr>event_gotterm := c\<rparr>)" "steady E b (b\<lparr>called := cs\<rparr>)"
    "steady E b (b\<lparr>event_running_priority := q\<rparr>)" "steady E b (b\<lparr>event_continue := c\<rparr>)" "steady E b (b\<lparr>running_loop := c\<rparr>)"
    "usec_ok t \<Longrightarrow> steady E b (b\<lparr>clock := t\<rparr>)" "usec_ok t \<Longrightarrow> steady E b (b\<lparr>event_tv := t\<rparr>)" "usec_ok t \<Longrightarrow> steady E b (b\<lparr>tv_cache := t\<rparr>)"
    "steady E b (b\<lparr>waited := ws\<rparr>)"
  using assms by (simp_all add: steady_def well_timed_def times_def timed_def timeout_of_def)

lemma do_api_steady:
  assumes "base_ok E b" and "well_timed b" and "allowed E op" and "dels_ok en"
  shows "\<exists>b'. do_api en op b = Some b' \<and> steady E b b'"
proof (cases op)
  case (Event_add e tv)
  then have "e \<in> E" "\<And>t. tv = Some t \<Longrightarrow> usec_ok t" using assms(3) by (cases tv; simp)+
  with add_steady [OF assms(1,2)] obtain r b' where "event_add_internal en e tv False b = Some (r, b')" "steady E b b'" by blast
  with Event_add show ?thesis by (simp add: do_api_def)
next
  case (Event_del e)
  with assms(3) del_steady [OF assms(1,2) _ assms(4), of e] show ?thesis by (auto simp: do_api_def)
next
  case (Event_priority_set e p)
  with assms(3) priority_set_steady [OF assms(1,2)] show ?thesis by (simp add: do_api_def)
next
  case (Elapse t)
  then have "usec_ok (evutil_timeradd (clock b) t)" using assms(3) well_timedD(4) [OF assms(2)] by auto
  with Elapse show ?thesis using steady_fields(7) [OF assms(1,2)] by (simp add: do_api_def)
qed (use assms(3) steady_fields(1,2) [OF assms(1,2)] in
    \<open>simp_all add: do_api_def event_base_loopbreak_def event_loopexit_cb_def\<close>)

lemma steadyD: "steady E b b' \<Longrightarrow> base_ok E b'" "steady E b b' \<Longrightarrow> well_timed b'"
  by (simp_all add: steady_def)

lemma do_apis_steady:
  assumes "base_ok E b" and "well_timed b" and "\<forall>op \<in> set ops. allowed E op" and "dels_ok en"
  shows "\<exists>b'. do_apis en ops b = Some b' \<and> steady E b b'"
  using assms(1-3)
proof (induction ops arbitrary: b)
  case (Cons op ops)
  with do_api_steady [OF _ _ _ assms(4)] obtain b1 where b1: "do_api en op b = Some b1" "steady E b b1" by fastforce
  with Cons.IH [of b1] Cons.prems(3) obtain b2 where "do_apis en ops b1 = Some b2" "steady E b1 b2" by (auto dest: steadyD)
  with b1 show ?case using steady_trans by (intro exI [of _ b2]) auto
qed (simp add: steady_refl)

definition handlers_ok :: "nat set \<Rightarrow> handlers \<Rightarrow> bool" where
  "handlers_ok E h \<longleftrightarrow> (\<forall>b e res. \<forall>op \<in> set (h b e res). allowed E op)"

lemma run_callback_steady:
  assumes "base_ok E b" and "well_timed b" and "handlers_ok E h" and "dels_ok en"
  shows "\<exists>b'. run_callback h en e res b = Some b' \<and> steady E b b'"
proof -
  let ?b = "b\<lparr>called := called b @ [(e, res)]\<rparr>"
  have s: "steady E b ?b" by (rule steady_fields(3) [OF assms(1,2)])
  have "\<forall>op \<in> set (h ?b e res). allowed E op" using assms(3) by (simp add: handlers_ok_def)
  from do_apis_steady [OF steadyD [OF s] this assms(4)] obtain b' where "do_apis en (h ?b e res) ?b = Some b'" "steady E ?b b'" by blast
  with s show ?thesis using steady_trans by (auto simp: run_callback_def Let_def)
qed

lemma persist_closure_steady:
  assumes "base_ok E b" and "well_timed b" and "e \<in> E" and "handlers_ok E h" and "dels_ok en"
  shows "\<exists>b'. event_persist_closure h en e b = Some b' \<and> steady E b b'"
proof -
  define delay where "delay = ev_io_timeout (evt b e)"
  define at where "at = evutil_timeradd (if EV_TIMEOUT \<in> ev_res (evt b e) then timeout_of b e else gettime b) delay"
  define run_at where "run_at = (if timercmp_gt (gettime b) at then evutil_timeradd (gettime b) delay else at)"
  have "usec_ok run_at" using well_timedD [OF assms(2)] by (auto simp: run_at_def at_def delay_def)
  then have "\<exists>r b1. event_add_internal en e (Some run_at) True b = Some (r, b1) \<and> steady E b b1"
    using add_steady [OF assms(1,2,3), of "Some run_at"] by simp
  then obtain b1 where b1: "(if delay \<noteq> (0, 0) then map_option snd (event_add_internal en e (Some run_at) True b) else Some b) = Some b1"
    "steady E b b1" using steady_refl [OF assms(1,2)] by (cases "delay = (0, 0)") auto
  from run_callback_steady [OF steadyD [OF b1(2)] assms(4,5)] obtain b2 where
    b2: "run_callback h en e (ev_res (evt b1 e)) b1 = Some b2" "steady E b1 b2" by blast
  have "event_persist_closure h en e b = Some b2"
    unfolding event_persist_closure_def Let_def delay_def [symmetric] at_def [symmetric] run_at_def [symmetric] b1(1)
    using b2(1) by simp
  with steady_trans [OF b1(2) b2(2)] show ?thesis by blast
qed

section \<open>The loop comes back\<close>

lemma take_steady:
  assumes "base_ok E b" and "well_timed b" and "e \<in> E" and "dels_ok en" and "EVLIST_ACTIVE \<in> flags b e"
  shows "\<exists>b'. (if EV_PERSIST \<in> ev_events (evt b e) then event_queue_remove EVLIST_ACTIVE e b
      else map_option snd (event_del_internal en e b)) = Some b' \<and> steady E b b' \<and> activequeues b' = without e (activequeues b)"
proof (cases "EV_PERSIST \<in> ev_events (evt b e)")
  case True
  from drop_queue [OF base_okD(1) [OF assms(1)], of EVLIST_ACTIVE e] assms(5) obtain b' where
    b': "event_queue_remove EVLIST_ACTIVE e b = Some b'" "dequeued E e EVLIST_ACTIVE b b'" by (auto simp: QUEUES_def)
  have "touched E e b b'" by (rule dequeued_touched [OF assms(1) b'(2)]) simp
  moreover have q: "activequeues b' = without e (activequeues b)" using dequeuedD(6) [OF b'(2)] by simp
  ultimately have "steady E b b'"
    using steady_queues [OF _ assms(2) keeps_timely [OF keeps_remove [OF b'(1)]], of E e] by (simp add: touched_def)
  with True b'(1) q show ?thesis by simp
next
  case False
  with del_steady [OF assms(1-4)] show ?thesis by auto
qed

lemma closure_steady:
  assumes "base_ok E b" and "well_timed b" and "e \<in> E" and "handlers_ok E h" and "dels_ok en"
  shows "\<exists>b'. (case ev_closure (evt b e) of
      EV_CLOSURE_SIGNAL \<Rightarrow> event_signal_closure h en e b
    | EV_CLOSURE_PERSIST \<Rightarrow> event_persist_closure h en e b
    | EV_CLOSURE_NONE \<Rightarrow> run_callback h en e (ev_res (evt b e)) b) = Some b' \<and> steady E b b'"
  using persist_closure_steady [OF assms] run_callback_steady [OF assms(1,2,4,5)] base_okD(6) [OF assms(1,3)]
  by (cases "ev_closure (evt b e)") simp_all

lemma queue_member:
  assumes "base_ok E b" and "p < length (activequeues b)"
  shows "distinct (activequeues b ! p)" and "e \<in> set (activequeues b ! p) \<Longrightarrow> EVLIST_ACTIVE \<in> flags b e"
    and "e \<in> set (activequeues b ! p) \<Longrightarrow> e \<in> E"
proof -
  have "active_ok E b" and c: "counted E b" using base_okD(1) [OF assms(1)] by (simp_all add: queues_ok_def)
  then show "distinct (activequeues b ! p)" and *: "e \<in> set (activequeues b ! p) \<Longrightarrow> EVLIST_ACTIVE \<in> flags b e"
    using assms(2) by (simp_all add: active_ok_def)
  assume "e \<in> set (activequeues b ! p)"
  from * [OF this] c show "e \<in> E" by (auto simp: counted_def QUEUES_def)
qed

lemma single_queue_steady:
  assumes "base_ok E b" and "well_timed b" and "p < length (activequeues b)" and "length (activequeues b ! p) < k"
    and "handlers_ok E h" and "dels_ok en"
  shows "\<exists>n b'. single_queue h en p k cnt b = Done (n, b') \<and> steady E b b'"
  using assms(1-4)
proof (induction k arbitrary: b cnt)
  case (Suc k)
  show ?case
  proof (cases "activequeues b ! p")
    case Nil
    then show ?thesis using steady_refl [OF Suc.prems(1,2)] by simp
  next
    case (Cons e es)
    then have act: "EVLIST_ACTIVE \<in> flags b e" and e: "e \<in> E" using queue_member(2,3) [OF Suc.prems(1,3), of e] by simp_all
    from take_steady [OF Suc.prems(1,2) e assms(6) act] obtain b1 where
      b1: "(if EV_PERSIST \<in> ev_events (evt b e) then event_queue_remove EVLIST_ACTIVE e b
        else map_option snd (event_del_internal en e b)) = Some b1" "steady E b b1" "activequeues b1 = without e (activequeues b)" by blast
    have "length (activequeues b1 ! p) \<le> length es"
      using b1(3) Cons by (simp add: nth_without [OF Suc.prems(3)] length_filter_le)
    from closure_steady [OF steadyD [OF b1(2)] e assms(5,6)] obtain b2 where
      b2: "(case ev_closure (evt b1 e) of
          EV_CLOSURE_SIGNAL \<Rightarrow> event_signal_closure h en e b1
        | EV_CLOSURE_PERSIST \<Rightarrow> event_persist_closure h en e b1
        | EV_CLOSURE_NONE \<Rightarrow> run_callback h en e (ev_res (evt b1 e)) b1) = Some b2" "steady E b1 b2" by blast
    define c where "c = cnt + (if internal b1 e then 0 else 1)"
    have s: "steady E b b2" by (rule steady_trans [OF b1(2) b2(2)])
    have step: "single_queue h en p (Suc k) cnt b =
        (if event_break b2 then Done (-1, b2) else if event_continue b2 then Done (c, b2) else single_queue h en p k c b2)"
      by (simp only: single_queue.simps Cons list.case b1(1) option.case b2(1) Let_def c_def)
    have "p < length (activequeues b2)" "length (activequeues b2 ! p) < k"
      using b1(2) b2(2) Suc.prems(3,4) \<open>length (activequeues b1 ! p) \<le> length es\<close> Cons by (simp_all add: steady_def) (meson le_trans not_le)
    from Suc.IH [OF steadyD [OF s] this, of c] obtain n b' where "single_queue h en p k c b2 = Done (n, b')" "steady E b2 b'" by blast
    moreover from this have "steady E b b'" using steady_trans [OF s] by blast
    ultimately show ?thesis unfolding step using s by (cases "event_break b2"; cases "event_continue b2") (simp_all del: single_queue.simps)
  qed
qed simp

lemma queue_card:
  assumes "base_ok E b" and "p < length (activequeues b)"
  shows "length (activequeues b ! p) \<le> card E"
proof -
  have "distinct (activequeues b ! p)" and "set (activequeues b ! p) \<subseteq> E" using queue_member [OF assms] by auto
  from distinct_card [OF this(1)] card_mono [OF base_okD(4) [OF assms(1)] this(2)] show ?thesis by simp
qed

lemma process_queues_steady:
  assumes "base_ok E b" and "well_timed b" and "\<forall>i \<in> set ps. i < length (activequeues b)" and "handlers_ok E h" and "dels_ok en"
  shows "\<exists>n b'. process_queues h en (Suc (card E)) ps b = Done (n, b') \<and> steady E b b'"
  using assms(1-3)
proof (induction ps arbitrary: b)
  case Nil
  then show ?case using steady_fields(4) by simp
next
  case (Cons i ps)
  show ?case
  proof (cases "activequeues b ! i = []")
    case True
    then show ?thesis using Cons by simp
  next
    case False
    let ?b = "b\<lparr>event_running_priority := int i\<rparr>"
    have s: "steady E b ?b" by (rule steady_fields(4) [OF Cons.prems(1,2)])
    have i: "i < length (activequeues ?b)" using Cons.prems(3) by simp
    have "length (activequeues ?b ! i) < Suc (card E)" using queue_card [OF steadyD(1) [OF s] i] by simp
    from single_queue_steady [OF steadyD [OF s] i this assms(4,5), of 0] obtain n b1 where
      b1: "single_queue h en i (Suc (card E)) 0 ?b = Done (n, b1)" "steady E ?b b1" by blast
    have s1: "steady E b b1" by (rule steady_trans [OF s b1(2)])
    have "\<forall>i \<in> set ps. i < length (activequeues b1)" using s1 Cons.prems(3) by (simp add: steady_def)
    from Cons.IH [OF steadyD [OF s1] this] obtain n' b2 where
      b2: "process_queues h en (Suc (card E)) ps b1 = Done (n', b2)" "steady E b1 b2" by blast
    have "process_queues h en (Suc (card E)) (i # ps) b =
        (if n \<noteq> 0 then Done (if n < 0 then -1 else n, b1\<lparr>event_running_priority := -1\<rparr>) else Done (n', b2))"
      using False b1(1) b2(1) by (simp del: single_queue.simps)
    then show ?thesis using steady_trans [OF s1 b2(2)] steady_trans [OF s1 steady_fields(4) [OF steadyD [OF s1]]]
      by (cases "n = 0") auto
  qed
qed

text \<open>Time that runs backwards: every timeout is moved, so the heap stays one.\<close>

lemma heap_ok_rekey:
  assumes "heap_ok h" and "heap_p h' = heap_p h" "heap_n h' = heap_n h" "heap_a h' = heap_a h"
    and "\<And>e. min_heap_idx (evs h' e) = min_heap_idx (evs h e)"
    and "\<And>x y. x \<in> set (slots h) \<Longrightarrow> y \<in> set (slots h) \<Longrightarrow> key h x \<le> key h y \<Longrightarrow> key h' x \<le> key h' y"
  shows "heap_ok h'" and "slots h' = slots h"
proof -
  show s: "slots h' = slots h" using assms(2,3) by (simp add: slots_def)
  have "key h' (slots h ! parent i) \<le> key h' (slots h ! i)" if "i < length (slots h)" "0 < i" for i
    using heap_okD(4) [OF assms(1)] that parent_le [of i] by (intro assms(6)) (auto simp: heap_ordered_def)
  then have "heap_ordered (key h') (slots h')" by (simp add: heap_ordered_def s)
  then show "heap_ok h'" using assms(1) unfolding heap_ok_def s assms(2-4) by (simp add: holds_def placed_def assms(2,3,5))
qed

lemma shift_all_fields [simp]:
  "heap_p (timeheap (shift_all off es b)) = heap_p (timeheap b)" "heap_n (timeheap (shift_all off es b)) = heap_n (timeheap b)"
  "heap_a (timeheap (shift_all off es b)) = heap_a (timeheap b)"
  "min_heap_idx (evs (timeheap (shift_all off es b)) x) = min_heap_idx (evs (timeheap b) x)"
  "evt (shift_all off es b) = evt b" "io (shift_all off es b) = io b" "eventqueue (shift_all off es b) = eventqueue b"
  "activequeues (shift_all off es b) = activequeues b" "event_count (shift_all off es b) = event_count b"
  "event_count_active (shift_all off es b) = event_count_active b" "tv_cache (shift_all off es b) = tv_cache b"
  "clock (shift_all off es b) = clock b" "event_tv (shift_all off es b) = event_tv b" "gettime (shift_all off es b) = gettime b"
  by (induction es arbitrary: b) (simp_all add: set_timeout_def Let_def gettime_def)

lemma shift_all_timeout:
  "distinct es \<Longrightarrow> timeout_of (shift_all off es b) x =
     (if x \<in> set es then evutil_timersub (timeout_of b x) off else timeout_of b x)"
  by (induction es arbitrary: b) (auto simp: timeout_of_def set_timeout_def Let_def)

lemma timeout_correct_steady:
  assumes "base_ok E b" and "well_timed b"
  shows "steady E b (timeout_correct en b)" and "activequeues (timeout_correct en b) = activequeues b"
    and "evt (timeout_correct en b) = evt b" and "event_count_active (timeout_correct en b) = event_count_active b"
    and "event_count (timeout_correct en b) = event_count b"
proof -
  let ?off = "evutil_timersub (event_tv b) (gettime b)"
  let ?s = "shift_all ?off (slots (timeheap b)) b"
  have ok: "heap_ok (timeheap b)" using base_okD(1) [OF assms(1)] by (simp add: queues_ok_def timeouts_ok_def)
  have t: "timeout_of ?s x = (if x \<in> set (slots (timeheap b)) then evutil_timersub (timeout_of b x) ?off else timeout_of b x)" for x
    by (rule shift_all_timeout [OF heap_okD(3) [OF ok]])
  have mono: "key (timeheap ?s) x \<le> key (timeheap ?s) y"
    if "x \<in> set (slots (timeheap b))" "y \<in> set (slots (timeheap b))" "key (timeheap b) x \<le> key (timeheap b) y" for x y
    using that timersub_mono [OF well_timedD(1) [OF assms(2), of x] well_timedD(1) [OF assms(2), of y]] t [of x] t [of y]
    by (simp add: timeout_of_key)
  have h: "heap_ok (timeheap ?s)" "slots (timeheap ?s) = slots (timeheap b)"
    by (rule heap_ok_rekey [OF ok]; simp add: mono)+
  have base: "base_ok E ?s = base_ok E b" by (rule base_ok_cong) (simp_all add: h ok)
  have off: "usec_ok ?off" using well_timedD [OF assms(2)] by auto
  have "usec_ok (timeout_of ?s x)" for x using off well_timedD(1) [OF assms(2), of x] by (auto simp: t)
  then have "well_timed ?s" using well_timedD [OF assms(2)] by (simp add: well_timed_def times_def timed_def)
  then have s: "steady E b ?s" using assms(1) base by (simp add: steady_def)
  show "steady E b (timeout_correct en b)"
    using steady_refl [OF assms] steady_fields(8) [OF assms well_timedD(6) [OF assms(2)]]
      steady_trans [OF s steady_fields(8) [OF steadyD [OF s] well_timedD(6) [OF assms(2)]]]
    by (simp add: timeout_correct_def Let_def)
qed (simp_all add: timeout_correct_def Let_def)

lemma timeout_next_ok:
  assumes "base_ok E b" and "well_timed b"
  shows "\<exists>tv. timeout_next b = Some tv"
  using heap_top [OF assms(1)]
proof (elim disjE exE conjE)
  fix e assume top: "min_heap_top (timeheap b) = Some (Some e)"
  show ?thesis
  proof (cases "timercmp_gt (timeout_of b e) (gettime b)")
    case True
    then have "0 \<le> fst (evutil_timersub (timeout_of b e) (gettime b)) \<and> 0 \<le> snd (evutil_timersub (timeout_of b e) (gettime b))"
      by (intro timersub_positive well_timedD [OF assms(2)]) (simp add: timercmp_gt)
    with top True show ?thesis by (simp add: timeout_next_def Let_def not_less)
  qed (use top in \<open>simp add: timeout_next_def Let_def\<close>)
qed (simp add: timeout_next_def)

text \<open>What the kernel reports.\<close>

definition known :: "event_base \<Rightarrow> (int \<times> what set) list \<Rightarrow> bool" where
  "known b rs \<longleftrightarrow> (\<forall>r \<in> set rs. 0 \<le> fst r \<and> fst r \<in> dom (io b))"

definition alive :: "nat set \<Rightarrow> event_base \<Rightarrow> event_base \<Rightarrow> bool" where
  \<comment> \<open>the queues may grow\<close>
  "alive E b b' \<longleftrightarrow> base_ok E b' \<and> well_timed b' \<and> dom (io b) \<subseteq> dom (io b')"

lemma alive_trans: "alive E b b1 \<Longrightarrow> alive E b1 b2 \<Longrightarrow> alive E b b2"
  by (auto simp: alive_def)

lemma steady_alive: "steady E b b' \<Longrightarrow> alive E b b'"
  by (simp add: steady_def alive_def)

lemma aliveD: "alive E b b' \<Longrightarrow> base_ok E b'" "alive E b b' \<Longrightarrow> well_timed b'"
  by (simp_all add: alive_def)

lemma keeps_alive: "base_ok E b' \<Longrightarrow> keeps b b' \<Longrightarrow> well_timed b \<Longrightarrow> alive E b b'"
  using keeps_well_timed by (auto simp: alive_def keeps_def)

lemma active_all_alive:
  assumes "base_ok E b" and "well_timed b" and "set es \<subseteq> E"
  shows "\<exists>b'. evmap_active_all en what es b = Some b' \<and> alive E b b'"
  using assms
proof (induction es arbitrary: b)
  case Nil
  then show ?case by (simp add: alive_def)
next
  case (Cons e es)
  then have e: "e \<in> E" by simp
  from event_active_nolock_ok [OF Cons.prems(1) this, of en "ev_events (evt b e) \<inter> what" 1] obtain b1 where
    b1: "event_active_nolock en e (ev_events (evt b e) \<inter> what) 1 b = Some b1" "activated E e (ev_events (evt b e) \<inter> what) b b1" by blast
  have "alive E b b1"
    by (rule keeps_alive [OF _ keeps_active [OF b1(1)] Cons.prems(2)]) (use b1(2) in \<open>simp add: activated_def\<close>)
  then obtain b2 where b2: "(if ev_events (evt b e) \<inter> what \<noteq> {} then event_active_nolock en e (ev_events (evt b e) \<inter> what) 1 b
      else Some b) = Some b2" "alive E b b2"
    using b1(1) Cons.prems(1,2) by (cases "ev_events (evt b e) \<inter> what = {}") (simp_all add: alive_def)
  from Cons.IH [OF aliveD [OF b2(2)]] Cons.prems(3) obtain b3 where
    "evmap_active_all en what es b2 = Some b3" "alive E b2 b3" by auto
  then show ?case using b2 alive_trans [OF b2(2)] by auto
qed

lemma activate_ready_alive:
  assumes "base_ok E b" and "well_timed b" and "known b rs"
  shows "\<exists>b'. activate_ready en rs b = Some b' \<and> alive E b b'"
  using assms
proof (induction rs arbitrary: b)
  case Nil
  then show ?case by (simp add: alive_def)
next
  case (Cons r rs)
  then obtain c where fd: "0 \<le> fst r" and c: "io b (fst r) = Some c" by (auto simp: known_def)
  have "io_at b (fst r) (Some c)" using base_okD(2) [OF Cons.prems(1)] fd c [symmetric] by (simp add: io_ok_def)
  moreover have "counted E b" using base_okD(1) [OF Cons.prems(1)] by (simp add: queues_ok_def)
  ultimately have "set (io_events c) \<subseteq> E" by (auto simp: on_fd_def counted_def QUEUES_def)
  from active_all_alive [OF Cons.prems(1,2) this, of en "snd r"] c obtain b1 where
    b1: "evmap_io_active en (fst r) (snd r) b = Some b1" "alive E b b1" by (auto simp: evmap_io_active_def)
  then have "dom (io b) \<subseteq> dom (io b1)" by (simp add: alive_def)
  then have "known b1 rs" using Cons.prems(3) unfolding known_def by (meson list.set_intros(2) subsetD)
  from Cons.IH [OF aliveD [OF b1(2)] this] obtain b2 where "activate_ready en rs b1 = Some b2" "alive E b1 b2" by blast
  then show ?case using b1 alive_trans [OF b1(2)] by auto
qed

lemma timeout_process_alive:
  assumes "base_ok E b" and "well_timed b" and "dels_ok en"
  shows "\<exists>b'. timeout_process en b = Some b' \<and> alive E b b'"
proof -
  from timeout_process_expires [OF assms(1,3)] obtain es b' where
    *: "timeout_process en b = Some b'" "expired E (gettime b) es b b'" by blast
  have "alive E b b'"
    by (rule keeps_alive [OF _ keeps_timeout_process [OF *(1)] assms(2)]) (use *(2) in \<open>simp add: expired_def\<close>)
  with *(1) show ?thesis by blast
qed

text \<open>The rounds.\<close>

definition idle :: "event_base \<Rightarrow> bool" where
  \<comment> \<open>no event but internal ones is in a queue\<close>
  "idle b \<longleftrightarrow> (\<forall>e. EVLIST_INTERNAL \<notin> flags b e \<longrightarrow> flags b e \<inter> QUEUES = {})"

lemma idle_count:
  assumes "base_ok E b" and "\<not> event_haveevents b"
  shows "idle b"
proof -
  have fin: "finite E" and out: "\<forall>e. flags b e \<inter> QUEUES \<noteq> {} \<longrightarrow> e \<in> E" and n: "event_count b = (\<Sum>e\<in>E. weight (flags b e))"
    using base_okD(1) [OF assms(1)] by (simp_all add: queues_ok_def counted_def)
  have w: "0 \<le> weight fs" for fs by (simp add: weight_def)
  then have "(\<Sum>e\<in>E. weight (flags b e)) = 0" using assms(2) n by (simp add: event_haveevents_def sum_nonneg order_antisym)
  with fin w have "\<forall>e \<in> E. weight (flags b e) = 0" by (simp add: sum_nonneg_eq_0_iff)
  moreover have "weight fs = 0 \<longleftrightarrow> EVLIST_INTERNAL \<in> fs \<or> fs \<inter> QUEUES = {}" for fs by (simp add: weight_def QUEUES_def)
  ultimately show ?thesis using out unfolding idle_def by blast
qed

definition may_return :: "bool \<Rightarrow> bool \<Rightarrow> bool \<Rightarrow> int \<Rightarrow> event_base \<Rightarrow> bool" where
  \<comment> \<open>what the result of the loop says; \<open>failed\<close>: a dispatch has failed\<close>
  "may_return once nonblock failed r b \<longleftrightarrow>
       r = 0 \<and> (event_gotterm b \<or> event_break b \<or> once \<or> nonblock)
     \<or> r = 1 \<and> idle b \<and> event_count_active b = 0
     \<or> r = -1 \<and> failed"

lemma loop_head_ok:
  assumes "base_ok E b" and "well_timed b"
  shows "(\<exists>r b'. loop_head en nonblock b = Some (Inl (r, b')) \<and> alive E b b' \<and> may_return once nonblock failed r b')
    \<or> (\<exists>b'. loop_head en nonblock b = Some (Inr b') \<and> alive E b b')"
proof -
  define b1 where "b1 = b\<lparr>event_continue := False\<rparr>"
  have s1: "steady E b b1" unfolding b1_def by (rule steady_fields(5) [OF assms])
  show ?thesis
  proof (cases "event_gotterm b1 \<or> event_break b1")
    case True
    then have "loop_head en nonblock b = Some (Inl (0, b1))" by (auto simp: loop_head_def b1_def)
    with True steady_alive [OF s1] show ?thesis by (auto simp: may_return_def)
  next
    case False
    define b2 where "b2 = timeout_correct en b1"
    have s2: "steady E b b2" unfolding b2_def by (rule steady_trans [OF s1 timeout_correct_steady(1) [OF steadyD [OF s1]]])
    obtain tv where tv: "(if event_count_active b2 = 0 \<and> \<not> nonblock then timeout_next b2 else Some (Some (0, 0))) = Some tv"
      using timeout_next_ok [OF steadyD [OF s2]] by (cases "event_count_active b2 = 0 \<and> \<not> nonblock") auto
    let ?w = "b2\<lparr>event_tv := gettime b2, waited := waited b2 @ [tv]\<rparr>"
    have step: "loop_head en nonblock b = (if \<not> event_haveevents b2 \<and> event_count_active b2 = 0 then Some (Inl (1, b2))
        else Some (Inr (clear_time_cache ?w)))"
      unfolding loop_head_def Let_def b1_def [symmetric] b2_def [symmetric] tv if_not_P [OF False] by simp
    show ?thesis
    proof (cases "\<not> event_haveevents b2 \<and> event_count_active b2 = 0")
      case True
      then have "idle b2" using idle_count [OF steadyD(1) [OF s2]] by simp
      with True step steady_alive [OF s2] show ?thesis by (auto simp: may_return_def)
    next
      case False
      note t = well_timedD [OF steadyD(2) [OF s2]]
      have s3: "steady E b2 (b2\<lparr>event_tv := gettime b2\<rparr>)" by (rule steady_fields(8) [OF steadyD [OF s2] t(6)])
      have s4: "steady E b2 ?w" by (rule steady_trans [OF s3]) (use steady_fields(10) [OF steadyD [OF s3]] in simp)
      have "usec_ok (0, snd (tv_cache ?w))" using t(3) by (simp add: usec_ok_def)
      then have "steady E ?w (clear_time_cache ?w)" unfolding clear_time_cache_def by (rule steady_fields(9) [OF steadyD [OF s4]])
      with s2 s4 have "steady E b (clear_time_cache ?w)" using steady_trans by blast
      moreover have "loop_head en nonblock b = Some (Inr (clear_time_cache ?w))" unfolding step if_not_P [OF False] ..
      ultimately show ?thesis using steady_alive by blast
    qed
  qed
qed

definition script_ok :: "int set \<Rightarrow> reply list \<Rightarrow> bool" where
  \<comment> \<open>the kernel reports descriptors of \<open>F\<close> only, and sane times\<close>
  "script_ok F script \<longleftrightarrow> (\<forall>t rs. Ready t rs \<in> set script \<longrightarrow> usec_ok t \<and> (\<forall>r \<in> set rs. 0 \<le> fst r \<and> fst r \<in> F))"

definition round_ok :: "nat set \<Rightarrow> event_base \<Rightarrow> bool \<Rightarrow> bool \<Rightarrow> bool \<Rightarrow> (ending \<times> event_base) outcome \<Rightarrow> bool" where
  "round_ok E b once nonblock failed out \<longleftrightarrow>
     (\<exists>ending b'. out = Done (ending, b') \<and> alive E b b' \<and> (\<forall>r. ending = Returned r \<longrightarrow> may_return once nonblock failed r b'))"

lemma round_ok_later:
  assumes "round_ok E b1 once nonblock failed out" and "alive E b b1" and "failed \<longrightarrow> failed'"
  shows "round_ok E b once nonblock failed' out"
proof -
  from assms(1) obtain ending b' where *: "out = Done (ending, b')" "alive E b1 b'"
    "\<forall>r. ending = Returned r \<longrightarrow> may_return once nonblock failed r b'" unfolding round_ok_def by blast
  have "\<forall>r. ending = Returned r \<longrightarrow> may_return once nonblock failed' r b'" using *(3) assms(3) unfolding may_return_def by blast
  with *(1) alive_trans [OF assms(2) *(2)] show ?thesis unfolding round_ok_def by blast
qed

lemma woken_alive:
  assumes "base_ok E b" and "well_timed b" and "usec_ok t"
  shows "alive E b (b\<lparr>clock := t\<rparr>)" and "alive E b (update_time_cache b)"
proof -
  show "alive E b (b\<lparr>clock := t\<rparr>)" by (rule steady_alive [OF steady_fields(7) [OF assms]])
  have "usec_ok (0, snd (tv_cache b))" using well_timedD(3) [OF assms(2)] by (simp add: usec_ok_def)
  from steady_fields(9) [OF assms(1,2) this] have s: "steady E b (clear_time_cache b)" by (simp add: clear_time_cache_def)
  from steady_trans [OF s steady_fields(9) [OF steadyD [OF s] well_timedD(6) [OF steadyD(2) [OF s]]]]
  show "alive E b (update_time_cache b)" by (simp add: update_time_cache_def Let_def steady_alive)
qed

lemma process_active_alive:
  assumes "base_ok E b" and "well_timed b" and "handlers_ok E h" and "dels_ok en"
  shows "\<exists>n b'. event_process_active h en (Suc (card E)) b = Done (n, b') \<and> alive E b b'"
  using process_queues_steady [OF assms(1,2) _ assms(3,4), of "[0..<length (activequeues b)]"] steady_alive
  unfolding event_process_active_def by fastforce


lemma loop_rounds_ok:
  assumes "base_ok E b" and "well_timed b" and "script_ok F script" and "F \<subseteq> dom (io b)" and "handlers_ok E h" and "dels_ok en"
  shows "round_ok E b once nonblock (Dispatch_failed \<in> set script) (loop_rounds h en (Suc (card E)) once nonblock script b)"
  using assms(1-4)
proof (induction script arbitrary: b)
  case Nil
  from loop_head_ok [OF Nil(1,2), of en nonblock once False] show ?case by (auto simp: round_ok_def)
next
  case (Cons reply rs)
  let ?loop = "loop_rounds h en (Suc (card E)) once nonblock"
  let ?failed = "Dispatch_failed \<in> set (reply # rs)"
  have rs: "script_ok F rs" using Cons.prems(3) by (simp add: script_ok_def)
  have again: "round_ok E b once nonblock ?failed (?loop rs b1)" if "alive E b b1" for b1
  proof -
    have "F \<subseteq> dom (io b1)" using that Cons.prems(4) by (auto simp: alive_def)
    from round_ok_later [OF Cons.IH [OF aliveD [OF that] rs this] that] show ?thesis by simp
  qed
  from loop_head_ok [OF Cons.prems(1,2), of en nonblock once ?failed] show ?case
  proof (elim disjE exE conjE)
    fix r b' assume "loop_head en nonblock b = Some (Inl (r, b'))" "alive E b b'" "may_return once nonblock ?failed r b'"
    then show ?thesis by (simp add: round_ok_def)
  next
    fix b0 assume head: "loop_head en nonblock b = Some (Inr b0)" and b0: "alive E b b0"
    show ?thesis
    proof (cases reply)
      case Dispatch_failed
      then show ?thesis using head b0 by (simp add: round_ok_def may_return_def)
    next
      case (Ready t ready)
      then have t: "usec_ok t" and ready: "\<forall>r \<in> set ready. 0 \<le> fst r \<and> fst r \<in> F" using Cons.prems(3)
        by (simp_all add: script_ok_def del: split_paired_All)
      note b1 = alive_trans [OF b0 woken_alive(1) [OF aliveD [OF b0] t]]
      have "known (b0\<lparr>clock := t\<rparr>) ready" using ready Cons.prems(4) b1 unfolding known_def alive_def by blast
      from activate_ready_alive [OF aliveD [OF b1] this] obtain b2 where
        r2: "activate_ready en ready (b0\<lparr>clock := t\<rparr>) = Some b2" and "alive E (b0\<lparr>clock := t\<rparr>) b2" by blast
      note b2 = alive_trans [OF b1 this(2)]
      note b3 = alive_trans [OF b2 woken_alive(2) [OF aliveD [OF b2] t]]
      from timeout_process_alive [OF aliveD [OF b3] assms(6)] obtain b4 where
        r4: "timeout_process en (update_time_cache b2) = Some b4" and "alive E (update_time_cache b2) b4" by blast
      note b4 = alive_trans [OF b3 this(2)]
      from process_active_alive [OF aliveD [OF b4] assms(5,6)] obtain n b5 where
        r5: "event_process_active h en (Suc (card E)) b4 = Done (n, b5)" and "alive E b4 b5" by blast
      note b5 = alive_trans [OF b4 this(2)]
      have step: "?loop (reply # rs) b =
          (if event_count_active b4 \<noteq> 0
           then if once \<and> event_count_active b5 = 0 \<and> n \<noteq> 0 then Done (Returned 0, b5) else ?loop rs b5
           else if nonblock then Done (Returned 0, b4) else ?loop rs b4)"
        using head Ready r2 r4 r5 by simp
      have over: "once \<or> nonblock \<Longrightarrow> round_ok E b once nonblock ?failed (Done (Returned 0, b'))" if "alive E b b'" for b'
        using that by (auto simp: round_ok_def may_return_def)
      show ?thesis unfolding step using again [OF b5] again [OF b4] over [OF b4] over [OF b5]
        by (simp only: split: if_split) blast
    qed
  qed
qed

section \<open>Theorems\<close>


text \<open>C2: in a sound base without signal events, and with a backend that never fails to stop watching,
  \<^verbatim>\<open>timeout_process\<close> takes out of the heap exactly the events whose time has come, and appends them to the active queues of
  their priorities in the order of their times, with \<^verbatim>\<open>EV_TIMEOUT\<close> as the only result, even of those that were active for
  another reason, which are moved; no assertion fails.\<close>

theorem timeout_process_in_order:
  assumes "base_ok E b" and "dels_ok en"
  shows "\<exists>es b'. timeout_process en b = Some b' \<and> expired E (gettime b) es b b'"
  by (rule timeout_process_expires [OF assms])

text \<open>C37: \<^verbatim>\<open>timeout_correct\<close>, when the time runs backwards, moves every timeout and leaves a heap, as its comment
  says without a reason, and the queues as they are: in a sound base without signal events whose microseconds are in range.\<close>

theorem timeout_correct_keeps_heap:
  assumes "base_ok E b" and "well_timed b"
  shows "base_ok E (timeout_correct en b) \<and> well_timed (timeout_correct en b)
    \<and> activequeues (timeout_correct en b) = activequeues b \<and> evt (timeout_correct en b) = evt b
    \<and> (\<not> monotonic en \<and> gettime b < event_tv b \<longrightarrow> (\<forall>e. timeout_of (timeout_correct en b) e =
         (if EVLIST_TIMEOUT \<in> flags b e then evutil_timersub (timeout_of b e) (evutil_timersub (event_tv b) (gettime b)) else timeout_of b e)))"
proof -
  have ok: "heap_ok (timeheap b)" and m: "\<forall>e. e \<in> set (slots (timeheap b)) \<longleftrightarrow> EVLIST_TIMEOUT \<in> flags b e"
    using base_okD(1) [OF assms(1)] by (simp_all add: queues_ok_def timeouts_ok_def)
  have "timeout_of (x\<lparr>event_tv := t\<rparr>) = timeout_of x" for x t by (simp add: timeout_of_def fun_eq_iff)
  then have "\<not> monotonic en \<and> gettime b < event_tv b \<longrightarrow> (\<forall>e. timeout_of (timeout_correct en b) e =
         (if EVLIST_TIMEOUT \<in> flags b e then evutil_timersub (timeout_of b e) (evutil_timersub (event_tv b) (gettime b)) else timeout_of b e))"
    using m by (auto simp: timeout_correct_def Let_def timercmp_gt shift_all_timeout [OF heap_okD(3) [OF ok]])
  with timeout_correct_steady [OF assms] show ?thesis by (simp add: steady_def)
qed

definition time_fits :: "timeval \<Rightarrow> bool" where
  \<comment> \<open>the sum of two such times is within a \<^verbatim>\<open>time_t\<close> of 64 bits\<close>
  "time_fits t \<longleftrightarrow> usec_ok t \<and> 0 \<le> fst t \<and> fst t < 2 ^ 62"

lemma time_fits_add: "time_fits t \<Longrightarrow> time_fits u \<Longrightarrow> usec_ok (evutil_timeradd t u) \<and> fst (evutil_timeradd t u) < 2 ^ 63"
  by (auto simp: time_fits_def usec_ok_def evutil_timeradd_def Let_def)

text \<open>C34: \<^verbatim>\<open>event_add\<close> of an event of a sound base without signal events keeps the base sound, whichever of the allocations and of
  the backend's additions fail. When it returns 0, an event that was not active is watched, and one with a timeout is in
  the heap, due that much after now (\<^verbatim>\<open>event_add_internal\<close> with \<open>absolute\<close>: then), in a time that fits a \<^verbatim>\<open>time_t\<close>, for
  times and timeouts below 2^62 seconds.\<close>

theorem event_add_registers:
  assumes "base_ok E b" and "e \<in> E" and "time_fits (gettime b)" and "\<And>t. tv = Some t \<Longrightarrow> time_fits t"
  shows "\<exists>r b'. event_add_internal en e tv absolute b = Some (r, b') \<and> (r = 0 \<or> r = -1) \<and> base_ok E b'
    \<and> (\<forall>x. x \<noteq> e \<longrightarrow> evt b' x = evt b x \<and> timeout_of b' x = timeout_of b x)
    \<and> (r = 0 \<longrightarrow> (ev_events (evt b e) \<inter> EV_IO \<noteq> {} \<longrightarrow> EVLIST_ACTIVE \<notin> flags b e \<longrightarrow> EVLIST_INSERTED \<in> flags b' e)
         \<and> (\<forall>t. tv = Some t \<longrightarrow> EVLIST_TIMEOUT \<in> flags b' e
              \<and> timeout_of b' e = (if absolute then t else evutil_timeradd (gettime b) t)
              \<and> usec_ok (timeout_of b' e) \<and> fst (timeout_of b' e) < 2 ^ 63))"
proof -
  obtain r b' where *: "event_add_internal en e tv absolute b = Some (r, b')" "r = 0 \<or> r = -1" "touched E e b b'"
    "r = 0 \<longrightarrow> (ev_events (evt b e) \<inter> EV_IO \<noteq> {} \<longrightarrow> EVLIST_ACTIVE \<notin> flags b e \<longrightarrow> EVLIST_INSERTED \<in> flags b' e)
         \<and> (\<forall>t. tv = Some t \<longrightarrow> EVLIST_TIMEOUT \<in> flags b' e
              \<and> timeout_of b' e = (if absolute then t else evutil_timeradd (gettime b) t))"
    using event_add_internal_ok [OF assms(1,2), of en tv absolute] by blast
  have "usec_ok (if absolute then t else evutil_timeradd (gettime b) t) \<and> fst (if absolute then t else evutil_timeradd (gettime b) t) < 2 ^ 63"
    if "tv = Some t" for t
    using time_fits_add [OF assms(3) assms(4) [OF that]] assms(4) [OF that] by (simp add: time_fits_def)
  with * show ?thesis unfolding touched_def by (intro exI [of _ r] exI [of _ b']) (simp del: split_paired_All)
qed

text \<open>C35: \<^verbatim>\<open>event_del\<close> of an event of a sound base without signal events: the event is in no queue and pends for nothing, and
  the other events are as before. Either it returns 0 and the base is sound; or it returns -1, the backend having failed
  to stop watching, and the event that is deleted is still in the list of its descriptor, and the base is no longer sound.\<close>

theorem event_del_forgets:
  assumes "base_ok E b" and "e \<in> E"
  shows "\<exists>r b'. event_del_internal en e b = Some (r, b') \<and> event_pending e what b' = {}
    \<and> (\<forall>x. x \<noteq> e \<longrightarrow> evt b' x = evt b x) \<and> activequeues b' = map (filter (\<lambda>x. x \<noteq> e)) (activequeues b)
    \<and> (if r = 0 then base_ok E b'
       else r = -1 \<and> \<not> dels_ok en \<and> \<not> base_ok E b' \<and> (\<exists>c. io b' (ev_fd (evt b e)) = Some c \<and> e \<in> set (io_events c)))"
proof -
  from event_del_internal_any [OF assms, of en] obtain r b' where *: "event_del_internal en e b = Some (r, b')"
    "r = 0 \<and> deleted E e b b' \<or> r = -1 \<and> \<not> dels_ok en \<and> left_behind E e b b'" by blast
  then have "flags b' e = flags b e - QUEUES" by (auto simp: deleted_def left_behind_def)
  then have "event_pending e what b' = {}" by (simp add: event_pending_def Let_def QUEUES_def)
  with * left_behind_unsound [of E e b b'] show ?thesis by (auto simp: deleted_def left_behind_def without_def)
qed

section \<open>Inputs\<close>

definition blank :: event where
  "blank = \<lparr>ev_fd = -1, ev_events = {}, ev_res = {}, ev_flags = {}, ev_pri = 0, ev_closure = EV_CLOSURE_NONE, ev_io_timeout = (0, 0),
     ev_ncalls = 0, ev_pncalls = None\<rparr>"

definition new_base :: "timeval \<Rightarrow> event_base" where
  \<comment> \<open>one priority\<close>
  "new_base now = \<lparr>evt = \<lambda>_. blank, timeheap = min_heap_ctor (\<lambda>_. \<lparr>ev_timeout = (0, 0), min_heap_idx = -1\<rparr>), eventqueue = [],
     activequeues = [[]], event_count = 0, event_count_active = 0, io = \<lambda>_. None, sigmap = \<lambda>_. None,
     event_running_priority = -1, event_gotterm = False, event_break = False, event_continue = False, running_loop = False,
     tv_cache = (0, 0), event_tv = (0, 0), clock = now, frames = 0, frame = None, called = [], waited = []\<rparr>"

definition obliging :: env where
  "obliging = \<lparr>monotonic = True, room = True, slot_room = \<lambda>_. True, backend_add = \<lambda>_ _ _. True, backend_del = \<lambda>_ _ _. True\<rparr>"

definition reader :: "what set \<Rightarrow> event_base" where
  \<comment> \<open>a base with one event, on descriptor 3\<close>
  "reader what = snd (event_assign 1 3 what (new_base (100, 0)))"

definition added :: "env \<Rightarrow> timeval option \<Rightarrow> event_base \<Rightarrow> event_base" where
  "added en tv b = (case event_add_internal en 1 tv False b of Some (r, b') \<Rightarrow> b' | None \<Rightarrow> b)"

lemma reader_ok:
  assumes "EV_SIGNAL \<notin> what"
  shows "base_ok {1} (reader what)" and "well_timed (reader what)"
proof -
  have "heap_ok (timeheap (reader what))"
    using assms by (simp add: reader_def event_assign_def Let_def new_base_def min_heap_elem_init_def set_idx_def heap_ok_def slots_def
        holds_def placed_def heap_ordered_def min_heap_ctor_def)
  then show "base_ok {1} (reader what)"
    using assms by (simp add: reader_def event_assign_def Let_def new_base_def blank_def base_ok_def queues_ok_def counted_def timeouts_ok_def
        inserted_ok_def active_ok_def io_ok_def on_fd_def no_signals_def weight_def active_bit_def QUEUES_def
        min_heap_elem_init_def set_idx_def slots_def min_heap_ctor_def)
  show "well_timed (reader what)"
    using assms by (simp add: reader_def event_assign_def Let_def new_base_def blank_def well_timed_def times_def timed_def timeout_of_def
        usec_ok_def min_heap_elem_init_def set_idx_def min_heap_ctor_def)
qed

lemma added_ok:
  assumes "base_ok {1} b" and "well_timed b" and "\<And>t. tv = Some t \<Longrightarrow> usec_ok t"
  shows "base_ok {1} (added en tv b)" and "well_timed (added en tv b)"
proof -
  have "(1 :: nat) \<in> {1}" by simp
  from add_steady [OF assms(1,2) this, of tv en False] assms(3) obtain r b' where
    "event_add_internal en 1 tv False b = Some (r, b')" "steady {1} b b'" by blast
  then show "base_ok {1} (added en tv b)" and "well_timed (added en tv b)" by (simp_all add: added_def steady_def)
qed

lemmas queue_code = event_queue_insert_def event_queue_remove_def upd_def internal_def Let_def

lemma shift_single: "min_heap_shift_up s 0 e = put_slot 0 e s" "heap_n s < 2 \<Longrightarrow> min_heap_shift_down s 0 e = put_slot 0 e s"
  by (subst min_heap_shift_up.simps, simp) (subst min_heap_shift_down.simps, simp)

lemmas heap_code = shift_single min_heap_reserve_def grown_def min_heap_push_def min_heap_erase_def put_slot_def slot_def set_idx_def
  min_heap_size_def min_heap_elem_init_def min_heap_ctor_def min_heap_top_def min_heap_empty_def timercmp_gt_def

lemmas add_code = event_add_internal_def watch_def schedule_def set_timeout_def timeout_of_def evutil_timeradd_def gettime_def
  evmap_io_add_def evmap_signal_add_def new_io_def EV_IO_def

lemmas event_code = event_del_internal_def event_active_nolock_def evmap_io_del_def evmap_signal_del_def evmap_io_active_def
  evmap_signal_active_def abort_loop_def

lemmas input_code = added_def reader_def new_base_def blank_def event_assign_def obliging_def

lemmas loop_code = event_base_loop_def loop_head_def timeout_correct_def timeout_next_def event_haveevents_def clear_time_cache_def
  update_time_cache_def timeout_process_def event_process_active_def event_signal_closure_def event_persist_closure_def
  run_callback_def do_api_def evutil_timersub_def

lemma obliging_dels: "dels_ok obliging"
  by (simp add: dels_ok_def obliging_def)

lemma demo_ok:
  "base_ok {1} (added obliging (Some (9, 0)) (reader {EV_READ}))" "well_timed (added obliging (Some (9, 0)) (reader {EV_READ}))"
  "io (added obliging (Some (9, 0)) (reader {EV_READ})) 3 \<noteq> None" "evt (added obliging (Some (9, 0)) (reader {EV_READ})) 1 \<noteq> blank"
proof -
  have r: "base_ok {1} (reader {EV_READ})" "well_timed (reader {EV_READ})" by (rule reader_ok; simp)+
  have t: "\<And>t. Some (9, 0) = Some t \<Longrightarrow> usec_ok t" by (simp add: usec_ok_def)
  show "base_ok {1} (added obliging (Some (9, 0)) (reader {EV_READ}))" by (rule added_ok(1) [OF r t])
  show "well_timed (added obliging (Some (9, 0)) (reader {EV_READ}))" by (rule added_ok(2) [OF r t])
qed (simp_all add: input_code queue_code heap_code add_code)


theorem timeout_process_in_order_witness:
  "\<exists>es b'. timeout_process obliging (added obliging (Some (9, 0)) (reader {EV_READ})) = Some b'
     \<and> expired {1} (gettime (added obliging (Some (9, 0)) (reader {EV_READ}))) es (added obliging (Some (9, 0)) (reader {EV_READ})) b'"
  by (rule timeout_process_in_order [OF demo_ok(1) obliging_dels])

theorem timeout_correct_keeps_heap_witness:
  "base_ok {1} (timeout_correct (obliging\<lparr>monotonic := False\<rparr>) (added obliging (Some (9, 0)) (reader {EV_READ})))"
  using timeout_correct_keeps_heap [OF demo_ok(1,2), of "obliging\<lparr>monotonic := False\<rparr>"] by blast

theorem event_add_registers_witness:
  "\<exists>r b'. event_add_internal obliging 1 (Some (9, 0)) False (reader {EV_READ}) = Some (r, b') \<and> base_ok {1} b'
     \<and> (r = 0 \<longrightarrow> timeout_of b' 1 = (109, 0))"
proof -
  have b: "base_ok {1} (reader {EV_READ})" by (rule reader_ok) simp
  have now: "gettime (reader {EV_READ}) = (100, 0)"
    by (simp add: input_code gettime_def upd_def Let_def)
  then have fits: "time_fits (gettime (reader {EV_READ}))" "\<And>t. Some (9, 0) = Some t \<Longrightarrow> time_fits t"
    by (simp_all add: time_fits_def usec_ok_def)
  have "evutil_timeradd (100, 0) (9, 0) = (109, 0)" by (simp add: evutil_timeradd_def)
  with event_add_registers [where tv = "Some (9, 0)" and e = 1 and en = obliging and absolute = False, OF b _ fits] now show ?thesis by auto
qed

theorem event_del_forgets_witness:
  "\<exists>r b'. event_del_internal obliging 1 (added obliging (Some (9, 0)) (reader {EV_READ})) = Some (r, b')
     \<and> event_pending 1 {EV_READ} b' = {} \<and> base_ok {1} b'"
  using event_del_forgets [OF demo_ok(1), of 1 obliging "{EV_READ}"] obliging_dels by (auto split: if_splits)

section \<open>Signal events\<close>

text \<open>C36: A signal event that is deleted by its callback, while more than one call is due (and the number of calls is a \<^verbatim>\<open>short\<close>), keeps a pointer to a variable of
  \<^verbatim>\<open>event_signal_closure\<close>, which has returned by then; the next \<^verbatim>\<open>event_del\<close> of the event writes through it. This is so in any
  base for a signal event whose callback does no more than that, when the event is at most registered, the backend
  deletes, and the loop is not being broken.\<close>

theorem deleted_signal_event_dangles:
  assumes "EV_SIGNAL \<in> ev_events (evt b e)" and "ev_events (evt b e) \<inter> EV_IO = {}"
    and "ev_ncalls (evt b e) \<in> {2..32767}" and "EVLIST_TIMEOUT \<notin> flags b e" and "EVLIST_ACTIVE \<notin> flags b e"
    and "EVLIST_INSERTED \<in> flags b e \<Longrightarrow> \<exists>es. sigmap b (ev_fd (evt b e)) = Some es \<and> es \<noteq> []"
    and "dels_ok en" and "\<not> event_break b" and "\<And>b'. h b' e (ev_res (evt b e)) = [Event_del e]"
  shows "\<exists>b'. event_signal_closure h en e b = Some b' \<and> called b' = called b @ [(e, ev_res (evt b e))]
    \<and> event_del_internal en e b' = None"
proof -
  obtain m where m: "ev_ncalls (evt b e) = Suc (Suc m)" using assms(3) by (auto simp: numeral_2_eq_2 Suc_le_eq gr0_conv_Suc dest!: less_imp_Suc_add)
  show ?thesis
  proof (cases "EVLIST_INSERTED \<in> flags b e")
    case False
    then show ?thesis using assms(1,2,4,5,8,9) m
      by (simp add: event_signal_closure_def run_callback_def do_api_def event_del_internal_def abort_loop_def Let_def)
  next
    case True
    with assms(6) obtain es where "sigmap b (ev_fd (evt b e)) = Some es" "es \<noteq> []" by blast
    with True show ?thesis using assms(1,2,4,5,7,8,9) m
      by (simp add: event_signal_closure_def run_callback_def do_api_def event_del_internal_def abort_loop_def Let_def
          event_queue_remove_def evmap_signal_del_def dels_ok_def internal_def)
  qed
qed

definition waiting_signal :: event_base where
  \<comment> \<open>a persistent signal event, registered, with two calls due\<close>
  "waiting_signal = upd 1 (\<lambda>ev. ev\<lparr>ev_ncalls := 2, ev_res := {EV_SIGNAL}\<rparr>) (added obliging None (reader {EV_SIGNAL, EV_PERSIST}))"

theorem deleted_signal_event_dangles_witness:
  "\<exists>b'. event_signal_closure (\<lambda>_ e _. [Event_del e]) obliging 1 waiting_signal = Some b' \<and> called b' = [(1, {EV_SIGNAL})]
    \<and> event_del_internal obliging 1 b' = None"
proof -
  have "ev_events (evt waiting_signal 1) = {EV_SIGNAL, EV_PERSIST}" "ev_ncalls (evt waiting_signal 1) = 2"
    "flags waiting_signal 1 = {EVLIST_INIT, EVLIST_INSERTED}" "ev_res (evt waiting_signal 1) = {EV_SIGNAL}"
    "sigmap waiting_signal (ev_fd (evt waiting_signal 1)) = Some [1]" "\<not> event_break waiting_signal" "called waiting_signal = []"
    by (auto simp: waiting_signal_def input_code queue_code heap_code add_code)
  then show ?thesis
    using deleted_signal_event_dangles [of waiting_signal 1 obliging "\<lambda>_ e _. [Event_del e]"] obliging_dels
    by (simp add: EV_IO_def)
qed

end
