(* ===== verification/Spec2Isabelle.thy ===== *)
theory Spec2Isabelle
  imports HttpServer EpollServers SelectServer PollServer EpollReactor ForkServer ThreadServer ThreadPool
    SocketDemos LibeventServer BufferEvents ThreadSync RwLock SigChild Pipes
    Files Basics Procs SigSet MinHeap Tagging EvBuffer EventLoop
begin

text \<open>
  A verification development for the network programs of \<^verbatim>\<open>linux-C-study\<close>: an HTTP server, echo
  and upper-casing servers over \<^verbatim>\<open>select\<close>, \<^verbatim>\<open>poll\<close> and \<^verbatim>\<open>epoll\<close>, a callback reactor, a process and a thread
  per connection, a set of socket wrappers, a thread pool, and parts of the libevent two of the servers use. The other
  programs share nothing at run time; they share idioms, and the development shares the theories of those.

  \<^bold>\<open>How a program is modelled.\<close> A C function is a state-passing function of type \<open>'a prog\<close> (theory Posix):
  it takes the world, which holds \<^verbatim>\<open>errno\<close>, the trace of everything done so far and the script of the
  replies the kernel will give, and yields a value or stops. It stops by \<^verbatim>\<open>exit\<close>, by blocking in a
  call the script does not answer, by undefined behaviour (\<open>SFault\<close>: an access outside an array, a
  string without terminator, an uninitialised value, a null or a foreign pointer), or by looping
  without ever asking the kernel again (\<open>SDiverge\<close>). A statement about all scripts is a statement
  about all behaviours of the kernel and of the peers. A reply the call could not return, such as
  more bytes than were asked for, blocks the run: that is how the documented behaviour of a system
  call enters, in the \<open>dec_...\<close> functions of Posix and of the servers.

  \<^bold>\<open>Loops.\<close> \<open>while(1)\<close> is \<open>forever\<close>: it runs its body with as many rounds as there are replies left plus
  one. Every body that goes round consumes a reply (\<open>eats_round\<close>, proved for each), so the bound is
  never met except by a loop that does not ask the kernel, for which the result is \<open>SDiverge\<close>; the
  theorems exclude it. Bounded C loops are recursions on lists or numbers.

  \<^bold>\<open>Theories.\<close>
  \<^item> Prelude: characters, buffers, C strings, number formatting, byte order, \<open>reach\<close> and the locale
    \<open>invariant_system\<close> of invariants of transition systems.
  \<^item> Posix, Logic: the program type, the calls, and a weakest precondition calculus over it: \<open>wp\<close> with its
    rules, the loop rule, and predicates on the trace (\<open>safe_trace\<close>: an automaton accepts the run).
  \<^item> UrlCodec, LineReader, HttpServer: \<^verbatim>\<open>httpService/http_service.c\<close>. UrlCodec has \<^verbatim>\<open>strdecode\<close> on the array it
    overwrites, \<^verbatim>\<open>strencode\<close> and \<^verbatim>\<open>get_mime_type\<close>; LineReader the buffered \<^verbatim>\<open>char_read\<close> and \<^verbatim>\<open>readLine\<close>, and
    \<^verbatim>\<open>Readline\<close> of \<^verbatim>\<open>wrap.c\<close>, over a character source (locale \<open>char_source\<close>); HttpServer the responses, the request
    handler and the epoll loop.
  \<^item> Inet, Wrap: address conversion and \<^verbatim>\<open>linux-network/wrap.c\<close>.
  \<^item> Sockets, Slots: the prologue and the client table the servers have in common (locale \<open>slot_table\<close>).
  \<^item> EpollServers: \<^verbatim>\<open>epoll.c\<close>, \<^verbatim>\<open>epoll-lt.c\<close>, \<^verbatim>\<open>epoll-et.c\<close>, \<^verbatim>\<open>epollEL-loop.c\<close>. SelectServer, PollServer: \<^verbatim>\<open>select.c\<close>,
    \<^verbatim>\<open>poll.c\<close>. EpollReactor: \<^verbatim>\<open>epoll-advance.c\<close> and \<^verbatim>\<open>epoll-advance1.c\<close>. ForkServer: \<^verbatim>\<open>mutl-process.c\<close>.
  \<^item> ThreadServer: \<^verbatim>\<open>mutl-thread.c\<close>; its table is the state of a transition system whose actions are the
    accesses of \<^verbatim>\<open>main\<close> and the handlers to it.
  \<^item> ThreadPool: \<^verbatim>\<open>linux-UDPandThreadPool/threadpool.c\<close>; the ring buffer refines a bounded queue (locale
    \<open>fifo\<close>), the threads are a transition system with explicit program points, mutex and condition.
  \<^item> SocketDemos: \<^verbatim>\<open>socketCon.c\<close>, \<^verbatim>\<open>socketService.c\<close> and the UDP and local-socket clients and services of
    \<^verbatim>\<open>linux-UDPandThreadPool\<close>. LibeventServer: \<^verbatim>\<open>libevent/serverEvent.c\<close>, over a libevent that dispatches pending
    events in an order of its own.
    BufferEvents: \<^verbatim>\<open>hellow-libevent.c\<close>, \<^verbatim>\<open>bufferevent-client.c\<close> and \<^verbatim>\<open>event.c\<close>, whose script lists what the event loop finds to do.
  \<^item> ThreadSync: \<^verbatim>\<open>thread_lock.c\<close>, \<^verbatim>\<open>thread_cond.c\<close>, \<^verbatim>\<open>thread_sem.c\<close> of \<^verbatim>\<open>linux08\<close> as transition systems; RwLock:
    \<^verbatim>\<open>thread_readLock.c\<close>. SigChild: \<^verbatim>\<open>sigchild.c\<close> and its two variants of \<^verbatim>\<open>linux07\<close>.
  \<^item> Explore, Pipes: the pipe and fifo exercises of \<^verbatim>\<open>linux06\<close>. Their processes do finitely many steps, so all
    maximal runs are computed (\<open>outcomes\<close>, with 20 steps of fuel; it yields \<open>None\<close> when they are not enough)
    and proved to be all there are, none as long as the fuel (locale \<open>listed_system\<close>).
  \<^item> Files: the exercises of \<^verbatim>\<open>linux03/fileDemo\<close> on descriptors and of \<^verbatim>\<open>linux06\<close> on mappings, over a table of
    descriptors, the open files they share and the disk. Basics: the first programs, directories, file types.
    Procs: \<^verbatim>\<open>linux-progress\<close>, with the status words of \<^verbatim>\<open>wait\<close>. SigSet: \<^verbatim>\<open>sigset.c\<close>, \<^verbatim>\<open>sigaction.c\<close>, \<^verbatim>\<open>alarm.c\<close>.
  \<^item> Of the vendored \<^verbatim>\<open>libevent-2.0.22-stable\<close>, MinHeap: the heap of timeouts of \<^verbatim>\<open>minheap-internal.h\<close>, whose shifts
    refine the textbook ones (locale \<open>timer_queue\<close>); Tagging: \<^verbatim>\<open>event_tagging.c\<close>; EvBuffer: the chains of \<^verbatim>\<open>buffer.c\<close>, a run
    of whose operations follows a queue of bytes (locale \<open>follows\<close>); EventBase, EventLoop: the event loop of \<^verbatim>\<open>event.c\<close> and
    \<^verbatim>\<open>evmap.c\<close> over that heap. A base of fewer than \<open>2 ^ 29\<close> events, none of them a signal event, is sound (\<open>base_ok\<close>) when flags,
    queues, counters, heap and descriptor lists agree; every operation keeps it so, but for a deletion the backend refuses, and the
    loop comes back. The heap is for fewer than \<open>2 ^ 31\<close> events, where a place fits the \<^verbatim>\<open>int\<close> it is stored in; a buffer for
    fewer than \<open>2 ^ 63\<close> bytes; seconds are unbounded. A pass over an active queue is given as fuel one more than the
    number of events, which is enough because no callback allowed here activates an event.

  \<^bold>\<open>What the theorems show.\<close> For the string and line functions: what they compute on every input, that
  they stay inside their arrays or exactly when they do not. For the servers: which bytes go to whom in
  every run, in which ways a run can end, that no server spins. For the concurrent programs:
  invariants of every interleaving, and the interleavings that go wrong. Where the code has a flaw, a
  theorem states what it does.

  \<^bold>\<open>Not modelled.\<close> The rest of the vendored libevent, and of \<^verbatim>\<open>event.c\<close> threads, common timeouts, deferred callbacks and the choice of
  a backend, whose documented part is a script of replies; the other exercises of \<^verbatim>\<open>linux07\<close> and \<^verbatim>\<open>linux08\<close>, which sleep or
  create a thread each, \<^verbatim>\<open>mmap_anony.c\<close>, \<^verbatim>\<open>mydeamon.c\<close> and the MySQL sample; time, but for \<^verbatim>\<open>time(NULL)\<close> as a reply of the kernel;
  preemption inside one action of a transition system; failure of \<^verbatim>\<open>malloc\<close> outside the heap, the buffers and the event loop, and of the thread creations of the pool; integer
  overflow of the counters of the pool, which stay below 50.
\<close>

end
